(* ===== verification/Prelude.thy ===== *)
theory Prelude
  imports Main "HOL-Library.Word" "HOL-Library.AList" "HOL-Library.Multiset"
begin

text \<open>
  Shared vocabulary of the development: the machine integers of the Rust sources, the
  association-list model of \<open>std::collections::HashMap\<close> (an unordered map whose
  iteration order is the order of the list), the interface of a keyed store that every
  component map satisfies, and the lemma collections the component proofs draw on.
\<close>

section \<open>Machine integers\<close>

type_synonym u8 = "8 word"
type_synonym u16 = "16 word"
type_synonym u32 = "32 word"
type_synonym u64 = "64 word"
type_synonym i64 = "64 word"

section \<open>Lemma collections\<close>

named_theorems store_simps \<open>what a lookup returns after a change of a map\<close>
named_theorems frame_simps \<open>fields an operation leaves alone\<close>
named_theorems ticket_simps \<open>accounting of the requests a state still owes an answer\<close>

section \<open>HashMap as an association list\<close>

type_synonym ('k, 'v) hash_map = "('k \<times> 'v) list"

abbreviation hm_get :: "('k, 'v) hash_map \<Rightarrow> 'k \<Rightarrow> 'v option" where
  "hm_get m k \<equiv> map_of m k"

abbreviation hm_insert :: "'k \<Rightarrow> 'v \<Rightarrow> ('k, 'v) hash_map \<Rightarrow> ('k, 'v) hash_map" where
  "hm_insert k v m \<equiv> AList.update k v m"

abbreviation hm_remove :: "'k \<Rightarrow> ('k, 'v) hash_map \<Rightarrow> ('k, 'v) hash_map" where
  "hm_remove k m \<equiv> AList.delete k m"

text \<open>The representation invariant: a key occurs once.\<close>

definition hm_wf :: "('k, 'v) hash_map \<Rightarrow> bool" where
  "hm_wf m \<longleftrightarrow> distinct (map fst m)"

lemma hm_wf_empty [simp]: "hm_wf []"
  by (simp add: hm_wf_def)

lemma hm_wf_insert [simp, intro]: "hm_wf m \<Longrightarrow> hm_wf (hm_insert k v m)"
  unfolding hm_wf_def by (rule distinct_update)

lemma hm_wf_remove [simp, intro]: "hm_wf m \<Longrightarrow> hm_wf (hm_remove k m)"
  unfolding hm_wf_def by (rule distinct_delete)

lemma hm_wf_Cons [simp]: "hm_wf ((k, v) # m) \<longleftrightarrow> k \<notin> fst ` set m \<and> hm_wf m"
  by (simp add: hm_wf_def)

lemma hm_get_insert [store_simps]:
  "hm_get (hm_insert k v m) j = (if j = k then Some v else hm_get m j)"
  by (simp add: update_conv)

lemma hm_get_remove [store_simps]:
  "hm_get (hm_remove k m) j = (if j = k then None else hm_get m j)"
  by (simp add: delete_conv)

lemma hm_remove_absent [simp]: "k \<notin> fst ` set m \<Longrightarrow> hm_remove k m = m"
  by (induction m) auto

lemma hm_get_None_iff: "hm_get m k = None \<longleftrightarrow> k \<notin> fst ` set m"
  by (rule map_of_eq_None_iff)

lemma hm_get_in_set: "hm_wf m \<Longrightarrow> (k, v) \<in> set m \<longleftrightarrow> hm_get m k = Some v"
  by (simp add: hm_wf_def)

section \<open>The keyed store interface\<close>

text \<open>
  What a component may rely on when it keeps values under keys: a lookup after an
  insertion or a removal, on every store that satisfies the representation invariant.
  The unordered \<open>HashMap\<close> and the ordered \<open>BTreeMap\<close> both provide it.
\<close>

locale keyed_store =
  fixes empty_store :: "'m"
    and get :: "'m \<Rightarrow> 'k \<Rightarrow> 'v option"
    and put :: "'k \<Rightarrow> 'v \<Rightarrow> 'm \<Rightarrow> 'm"
    and del :: "'k \<Rightarrow> 'm \<Rightarrow> 'm"
    and ok :: "'m \<Rightarrow> bool"
  assumes ok_empty: "ok empty_store"
    and ok_put: "ok m \<Longrightarrow> ok (put k v m)"
    and ok_del: "ok m \<Longrightarrow> ok (del k m)"
    and get_empty: "get empty_store k = None"
    and get_put: "ok m \<Longrightarrow> get (put k v m) j = (if j = k then Some v else get m j)"
    and get_del: "ok m \<Longrightarrow> get (del k m) j = (if j = k then None else get m j)"
begin

lemma put_overwrites: "ok m \<Longrightarrow> get (put k w (put k v m)) = get (put k w m)"
  by (rule ext) (simp add: get_put ok_put)

lemma put_commutes: "ok m \<Longrightarrow> j \<noteq> k \<Longrightarrow> get (put k v (put j w m)) = get (put j w (put k v m))"
  by (rule ext) (simp add: get_put ok_put)

lemma del_put: "ok m \<Longrightarrow> get (del k (put k v m)) = get (del k m)"
  by (rule ext) (simp add: get_put get_del ok_put)

lemma put_same_value: "ok m \<Longrightarrow> get m k = Some v \<Longrightarrow> get (put k v m) = get m"
  by (rule ext) (simp add: get_put)

lemma fold_put_get:
  "ok m \<Longrightarrow> ok (fold (\<lambda>(k, v). put k v) kvs m) \<and>
     get (fold (\<lambda>(k, v). put k v) kvs m) j =
       (case map_of (rev kvs) j of Some v \<Rightarrow> Some v | None \<Rightarrow> get m j)"
proof (induction kvs arbitrary: m)
  case Nil
  then show ?case by simp
next
  case (Cons kv kvs)
  then show ?case
    by (cases kv) (auto simp: get_put ok_put map_add_def split: option.splits)
qed

lemma fold_del_get:
  "ok m \<Longrightarrow> ok (fold del ks m) \<and>
     get (fold del ks m) j = (if j \<in> set ks then None else get m j)"
  by (induction ks arbitrary: m) (auto simp: get_del ok_del)

end

interpretation hm: keyed_store "[]" hm_get hm_insert hm_remove hm_wf
  by unfold_locales (auto simp: store_simps)

section \<open>Sums over the values of a map\<close>

text \<open>
  The requests a map of running operations still owes an answer are a multiset, summed
  over the entries. Replacing or dropping one entry changes the sum by that entry alone.
\<close>

definition hm_sum :: "('v \<Rightarrow> 'a multiset) \<Rightarrow> ('k, 'v) hash_map \<Rightarrow> 'a multiset" where
  "hm_sum f m = sum_list (map (\<lambda>(k, v). f v) m)"

lemma hm_sum_Nil [simp]: "hm_sum f [] = {#}"
  by (simp add: hm_sum_def)

lemma hm_sum_Cons [simp]: "hm_sum f ((k, v) # m) = f v + hm_sum f m"
  by (simp add: hm_sum_def)

lemma hm_sum_remove:
  "hm_wf m \<Longrightarrow> hm_get m k = Some v \<Longrightarrow> hm_sum f m = f v + hm_sum f (hm_remove k m)"
  by (induction m) (auto simp: ac_simps split: if_splits)

lemma hm_sum_remove_None:
  "hm_get m k = None \<Longrightarrow> hm_sum f (hm_remove k m) = hm_sum f m"
  by (simp add: hm_get_None_iff)

lemma hm_sum_insert [ticket_simps]:
  "hm_wf m \<Longrightarrow> hm_sum f (hm_insert k v m) = f v + hm_sum f (hm_remove k m)"
  by (induction m) (auto simp: ac_simps)

lemma hm_sum_replace:
  "hm_wf m \<Longrightarrow> hm_get m k = Some u \<Longrightarrow>
     hm_sum f (hm_insert k v m) + f u = f v + hm_sum f m"
  by (simp add: hm_sum_insert hm_sum_remove ac_simps)

lemma in_hm_sum:
  "x \<in># hm_sum f m \<longleftrightarrow> (\<exists>k v. (k, v) \<in> set m \<and> x \<in># f v)"
  by (induction m) (auto, blast+)

end
