(* ===== verification/Fsm_Types.thy ===== *)
theory Fsm_Types
  imports Prelude
begin

text \<open>
  The vocabulary of the decision core (\<open>crates/wusel-fsm/src/lib.rs\<close>): object and request
  identities, the intents a frontend sends, the jobs the machine hands out, the completions
  that come back, and the pure classifications of each. Identities are newtypes over
  \<open>u64\<close>, ordered as the derived \<open>Ord\<close> orders them.
\<close>

section \<open>Identities\<close>

datatype object_id = ObjectId (object_raw: u64)

datatype request_id = RequestId (request_raw: u64)

instantiation object_id :: linorder
begin

definition less_eq_object_id :: "object_id \<Rightarrow> object_id \<Rightarrow> bool" where
  "less_eq_object_id a b \<longleftrightarrow> object_raw a \<le> object_raw b"

definition less_object_id :: "object_id \<Rightarrow> object_id \<Rightarrow> bool" where
  "less_object_id a b \<longleftrightarrow> object_raw a < object_raw b"

instance
proof
  fix a b :: object_id
  show "a \<le> b \<Longrightarrow> b \<le> a \<Longrightarrow> a = b"
    by (simp add: less_eq_object_id_def object_id.expand)
qed (auto simp: less_eq_object_id_def less_object_id_def)

end

instantiation request_id :: linorder
begin

definition less_eq_request_id :: "request_id \<Rightarrow> request_id \<Rightarrow> bool" where
  "less_eq_request_id a b \<longleftrightarrow> request_raw a \<le> request_raw b"

definition less_request_id :: "request_id \<Rightarrow> request_id \<Rightarrow> bool" where
  "less_request_id a b \<longleftrightarrow> request_raw a < request_raw b"

instance
proof
  fix a b :: request_id
  show "a \<le> b \<Longrightarrow> b \<le> a \<Longrightarrow> a = b"
    by (simp add: less_eq_request_id_def request_id.expand)
qed (auto simp: less_eq_request_id_def less_request_id_def)

end

definition default_object :: object_id where
  "default_object = ObjectId 0"

section \<open>Intents and requests\<close>

datatype intent =
    Fetch (fetch_offset: u64) (fetch_len: u32)
  | Write (write_offset: u64) (write_len: u32)
  | Stat
  | Lookup (lookup_name: string)
  | State
  | SetAttr (attr_size: "u64 option") (attr_mtime: "i64 option") (attr_exec_flag: "bool option")
  | Enumerate
  | Materialise (mat_name: string) (mat_dir: bool) (mat_exec: bool)
  | Publish
  | Remove (remove_name: string)
  | Move (move_from_name: string) (move_to_parent: object_id) (move_to_name: string)
  | Relocate (rel_from_parent: object_id) (rel_to_parent: object_id) (rel_to_name: string)
  | Delete (del_from_parent: object_id)
  | Refresh
  | Relist

fun intent_kind :: "intent \<Rightarrow> string" where
  "intent_kind (Fetch _ _) = ''fetch''"
| "intent_kind (Write _ _) = ''write''"
| "intent_kind Stat = ''stat''"
| "intent_kind (Lookup _) = ''lookup''"
| "intent_kind State = ''state''"
| "intent_kind (SetAttr _ _ _) = ''setattr''"
| "intent_kind Enumerate = ''enumerate''"
| "intent_kind (Materialise _ _ _) = ''materialise''"
| "intent_kind Publish = ''publish''"
| "intent_kind (Remove _) = ''remove''"
| "intent_kind (Move _ _ _) = ''move''"
| "intent_kind (Relocate _ _ _) = ''relocate''"
| "intent_kind (Delete _) = ''delete''"
| "intent_kind Refresh = ''refresh''"
| "intent_kind Relist = ''relist''"

fun changes_state :: "intent \<Rightarrow> bool" where
  "changes_state (Write _ _) = True"
| "changes_state (SetAttr _ _ _) = True"
| "changes_state (Materialise _ _ _) = True"
| "changes_state Publish = True"
| "changes_state (Remove _) = True"
| "changes_state (Move _ _ _) = True"
| "changes_state (Relocate _ _ _) = True"
| "changes_state (Delete _) = True"
| "changes_state (Fetch _ _) = False"
| "changes_state Stat = False"
| "changes_state (Lookup _) = False"
| "changes_state State = False"
| "changes_state Enumerate = False"
| "changes_state Refresh = False"
| "changes_state Relist = False"

record request =
  rq_id :: request_id
  rq_object :: object_id
  rq_intent :: intent

section \<open>Jobs\<close>

datatype executor = DbRead | DbWrite | Net | FileIo

datatype precondition = MustNotExist | Match string | Unconditional

datatype job =
    ReadNode object_id
  | ReadChildren object_id
  | ReadChild object_id string
  | ReadState object_id bool
  | TruncateBuffer object_id u64
  | RecordMtime object_id i64
  | RecordExec object_id bool
  | ReadBuffer object_id u64 u32
  | ReadBlob object_id u64 u32
  | FetchRange object_id u64 u32
  | ListRemote object_id
  | BufferSize object_id
  | Upload object_id u64 precondition "i64 option"
  | ResolveConflict object_id string
  | RecordVersion object_id string u64
  | StoreBlob object_id
  | MarkPending object_id string "i64 option"
  | ClearPending object_id
  | SetUploadError object_id string
  | DiscardBuffer object_id
  | CreateBuffer object_id
  | WriteBuffer object_id u64 u32
  | HydrateBuffer object_id
  | HydrateCache object_id
  | InsertNode object_id string bool bool
  | CreateRemoteDir object_id string
  | DeleteRemote object_id
  | MoveRemote object_id object_id string
  | RemoveRows object_id
  | MoveRows object_id object_id string

fun job_executor :: "job \<Rightarrow> executor" where
  "job_executor (ReadNode _) = DbRead"
| "job_executor (ReadChildren _) = DbRead"
| "job_executor (ReadChild _ _) = DbRead"
| "job_executor (ReadState _ _) = DbRead"
| "job_executor (RecordVersion _ _ _) = DbWrite"
| "job_executor (InsertNode _ _ _ _) = DbWrite"
| "job_executor (RemoveRows _) = DbWrite"
| "job_executor (MoveRows _ _ _) = DbWrite"
| "job_executor (MarkPending _ _ _) = DbWrite"
| "job_executor (ClearPending _) = DbWrite"
| "job_executor (SetUploadError _ _) = DbWrite"
| "job_executor (RecordMtime _ _) = DbWrite"
| "job_executor (RecordExec _ _) = DbWrite"
| "job_executor (FetchRange _ _ _) = Net"
| "job_executor (ListRemote _) = Net"
| "job_executor (Upload _ _ _ _) = Net"
| "job_executor (ResolveConflict _ _) = Net"
| "job_executor (CreateRemoteDir _ _) = Net"
| "job_executor (DeleteRemote _) = Net"
| "job_executor (MoveRemote _ _ _) = Net"
| "job_executor (HydrateBuffer _) = Net"
| "job_executor (HydrateCache _) = Net"
| "job_executor (ReadBuffer _ _ _) = FileIo"
| "job_executor (ReadBlob _ _ _) = FileIo"
| "job_executor (BufferSize _) = FileIo"
| "job_executor (StoreBlob _) = FileIo"
| "job_executor (DiscardBuffer _) = FileIo"
| "job_executor (CreateBuffer _) = FileIo"
| "job_executor (WriteBuffer _ _ _) = FileIo"
| "job_executor (TruncateBuffer _ _) = FileIo"

fun is_droppable :: "job \<Rightarrow> bool" where
  "is_droppable (ReadNode _) = True"
| "is_droppable (ReadChildren _) = True"
| "is_droppable (ReadBuffer _ _ _) = True"
| "is_droppable (ReadBlob _ _ _) = True"
| "is_droppable (FetchRange _ _ _) = True"
| "is_droppable (ListRemote _) = True"
| "is_droppable (BufferSize _) = True"
| "is_droppable (ReadChild _ _) = True"
| "is_droppable (ReadState _ _) = True"
| "is_droppable (HydrateBuffer _) = True"
| "is_droppable (HydrateCache _) = True"
| "is_droppable (Upload _ _ _ _) = False"
| "is_droppable (ResolveConflict _ _) = False"
| "is_droppable (RecordVersion _ _ _) = False"
| "is_droppable (StoreBlob _) = False"
| "is_droppable (DiscardBuffer _) = False"
| "is_droppable (CreateBuffer _) = False"
| "is_droppable (WriteBuffer _ _ _) = False"
| "is_droppable (InsertNode _ _ _ _) = False"
| "is_droppable (CreateRemoteDir _ _) = False"
| "is_droppable (DeleteRemote _) = False"
| "is_droppable (MoveRemote _ _ _) = False"
| "is_droppable (RemoveRows _) = False"
| "is_droppable (MoveRows _ _ _) = False"
| "is_droppable (MarkPending _ _ _) = False"
| "is_droppable (ClearPending _) = False"
| "is_droppable (SetUploadError _ _) = False"
| "is_droppable (TruncateBuffer _ _) = False"
| "is_droppable (RecordMtime _ _) = False"
| "is_droppable (RecordExec _ _) = False"

section \<open>Completions\<close>

datatype failure =
  NotFound | Stale | WrongKind | NotWritable | Invalid | Io | Interrupted | Permanent

text \<open>The \<open>Debug\<close> rendering of a failure, which travels in \<open>Job::SetUploadError\<close>.\<close>

fun failure_debug :: "failure \<Rightarrow> string" where
  "failure_debug NotFound = ''NotFound''"
| "failure_debug Stale = ''Stale''"
| "failure_debug WrongKind = ''WrongKind''"
| "failure_debug NotWritable = ''NotWritable''"
| "failure_debug Invalid = ''Invalid''"
| "failure_debug Io = ''Io''"
| "failure_debug Interrupted = ''Interrupted''"
| "failure_debug Permanent = ''Permanent''"

record node_facts =
  nf_id :: object_id
  nf_found :: bool
  nf_parent :: object_id
  nf_ignored :: bool
  nf_dir :: bool
  nf_writable :: bool
  nf_etag :: string
  nf_size :: u64
  nf_blob_current :: bool
  nf_stale_copy_ok :: bool
  nf_materialised :: bool
  nf_identified :: bool
  nf_children_loaded :: bool
  nf_listing_stale :: bool

definition default_node :: node_facts where
  "default_node = \<lparr>nf_id = default_object, nf_found = False, nf_parent = default_object,
     nf_ignored = False, nf_dir = False, nf_writable = False, nf_etag = [], nf_size = 0,
     nf_blob_current = False, nf_stale_copy_ok = False, nf_materialised = False,
     nf_identified = False, nf_children_loaded = False, nf_listing_stale = False\<rparr>"

datatype completion =
    Node node_facts
  | Bytes
  | Listed
  | StateKnown
  | Size u64
  | Uploaded string u64
  | Rejected
  | JobDone
  | JobFailed failure

section \<open>What the classifications promise\<close>

text \<open>
  A job whose answer may be thrown away mid-flight never writes: every droppable job is a
  read or a download, and no job of the single database writer is droppable.
\<close>

lemma droppable_not_db_write: "is_droppable j \<Longrightarrow> job_executor j \<noteq> DbWrite"
  by (cases j) auto

lemma db_read_droppable: "job_executor j = DbRead \<Longrightarrow> is_droppable j"
  by (cases j) auto

lemma intent_kind_no_slash: "CHR ''/'' \<notin> set (intent_kind i)"
  by (cases i) auto

text \<open>The label of an intent is a function of the variant alone: two intents with the same
  label differ at most in their payload.\<close>

lemma intent_kind_changes_state: "intent_kind i = intent_kind j \<Longrightarrow> changes_state i = changes_state j"
  by (cases i; cases j) auto

end
