(* ===== verification/Fsm_Registry.thy ===== *)
theory Fsm_Registry
  imports Fsm_Types
begin

text \<open>
  What the machine knows about an object without asking anybody
  (\<open>crates/wusel-fsm/src/registry.rs\<close>): the open write buffers, and the snapshot of facts
  a script may consult between two steps. The buffers are a \<open>HashMap\<close>, modelled as an
  association list with distinct keys.
\<close>

section \<open>Buffers and facts\<close>

record buffer =
  bf_dirty :: bool
  bf_base_etag :: string
  bf_pending_mtime :: "i64 option"
  bf_ignored :: bool

definition buffer_new :: "string \<Rightarrow> buffer" where
  "buffer_new base_etag =
     \<lparr>bf_dirty = False, bf_base_etag = base_etag, bf_pending_mtime = None, bf_ignored = False\<rparr>"

record facts =
  fa_buffer_open :: bool
  fa_buffer_dirty :: bool
  fa_ignored :: bool
  fa_base_etag :: string
  fa_pending_mtime :: "i64 option"

definition default_facts :: facts where
  "default_facts = \<lparr>fa_buffer_open = False, fa_buffer_dirty = False, fa_ignored = False,
     fa_base_etag = [], fa_pending_mtime = None\<rparr>"

section \<open>The registry\<close>

type_synonym registry = "(object_id, buffer) hash_map"

definition registry_new :: registry where
  "registry_new = []"

definition registry_facts :: "registry \<Rightarrow> object_id \<Rightarrow> facts" where
  "registry_facts reg obj =
     (case hm_get reg obj of
        Some b \<Rightarrow> \<lparr>fa_buffer_open = True, fa_buffer_dirty = bf_dirty b, fa_ignored = bf_ignored b,
                   fa_base_etag = bf_base_etag b, fa_pending_mtime = bf_pending_mtime b\<rparr>
      | None \<Rightarrow> default_facts)"

definition registry_open :: "registry \<Rightarrow> object_id \<Rightarrow> buffer \<Rightarrow> registry" where
  "registry_open reg obj b = hm_insert obj b reg"

definition registry_close :: "registry \<Rightarrow> object_id \<Rightarrow> registry \<times> buffer option" where
  "registry_close reg obj = (hm_remove obj reg, hm_get reg obj)"

definition set_pending_mtime :: "registry \<Rightarrow> object_id \<Rightarrow> i64 \<Rightarrow> registry" where
  "set_pending_mtime reg obj mtime =
     (case hm_get reg obj of
        Some b \<Rightarrow> hm_insert obj (b\<lparr>bf_pending_mtime := Some mtime\<rparr>) reg
      | None \<Rightarrow> reg)"

definition set_base_etag :: "registry \<Rightarrow> object_id \<Rightarrow> string \<Rightarrow> registry" where
  "set_base_etag reg obj etag =
     (case hm_get reg obj of
        Some b \<Rightarrow> hm_insert obj (b\<lparr>bf_base_etag := etag\<rparr>) reg
      | None \<Rightarrow> reg)"

definition mark_dirty :: "registry \<Rightarrow> object_id \<Rightarrow> registry" where
  "mark_dirty reg obj =
     (case hm_get reg obj of
        Some b \<Rightarrow> hm_insert obj (b\<lparr>bf_dirty := True\<rparr>) reg
      | None \<Rightarrow> reg)"

definition registry_get :: "registry \<Rightarrow> object_id \<Rightarrow> buffer option" where
  "registry_get reg obj = hm_get reg obj"

definition registry_len :: "registry \<Rightarrow> nat" where
  "registry_len reg = length reg"

definition dirty_count :: "registry \<Rightarrow> nat" where
  "dirty_count reg = length (filter (\<lambda>(_, b). bf_dirty b) reg)"

definition registry_is_empty :: "registry \<Rightarrow> bool" where
  "registry_is_empty reg \<longleftrightarrow> reg = []"

lemmas registry_ops =
  registry_open_def registry_close_def set_pending_mtime_def set_base_etag_def mark_dirty_def

section \<open>Every operation keeps one buffer per object\<close>

lemma registry_ops_wf [intro]:
  assumes "hm_wf reg"
  shows "hm_wf (registry_open reg obj b)"
    and "hm_wf (fst (registry_close reg obj))"
    and "hm_wf (set_pending_mtime reg obj t)"
    and "hm_wf (set_base_etag reg obj e)"
    and "hm_wf (mark_dirty reg obj)"
  using assms by (auto simp: registry_ops split: option.splits)

section \<open>What a decision sees after each operation\<close>

lemma facts_closed_iff [simp]: "fa_buffer_open (registry_facts reg obj) \<longleftrightarrow> hm_get reg obj \<noteq> None"
  by (simp add: registry_facts_def default_facts_def split: option.splits)

lemma facts_dirty_open: "fa_buffer_dirty (registry_facts reg obj) \<Longrightarrow> fa_buffer_open (registry_facts reg obj)"
  by (simp add: registry_facts_def default_facts_def split: option.splits)

lemma facts_other_object [frame_simps]:
  assumes "j \<noteq> obj"
  shows "registry_facts (registry_open reg obj b) j = registry_facts reg j"
    and "registry_facts (fst (registry_close reg obj)) j = registry_facts reg j"
    and "registry_facts (set_pending_mtime reg obj t) j = registry_facts reg j"
    and "registry_facts (set_base_etag reg obj e) j = registry_facts reg j"
    and "registry_facts (mark_dirty reg obj) j = registry_facts reg j"
  using assms
  by (auto simp: registry_facts_def registry_ops store_simps split: option.splits)

lemma facts_after_open:
  "registry_facts (registry_open reg obj b) obj =
     \<lparr>fa_buffer_open = True, fa_buffer_dirty = bf_dirty b, fa_ignored = bf_ignored b,
      fa_base_etag = bf_base_etag b, fa_pending_mtime = bf_pending_mtime b\<rparr>"
  by (simp add: registry_facts_def registry_ops store_simps)

lemma facts_after_close: "registry_facts (fst (registry_close reg obj)) obj = default_facts"
  by (simp add: registry_facts_def registry_ops store_simps)

lemma facts_after_dirty:
  "registry_facts (mark_dirty reg obj) obj =
     (registry_facts reg obj)\<lparr>fa_buffer_dirty := fa_buffer_open (registry_facts reg obj)\<rparr>"
  by (auto simp: registry_facts_def default_facts_def mark_dirty_def store_simps split: option.splits)

lemma facts_after_mtime:
  "fa_buffer_open (registry_facts reg obj) \<Longrightarrow>
     fa_pending_mtime (registry_facts (set_pending_mtime reg obj t) obj) = Some t"
  by (auto simp: registry_facts_def set_pending_mtime_def default_facts_def store_simps split: option.splits)

lemma facts_after_base:
  "fa_buffer_open (registry_facts reg obj) \<Longrightarrow>
     fa_base_etag (registry_facts (set_base_etag reg obj e) obj) = e"
  by (auto simp: registry_facts_def set_base_etag_def default_facts_def store_simps split: option.splits)

lemma closing_returns_what_was_open: "snd (registry_close reg obj) = registry_get reg obj"
  by (simp add: registry_close_def registry_get_def)

lemma dirty_count_le_len: "dirty_count reg \<le> registry_len reg"
  by (simp add: dirty_count_def registry_len_def)

lemma dirty_count_zero_iff:
  "hm_wf reg \<Longrightarrow> dirty_count reg = 0 \<longleftrightarrow> (\<forall>obj. \<not> fa_buffer_dirty (registry_facts reg obj))"
  unfolding dirty_count_def registry_facts_def default_facts_def
  by (auto simp: filter_empty_conv hm_get_in_set split: option.splits)

end
