(* ===== verification/Fsm_Script.thy ===== *)
theory Fsm_Script
  imports Fsm_Registry
begin

text \<open>
  The script of a running operation (\<open>crates/wusel-fsm/src/script.rs\<close>): the flow record,
  the flat step enumeration, \<open>start\<close> and \<open>advance\<close>. The one large \<open>match\<close> of
  \<open>advance\<close> is \<open>advance_step\<close>; a step whose arm takes a decision is a definition of its
  own, in the order the source has them. All of it is a pure function of its inputs, as in
  the source, and total: a completion that does not belong to its step fails the flow.
\<close>

section \<open>Flows\<close>

record carry =
  ca_node :: node_facts
  ca_size :: u64
  ca_etag :: string

definition default_carry :: carry where
  "default_carry = \<lparr>ca_node = default_node, ca_size = 0, ca_etag = []\<rparr>"

datatype step =
    FetchNode | FetchBytes | FetchPrune
  | WriteNode | WritePrepare | WriteBytes
  | StatNode
  | LookNode | LookRemote | LookChild
  | StateRead
  | AttrNode | AttrPrepare | AttrTruncate | AttrMtime | AttrExec | AttrFinal
  | EnumNode | EnumRemote | EnumChildren
  | MatInsert | MatBuffer | MatRemote | MatList | MatLookup
  | PubNode | PubCommit | PubSize | PubUpload | PubConflict | PubRecord | PubStore
  | PubReload | PubClear | PubError | PubDiscard
  | RemNode
  | DelNode | RemRemote | RemBuffer | RemRows
  | MovNode
  | RelNode | MovRemote | MovRows
  | Handover
  | RefNode | RefHydrate
  | RelistRemote

record flow =
  fl_object :: object_id
  fl_intent :: intent
  fl_step :: step
  fl_waiters :: "request_id list"
  fl_abort :: bool
  fl_carry :: carry

datatype flow_next =
    Do job
  | AnswerThen job
  | Done
  | Fail failure
  | Abandoned
  | Handoff object_id intent

section \<open>Starting a script\<close>

definition publish_start :: "object_id \<Rightarrow> facts \<Rightarrow> step \<times> flow_next" where
  "publish_start obj facts =
     (if \<not> fa_buffer_open facts then (PubDiscard, Done)
      else if \<not> fa_buffer_dirty facts then (PubDiscard, Do (DiscardBuffer obj))
      else (PubNode, Do (ReadNode obj)))"

definition start_step :: "object_id \<Rightarrow> intent \<Rightarrow> facts \<Rightarrow> step \<times> flow_next" where
  "start_step obj intent facts =
     (case intent of
        Fetch _ _ \<Rightarrow> (FetchNode, Do (ReadNode obj))
      | Write _ _ \<Rightarrow> (WriteNode, Do (ReadNode obj))
      | Stat \<Rightarrow> (StatNode, Do (ReadNode obj))
      | Lookup _ \<Rightarrow> (LookNode, Do (ReadNode obj))
      | State \<Rightarrow> (StateRead, Do (ReadState obj (fa_buffer_open facts)))
      | SetAttr _ _ _ \<Rightarrow> (AttrNode, Do (ReadNode obj))
      | Enumerate \<Rightarrow> (EnumNode, Do (ReadNode obj))
      | Materialise name dir exec \<Rightarrow>
          (if dir then (MatRemote, Do (CreateRemoteDir obj name))
           else (MatInsert, Do (InsertNode obj name False exec)))
      | Publish \<Rightarrow> publish_start obj facts
      | Remove name \<Rightarrow> (RemNode, Do (ReadChild obj name))
      | Move from_name _ _ \<Rightarrow> (MovNode, Do (ReadChild obj from_name))
      | Relocate _ _ _ \<Rightarrow> (RelNode, Do (ReadNode obj))
      | Delete _ \<Rightarrow> (DelNode, Do (ReadNode obj))
      | Refresh \<Rightarrow> (RefNode, Do (ReadNode obj))
      | Relist \<Rightarrow> (RelistRemote, Do (ListRemote obj)))"

definition start :: "object_id \<Rightarrow> intent \<Rightarrow> request_id \<Rightarrow> facts \<Rightarrow> flow \<times> flow_next" where
  "start obj intent waiter facts =
     (let (stp, nxt) = start_step obj intent facts
      in (\<lparr>fl_object = obj, fl_intent = intent, fl_step = stp, fl_waiters = [waiter],
           fl_abort = False, fl_carry = default_carry\<rparr>, nxt))"

section \<open>Small decisions\<close>

definition wrong_completion :: flow_next where
  "wrong_completion = Fail Io"

definition attr_exec :: "bool option \<Rightarrow> bool \<Rightarrow> bool option" where
  "attr_exec exec dir = (if dir then None else exec)"

definition attr_exec_or_final :: "object_id \<Rightarrow> bool option \<Rightarrow> bool \<Rightarrow> step \<times> flow_next" where
  "attr_exec_or_final obj exec dir =
     (case attr_exec exec dir of
        Some e \<Rightarrow> (AttrExec, Do (RecordExec obj e))
      | None \<Rightarrow> (AttrFinal, Do (ReadNode obj)))"

definition fetch_source :: "intent \<Rightarrow> object_id \<Rightarrow> node_facts \<Rightarrow> facts \<Rightarrow> flow_next" where
  "fetch_source intent obj n facts =
     (case intent of
        Fetch offset len \<Rightarrow>
          (if \<not> nf_found n then Fail NotFound
           else if nf_dir n then Fail WrongKind
           else if fa_buffer_open facts then Do (ReadBuffer obj offset len)
           else if nf_blob_current n \<or> nf_stale_copy_ok n then Do (ReadBlob obj offset len)
           else Do (FetchRange obj offset len))
      | _ \<Rightarrow> wrong_completion)"

definition write_bytes :: "intent \<Rightarrow> object_id \<Rightarrow> flow_next" where
  "write_bytes intent obj =
     (case intent of
        Write offset len \<Rightarrow> Do (WriteBuffer obj offset len)
      | _ \<Rightarrow> wrong_completion)"

definition upload_precondition :: "node_facts \<Rightarrow> facts \<Rightarrow> precondition" where
  "upload_precondition node facts =
     (if \<not> nf_materialised node then MustNotExist
      else if fa_base_etag facts = [] then Unconditional
      else Match (fa_base_etag facts))"

abbreviation carry_node :: "node_facts \<Rightarrow> flow \<Rightarrow> flow" where
  "carry_node n flow \<equiv> flow\<lparr>fl_carry := (fl_carry flow)\<lparr>ca_node := n\<rparr>\<rparr>"

abbreviation at :: "flow \<Rightarrow> step \<Rightarrow> flow" where
  "at flow s \<equiv> flow\<lparr>fl_step := s\<rparr>"

section \<open>The arms of the step match that decide\<close>

definition fetch_node :: "flow \<Rightarrow> completion \<Rightarrow> facts \<Rightarrow> flow \<times> flow_next" where
  "fetch_node flow c facts =
     (case c of
        Node n \<Rightarrow> (at (carry_node n flow) FetchBytes, fetch_source (fl_intent flow) (fl_object flow) n facts)
      | _ \<Rightarrow> (flow, wrong_completion))"

definition write_node :: "flow \<Rightarrow> completion \<Rightarrow> facts \<Rightarrow> flow \<times> flow_next" where
  "write_node flow c facts =
     (case c of
        Node n \<Rightarrow>
          (let flow = carry_node n flow; obj = fl_object flow in
           if \<not> nf_found n then (flow, Fail NotFound)
           else if nf_dir n then (flow, Fail WrongKind)
           else if \<not> nf_writable n then (flow, Fail NotWritable)
           else if fa_buffer_open facts then (at flow WriteBytes, write_bytes (fl_intent flow) obj)
           else if nf_size n > 0 then (at flow WritePrepare, Do (HydrateBuffer obj))
           else (at flow WritePrepare, Do (CreateBuffer obj)))
      | _ \<Rightarrow> (flow, wrong_completion))"

definition stat_node :: "flow \<Rightarrow> completion \<Rightarrow> flow \<times> flow_next" where
  "stat_node flow c =
     (case c of
        Node n \<Rightarrow> (flow, if nf_found n then Done else Fail NotFound)
      | _ \<Rightarrow> (flow, wrong_completion))"

definition look_node :: "flow \<Rightarrow> completion \<Rightarrow> flow \<times> flow_next" where
  "look_node flow c =
     (case (c, fl_intent flow) of
        (Node n, Lookup name) \<Rightarrow>
          (if \<not> nf_found n then (flow, Fail NotFound)
           else if \<not> nf_dir n then (flow, Fail WrongKind)
           else if nf_children_loaded n then (at flow LookChild, Do (ReadChild (fl_object flow) name))
           else (at flow LookRemote, Do (ListRemote (fl_object flow))))
      | _ \<Rightarrow> (flow, wrong_completion))"

definition look_remote :: "flow \<Rightarrow> flow \<times> flow_next" where
  "look_remote flow =
     (case fl_intent flow of
        Lookup name \<Rightarrow> (at flow LookChild, Do (ReadChild (fl_object flow) name))
      | _ \<Rightarrow> (flow, wrong_completion))"

definition look_child :: "flow \<Rightarrow> completion \<Rightarrow> flow \<times> flow_next" where
  "look_child flow c =
     (case c of
        Node n \<Rightarrow> (flow, if nf_found n then Done else Fail NotFound)
      | _ \<Rightarrow> (flow, wrong_completion))"

definition attr_node :: "flow \<Rightarrow> completion \<Rightarrow> facts \<Rightarrow> flow \<times> flow_next" where
  "attr_node flow c facts =
     (case (c, fl_intent flow) of
        (Node n, SetAttr new_size mtime exec) \<Rightarrow>
          (let flow = carry_node n flow; obj = fl_object flow in
           if \<not> nf_found n then (flow, Fail NotFound)
           else if nf_dir n \<and> new_size \<noteq> None then (flow, Fail WrongKind)
           else if new_size \<noteq> None \<and> \<not> nf_writable n then (flow, Fail NotWritable)
           else (case new_size of
              Some sz \<Rightarrow>
                (if fa_buffer_open facts then (at flow AttrTruncate, Do (TruncateBuffer obj sz))
                 else if sz = 0 then (at flow AttrPrepare, Do (CreateBuffer obj))
                 else (at flow AttrPrepare, Do (HydrateBuffer obj)))
            | None \<Rightarrow>
                (case mtime of
                   Some t \<Rightarrow> (at flow AttrMtime, Do (RecordMtime obj t))
                 | None \<Rightarrow>
                     (case attr_exec exec (nf_dir n) of
                        Some e \<Rightarrow> (at flow AttrExec, Do (RecordExec obj e))
                      | None \<Rightarrow> (at flow AttrFinal, Done)))))
      | _ \<Rightarrow> (flow, wrong_completion))"

definition attr_prepare :: "flow \<Rightarrow> flow \<times> flow_next" where
  "attr_prepare flow =
     (case fl_intent flow of
        SetAttr new_size _ _ \<Rightarrow>
          (at flow AttrTruncate,
           Do (TruncateBuffer (fl_object flow) (case new_size of Some sz \<Rightarrow> sz | None \<Rightarrow> 0)))
      | _ \<Rightarrow> (flow, wrong_completion))"

definition attr_truncate :: "flow \<Rightarrow> flow \<times> flow_next" where
  "attr_truncate flow =
     (case fl_intent flow of
        SetAttr _ mtime exec \<Rightarrow>
          (case mtime of
             Some t \<Rightarrow> (at flow AttrMtime, Do (RecordMtime (fl_object flow) t))
           | None \<Rightarrow>
               (let (stp, nxt) = attr_exec_or_final (fl_object flow) exec (nf_dir (ca_node (fl_carry flow)))
                in (at flow stp, nxt)))
      | _ \<Rightarrow> (flow, wrong_completion))"

definition attr_mtime_done :: "flow \<Rightarrow> flow \<times> flow_next" where
  "attr_mtime_done flow =
     (case fl_intent flow of
        SetAttr _ _ exec \<Rightarrow>
          (let (stp, nxt) = attr_exec_or_final (fl_object flow) exec (nf_dir (ca_node (fl_carry flow)))
           in (at flow stp, nxt))
      | _ \<Rightarrow> (flow, wrong_completion))"

definition enum_node :: "flow \<Rightarrow> completion \<Rightarrow> flow \<times> flow_next" where
  "enum_node flow c =
     (case c of
        Node n \<Rightarrow>
          (let flow = carry_node n flow; obj = fl_object flow in
           if \<not> nf_found n then (flow, Fail NotFound)
           else if \<not> nf_dir n then (flow, Fail WrongKind)
           else if nf_children_loaded n then (at flow EnumChildren, Do (ReadChildren obj))
           else (at (carry_node (n\<lparr>nf_listing_stale := False\<rparr>) flow) EnumRemote, Do (ListRemote obj)))
      | _ \<Rightarrow> (flow, wrong_completion))"

definition mat_resolve :: "flow \<Rightarrow> flow \<times> flow_next" where
  "mat_resolve flow =
     (case fl_intent flow of
        Materialise name _ _ \<Rightarrow> (at flow MatLookup, Do (ReadChild (fl_object flow) name))
      | _ \<Rightarrow> (flow, wrong_completion))"

definition mat_lookup :: "flow \<Rightarrow> completion \<Rightarrow> flow \<times> flow_next" where
  "mat_lookup flow c =
     (case (c, fl_intent flow) of
        (Node n, Materialise _ dir _) \<Rightarrow>
          (if \<not> nf_found n then (flow, Fail Io)
           else if dir then (flow, Done)
           else (at (carry_node n flow) MatBuffer, Do (CreateBuffer (nf_id n))))
      | _ \<Rightarrow> (flow, wrong_completion))"

definition pub_node :: "flow \<Rightarrow> completion \<Rightarrow> facts \<Rightarrow> flow \<times> flow_next" where
  "pub_node flow c facts =
     (case c of
        Node n \<Rightarrow>
          (if nf_found n \<and> nf_ignored n then (flow, Done)
           else if nf_found n then
             (at (carry_node n flow) PubCommit,
              Do (MarkPending (fl_object flow) (fa_base_etag facts) (fa_pending_mtime facts)))
           else (at flow PubDiscard, Do (DiscardBuffer (fl_object flow))))
      | _ \<Rightarrow> (flow, wrong_completion))"

definition pub_size :: "flow \<Rightarrow> completion \<Rightarrow> facts \<Rightarrow> flow \<times> flow_next" where
  "pub_size flow c facts =
     (case c of
        Size n \<Rightarrow>
          (at (flow\<lparr>fl_carry := (fl_carry flow)\<lparr>ca_size := n\<rparr>\<rparr>) PubUpload,
           Do (Upload (fl_object flow) n (upload_precondition (ca_node (fl_carry flow)) facts)
                 (fa_pending_mtime facts)))
      | _ \<Rightarrow> (flow, wrong_completion))"

definition pub_upload :: "flow \<Rightarrow> completion \<Rightarrow> facts \<Rightarrow> flow \<times> flow_next" where
  "pub_upload flow c facts =
     (case c of
        Uploaded etag n \<Rightarrow>
          (at (flow\<lparr>fl_carry := (fl_carry flow)\<lparr>ca_etag := etag, ca_size := n\<rparr>\<rparr>) PubRecord,
           Do (RecordVersion (fl_object flow) etag n))
      | Rejected \<Rightarrow> (at flow PubConflict, Do (ResolveConflict (fl_object flow) (fa_base_etag facts)))
      | _ \<Rightarrow> (flow, wrong_completion))"

definition pub_store :: "flow \<Rightarrow> flow \<times> flow_next" where
  "pub_store flow =
     (if nf_identified (ca_node (fl_carry flow)) then (at flow PubClear, Do (ClearPending (fl_object flow)))
      else (at flow PubReload, Do (ListRemote (nf_parent (ca_node (fl_carry flow))))))"

definition rem_node :: "flow \<Rightarrow> completion \<Rightarrow> flow \<times> flow_next" where
  "rem_node flow c =
     (case c of
        Node n \<Rightarrow>
          (if nf_found n then
             (at (carry_node n flow) Handover, Handoff (nf_id n) (Delete (fl_object flow)))
           else (flow, Fail NotFound))
      | _ \<Rightarrow> (flow, wrong_completion))"

definition del_node :: "flow \<Rightarrow> completion \<Rightarrow> flow \<times> flow_next" where
  "del_node flow c =
     (case c of
        Node n \<Rightarrow>
          (let flow = carry_node n flow; obj = fl_object flow in
           if \<not> nf_found n then (flow, Fail NotFound)
           else if nf_materialised n then (at flow RemRemote, Do (DeleteRemote obj))
           else (at flow RemBuffer, Do (DiscardBuffer obj)))
      | _ \<Rightarrow> (flow, wrong_completion))"

definition mov_node :: "flow \<Rightarrow> completion \<Rightarrow> flow \<times> flow_next" where
  "mov_node flow c =
     (case (c, fl_intent flow) of
        (Node n, Move _ to_parent to_name) \<Rightarrow>
          (if nf_found n then
             (at (carry_node n flow) Handover,
              Handoff (nf_id n) (Relocate (fl_object flow) to_parent to_name))
           else (flow, Fail NotFound))
      | _ \<Rightarrow> (flow, wrong_completion))"

definition rel_node :: "flow \<Rightarrow> completion \<Rightarrow> flow \<times> flow_next" where
  "rel_node flow c =
     (case (c, fl_intent flow) of
        (Node n, Relocate _ to_parent to_name) \<Rightarrow>
          (let flow = carry_node n flow; obj = fl_object flow in
           if \<not> nf_found n then (flow, Fail NotFound)
           else if nf_materialised n then (at flow MovRemote, Do (MoveRemote obj to_parent to_name))
           else (at flow MovRows, Do (MoveRows obj to_parent to_name)))
      | _ \<Rightarrow> (flow, wrong_completion))"

definition mov_remote :: "flow \<Rightarrow> flow \<times> flow_next" where
  "mov_remote flow =
     (case fl_intent flow of
        Relocate _ to_parent to_name \<Rightarrow> (at flow MovRows, Do (MoveRows (fl_object flow) to_parent to_name))
      | _ \<Rightarrow> (flow, wrong_completion))"

definition ref_node :: "flow \<Rightarrow> completion \<Rightarrow> flow \<times> flow_next" where
  "ref_node flow c =
     (case c of
        Node n \<Rightarrow>
          (if \<not> nf_found n \<or> nf_blob_current n then (flow, Done)
           else (at flow RefHydrate, Do (HydrateCache (fl_object flow))))
      | _ \<Rightarrow> (flow, wrong_completion))"

section \<open>Advancing a script\<close>

definition advance_step :: "flow \<Rightarrow> completion \<Rightarrow> facts \<Rightarrow> flow \<times> flow_next" where
  "advance_step flow c facts =
     (let obj = fl_object flow in
      case fl_step flow of
        FetchNode \<Rightarrow> fetch_node flow c facts
      | FetchBytes \<Rightarrow> (flow, Done)
      | FetchPrune \<Rightarrow> (flow, Fail Stale)
      | WriteNode \<Rightarrow> write_node flow c facts
      | WritePrepare \<Rightarrow> (at flow WriteBytes, write_bytes (fl_intent flow) obj)
      | WriteBytes \<Rightarrow> (flow, Done)
      | StatNode \<Rightarrow> stat_node flow c
      | LookNode \<Rightarrow> look_node flow c
      | LookRemote \<Rightarrow> look_remote flow
      | LookChild \<Rightarrow> look_child flow c
      | StateRead \<Rightarrow> (flow, Done)
      | AttrNode \<Rightarrow> attr_node flow c facts
      | AttrPrepare \<Rightarrow> attr_prepare flow
      | AttrTruncate \<Rightarrow> attr_truncate flow
      | AttrMtime \<Rightarrow> attr_mtime_done flow
      | AttrExec \<Rightarrow> (at flow AttrFinal, Do (ReadNode obj))
      | AttrFinal \<Rightarrow> (flow, Done)
      | EnumNode \<Rightarrow> enum_node flow c
      | EnumRemote \<Rightarrow> (at flow EnumChildren, Do (ReadChildren obj))
      | EnumChildren \<Rightarrow> (flow, Done)
      | MatInsert \<Rightarrow> mat_resolve flow
      | MatRemote \<Rightarrow> (at flow MatList, Do (ListRemote obj))
      | MatList \<Rightarrow> mat_resolve flow
      | MatLookup \<Rightarrow> mat_lookup flow c
      | MatBuffer \<Rightarrow> (flow, Done)
      | PubNode \<Rightarrow> pub_node flow c facts
      | PubCommit \<Rightarrow> (at flow PubSize, AnswerThen (BufferSize obj))
      | PubSize \<Rightarrow> pub_size flow c facts
      | PubConflict \<Rightarrow> (at flow PubClear, Do (ClearPending obj))
      | PubUpload \<Rightarrow> pub_upload flow c facts
      | PubRecord \<Rightarrow> (at flow PubStore, Do (StoreBlob obj))
      | PubStore \<Rightarrow> pub_store flow
      | PubReload \<Rightarrow> (at flow PubClear, Do (ClearPending obj))
      | PubClear \<Rightarrow> (at flow PubDiscard, Do (DiscardBuffer obj))
      | PubError \<Rightarrow> (flow, Fail Io)
      | PubDiscard \<Rightarrow> (flow, Done)
      | RemNode \<Rightarrow> rem_node flow c
      | DelNode \<Rightarrow> del_node flow c
      | RemRemote \<Rightarrow> (at flow RemBuffer, Do (DiscardBuffer (nf_id (ca_node (fl_carry flow)))))
      | RemBuffer \<Rightarrow> (at flow RemRows, Do (RemoveRows (nf_id (ca_node (fl_carry flow)))))
      | RemRows \<Rightarrow> (flow, Done)
      | MovNode \<Rightarrow> mov_node flow c
      | Handover \<Rightarrow> (flow, wrong_completion)
      | RelNode \<Rightarrow> rel_node flow c
      | MovRemote \<Rightarrow> mov_remote flow
      | MovRows \<Rightarrow> (flow, Done)
      | RefNode \<Rightarrow> ref_node flow c
      | RefHydrate \<Rightarrow> (flow, Done)
      | RelistRemote \<Rightarrow> (flow, Done))"

text \<open>The steps of a publish that follow the local commit: the pending record exists.\<close>

definition past_commit :: "flow \<Rightarrow> bool" where
  "past_commit flow \<longleftrightarrow> fl_intent flow = Publish \<and>
     fl_step flow \<in> {PubSize, PubUpload, PubConflict, PubRecord, PubStore, PubReload, PubClear}"

definition advance_failed :: "flow \<Rightarrow> failure \<Rightarrow> flow \<times> flow_next" where
  "advance_failed flow f =
     (if fl_step flow = FetchBytes \<and> f = Stale
      then (at flow FetchPrune, Do (RemoveRows (fl_object flow)))
      else if past_commit flow \<and> f = Permanent
      then (at flow PubError, Do (SetUploadError (fl_object flow) (failure_debug f)))
      else (flow, Fail f))"

definition advance :: "flow \<Rightarrow> completion \<Rightarrow> facts \<Rightarrow> flow \<times> flow_next" where
  "advance flow c facts =
     (if fl_abort flow then (flow, Abandoned)
      else case c of
        JobFailed f \<Rightarrow> advance_failed flow f
      | _ \<Rightarrow> advance_step flow c facts)"

lemmas arm_defs =
  fetch_node_def write_node_def stat_node_def look_node_def look_remote_def look_child_def
  attr_node_def attr_prepare_def attr_truncate_def attr_mtime_done_def enum_node_def
  mat_resolve_def mat_lookup_def pub_node_def pub_size_def pub_upload_def pub_store_def
  rem_node_def del_node_def mov_node_def rel_node_def mov_remote_def ref_node_def

lemmas decision_defs =
  wrong_completion_def attr_exec_def attr_exec_or_final_def fetch_source_def write_bytes_def

end
