(* ===== verification/Fsm_Script_Inv.thy ===== *)
theory Fsm_Script_Inv
  imports Fsm_Script
begin

text \<open>
  Invariants of the scripts: a step never touches the ticket of its flow (object, intent,
  waiters, abort mark), a flow stays on the steps of its own intent, the job a step hands
  out is the job that step waits for, and every script strictly descends a rank, so it ends.
\<close>

section \<open>The ticket of a flow\<close>

definition same_ticket :: "flow \<Rightarrow> flow \<Rightarrow> bool" where
  "same_ticket flow flow' \<longleftrightarrow> fl_object flow' = fl_object flow \<and> fl_intent flow' = fl_intent flow \<and>
     fl_waiters flow' = fl_waiters flow \<and> fl_abort flow' = fl_abort flow"

lemma same_ticket_refl [simp]: "same_ticket flow flow"
  and same_ticket_at [simp]: "same_ticket flow (at flow' s) = same_ticket flow flow'"
  and same_ticket_carry [simp]: "same_ticket flow (flow'\<lparr>fl_carry := x\<rparr>) = same_ticket flow flow'"
  by (simp_all add: same_ticket_def)

lemma same_ticket_arms [frame_simps]:
  "same_ticket flow (fst (fetch_node flow c facts))"
  "same_ticket flow (fst (write_node flow c facts))"
  "same_ticket flow (fst (stat_node flow c))"
  "same_ticket flow (fst (look_node flow c))"
  "same_ticket flow (fst (look_remote flow))"
  "same_ticket flow (fst (look_child flow c))"
  "same_ticket flow (fst (attr_node flow c facts))"
  "same_ticket flow (fst (attr_prepare flow))"
  "same_ticket flow (fst (attr_truncate flow))"
  "same_ticket flow (fst (attr_mtime_done flow))"
  "same_ticket flow (fst (enum_node flow c))"
  "same_ticket flow (fst (mat_resolve flow))"
  "same_ticket flow (fst (mat_lookup flow c))"
  "same_ticket flow (fst (pub_node flow c facts))"
  "same_ticket flow (fst (pub_size flow c facts))"
  "same_ticket flow (fst (pub_upload flow c facts))"
  "same_ticket flow (fst (pub_store flow))"
  "same_ticket flow (fst (rem_node flow c))"
  "same_ticket flow (fst (del_node flow c))"
  "same_ticket flow (fst (mov_node flow c))"
  "same_ticket flow (fst (rel_node flow c))"
  "same_ticket flow (fst (mov_remote flow))"
  "same_ticket flow (fst (ref_node flow c))"
  by (simp_all add: arm_defs attr_exec_or_final_def Let_def
      split: completion.split intent.split option.split)

lemma advance_step_ticket: "same_ticket flow (fst (advance_step flow c facts))"
  by (cases "fl_step flow") (simp_all add: advance_step_def frame_simps Let_def)

lemma advance_failed_ticket: "same_ticket flow (fst (advance_failed flow f))"
  by (simp add: advance_failed_def)

text \<open>How \<open>advance\<close> is decided, as a case rule: abort first, then a failed step, then the script.\<close>

lemma advance_cases [case_names aborted failed stepped]:
  obtains "fl_abort flow" "advance flow c facts = (flow, Abandoned)"
  | f where "\<not> fl_abort flow" "c = JobFailed f" "advance flow c facts = advance_failed flow f"
  | "\<not> fl_abort flow" "\<forall>f. c \<noteq> JobFailed f" "advance flow c facts = advance_step flow c facts"
  by (cases c) (auto simp: advance_def)

lemma advance_ticket: "same_ticket flow (fst (advance flow c facts))"
  by (rule advance_cases [of flow c facts]) (simp_all add: advance_step_ticket advance_failed_ticket)

lemma advance_frame:
  assumes "advance flow c facts = (flow', nxt)"
  shows "fl_object flow' = fl_object flow" and "fl_intent flow' = fl_intent flow"
    and "fl_waiters flow' = fl_waiters flow" and "fl_abort flow' = fl_abort flow"
  using advance_ticket [of flow c facts] assms by (simp_all add: same_ticket_def)

lemma start_ticket:
  assumes "start obj i w facts = (flow, nxt)"
  shows "fl_object flow = obj" and "fl_intent flow = i"
    and "fl_waiters flow = [w]" and "\<not> fl_abort flow"
  using assms by (auto simp: start_def split: prod.splits)

section \<open>A flow stays on the steps of its own intent\<close>

fun script_steps :: "intent \<Rightarrow> step list" where
  "script_steps (Fetch _ _) = [FetchNode, FetchBytes, FetchPrune]"
| "script_steps (Write _ _) = [WriteNode, WritePrepare, WriteBytes]"
| "script_steps Stat = [StatNode]"
| "script_steps (Lookup _) = [LookNode, LookRemote, LookChild]"
| "script_steps State = [StateRead]"
| "script_steps (SetAttr _ _ _) = [AttrNode, AttrPrepare, AttrTruncate, AttrMtime, AttrExec, AttrFinal]"
| "script_steps Enumerate = [EnumNode, EnumRemote, EnumChildren]"
| "script_steps (Materialise _ _ _) = [MatInsert, MatBuffer, MatRemote, MatList, MatLookup]"
| "script_steps Publish = [PubNode, PubCommit, PubSize, PubUpload, PubConflict, PubRecord, PubStore,
     PubReload, PubClear, PubError, PubDiscard]"
| "script_steps (Remove _) = [RemNode, Handover]"
| "script_steps (Delete _) = [DelNode, RemRemote, RemBuffer, RemRows]"
| "script_steps (Move _ _ _) = [MovNode, Handover]"
| "script_steps (Relocate _ _ _) = [RelNode, MovRemote, MovRows]"
| "script_steps Refresh = [RefNode, RefHydrate]"
| "script_steps Relist = [RelistRemote]"

definition on_script :: "flow \<Rightarrow> bool" where
  "on_script flow \<longleftrightarrow> fl_step flow \<in> set (script_steps (fl_intent flow))"

text \<open>The job each step has handed out while it waits.\<close>

fun awaits :: "step \<Rightarrow> job \<Rightarrow> bool" where
  "awaits FetchNode j = (\<exists>x. j = ReadNode x)"
| "awaits FetchBytes j = (\<exists>x a b. j = ReadBuffer x a b \<or> j = ReadBlob x a b \<or> j = FetchRange x a b)"
| "awaits FetchPrune j = (\<exists>x. j = RemoveRows x)"
| "awaits WriteNode j = (\<exists>x. j = ReadNode x)"
| "awaits WritePrepare j = (\<exists>x. j = HydrateBuffer x \<or> j = CreateBuffer x)"
| "awaits WriteBytes j = (\<exists>x a b. j = WriteBuffer x a b)"
| "awaits StatNode j = (\<exists>x. j = ReadNode x)"
| "awaits LookNode j = (\<exists>x. j = ReadNode x)"
| "awaits LookRemote j = (\<exists>x. j = ListRemote x)"
| "awaits LookChild j = (\<exists>x n. j = ReadChild x n)"
| "awaits StateRead j = (\<exists>x b. j = ReadState x b)"
| "awaits AttrNode j = (\<exists>x. j = ReadNode x)"
| "awaits AttrPrepare j = (\<exists>x. j = HydrateBuffer x \<or> j = CreateBuffer x)"
| "awaits AttrTruncate j = (\<exists>x a. j = TruncateBuffer x a)"
| "awaits AttrMtime j = (\<exists>x a. j = RecordMtime x a)"
| "awaits AttrExec j = (\<exists>x a. j = RecordExec x a)"
| "awaits AttrFinal j = (\<exists>x. j = ReadNode x)"
| "awaits EnumNode j = (\<exists>x. j = ReadNode x)"
| "awaits EnumRemote j = (\<exists>x. j = ListRemote x)"
| "awaits EnumChildren j = (\<exists>x. j = ReadChildren x)"
| "awaits MatInsert j = (\<exists>x n d e. j = InsertNode x n d e)"
| "awaits MatBuffer j = (\<exists>x. j = CreateBuffer x)"
| "awaits MatRemote j = (\<exists>x n. j = CreateRemoteDir x n)"
| "awaits MatList j = (\<exists>x. j = ListRemote x)"
| "awaits MatLookup j = (\<exists>x n. j = ReadChild x n)"
| "awaits PubNode j = (\<exists>x. j = ReadNode x)"
| "awaits PubCommit j = (\<exists>x e t. j = MarkPending x e t)"
| "awaits PubSize j = (\<exists>x. j = BufferSize x)"
| "awaits PubUpload j = (\<exists>x s p t. j = Upload x s p t)"
| "awaits PubConflict j = (\<exists>x e. j = ResolveConflict x e)"
| "awaits PubRecord j = (\<exists>x e s. j = RecordVersion x e s)"
| "awaits PubStore j = (\<exists>x. j = StoreBlob x)"
| "awaits PubReload j = (\<exists>x. j = ListRemote x)"
| "awaits PubClear j = (\<exists>x. j = ClearPending x)"
| "awaits PubError j = (\<exists>x m. j = SetUploadError x m)"
| "awaits PubDiscard j = (\<exists>x. j = DiscardBuffer x)"
| "awaits RemNode j = (\<exists>x n. j = ReadChild x n)"
| "awaits DelNode j = (\<exists>x. j = ReadNode x)"
| "awaits RemRemote j = (\<exists>x. j = DeleteRemote x)"
| "awaits RemBuffer j = (\<exists>x. j = DiscardBuffer x)"
| "awaits RemRows j = (\<exists>x. j = RemoveRows x)"
| "awaits MovNode j = (\<exists>x n. j = ReadChild x n)"
| "awaits RelNode j = (\<exists>x. j = ReadNode x)"
| "awaits MovRemote j = (\<exists>x p n. j = MoveRemote x p n)"
| "awaits MovRows j = (\<exists>x p n. j = MoveRows x p n)"
| "awaits Handover j = False"
| "awaits RefNode j = (\<exists>x. j = ReadNode x)"
| "awaits RefHydrate j = (\<exists>x. j = HydrateCache x)"
| "awaits RelistRemote j = (\<exists>x. j = ListRemote x)"

text \<open>
  What a decision leaves behind is well formed: a flow that goes on waits for the job it
  handed out, an early answer is given for the local commit of a publish only, and a
  hand-over is what a \<open>Remove\<close> or a \<open>Move\<close> parks on.
\<close>

fun next_ok :: "flow \<Rightarrow> flow_next \<Rightarrow> bool" where
  "next_ok flow (Do j) = awaits (fl_step flow) j"
| "next_ok flow (AnswerThen j) = (awaits (fl_step flow) j \<and> fl_intent flow = Publish \<and> fl_step flow = PubSize)"
| "next_ok flow (Handoff obj i) =
     (fl_step flow = Handover \<and>
      (case fl_intent flow of
         Remove _ \<Rightarrow> i = Delete (fl_object flow)
       | Move _ p n \<Rightarrow> i = Relocate (fl_object flow) p n
       | _ \<Rightarrow> False))"
| "next_ok flow Done = True"
| "next_ok flow (Fail f) = True"
| "next_ok flow Abandoned = True"

lemma start_on_script: "start obj i w facts = (flow, nxt) \<Longrightarrow> on_script flow \<and> next_ok flow nxt"
  by (cases i) (auto simp: start_def start_step_def publish_start_def on_script_def split: if_splits)

lemma start_not_handoff:
  "start obj i w facts = (flow, nxt) \<Longrightarrow> nxt \<noteq> Handoff to j \<and> nxt \<noteq> AnswerThen job \<and> nxt \<noteq> Abandoned \<and> nxt \<noteq> Fail f"
  by (cases i) (auto simp: start_def start_step_def publish_start_def split: if_splits)

lemma advance_step_on_script:
  assumes "on_script flow"
  shows "on_script (fst (advance_step flow c facts)) \<and>
         next_ok (fst (advance_step flow c facts)) (snd (advance_step flow c facts))"
proof -
  have "fl_step flow \<in> set (script_steps (fl_intent flow))" using assms by (simp add: on_script_def)
  then show ?thesis
    by (cases "fl_intent flow"; simp; (elim disjE)?;
        simp add: on_script_def advance_step_def arm_defs decision_defs Let_def split: completion.split option.split)
qed

lemma advance_failed_on_script:
  assumes "on_script flow"
  shows "on_script (fst (advance_failed flow f)) \<and>
         next_ok (fst (advance_failed flow f)) (snd (advance_failed flow f))"
proof (cases "fl_step flow = FetchBytes \<and> f = Stale")
  case True
  with assms obtain a b where "fl_intent flow = Fetch a b" unfolding on_script_def by (cases "fl_intent flow") auto
  with True show ?thesis by (simp add: advance_failed_def on_script_def)
next
  case False
  show ?thesis
  proof (cases "past_commit flow \<and> f = Permanent")
    case True
    then have "fl_intent flow = Publish" by (simp add: past_commit_def)
    then show ?thesis unfolding advance_failed_def if_not_P [OF False] if_P [OF True] by (simp add: on_script_def)
  next
    case none: False
    show ?thesis unfolding advance_failed_def if_not_P [OF False] if_not_P [OF none] using assms by simp
  qed
qed

lemma advance_on_script:
  assumes "on_script flow" and "advance flow c facts = (flow', nxt)"
  shows "on_script flow'" and "next_ok flow' nxt"
proof -
  have "on_script (fst (advance flow c facts)) \<and>
        next_ok (fst (advance flow c facts)) (snd (advance flow c facts))"
    using assms(1) advance_step_on_script advance_failed_on_script
    by (cases rule: advance_cases [of flow c facts]) auto
  with assms(2) show "on_script flow'" and "next_ok flow' nxt" by simp_all
qed

end
