(* ===== verification/Fsm_Collision.thy ===== *)
theory Fsm_Collision
  imports Fsm_Script_Inv
begin

text \<open>
  What happens when a request arrives for a busy object
  (\<open>crates/wusel-fsm/src/collision.rs\<close>): the whole concurrency policy, as one function of
  the running flow, the arriving intent and the buffer facts.
\<close>

datatype collision_decision = Queue | Join | Abort | Skip

definition collision :: "flow \<Rightarrow> intent \<Rightarrow> facts \<Rightarrow> collision_decision" where
  "collision running arriving facts =
     (if arriving = Refresh \<and> fa_buffer_dirty facts then Skip
      else if fl_step running = PubConflict then Queue
      else case fl_intent running of
        Fetch offset len \<Rightarrow>
          (case arriving of
             Fetch o2 l2 \<Rightarrow> (if offset = o2 \<and> len = l2 then Join else Queue)
           | _ \<Rightarrow> Queue)
      | Write _ _ \<Rightarrow> Queue
      | Enumerate \<Rightarrow> (case arriving of Enumerate \<Rightarrow> Join | Relist \<Rightarrow> Skip | _ \<Rightarrow> Queue)
      | Relist \<Rightarrow> (case arriving of Relist \<Rightarrow> Skip | _ \<Rightarrow> Queue)
      | Publish \<Rightarrow> Queue
      | Refresh \<Rightarrow>
          (case arriving of
             Remove _ \<Rightarrow> Abort
           | Delete _ \<Rightarrow> Abort
           | Refresh \<Rightarrow> Skip
           | _ \<Rightarrow> Queue)
      | Stat \<Rightarrow> Queue
      | Materialise _ _ _ \<Rightarrow> Queue
      | Remove _ \<Rightarrow> Queue
      | Move _ _ _ \<Rightarrow> Queue
      | Relocate _ _ _ \<Rightarrow> Queue
      | Delete _ \<Rightarrow> Queue
      | Lookup _ \<Rightarrow> Queue
      | State \<Rightarrow> Queue
      | SetAttr _ _ _ \<Rightarrow> Queue)"

section \<open>The policy table, decision by decision\<close>

text \<open>A flow never joins another unless both want the same transfer or the same listing.\<close>

lemma collision_Join_iff:
  "collision running arriving facts = Join \<longleftrightarrow>
     fl_step running \<noteq> PubConflict \<and>
     ((\<exists>off len. fl_intent running = Fetch off len \<and> arriving = Fetch off len) \<or>
      (fl_intent running = Enumerate \<and> arriving = Enumerate))"
  by (cases "fl_intent running"; cases arriving) (auto simp: collision_def)

lemma collision_Abort_iff:
  "collision running arriving facts = Abort \<longleftrightarrow>
     fl_step running \<noteq> PubConflict \<and> fl_intent running = Refresh \<and>
     ((\<exists>n. arriving = Remove n) \<or> (\<exists>p. arriving = Delete p))"
  by (cases "fl_intent running"; cases arriving) (auto simp: collision_def)

lemma collision_Skip_iff:
  "collision running arriving facts = Skip \<longleftrightarrow>
     (arriving = Refresh \<and> fa_buffer_dirty facts) \<or>
     (fl_step running \<noteq> PubConflict \<and>
       ((arriving = Relist \<and> fl_intent running \<in> {Enumerate, Relist}) \<or>
        (arriving = Refresh \<and> fl_intent running = Refresh)))"
  by (cases "fl_intent running"; cases arriving) (auto simp: collision_def)

lemma collision_Queue_iff:
  "collision running arriving facts = Queue \<longleftrightarrow>
     collision running arriving facts \<notin> {Join, Abort, Skip}"
  by (cases "collision running arriving facts") auto

lemmas collision_iffs = collision_Join_iff collision_Abort_iff collision_Skip_iff

text \<open>Work that changes rows or the server is never given up for an arrival.\<close>

lemma changing_flow_never_aborted:
  "changes_state (fl_intent running) \<Longrightarrow> collision running arriving facts \<noteq> Abort"
  by (auto simp: collision_Abort_iff)

text \<open>An arrival that changes state is never dropped or answered by another flow.\<close>

lemma changing_arrival_waits:
  "changes_state arriving \<Longrightarrow> collision running arriving facts \<in> {Queue, Abort}"
  by (cases "collision running arriving facts") (auto simp: collision_iffs)

end
