(* ===== verification/Fsm_Machine.thy ===== *)
theory Fsm_Machine
  imports Fsm_Collision
begin

text \<open>
  Occupancy (\<open>crates/wusel-fsm/src/machine.rs\<close>): what every object is doing, who waits on
  it, and the actions each entry point returns. \<open>request\<close>, \<open>begin\<close>, \<open>begin_beside\<close>
  and \<open>settle\<close> call each other in the source and are one mutual recursion here;
  \<open>hand_over\<close> is the loop of \<open>settle\<close> over the waiters of a hand-over. The recursion
  ends because a script never begins with a hand-over.
\<close>

section \<open>State and actions\<close>

datatype outcome = Ok | FailedWith failure

datatype action =
    Dispatch object_id job
  | Schedule object_id intent
  | RefreshBeside object_id
  | ReadBeside object_id job request_id
  | Answer object_id "request_id list" outcome

record busy =
  bz_flow :: flow
  bz_outstanding :: "job option"
  bz_queue :: "request list"

record machine =
  mc_busy :: "(object_id, busy) hash_map"
  mc_beside :: "(request_id, flow) hash_map"
  mc_registry :: registry
  mc_async_upload :: bool
  mc_releases :: "object_id list"

definition machine_new :: machine where
  "machine_new = \<lparr>mc_busy = [], mc_beside = [], mc_registry = registry_new,
     mc_async_upload = True, mc_releases = []\<rparr>"

definition set_async_upload :: "machine \<Rightarrow> bool \<Rightarrow> machine" where
  "set_async_upload m b = m\<lparr>mc_async_upload := b\<rparr>"

definition is_busy :: "machine \<Rightarrow> object_id \<Rightarrow> bool" where
  "is_busy m obj \<longleftrightarrow> hm_get (mc_busy m) obj \<noteq> None"

definition changing_objects :: "machine \<Rightarrow> object_id list" where
  "changing_objects m =
     map fst (filter (\<lambda>(_, b). changes_state (fl_intent (bz_flow b))) (mc_busy m))"

definition handed_over_from :: "intent \<Rightarrow> object_id option" where
  "handed_over_from intent =
     (case intent of
        Relocate from_parent _ _ \<Rightarrow> Some from_parent
      | Delete from_parent \<Rightarrow> Some from_parent
      | _ \<Rightarrow> None)"

definition answer_interrupted :: "object_id \<Rightarrow> request_id \<Rightarrow> action" where
  "answer_interrupted obj r = Answer obj [r] (FailedWith Interrupted)"

definition put_busy :: "machine \<Rightarrow> object_id \<Rightarrow> flow \<Rightarrow> job option \<Rightarrow> request list \<Rightarrow> machine" where
  "put_busy m obj flow out q =
     m\<lparr>mc_busy := hm_insert obj \<lparr>bz_flow = flow, bz_outstanding = out, bz_queue = q\<rparr> (mc_busy m)\<rparr>"

section \<open>The end of a flow\<close>

text \<open>The outcome a finished flow reports, \<open>None\<close> while it still runs.\<close>

definition ending :: "flow_next \<Rightarrow> outcome option" where
  "ending nxt =
     (case nxt of
        Done \<Rightarrow> Some Ok
      | Fail f \<Rightarrow> Some (FailedWith f)
      | Abandoned \<Rightarrow> Some (FailedWith Interrupted)
      | Do _ \<Rightarrow> None
      | AnswerThen _ \<Rightarrow> None
      | Handoff _ _ \<Rightarrow> None)"

definition end_actions :: "object_id \<Rightarrow> flow \<Rightarrow> outcome \<Rightarrow> action list" where
  "end_actions obj flow out =
     (if fl_waiters flow = [] then [] else [Answer obj (fl_waiters flow) out]) @
     (case fl_intent flow of
        Relocate _ _ _ \<Rightarrow>
          (if \<not> nf_materialised (ca_node (fl_carry flow)) \<and> nf_id (ca_node (fl_carry flow)) \<noteq> default_object
           then [Schedule (nf_id (ca_node (fl_carry flow))) Publish] else [])
      | _ \<Rightarrow> []) @
     (if fl_intent flow = Enumerate \<and> nf_listing_stale (ca_node (fl_carry flow))
      then [RefreshBeside obj] else [])"

definition end_release :: "machine \<Rightarrow> flow \<Rightarrow> machine" where
  "end_release m flow =
     (case handed_over_from (fl_intent flow) of
        Some parent \<Rightarrow> m\<lparr>mc_releases := parent # mc_releases m\<rparr>
      | None \<Rightarrow> m)"

section \<open>Requests\<close>

fun is_handoff :: "flow_next \<Rightarrow> bool" where
  "is_handoff (Handoff _ _) = True"
| "is_handoff _ = False"

lemma start_no_handoff: "(f, n) = start obj i w facts \<Longrightarrow> \<not> is_handoff n"
  using start_not_handoff [of obj i w facts f n] by (cases n) auto

lemma start_ne_handoff [simp]: "(f, Handoff to j) \<noteq> start obj i w facts"
  using start_no_handoff [of f "Handoff to j" obj i w facts] by auto

function (sequential)
  machine_request :: "machine \<Rightarrow> request \<Rightarrow> machine \<times> action list"
  and begin_flow :: "machine \<Rightarrow> request \<Rightarrow> machine \<times> action list"
  and begin_beside :: "machine \<Rightarrow> request \<Rightarrow> machine \<times> action list"
  and settle :: "machine \<Rightarrow> object_id \<Rightarrow> flow \<Rightarrow> flow_next \<Rightarrow> request list \<Rightarrow> machine \<times> action list"
  and hand_over :: "machine \<Rightarrow> object_id \<Rightarrow> intent \<Rightarrow> request_id list \<Rightarrow> machine \<times> action list"
where
  "machine_request m r =
     (let obj = rq_object r in
      case hm_get (mc_busy m) obj of
        None \<Rightarrow> begin_flow m r
      | Some b \<Rightarrow>
          (if rq_intent r = Stat \<or> rq_intent r = State then begin_beside m r
           else
             let facts = registry_facts (mc_registry m) obj;
                 flow = bz_flow b;
                 queued = put_busy m obj flow (bz_outstanding b) (bz_queue b @ [r])
             in case collision flow (rq_intent r) facts of
                  Queue \<Rightarrow> (queued, [])
                | Join \<Rightarrow>
                    (if fl_abort flow then (queued, [])
                     else (put_busy m obj (flow\<lparr>fl_waiters := fl_waiters flow @ [rq_id r]\<rparr>)
                             (bz_outstanding b) (bz_queue b), []))
                | Abort \<Rightarrow>
                    (put_busy m obj (flow\<lparr>fl_abort := True\<rparr>) (bz_outstanding b) (bz_queue b @ [r]), [])
                | Skip \<Rightarrow> (m, [Answer obj [rq_id r] Ok])))"
| "begin_flow m r =
     (let obj = rq_object r;
          (flow, nxt) = start obj (rq_intent r) (rq_id r) (registry_facts (mc_registry m) obj)
      in settle m obj flow nxt [])"
| "begin_beside m r =
     (let obj = rq_object r;
          (flow, nxt) = start obj (rq_intent r) (rq_id r) (registry_facts (mc_registry m) obj)
      in case nxt of
           Do j \<Rightarrow> (m\<lparr>mc_beside := hm_insert (rq_id r) flow (mc_beside m)\<rparr>, [ReadBeside obj j (rq_id r)])
         | _ \<Rightarrow> settle m obj flow nxt [])"
| "settle m obj flow (Do j) q = (put_busy m obj flow (Some j) q, [Dispatch obj j])"
| "settle m obj flow (AnswerThen j) q =
     (if mc_async_upload m \<and> fl_waiters flow \<noteq> [] then
        (put_busy m obj (flow\<lparr>fl_waiters := []\<rparr>) (Some j) q,
         [Answer obj (fl_waiters flow) Ok, Dispatch obj j])
      else (put_busy m obj flow (Some j) q, [Dispatch obj j]))"
| "settle m obj flow (Handoff to i) q =
     (let m' = put_busy m obj (flow\<lparr>fl_waiters := []\<rparr>) None q
      in if fl_waiters flow = [] then (m', [Schedule to i])
         else hand_over m' to i (fl_waiters flow))"
| "settle m obj flow nxt q =
     (let acts = (case ending nxt of Some out \<Rightarrow> end_actions obj flow out | None \<Rightarrow> []);
          m' = end_release m flow
      in case q of
           [] \<Rightarrow> (m', acts)
         | r # q' \<Rightarrow>
             (let (f, n) = start obj (rq_intent r) (rq_id r) (registry_facts (mc_registry m') obj);
                  (m'', acts') = settle m' obj f n q'
              in (m'', acts @ acts')))"
| "hand_over m to i [] = (m, [])"
| "hand_over m to i (w # ws) =
     (let (m', acts) = machine_request m \<lparr>rq_id = w, rq_object = to, rq_intent = i\<rparr>;
          (m'', acts') = hand_over m' to i ws
      in (m'', acts @ acts'))"
  by pat_completeness auto
termination
  by (relation "measures
      [case_sum (case_sum (\<lambda>_. 1) (\<lambda>_. 1))
         (case_sum (\<lambda>_. 1)
            (case_sum (\<lambda>(m, obj, flow, nxt, q). if is_handoff nxt then 3 else 0) (\<lambda>_. 2))),
       case_sum (case_sum (\<lambda>_. 1) (\<lambda>_. 0))
         (case_sum (\<lambda>_. 0)
            (case_sum (\<lambda>(m, obj, flow, nxt, q). length q) (\<lambda>(m, to, i, ws). length ws)))]")
    (auto elim: is_handoff.elims)

declare machine_request.simps [simp del] begin_flow.simps [simp del] begin_beside.simps [simp del]

section \<open>Releasing parked parents\<close>

definition parked :: "busy \<Rightarrow> bool" where
  "parked b \<longleftrightarrow> fl_step (bz_flow b) = Handover \<and> bz_outstanding b = None"

definition release_parked :: "machine \<Rightarrow> object_id \<Rightarrow> machine \<times> action list" where
  "release_parked m parent =
     (case hm_get (mc_busy m) parent of
        Some b \<Rightarrow>
          (if parked b
           then settle (m\<lparr>mc_busy := hm_remove parent (mc_busy m)\<rparr>) parent (bz_flow b) Done (bz_queue b)
           else (m, []))
      | None \<Rightarrow> (m, []))"

text \<open>
  Settling a flow that is not handed over changes the bookkeeping of its own object only:
  either the object is idle afterwards, or it is busy with a job handed out.
\<close>

lemma start_shape: "start obj i w facts = (f, n) \<Longrightarrow> n = Done \<or> (\<exists>j. n = Do j)"
  by (cases i) (auto simp: start_def start_step_def publish_start_def split: if_splits)

lemma settle_own_object:
  assumes "\<not> is_handoff nxt" and "obj \<notin> fst ` set (mc_busy m)"
  shows "mc_busy (fst (settle m obj flow nxt q)) = mc_busy m \<or>
    (\<exists>b. mc_busy (fst (settle m obj flow nxt q)) = hm_insert obj b (mc_busy m) \<and> bz_outstanding b \<noteq> None)"
  using assms
proof (induction q arbitrary: m flow nxt)
  case Nil
  then show ?case
    by (cases nxt) (auto simp: put_busy_def end_release_def Let_def split: option.splits)
next
  case (Cons r q)
  let ?m = "end_release m flow"
  let ?s = "start obj (rq_intent r) (rq_id r) (registry_facts (mc_registry ?m) obj)"
  have same: "mc_busy ?m = mc_busy m"
    by (simp add: end_release_def split: option.split)
  have "\<not> is_handoff (snd ?s)"
    using start_no_handoff [of "fst ?s" "snd ?s"] by simp
  then have "mc_busy (fst (settle ?m obj (fst ?s) (snd ?s) q)) = mc_busy m \<or>
      (\<exists>b. mc_busy (fst (settle ?m obj (fst ?s) (snd ?s) q)) = hm_insert obj b (mc_busy m) \<and>
           bz_outstanding b \<noteq> None)"
    using Cons.IH [of "snd ?s" ?m "fst ?s"] Cons.prems(2) same by simp
  with Cons.prems(1) show ?case
    by (cases nxt) (auto simp: put_busy_def Let_def split: prod.splits)
qed

definition parked_count :: "machine \<Rightarrow> nat" where
  "parked_count m = length (filter (\<lambda>(_, b). parked b) (mc_busy m))"

lemma filter_hm_remove_le: "length (filter P (hm_remove k m)) \<le> length (filter P m)"
  by (induction m) auto

lemma parked_remove_less:
  "hm_get m k = Some b \<Longrightarrow> parked b \<Longrightarrow>
     length (filter (\<lambda>(_, b). parked b) (hm_remove k m)) < length (filter (\<lambda>(_, b). parked b) m)"
  by (induction m) (auto simp: less_Suc_eq_le filter_hm_remove_le split: if_splits)

lemma hm_insert_absent: "k \<notin> fst ` set m \<Longrightarrow> hm_insert k v m = m @ [(k, v)]"
  by (induction m) auto

lemma hm_insert_removed: "hm_insert k v (hm_remove k m) = hm_remove k m @ [(k, v)]"
  by (rule hm_insert_absent) (simp add: hm_get_None_iff [symmetric] store_simps)

declare settle.simps [simp del]

lemma release_parked_decreases:
  assumes "hm_get (mc_busy m) parent = Some b" and "parked b"
  shows "parked_count (fst (release_parked m parent)) < parked_count m"
proof -
  let ?m = "m\<lparr>mc_busy := hm_remove parent (mc_busy m)\<rparr>"
  have absent: "parent \<notin> fst ` set (mc_busy ?m)"
    by (simp add: hm_get_None_iff [symmetric] store_simps)
  have "parked_count (fst (settle ?m parent (bz_flow b) Done (bz_queue b))) = parked_count ?m"
    using settle_own_object [of Done parent ?m "bz_flow b" "bz_queue b", OF _ absent]
    by (auto simp: parked_count_def hm_insert_removed parked_def)
  then show ?thesis
    using assms parked_remove_less [OF assms] by (simp add: release_parked_def parked_count_def)
qed

lemma release_parked_idle:
  "(\<And>b. hm_get (mc_busy m) parent = Some b \<Longrightarrow> \<not> parked b) \<Longrightarrow> release_parked m parent = (m, [])"
  by (simp add: release_parked_def split: option.split)

function release_ended :: "machine \<Rightarrow> machine \<times> action list" where
  "release_ended m =
     (case mc_releases m of
        [] \<Rightarrow> (m, [])
      | parent # rest \<Rightarrow>
          (let (m', acts) = release_parked (m\<lparr>mc_releases := rest\<rparr>) parent;
               (m'', acts') = release_ended m'
           in (m'', acts @ acts')))"
  by pat_completeness auto
termination
proof (relation "measures [parked_count, \<lambda>m. length (mc_releases m)]", goal_cases)
  case 1
  show ?case by simp
next
  case (2 m parent rest xy m' acts)
  let ?m = "m\<lparr>mc_releases := rest\<rparr>"
  have count: "parked_count ?m = parked_count m"
    by (simp add: parked_count_def)
  from 2 have m': "m' = fst (release_parked ?m parent)"
    by (metis fst_conv)
  show ?case
  proof (cases "\<exists>b. hm_get (mc_busy m) parent = Some b \<and> parked b")
    case True
    then have "parked_count m' < parked_count m"
      using release_parked_decreases [of ?m parent] count m' by auto
    then show ?thesis by simp
  next
    case False
    then have "m' = ?m"
      using release_parked_idle [of ?m parent] m' by auto
    with 2 count show ?thesis by simp
  qed
qed

declare release_ended.simps [simp del]

section \<open>Completions\<close>

definition apply_to_registry ::
  "registry \<Rightarrow> job \<Rightarrow> intent \<Rightarrow> completion \<Rightarrow> string \<Rightarrow> bool \<Rightarrow> registry" where
  "apply_to_registry reg job intent c base_etag ignored =
     (case c of
        JobFailed _ \<Rightarrow> reg
      | _ \<Rightarrow>
          (let fresh = (buffer_new base_etag)\<lparr>bf_ignored := ignored,
                         bf_dirty := (case intent of Materialise _ _ _ \<Rightarrow> True | _ \<Rightarrow> False)\<rparr>
           in case job of
                CreateBuffer obj \<Rightarrow> registry_open reg obj fresh
              | HydrateBuffer obj \<Rightarrow> registry_open reg obj fresh
              | WriteBuffer obj _ _ \<Rightarrow> mark_dirty reg obj
              | TruncateBuffer obj _ \<Rightarrow> mark_dirty reg obj
              | RecordMtime obj mtime \<Rightarrow> set_pending_mtime reg obj mtime
              | DiscardBuffer obj \<Rightarrow> fst (registry_close reg obj)
              | RecordVersion obj etag _ \<Rightarrow> set_base_etag reg obj etag
              | _ \<Rightarrow> reg))"

definition machine_completion :: "machine \<Rightarrow> object_id \<Rightarrow> completion \<Rightarrow> machine \<times> action list" where
  "machine_completion m obj c =
     (case hm_get (mc_busy m) obj of
        None \<Rightarrow> (m, [])
      | Some b \<Rightarrow>
          (let flow = bz_flow b;
               reg = (case bz_outstanding b of
                        Some job \<Rightarrow> apply_to_registry (mc_registry m) job (fl_intent flow) c
                          (nf_etag (ca_node (fl_carry flow))) (nf_ignored (ca_node (fl_carry flow)))
                      | None \<Rightarrow> mc_registry m);
               m1 = m\<lparr>mc_busy := hm_remove obj (mc_busy m), mc_registry := reg\<rparr>;
               (flow', nxt) = advance flow c (registry_facts reg obj)
           in settle m1 obj flow' nxt (bz_queue b)))"

section \<open>Abandoned requests\<close>

text \<open>The first queued request with this ticket, and the queue without it.\<close>

fun take_request :: "request_id \<Rightarrow> request list \<Rightarrow> (request \<times> request list) option" where
  "take_request t [] = None"
| "take_request t (r # rs) =
     (if rq_id r = t then Some (r, rs)
      else map_option (\<lambda>(q, rest). (q, r # rest)) (take_request t rs))"

text \<open>
  One busy object: is the request riding on its flow, or waiting in its queue? The second
  component is the parent a queued hand-over keeps parked.
\<close>

definition abandon_entry :: "request_id \<Rightarrow> busy \<Rightarrow> (busy \<times> object_id option) option" where
  "abandon_entry t b =
     (let flow = bz_flow b in
      if t \<in> set (fl_waiters flow) then
        (let ws = remove1 t (fl_waiters flow)
         in Some (b\<lparr>bz_flow := flow\<lparr>fl_waiters := ws,
                       fl_abort := (if ws = [] then True else fl_abort flow)\<rparr>\<rparr>, None))
      else
        (case take_request t (bz_queue b) of
           Some (r, rest) \<Rightarrow> Some (b\<lparr>bz_queue := rest\<rparr>, handed_over_from (rq_intent r))
         | None \<Rightarrow> None))"

text \<open>The scan over the busy objects stops at the first that knows the request.\<close>

fun abandon_scan ::
  "request_id \<Rightarrow> (object_id, busy) hash_map \<Rightarrow>
     ((object_id, busy) hash_map \<times> object_id \<times> object_id option) option" where
  "abandon_scan t [] = None"
| "abandon_scan t ((obj, b) # rest) =
     (case abandon_entry t b of
        Some (b', rel) \<Rightarrow> Some ((obj, b') # rest, obj, rel)
      | None \<Rightarrow> map_option (\<lambda>(rest', o', rel). ((obj, b) # rest', o', rel)) (abandon_scan t rest))"

definition abandon_request :: "machine \<Rightarrow> request_id \<Rightarrow> machine \<times> action list" where
  "abandon_request m t =
     (case abandon_scan t (mc_busy m) of
        Some (bs, obj, rel) \<Rightarrow>
          (m\<lparr>mc_busy := bs,
             mc_releases := (case rel of Some p \<Rightarrow> p # mc_releases m | None \<Rightarrow> mc_releases m)\<rparr>,
           [answer_interrupted obj t])
      | None \<Rightarrow> (m, []))"

section \<open>Entry points\<close>

definition on_request :: "machine \<Rightarrow> request \<Rightarrow> machine \<times> action list" where
  "on_request m r =
     (let (m', acts) = machine_request m r; (m'', acts') = release_ended m' in (m'', acts @ acts'))"

definition on_completion :: "machine \<Rightarrow> object_id \<Rightarrow> completion \<Rightarrow> machine \<times> action list" where
  "on_completion m obj c =
     (let (m', acts) = machine_completion m obj c; (m'', acts') = release_ended m' in (m'', acts @ acts'))"

definition abandon :: "machine \<Rightarrow> request_id \<Rightarrow> machine \<times> action list" where
  "abandon m t =
     (let (m', acts) = abandon_request m t; (m'', acts') = release_ended m' in (m'', acts @ acts'))"

definition on_beside :: "machine \<Rightarrow> request_id \<Rightarrow> completion \<Rightarrow> machine \<times> outcome" where
  "on_beside m t c =
     (case hm_get (mc_beside m) t of
        None \<Rightarrow> (m, FailedWith Interrupted)
      | Some flow \<Rightarrow>
          (let m' = m\<lparr>mc_beside := hm_remove t (mc_beside m)\<rparr>;
               (flow', nxt) = advance flow c (registry_facts (mc_registry m) (fl_object flow))
           in (m', case nxt of Fail f \<Rightarrow> FailedWith f | _ \<Rightarrow> Ok)))"

end
