(* ===== verification/Fsm_Snapshot.thy ===== *)
theory Fsm_Snapshot
  imports Fsm_Machine
begin

text \<open>
  The read-only, name-free picture of the machine that diagnostics reads
  (\<open>MachineSnapshot\<close>, \<open>BusyObject\<close> and \<open>Machine::snapshot\<close> in
  \<open>crates/wusel-fsm/src/machine.rs\<close>). The step label is the \<open>Debug\<close> rendering of the
  unit variant.
\<close>

fun step_debug :: "step \<Rightarrow> string" where
  "step_debug FetchNode = ''FetchNode''"
| "step_debug FetchBytes = ''FetchBytes''"
| "step_debug FetchPrune = ''FetchPrune''"
| "step_debug WriteNode = ''WriteNode''"
| "step_debug WritePrepare = ''WritePrepare''"
| "step_debug WriteBytes = ''WriteBytes''"
| "step_debug StatNode = ''StatNode''"
| "step_debug LookNode = ''LookNode''"
| "step_debug LookRemote = ''LookRemote''"
| "step_debug LookChild = ''LookChild''"
| "step_debug StateRead = ''StateRead''"
| "step_debug AttrNode = ''AttrNode''"
| "step_debug AttrPrepare = ''AttrPrepare''"
| "step_debug AttrTruncate = ''AttrTruncate''"
| "step_debug AttrMtime = ''AttrMtime''"
| "step_debug AttrExec = ''AttrExec''"
| "step_debug AttrFinal = ''AttrFinal''"
| "step_debug EnumNode = ''EnumNode''"
| "step_debug EnumRemote = ''EnumRemote''"
| "step_debug EnumChildren = ''EnumChildren''"
| "step_debug MatInsert = ''MatInsert''"
| "step_debug MatBuffer = ''MatBuffer''"
| "step_debug MatRemote = ''MatRemote''"
| "step_debug MatList = ''MatList''"
| "step_debug MatLookup = ''MatLookup''"
| "step_debug PubNode = ''PubNode''"
| "step_debug PubCommit = ''PubCommit''"
| "step_debug PubSize = ''PubSize''"
| "step_debug PubUpload = ''PubUpload''"
| "step_debug PubConflict = ''PubConflict''"
| "step_debug PubRecord = ''PubRecord''"
| "step_debug PubStore = ''PubStore''"
| "step_debug PubReload = ''PubReload''"
| "step_debug PubClear = ''PubClear''"
| "step_debug PubError = ''PubError''"
| "step_debug PubDiscard = ''PubDiscard''"
| "step_debug RemNode = ''RemNode''"
| "step_debug DelNode = ''DelNode''"
| "step_debug RemRemote = ''RemRemote''"
| "step_debug RemBuffer = ''RemBuffer''"
| "step_debug RemRows = ''RemRows''"
| "step_debug MovNode = ''MovNode''"
| "step_debug RelNode = ''RelNode''"
| "step_debug MovRemote = ''MovRemote''"
| "step_debug MovRows = ''MovRows''"
| "step_debug Handover = ''Handover''"
| "step_debug RefNode = ''RefNode''"
| "step_debug RefHydrate = ''RefHydrate''"
| "step_debug RelistRemote = ''RelistRemote''"

record busy_object =
  bo_object :: u64
  bo_intent :: string
  bo_step :: string
  bo_outstanding :: bool
  bo_waiters :: nat
  bo_queued :: nat
  bo_abort :: bool

record machine_snapshot =
  ms_objects :: "busy_object list"
  ms_buffers_open :: nat
  ms_buffers_dirty :: nat

definition busy_object_of :: "object_id \<times> busy \<Rightarrow> busy_object" where
  "busy_object_of = (\<lambda>(obj, b).
     \<lparr>bo_object = object_raw obj, bo_intent = intent_kind (fl_intent (bz_flow b)),
      bo_step = step_debug (fl_step (bz_flow b)), bo_outstanding = (bz_outstanding b \<noteq> None),
      bo_waiters = length (fl_waiters (bz_flow b)), bo_queued = length (bz_queue b),
      bo_abort = fl_abort (bz_flow b)\<rparr>)"

definition snapshot :: "machine \<Rightarrow> machine_snapshot" where
  "snapshot m =
     \<lparr>ms_objects = sort_key bo_object (map busy_object_of (mc_busy m)),
      ms_buffers_open = registry_len (mc_registry m),
      ms_buffers_dirty = dirty_count (mc_registry m)\<rparr>"

text \<open>The label of a step names it: no two steps share one.\<close>

lemma busy_object_of_object [simp]: "bo_object (busy_object_of kb) = object_raw (fst kb)"
  by (cases kb) (simp add: busy_object_of_def)

lemma object_raw_inj [simp]: "object_raw a = object_raw b \<longleftrightarrow> a = b"
  by (auto intro: object_id.expand)

lemma inj_on_keys: "hm_wf m \<Longrightarrow> inj_on (\<lambda>kb. object_raw (fst kb)) (set m)"
  unfolding hm_wf_def inj_on_def by (auto simp: eq_key_imp_eq_value)

text \<open>
  The order of a snapshot does not depend on the iteration order of the hash map: two
  representations of the same busy objects give the same snapshot.
\<close>

lemma snapshot_objects_order:
  assumes "hm_wf bs" and "mset bs = mset bs'"
  shows "sort_key bo_object (map busy_object_of bs) = sort_key bo_object (map busy_object_of bs')"
proof (rule sort_key_inj_key_eq)
  show "mset (map busy_object_of bs) = mset (sort_key bo_object (map busy_object_of bs'))"
    using assms(2) by simp
  show "inj_on bo_object (set (map busy_object_of bs))"
    using inj_on_keys [OF assms(1)] by (auto simp: inj_on_def)
  show "sorted (map bo_object (sort_key bo_object (map busy_object_of bs')))"
    by (rule sorted_sort_key)
qed

end
