(* ===== verification/Fsm_Tickets.thy ===== *)
theory Fsm_Tickets
  imports Fsm_Machine
begin

text \<open>
  Accounting of replies. Every caller holds a ticket (\<open>RequestId\<close>); the machine owes each
  ticket it has accepted exactly one answer. The tickets a state still owes are a multiset:
  the waiters of the running flows, the requests queued behind them, and the reads running
  beside. Each entry point moves tickets between what is owed and what is answered, and
  neither loses nor invents one.
\<close>

section \<open>What is owed, what is answered\<close>

definition busy_owes :: "busy \<Rightarrow> request_id multiset" where
  "busy_owes b = mset (fl_waiters (bz_flow b)) + mset (map rq_id (bz_queue b))"

definition owed :: "machine \<Rightarrow> request_id multiset" where
  "owed m = hm_sum busy_owes (mc_busy m) + mset (map fst (mc_beside m))"

fun action_answers :: "action \<Rightarrow> request_id multiset" where
  "action_answers (Answer _ rs _) = mset rs"
| "action_answers _ = {#}"

definition answered :: "action list \<Rightarrow> request_id multiset" where
  "answered acts = sum_list (map action_answers acts)"

lemma answered_Nil [simp]: "answered [] = {#}"
  and answered_Cons [simp]: "answered (a # acts) = action_answers a + answered acts"
  and answered_append [simp]: "answered (acts @ acts') = answered acts + answered acts'"
  by (simp_all add: answered_def)

lemma answered_end_actions [ticket_simps]: "answered (end_actions obj flow out) = mset (fl_waiters flow)"
  by (simp add: end_actions_def split: intent.split)

text \<open>Ending a flow answers everyone who waits on it and changes nothing that is owed.\<close>

lemma end_release_fields [frame_simps]:
  "mc_busy (end_release m flow) = mc_busy m"
  "mc_beside (end_release m flow) = mc_beside m"
  "mc_registry (end_release m flow) = mc_registry m"
  "mc_async_upload (end_release m flow) = mc_async_upload m"
  by (simp_all add: end_release_def split: option.split)

lemma owed_end_release [ticket_simps]: "owed (end_release m flow) = owed m"
  by (simp add: owed_def frame_simps)

lemma put_busy_fields [frame_simps]:
  "mc_beside (put_busy m obj flow out q) = mc_beside m"
  "mc_registry (put_busy m obj flow out q) = mc_registry m"
  "mc_releases (put_busy m obj flow out q) = mc_releases m"
  "mc_async_upload (put_busy m obj flow out q) = mc_async_upload m"
  "mc_busy (put_busy m obj flow out q) =
     hm_insert obj \<lparr>bz_flow = flow, bz_outstanding = out, bz_queue = q\<rparr> (mc_busy m)"
  by (simp_all add: put_busy_def)

lemma hm_sum_insert_absent:
  "hm_get m k = None \<Longrightarrow> hm_sum f (hm_insert k v m) = f v + hm_sum f m"
  by (simp add: hm_get_None_iff hm_insert_absent hm_sum_def ac_simps)

lemma owed_put_idle:
  "hm_get (mc_busy m) obj = None \<Longrightarrow>
     owed (put_busy m obj flow out q) = mset (fl_waiters flow) + mset (map rq_id q) + owed m"
  by (simp add: owed_def frame_simps hm_sum_insert_absent busy_owes_def)

lemma owed_put_busy:
  assumes "hm_wf (mc_busy m)" and "hm_get (mc_busy m) obj = Some b"
  shows "owed (put_busy m obj flow out q) + busy_owes b =
         mset (fl_waiters flow) + mset (map rq_id q) + owed m"
  using hm_sum_replace [OF assms, of busy_owes "\<lparr>bz_flow = flow, bz_outstanding = out, bz_queue = q\<rparr>"]
  by (simp add: owed_def frame_simps busy_owes_def ac_simps)

lemma owed_take_busy:
  assumes "hm_wf (mc_busy m)" and "hm_get (mc_busy m) obj = Some b"
  shows "owed m = busy_owes b + owed (m\<lparr>mc_busy := hm_remove obj (mc_busy m), mc_registry := reg\<rparr>)"
    and "owed m = busy_owes b + owed (m\<lparr>mc_busy := hm_remove obj (mc_busy m)\<rparr>)"
  using hm_sum_remove [OF assms, of busy_owes] by (simp_all add: owed_def ac_simps)

section \<open>Settling a flow that is not handed over\<close>

lemma settle_simple:
  assumes "\<not> is_handoff nxt" and "hm_get (mc_busy m) obj = None" and "hm_wf (mc_busy m)"
    and "settle m obj flow nxt q = (m', acts)"
  shows "owed m' + answered acts = owed m + mset (fl_waiters flow) + mset (map rq_id q)
     \<and> hm_wf (mc_busy m') \<and> mc_beside m' = mc_beside m"
  using assms
proof (induction q arbitrary: m flow nxt m' acts)
  case Nil
  show ?case
  proof (cases nxt)
    case (AnswerThen j)
    with Nil show ?thesis
      by (auto simp: settle.simps owed_put_idle frame_simps split: if_splits)
  next
    case (Do j)
    with Nil show ?thesis
      by (auto simp: settle.simps owed_put_idle frame_simps)
  qed (use Nil in \<open>auto simp: settle.simps ending_def ticket_simps frame_simps Let_def\<close>)
next
  case (Cons r q)
  let ?m = "end_release m flow"
  obtain f n where st: "start obj (rq_intent r) (rq_id r) (registry_facts (mc_registry ?m) obj) = (f, n)"
    by (cases "start obj (rq_intent r) (rq_id r) (registry_facts (mc_registry ?m) obj)")
  obtain m2 acts2 where se: "settle ?m obj f n q = (m2, acts2)"
    by (cases "settle ?m obj f n q")
  have "\<not> is_handoff n" by (rule start_no_handoff [OF st [symmetric]])
  then have IH: "owed m2 + answered acts2 = owed m + {#rq_id r#} + mset (map rq_id q)
      \<and> hm_wf (mc_busy m2) \<and> mc_beside m2 = mc_beside m"
    using Cons.IH [of n ?m f m2 acts2] Cons.prems(2,3) se start_ticket(3) [OF st]
    by (simp add: frame_simps ticket_simps)
  show ?case
  proof (cases nxt)
    case (AnswerThen j)
    with Cons.prems show ?thesis
      by (auto simp: settle.simps owed_put_idle frame_simps split: if_splits)
  next
    case (Do j)
    with Cons.prems show ?thesis
      by (auto simp: settle.simps owed_put_idle frame_simps)
  qed (use Cons.prems IH st se in \<open>auto simp: settle.simps ending_def ticket_simps Let_def ac_simps\<close>)
qed

section \<open>Requests\<close>

lemma begin_flow_tickets:
  assumes "begin_flow m r = (m', acts)" and "hm_wf (mc_busy m)"
    and "hm_get (mc_busy m) (rq_object r) = None"
  shows "owed m' + answered acts = owed m + {#rq_id r#} \<and> hm_wf (mc_busy m') \<and> mc_beside m' = mc_beside m"
proof -
  obtain f n where st: "start (rq_object r) (rq_intent r) (rq_id r)
      (registry_facts (mc_registry m) (rq_object r)) = (f, n)"
    by fastforce
  have "settle m (rq_object r) f n [] = (m', acts)"
    using assms(1) st by (simp add: begin_flow.simps Let_def)
  from settle_simple [OF start_no_handoff [OF st [symmetric]] assms(3,2) this] start_ticket(3) [OF st]
  show ?thesis by simp
qed

lemma start_metadata:
  assumes "i = Stat \<or> i = State"
  obtains f j where "start obj i w facts = (f, Do j)" "fl_intent f = i" "fl_object f = obj"
  using assms by (auto simp: start_def start_step_def)

lemma owed_beside:
  assumes "t \<notin> fst ` set (mc_beside m)"
  shows "owed (m\<lparr>mc_beside := hm_insert t f (mc_beside m)\<rparr>) = owed m + {#t#}"
  using assms by (simp add: owed_def hm_insert_absent ac_simps)

lemma begin_beside_tickets:
  assumes "begin_beside m r = (m', acts)" and "rq_intent r = Stat \<or> rq_intent r = State"
    and "rq_id r \<notin> fst ` set (mc_beside m)"
  shows "owed m' + answered acts = owed m + {#rq_id r#} \<and> mc_busy m' = mc_busy m"
proof -
  obtain f j where "start (rq_object r) (rq_intent r) (rq_id r)
      (registry_facts (mc_registry m) (rq_object r)) = (f, Do j)"
    using start_metadata [OF assms(2)] by metis
  with assms show ?thesis
    by (auto simp: begin_beside.simps Let_def owed_beside)
qed

definition metadata_read :: "intent \<Rightarrow> bool" where
  "metadata_read i \<longleftrightarrow> i = Stat \<or> i = State"

lemma request_tickets:
  assumes "machine_request m r = (m', acts)" and wf: "hm_wf (mc_busy m)"
    and fresh: "metadata_read (rq_intent r) \<Longrightarrow> rq_id r \<notin> fst ` set (mc_beside m)"
  shows "owed m' + answered acts = owed m + {#rq_id r#} \<and> hm_wf (mc_busy m') \<and>
         (\<not> metadata_read (rq_intent r) \<longrightarrow> mc_beside m' = mc_beside m)"
proof (cases "hm_get (mc_busy m) (rq_object r)")
  case None
  with assms begin_flow_tickets [OF _ wf None] show ?thesis
    by (simp add: machine_request.simps)
next
  case (Some b)
  let ?facts = "registry_facts (mc_registry m) (rq_object r)"
  show ?thesis
  proof (cases "metadata_read (rq_intent r)")
    case True
    then have "begin_beside m r = (m', acts)"
      using assms(1) Some by (simp add: machine_request.simps metadata_read_def)
    from begin_beside_tickets [OF this] True fresh wf show ?thesis
      by (simp add: metadata_read_def)
  next
    case False
    have put: "owed (put_busy m (rq_object r) flow out q) + busy_owes b =
        mset (fl_waiters flow) + mset (map rq_id q) + owed m" for flow out q
      by (rule owed_put_busy [OF wf Some])
    have gain: "owed (put_busy m (rq_object r) flow out q) = owed m + {#rq_id r#}"
      if "mset (fl_waiters flow) + mset (map rq_id q) = busy_owes b + {#rq_id r#}" for flow out q
      using put [of flow out q] that by (metis add.commute add.left_commute add_right_cancel)
    have joined: "owed (put_busy m (rq_object r)
          (bz_flow b\<lparr>fl_waiters := fl_waiters (bz_flow b) @ [rq_id r]\<rparr>) (bz_outstanding b) (bz_queue b))
        = owed m + {#rq_id r#}"
      by (rule gain) (simp add: busy_owes_def)
    have queued: "owed (put_busy m (rq_object r) flow out (bz_queue b @ [r])) = owed m + {#rq_id r#}"
      if "fl_waiters flow = fl_waiters (bz_flow b)" for flow out
      by (rule gain) (simp add: busy_owes_def that)
    show ?thesis
    proof (cases "collision (bz_flow b) (rq_intent r) ?facts")
      case Queue
      with assms(1) Some False wf queued show ?thesis
        by (auto simp: machine_request.simps metadata_read_def frame_simps Let_def)
    next
      case Join
      with assms(1) Some False wf queued joined show ?thesis
        by (auto simp: machine_request.simps metadata_read_def frame_simps Let_def split: if_splits)
    next
      case Abort
      with assms(1) Some False wf queued show ?thesis
        by (auto simp: machine_request.simps metadata_read_def frame_simps Let_def)
    next
      case Skip
      with assms(1) Some False wf show ?thesis
        by (auto simp: machine_request.simps metadata_read_def Let_def)
    qed
  qed
qed

section \<open>Hand-overs\<close>

lemma hand_over_tickets:
  assumes "hand_over m to i ws = (m', acts)" and "hm_wf (mc_busy m)" and "\<not> metadata_read i"
  shows "owed m' + answered acts = owed m + mset ws \<and> hm_wf (mc_busy m') \<and> mc_beside m' = mc_beside m"
  using assms
proof (induction ws arbitrary: m m' acts)
  case Nil
  then show ?case by simp
next
  case (Cons w ws)
  obtain m1 acts1 where rq: "machine_request m \<lparr>rq_id = w, rq_object = to, rq_intent = i\<rparr> = (m1, acts1)"
    by fastforce
  obtain m2 acts2 where ho: "hand_over m1 to i ws = (m2, acts2)"
    by fastforce
  have res: "m' = m2" "acts = acts1 @ acts2"
    using Cons.prems(1) rq ho by simp_all
  have step: "owed m1 + answered acts1 = owed m + {#w#} \<and> hm_wf (mc_busy m1) \<and> mc_beside m1 = mc_beside m"
    using request_tickets [OF rq Cons.prems(2)] Cons.prems(3) by simp
  with Cons.IH [OF ho] Cons.prems(3)
  have "owed m2 + answered acts2 = owed m1 + mset ws" "hm_wf (mc_busy m2)" "mc_beside m2 = mc_beside m"
    by simp_all
  then have "owed m2 + (answered acts1 + answered acts2) = (owed m1 + answered acts1) + mset ws"
    by (simp add: ac_simps)
  with step show ?case
    using \<open>hm_wf (mc_busy m2)\<close> \<open>mc_beside m2 = mc_beside m\<close> res by simp
qed

lemma settle_tickets:
  assumes "settle m obj flow nxt q = (m', acts)" and "hm_get (mc_busy m) obj = None"
    and "hm_wf (mc_busy m)" and "\<And>to i. nxt = Handoff to i \<Longrightarrow> \<not> metadata_read i"
  shows "owed m' + answered acts = owed m + mset (fl_waiters flow) + mset (map rq_id q)
     \<and> hm_wf (mc_busy m') \<and> mc_beside m' = mc_beside m"
proof (cases "is_handoff nxt")
  case False
  from settle_simple [OF False assms(2,3,1)] show ?thesis .
next
  case True
  then obtain to i where nxt: "nxt = Handoff to i" by (cases nxt) auto
  let ?m = "put_busy m obj (flow\<lparr>fl_waiters := []\<rparr>) None q"
  have "owed ?m = mset (map rq_id q) + owed m"
    using owed_put_idle [OF assms(2), of "flow\<lparr>fl_waiters := []\<rparr>" None q] by simp
  moreover have "hm_wf (mc_busy ?m)" "mc_beside ?m = mc_beside m"
    using assms(3) by (simp_all add: frame_simps)
  ultimately show ?thesis
    using assms(1,4) nxt hand_over_tickets [of ?m to i "fl_waiters flow" m' acts]
    by (auto simp: settle.simps Let_def ac_simps split: if_splits)
qed

section \<open>Releases, completions, abandoned requests\<close>

lemma release_parked_tickets:
  assumes "release_parked m p = (m', acts)" and "hm_wf (mc_busy m)"
  shows "owed m' + answered acts = owed m \<and> hm_wf (mc_busy m') \<and> mc_beside m' = mc_beside m"
proof (cases "\<exists>b. hm_get (mc_busy m) p = Some b \<and> parked b")
  case False
  with assms release_parked_idle [of m p] show ?thesis by auto
next
  case True
  then obtain b where b: "hm_get (mc_busy m) p = Some b" "parked b" by blast
  let ?m = "m\<lparr>mc_busy := hm_remove p (mc_busy m)\<rparr>"
  have "settle ?m p (bz_flow b) Done (bz_queue b) = (m', acts)"
    using assms(1) b by (simp add: release_parked_def)
  from settle_tickets [OF this] assms(2) owed_take_busy(2) [OF assms(2) b(1)]
  show ?thesis by (simp add: store_simps busy_owes_def ac_simps)
qed

lemma owed_releases [simp]: "owed (m\<lparr>mc_releases := rs\<rparr>) = owed m"
  by (simp add: owed_def)

lemma release_ended_tickets:
  assumes "release_ended m = (m', acts)" and "hm_wf (mc_busy m)"
  shows "owed m' + answered acts = owed m \<and> hm_wf (mc_busy m') \<and> mc_beside m' = mc_beside m
     \<and> mc_releases m' = []"
  using assms
proof (induction m arbitrary: m' acts rule: release_ended.induct)
  case (1 m)
  show ?case
  proof (cases "mc_releases m")
    case Nil
    with "1.prems" show ?thesis by (auto simp: release_ended.simps [of m])
  next
    case (Cons p rest)
    obtain m1 acts1 where rp: "release_parked (m\<lparr>mc_releases := rest\<rparr>) p = (m1, acts1)" by fastforce
    obtain m2 acts2 where re: "release_ended m1 = (m2, acts2)" by fastforce
    have res: "m' = m2" "acts = acts1 @ acts2"
      using "1.prems"(1) Cons rp re by (simp_all add: release_ended.simps [of m])
    have s1: "owed m1 + answered acts1 = owed m \<and> hm_wf (mc_busy m1) \<and> mc_beside m1 = mc_beside m"
      using release_parked_tickets [OF rp] "1.prems"(2) by simp
    have s2: "owed m2 + answered acts2 = owed m1 \<and> hm_wf (mc_busy m2) \<and> mc_beside m2 = mc_beside m1
        \<and> mc_releases m2 = []"
      using "1.IH" [OF Cons rp [symmetric] refl re] s1 by simp
    from s1 s2 res show ?thesis by (auto simp: ac_simps)
  qed
qed

lemma completion_tickets:
  assumes "machine_completion m obj c = (m', acts)" and wf: "hm_wf (mc_busy m)"
    and script: "\<And>b. hm_get (mc_busy m) obj = Some b \<Longrightarrow> on_script (bz_flow b)"
  shows "owed m' + answered acts = owed m \<and> hm_wf (mc_busy m') \<and> mc_beside m' = mc_beside m"
proof (cases "hm_get (mc_busy m) obj")
  case None
  with assms show ?thesis by (simp add: machine_completion_def)
next
  case (Some b)
  define reg where "reg = (case bz_outstanding b of
      Some job \<Rightarrow> apply_to_registry (mc_registry m) job (fl_intent (bz_flow b)) c
         (nf_etag (ca_node (fl_carry (bz_flow b)))) (nf_ignored (ca_node (fl_carry (bz_flow b))))
    | None \<Rightarrow> mc_registry m)"
  let ?m = "m\<lparr>mc_busy := hm_remove obj (mc_busy m), mc_registry := reg\<rparr>"
  obtain f n where ad: "advance (bz_flow b) c (registry_facts reg obj) = (f, n)" by fastforce
  have se: "settle ?m obj f n (bz_queue b) = (m', acts)"
    using assms(1) Some ad by (simp add: machine_completion_def Let_def reg_def)
  have meta: "\<not> metadata_read i" if "n = Handoff to i" for to i
    using advance_on_script(2) [OF script [OF Some] ad] that
    by (auto simp: metadata_read_def split: intent.splits)
  have "owed m' + answered acts = owed ?m + mset (fl_waiters f) + mset (map rq_id (bz_queue b))
     \<and> hm_wf (mc_busy m') \<and> mc_beside m' = mc_beside m"
    using settle_tickets [OF se] wf meta by (simp add: store_simps)
  then show ?thesis
    using owed_take_busy(1) [OF wf Some, of reg] advance_frame(3) [OF ad]
    by (simp add: busy_owes_def ac_simps)
qed

lemma take_request_owes:
  "take_request t q = Some (r, rest) \<Longrightarrow> rq_id r = t \<and> mset (map rq_id q) = add_mset t (mset (map rq_id rest))"
  by (induction q arbitrary: rest) (auto split: if_splits)

lemma abandon_entry_owes:
  assumes "abandon_entry t b = Some (b', rel)"
  shows "busy_owes b = add_mset t (busy_owes b')"
proof (cases "t \<in> set (fl_waiters (bz_flow b))")
  case True
  with assms show ?thesis by (auto simp: abandon_entry_def busy_owes_def Let_def)
next
  case False
  with assms obtain r rest where tr: "take_request t (bz_queue b) = Some (r, rest)" "b' = b\<lparr>bz_queue := rest\<rparr>"
    by (auto simp: abandon_entry_def Let_def split: option.splits)
  from take_request_owes [OF tr(1)] tr(2) show ?thesis by (simp add: busy_owes_def)
qed

lemma abandon_scan_owes:
  "abandon_scan t bs = Some (bs', obj, rel) \<Longrightarrow>
     hm_sum busy_owes bs = add_mset t (hm_sum busy_owes bs') \<and> map fst bs' = map fst bs"
proof (induction bs arbitrary: bs')
  case Nil
  then show ?case by simp
next
  case (Cons kb bs)
  then show ?case
    by (cases kb) (auto dest: abandon_entry_owes split: option.splits)
qed

lemma take_request_None: "take_request t q = None \<longleftrightarrow> t \<notin> rq_id ` set q"
  by (induction q) auto

lemma abandon_entry_None: "abandon_entry t b = None \<longleftrightarrow> t \<notin># busy_owes b"
proof (cases "take_request t (bz_queue b)")
  case None
  then have "t \<notin> rq_id ` set (bz_queue b)"
    by (rule take_request_None [THEN iffD1])
  with None show ?thesis
    by (auto simp: abandon_entry_def busy_owes_def Let_def)
next
  case (Some p)
  then have "t \<in> rq_id ` set (bz_queue b)"
    using take_request_None [of t "bz_queue b"] by simp
  with Some show ?thesis
    by (auto simp: abandon_entry_def busy_owes_def Let_def split: prod.splits)
qed

text \<open>Whoever is owed an answer is found; nobody else is.\<close>

lemma abandon_scan_None: "abandon_scan t bs = None \<longleftrightarrow> t \<notin># hm_sum busy_owes bs"
proof (induction bs)
  case Nil
  then show ?case by simp
next
  case (Cons kb bs)
  obtain k b where kb: "kb = (k, b)" by fastforce
  show ?case
  proof (cases "abandon_entry t b")
    case None
    with Cons kb abandon_entry_None [of t b] show ?thesis by simp
  next
    case (Some e)
    with kb abandon_entry_None [of t b] show ?thesis by (cases e) auto
  qed
qed

lemma abandon_request_tickets:
  assumes "abandon_request m t = (m', acts)" and "hm_wf (mc_busy m)"
  shows "owed m' + answered acts = owed m \<and> hm_wf (mc_busy m') \<and> mc_beside m' = mc_beside m"
  using assms
  by (auto simp: abandon_request_def owed_def answer_interrupted_def hm_wf_def
      dest: abandon_scan_owes split: option.splits)

lemma hm_keys_remove:
  "hm_wf m \<Longrightarrow> hm_get m k = Some v \<Longrightarrow> mset (map fst m) = add_mset k (mset (map fst (hm_remove k m)))"
  by (induction m) (auto split: if_splits)

section \<open>Entry points\<close>

theorem on_request_tickets:
  assumes "on_request m r = (m', acts)" and "hm_wf (mc_busy m)"
    and "metadata_read (rq_intent r) \<Longrightarrow> rq_id r \<notin> fst ` set (mc_beside m)"
  shows "owed m' + answered acts = owed m + {#rq_id r#} \<and> hm_wf (mc_busy m') \<and> mc_releases m' = []"
proof -
  obtain m1 a1 where rq: "machine_request m r = (m1, a1)" by fastforce
  obtain m2 a2 where re: "release_ended m1 = (m2, a2)" by fastforce
  have "m' = m2" "acts = a1 @ a2" using assms(1) rq re by (simp_all add: on_request_def)
  with request_tickets [OF rq assms(2,3)] release_ended_tickets [OF re] show ?thesis
    by (auto simp: ac_simps)
qed

theorem on_completion_tickets:
  assumes "on_completion m obj c = (m', acts)" and "hm_wf (mc_busy m)"
    and "\<And>b. hm_get (mc_busy m) obj = Some b \<Longrightarrow> on_script (bz_flow b)"
  shows "owed m' + answered acts = owed m \<and> hm_wf (mc_busy m') \<and> mc_beside m' = mc_beside m \<and> mc_releases m' = []"
proof -
  obtain m1 a1 where co: "machine_completion m obj c = (m1, a1)" by fastforce
  obtain m2 a2 where re: "release_ended m1 = (m2, a2)" by fastforce
  have "m' = m2" "acts = a1 @ a2" using assms(1) co re by (simp_all add: on_completion_def)
  with completion_tickets [OF co assms(2,3)] release_ended_tickets [OF re] show ?thesis
    by (auto simp: ac_simps)
qed

theorem abandon_tickets:
  assumes "abandon m t = (m', acts)" and "hm_wf (mc_busy m)"
  shows "owed m' + answered acts = owed m \<and> hm_wf (mc_busy m') \<and> mc_beside m' = mc_beside m \<and> mc_releases m' = []"
proof -
  obtain m1 a1 where ab: "abandon_request m t = (m1, a1)" by fastforce
  obtain m2 a2 where re: "release_ended m1 = (m2, a2)" by fastforce
  have "m' = m2" "acts = a1 @ a2" using assms(1) ab re by (simp_all add: abandon_def)
  with abandon_request_tickets [OF ab assms(2)] release_ended_tickets [OF re] show ?thesis
    by (auto simp: ac_simps)
qed

theorem on_beside_tickets:
  assumes "on_beside m t c = (m', out)" and "hm_wf (mc_beside m)"
  shows "owed m = owed m' + (if t \<in> fst ` set (mc_beside m) then {#t#} else {#})
     \<and> mc_busy m' = mc_busy m \<and> hm_wf (mc_beside m')"
proof (cases "hm_get (mc_beside m) t")
  case None
  with assms show ?thesis by (auto simp: on_beside_def hm_get_None_iff)
next
  case (Some f)
  obtain f' n where ad: "advance f c (registry_facts (mc_registry m) (fl_object f)) = (f', n)"
    by fastforce
  have "t \<in> fst ` set (mc_beside m)"
    using Some hm_get_None_iff [of "mc_beside m" t] by simp
  moreover have "mset (map fst (mc_beside m)) = add_mset t (mset (map fst (hm_remove t (mc_beside m))))"
    by (rule hm_keys_remove [OF assms(2) Some])
  moreover have "m' = m\<lparr>mc_beside := hm_remove t (mc_beside m)\<rparr>"
    using Some assms(1) ad by (simp add: on_beside_def Let_def)
  ultimately show ?thesis
    using assms(2) by (simp add: owed_def hm_wf_remove)
qed

end
