(* ===== verification/Fsm_Machine_Inv.thy ===== *)
theory Fsm_Machine_Inv
  imports Fsm_Tickets
begin

text \<open>
  The invariant of the machine. A busy object is either waiting for the job its step handed
  out, or parked on a hand-over; what queues behind it concerns it alone; and the parked
  directories are, as a multiset, exactly the parents named by the hand-overs that still
  run, still queue or have just ended. Nothing is parked forever and nothing is let go
  before the operation it waits for has ended.
\<close>

section \<open>Hand-overs and parked parents\<close>

definition handover_ms :: "intent \<Rightarrow> object_id multiset" where
  "handover_ms i = (case handed_over_from i of Some p \<Rightarrow> {#p#} | None \<Rightarrow> {#})"

definition queue_handovers :: "request list \<Rightarrow> object_id multiset" where
  "queue_handovers q = sum_list (map (\<lambda>r. handover_ms (rq_intent r)) q)"

definition busy_handovers :: "busy \<Rightarrow> object_id multiset" where
  "busy_handovers b = handover_ms (fl_intent (bz_flow b)) + queue_handovers (bz_queue b)"

definition handovers :: "machine \<Rightarrow> object_id multiset" where
  "handovers m = hm_sum busy_handovers (mc_busy m) + mset (mc_releases m)"

definition busy_parked :: "busy \<Rightarrow> object_id multiset" where
  "busy_parked b = (if parked b then {#fl_object (bz_flow b)#} else {#})"

definition parked_parents :: "machine \<Rightarrow> object_id multiset" where
  "parked_parents m = hm_sum busy_parked (mc_busy m)"

lemma queue_handovers_simps [simp]:
  "queue_handovers [] = {#}"
  "queue_handovers (r # q) = handover_ms (rq_intent r) + queue_handovers q"
  "queue_handovers (q @ q') = queue_handovers q + queue_handovers q'"
  by (simp_all add: queue_handovers_def)

lemma handovers_end_release:
  "handovers (end_release m flow) = handovers m + handover_ms (fl_intent flow)"
  by (simp add: handovers_def end_release_def handover_ms_def split: option.split)

section \<open>The invariant\<close>

text \<open>
  Who waits on a running flow: a flow nobody waits on has been given up or is an upload
  running in the background, and a rename or removal has the one caller it started with.
\<close>

definition parent_op :: "intent \<Rightarrow> bool" where
  "parent_op i \<longleftrightarrow> (case i of Remove _ \<Rightarrow> True | Move _ _ _ \<Rightarrow> True | _ \<Rightarrow> False)"

definition flow_waits :: "flow \<Rightarrow> bool" where
  "flow_waits flow \<longleftrightarrow>
     (fl_waiters flow = [] \<longrightarrow> fl_abort flow \<or> fl_intent flow = Publish) \<and>
     (parent_op (fl_intent flow) \<longrightarrow> length (fl_waiters flow) \<le> 1)"

definition busy_inv :: "object_id \<Rightarrow> busy \<Rightarrow> bool" where
  "busy_inv k b \<longleftrightarrow>
     fl_object (bz_flow b) = k \<and> on_script (bz_flow b) \<and> (\<forall>r \<in> set (bz_queue b). rq_object r = k) \<and>
     (case bz_outstanding b of
        Some j \<Rightarrow> awaits (fl_step (bz_flow b)) j \<and> flow_waits (bz_flow b)
      | None \<Rightarrow> fl_step (bz_flow b) = Handover \<and> fl_waiters (bz_flow b) = [])"

definition minv :: "machine \<Rightarrow> bool" where
  "minv m \<longleftrightarrow> hm_wf (mc_busy m) \<and> hm_wf (mc_beside m) \<and> hm_wf (mc_registry m) \<and>
     (\<forall>k b. hm_get (mc_busy m) k = Some b \<longrightarrow> busy_inv k b)"

lemma minvD [dest]:
  assumes "minv m"
  shows "hm_wf (mc_busy m)" and "hm_wf (mc_beside m)" and "hm_wf (mc_registry m)"
  using assms by (simp_all add: minv_def)

lemma minv_busy: "minv m \<Longrightarrow> hm_get (mc_busy m) k = Some b \<Longrightarrow> busy_inv k b"
  by (simp add: minv_def)

lemma minv_put:
  assumes "minv m" and "busy_inv obj \<lparr>bz_flow = flow, bz_outstanding = out, bz_queue = q\<rparr>"
  shows "minv (put_busy m obj flow out q)"
  using assms by (auto simp: minv_def frame_simps store_simps)

lemma minv_take:
  assumes "minv m"
  shows "minv (m\<lparr>mc_busy := hm_remove obj (mc_busy m)\<rparr>)"
    and "hm_wf reg \<Longrightarrow> minv (m\<lparr>mc_busy := hm_remove obj (mc_busy m), mc_registry := reg\<rparr>)"
  using assms by (auto simp: minv_def store_simps)

lemma minv_frame [simp]:
  "minv (m\<lparr>mc_releases := rs\<rparr>) = minv m"
  "minv (end_release m flow) = minv m"
  by (simp_all add: minv_def end_release_def split: option.split)

lemma handovers_frame [simp]: "parked_parents (m\<lparr>mc_releases := rs\<rparr>) = parked_parents m"
  "parked_parents (end_release m flow) = parked_parents m"
  by (simp_all add: parked_parents_def end_release_def split: option.split)

lemma awaits_not_handover: "awaits s j \<Longrightarrow> s \<noteq> Handover"
  by (cases s) auto

lemma handover_step_parent_op: "on_script flow \<Longrightarrow> fl_step flow = Handover \<Longrightarrow> parent_op (fl_intent flow)"
  by (cases "fl_intent flow") (auto simp: on_script_def parent_op_def)

lemma parent_op_no_handover [simp]: "parent_op i \<Longrightarrow> handover_ms i = {#}"
  by (cases i) (auto simp: parent_op_def handover_ms_def handed_over_from_def)

text \<open>An object is parked exactly while no job is outstanding for it.\<close>

lemma parked_iff: "busy_inv k b \<Longrightarrow> parked b \<longleftrightarrow> bz_outstanding b = None"
  by (auto simp: busy_inv_def parked_def split: option.splits)

section \<open>Entries of the map\<close>

lemma put_idle_counts:
  assumes "hm_get (mc_busy m) obj = None"
  shows "handovers (put_busy m obj flow out q) = handover_ms (fl_intent flow) + queue_handovers q + handovers m"
    and "parked_parents (put_busy m obj flow out q) =
      (if fl_step flow = Handover \<and> out = None then {#fl_object flow#} else {#}) + parked_parents m"
  using assms
  by (simp_all add: handovers_def parked_parents_def frame_simps hm_sum_insert_absent busy_handovers_def
      busy_parked_def parked_def)

lemma put_busy_counts:
  assumes "hm_wf (mc_busy m)" and "hm_get (mc_busy m) obj = Some b"
  shows "handovers (put_busy m obj flow out q) + busy_handovers b =
      handover_ms (fl_intent flow) + queue_handovers q + handovers m"
    and "parked_parents (put_busy m obj flow out q) + busy_parked b =
      (if fl_step flow = Handover \<and> out = None then {#fl_object flow#} else {#}) + parked_parents m"
  using hm_sum_replace [OF assms, of busy_handovers "\<lparr>bz_flow = flow, bz_outstanding = out, bz_queue = q\<rparr>"]
    hm_sum_replace [OF assms, of busy_parked "\<lparr>bz_flow = flow, bz_outstanding = out, bz_queue = q\<rparr>"]
  by (simp_all add: handovers_def parked_parents_def frame_simps busy_handovers_def busy_parked_def
      parked_def ac_simps)

lemma take_counts:
  assumes "hm_wf (mc_busy m)" and "hm_get (mc_busy m) obj = Some b"
  shows "handovers m = busy_handovers b + handovers (m\<lparr>mc_busy := hm_remove obj (mc_busy m), mc_registry := reg\<rparr>)"
    and "handovers m = busy_handovers b + handovers (m\<lparr>mc_busy := hm_remove obj (mc_busy m)\<rparr>)"
    and "parked_parents m = busy_parked b + parked_parents (m\<lparr>mc_busy := hm_remove obj (mc_busy m), mc_registry := reg\<rparr>)"
    and "parked_parents m = busy_parked b + parked_parents (m\<lparr>mc_busy := hm_remove obj (mc_busy m)\<rparr>)"
  using hm_sum_remove [OF assms, of busy_handovers] hm_sum_remove [OF assms, of busy_parked]
  by (simp_all add: handovers_def parked_parents_def ac_simps)

section \<open>Settling a flow\<close>

text \<open>What a flow must satisfy before it is settled: it waits for somebody unless it ends here.\<close>

definition settle_ok :: "object_id \<Rightarrow> flow \<Rightarrow> flow_next \<Rightarrow> bool" where
  "settle_ok obj flow nxt \<longleftrightarrow> fl_object flow = obj \<and> on_script flow \<and> next_ok flow nxt \<and>
     (ending nxt = None \<longrightarrow> flow_waits flow)"

lemma start_settle_ok: "start obj i w facts = (f, n) \<Longrightarrow> settle_ok obj f n"
  using start_on_script [of obj i w facts f n] start_ticket [of obj i w facts f n]
  by (simp add: settle_ok_def flow_waits_def)

lemma settle_inv_simple:
  assumes "\<not> is_handoff nxt" and "hm_get (mc_busy m) obj = None" and "minv m"
    and "settle_ok obj flow nxt" and "\<forall>r \<in> set q. rq_object r = obj"
    and "settle m obj flow nxt q = (m', acts)"
  shows "minv m' \<and> handovers m' = handovers m + handover_ms (fl_intent flow) + queue_handovers q
     \<and> parked_parents m' = parked_parents m"
  using assms
proof (induction q arbitrary: m flow nxt m' acts)
  case Nil
  show ?case
  proof (cases nxt)
    case (AnswerThen j)
    with Nil show ?thesis
      by (auto simp: settle.simps put_idle_counts settle_ok_def ending_def busy_inv_def flow_waits_def
          on_script_def awaits_not_handover intro!: minv_put split: if_splits)
  next
    case (Do j)
    with Nil show ?thesis
      by (auto simp: settle.simps put_idle_counts settle_ok_def ending_def busy_inv_def
          awaits_not_handover intro!: minv_put)
  qed (use Nil in \<open>auto simp: settle.simps ending_def handovers_end_release Let_def\<close>)
next
  case (Cons r q)
  let ?m = "end_release m flow"
  obtain f n where st: "start obj (rq_intent r) (rq_id r) (registry_facts (mc_registry ?m) obj) = (f, n)"
    by fastforce
  obtain m2 acts2 where se: "settle ?m obj f n q = (m2, acts2)"
    by fastforce
  have IH: "minv m2 \<and> handovers m2 = handovers ?m + handover_ms (rq_intent r) + queue_handovers q
      \<and> parked_parents m2 = parked_parents m"
    using Cons.IH [OF start_no_handoff [OF st [symmetric]] _ _ start_settle_ok [OF st] _ se]
      Cons.prems(2,3,5) start_ticket(2) [OF st] by (simp add: frame_simps)
  show ?case
  proof (cases nxt)
    case (AnswerThen j)
    with Cons.prems show ?thesis
      by (auto simp: settle.simps put_idle_counts settle_ok_def ending_def busy_inv_def flow_waits_def
          on_script_def awaits_not_handover ac_simps intro!: minv_put split: if_splits)
  next
    case (Do j)
    with Cons.prems show ?thesis
      by (auto simp: settle.simps put_idle_counts settle_ok_def ending_def busy_inv_def
          awaits_not_handover ac_simps intro!: minv_put)
  qed (use Cons.prems IH st se in
      \<open>auto simp: settle.simps ending_def handovers_end_release Let_def ac_simps\<close>)
qed

section \<open>Requests\<close>

lemma begin_flow_inv:
  assumes "begin_flow m r = (m', acts)" and "minv m" and "hm_get (mc_busy m) (rq_object r) = None"
  shows "minv m' \<and> handovers m' = handovers m + handover_ms (rq_intent r)
     \<and> parked_parents m' = parked_parents m"
proof -
  obtain f n where st: "start (rq_object r) (rq_intent r) (rq_id r)
      (registry_facts (mc_registry m) (rq_object r)) = (f, n)"
    by fastforce
  have "settle m (rq_object r) f n [] = (m', acts)"
    using assms(1) st by (simp add: begin_flow.simps Let_def)
  from settle_inv_simple [OF start_no_handoff [OF st [symmetric]] assms(3,2) start_settle_ok [OF st] _ this]
    start_ticket(2) [OF st]
  show ?thesis by simp
qed

lemma metadata_no_handover [simp]: "metadata_read i \<Longrightarrow> handover_ms i = {#}"
  by (auto simp: metadata_read_def handover_ms_def handed_over_from_def)

lemma begin_beside_inv:
  assumes "begin_beside m r = (m', acts)" and "metadata_read (rq_intent r)" and "minv m"
  shows "minv m' \<and> handovers m' = handovers m \<and> parked_parents m' = parked_parents m"
proof -
  obtain f j where "start (rq_object r) (rq_intent r) (rq_id r)
      (registry_facts (mc_registry m) (rq_object r)) = (f, Do j)"
    using start_metadata [of "rq_intent r"] assms(2) unfolding metadata_read_def by metis
  then have "m' = m\<lparr>mc_beside := hm_insert (rq_id r) f (mc_beside m)\<rparr>"
    using assms(1) by (simp add: begin_beside.simps Let_def)
  with assms(3) show ?thesis
    by (simp add: minv_def handovers_def parked_parents_def)
qed

lemma joined_no_parent_op:
  "collision flow i facts = Join \<Longrightarrow> \<not> parent_op (fl_intent flow) \<and> fl_step flow \<noteq> PubConflict
     \<and> handover_ms i = {#}"
  by (auto simp: collision_Join_iff parent_op_def handover_ms_def handed_over_from_def)

lemma skipped_no_handover: "collision flow i facts = Skip \<Longrightarrow> handover_ms i = {#}"
  by (auto simp: collision_Skip_iff handover_ms_def handed_over_from_def)

lemma request_inv:
  assumes "machine_request m r = (m', acts)" and "minv m"
  shows "minv m' \<and> handovers m' = handovers m + handover_ms (rq_intent r)
     \<and> parked_parents m' = parked_parents m"
proof (cases "hm_get (mc_busy m) (rq_object r)")
  case None
  with assms begin_flow_inv [OF _ assms(2) None] show ?thesis
    by (simp add: machine_request.simps)
next
  case (Some b)
  let ?facts = "registry_facts (mc_registry m) (rq_object r)"
  have bi: "busy_inv (rq_object r) b" by (rule minv_busy [OF assms(2) Some])
  show ?thesis
  proof (cases "metadata_read (rq_intent r)")
    case True
    then have "begin_beside m r = (m', acts)"
      using assms(1) Some by (simp add: machine_request.simps metadata_read_def)
    from begin_beside_inv [OF this True assms(2)] True show ?thesis by simp
  next
    case False
    then have req: "machine_request m r =
       (let flow = bz_flow b;
            queued = put_busy m (rq_object r) flow (bz_outstanding b) (bz_queue b @ [r])
        in case collision flow (rq_intent r) ?facts of
             Queue \<Rightarrow> (queued, [])
           | Join \<Rightarrow>
               (if fl_abort flow then (queued, [])
                else (put_busy m (rq_object r) (flow\<lparr>fl_waiters := fl_waiters flow @ [rq_id r]\<rparr>)
                        (bz_outstanding b) (bz_queue b), []))
           | Abort \<Rightarrow>
               (put_busy m (rq_object r) (flow\<lparr>fl_abort := True\<rparr>) (bz_outstanding b) (bz_queue b @ [r]), [])
           | Skip \<Rightarrow> (m, [Answer (rq_object r) [rq_id r] Ok]))"
      using Some by (simp add: machine_request.simps metadata_read_def Let_def)
    have counts: "handovers (put_busy m (rq_object r) flow (bz_outstanding b) q) + busy_handovers b =
          handover_ms (fl_intent flow) + queue_handovers q + handovers m"
        "parked_parents (put_busy m (rq_object r) flow (bz_outstanding b) q) + busy_parked b =
          (if fl_step flow = Handover \<and> bz_outstanding b = None then {#fl_object flow#} else {#})
           + parked_parents m" for flow q
      by (rule put_busy_counts [OF minvD(1) [OF assms(2)] Some])+
    have queued: "minv (put_busy m (rq_object r) (bz_flow b) (bz_outstanding b) (bz_queue b @ [r]))"
      using bi by (intro minv_put [OF assms(2)]) (auto simp: busy_inv_def split: option.splits)
    show ?thesis
    proof (cases "collision (bz_flow b) (rq_intent r) ?facts")
      case Queue
      with req assms(1) queued counts [of "bz_flow b" "bz_queue b @ [r]"] show ?thesis
        by (simp add: busy_handovers_def busy_parked_def parked_def ac_simps)
    next
      case Abort
      have "minv (put_busy m (rq_object r) ((bz_flow b)\<lparr>fl_abort := True\<rparr>) (bz_outstanding b) (bz_queue b @ [r]))"
        using bi by (intro minv_put [OF assms(2)])
          (auto simp: busy_inv_def on_script_def flow_waits_def split: option.splits)
      with Abort req assms(1) counts [of "(bz_flow b)\<lparr>fl_abort := True\<rparr>" "bz_queue b @ [r]"] show ?thesis
        by (simp add: busy_handovers_def busy_parked_def parked_def ac_simps split: if_splits)
    next
      case Skip
      with req assms skipped_no_handover [OF Skip] show ?thesis by simp
    next
      case Join
      show ?thesis
      proof (cases "fl_abort (bz_flow b)")
        case True
        with Join req assms(1) queued counts [of "bz_flow b" "bz_queue b @ [r]"] show ?thesis
          by (simp add: busy_handovers_def busy_parked_def parked_def ac_simps)
      next
        case False
        let ?f = "(bz_flow b)\<lparr>fl_waiters := fl_waiters (bz_flow b) @ [rq_id r]\<rparr>"
        have np: "\<not> parent_op (fl_intent (bz_flow b))"
          using joined_no_parent_op [OF Join] by simp
        then have "fl_step (bz_flow b) \<noteq> Handover"
          using handover_step_parent_op bi by (auto simp: busy_inv_def)
        then have "minv (put_busy m (rq_object r) ?f (bz_outstanding b) (bz_queue b))"
          using bi np by (intro minv_put [OF assms(2)])
            (auto simp: busy_inv_def on_script_def flow_waits_def split: option.splits)
        with False Join req assms(1) counts [of ?f "bz_queue b"] joined_no_parent_op [OF Join] show ?thesis
          by (simp add: busy_handovers_def busy_parked_def parked_def Let_def ac_simps split: if_splits)
      qed
    qed
  qed
qed

section \<open>Completions\<close>

lemma apply_to_registry_wf:
  "hm_wf reg \<Longrightarrow> hm_wf (apply_to_registry reg job i c e g)"
  by (auto simp: apply_to_registry_def Let_def split: completion.split job.split)

text \<open>The flow a completion hands on may be settled, and keeps the one caller of a hand-over.\<close>

lemma advance_settle_ok:
  assumes "advance flow c facts = (f, n)" and "on_script flow" and "flow_waits flow"
  shows "settle_ok (fl_object flow) f n"
  using assms advance_frame [OF assms(1)] advance_on_script [OF assms(2,1)]
  by (simp add: settle_ok_def flow_waits_def)

lemma advance_handoff_caller:
  assumes "advance flow c facts = (f, Handoff to i)" and "on_script flow" and "flow_waits flow"
  obtains w where "fl_waiters f = [w]" "parent_op (fl_intent f)" "handover_ms i = {#fl_object f#}"
    "fl_step f = Handover" "\<not> metadata_read i"
proof -
  have nxt: "next_ok f (Handoff to i)" by (rule advance_on_script(2) [OF assms(2,1)])
  have "\<not> fl_abort flow" using assms(1) by (auto simp: advance_def)
  moreover have "parent_op (fl_intent f)"
    using nxt by (auto simp: parent_op_def split: intent.splits)
  ultimately have "length (fl_waiters f) = 1"
    using assms(3) advance_frame [OF assms(1)]
    by (cases "fl_waiters flow") (auto simp: flow_waits_def parent_op_def)
  then obtain w where "fl_waiters f = [w]" by (cases "fl_waiters f") auto
  with nxt \<open>parent_op (fl_intent f)\<close> that show ?thesis
    by (auto simp: handover_ms_def handed_over_from_def metadata_read_def split: intent.splits)
qed

lemma completion_inv:
  assumes co: "machine_completion m obj c = (m', acts)" and inv: "minv m"
    and out: "\<And>b. hm_get (mc_busy m) obj = Some b \<Longrightarrow> bz_outstanding b \<noteq> None"
    and bal: "handovers m = parked_parents m"
  shows "minv m' \<and> handovers m' = parked_parents m'"
proof (cases "hm_get (mc_busy m) obj")
  case None
  with assms show ?thesis by (simp add: machine_completion_def)
next
  case (Some b)
  define reg where "reg = (case bz_outstanding b of
      Some job \<Rightarrow> apply_to_registry (mc_registry m) job (fl_intent (bz_flow b)) c
         (nf_etag (ca_node (fl_carry (bz_flow b)))) (nf_ignored (ca_node (fl_carry (bz_flow b))))
    | None \<Rightarrow> mc_registry m)"
  let ?m = "m\<lparr>mc_busy := hm_remove obj (mc_busy m), mc_registry := reg\<rparr>"
  obtain f n where ad: "advance (bz_flow b) c (registry_facts reg obj) = (f, n)" by fastforce
  have se: "settle ?m obj f n (bz_queue b) = (m', acts)"
    using co Some ad by (simp add: machine_completion_def Let_def reg_def)
  have bi: "busy_inv obj b" by (rule minv_busy [OF inv Some])
  then have fl: "fl_object (bz_flow b) = obj" "on_script (bz_flow b)" "flow_waits (bz_flow b)"
      "\<forall>r \<in> set (bz_queue b). rq_object r = obj" "busy_parked b = {#}"
    using out [OF Some] parked_iff [OF bi] by (auto simp: busy_inv_def busy_parked_def split: option.splits)
  have "hm_wf reg"
    using inv by (auto simp: reg_def apply_to_registry_wf split: option.splits)
  then have im: "minv ?m" by (rule minv_take(2) [OF inv])
  have idle: "hm_get (mc_busy ?m) obj = None" by (simp add: store_simps)
  note ct = take_counts(1,3) [OF minvD(1) [OF inv] Some, of reg]
  have ok: "settle_ok obj f n" using advance_settle_ok [OF ad fl(2,3)] fl(1) by simp
  show ?thesis
  proof (cases "is_handoff n")
    case False
    from settle_inv_simple [OF False idle im ok fl(4) se] ct fl(5) bal advance_frame(2) [OF ad]
    show ?thesis by (simp add: busy_handovers_def ac_simps)
  next
    case True
    then obtain to i where n: "n = Handoff to i" by (cases n) auto
    obtain w where w: "fl_waiters f = [w]" "parent_op (fl_intent f)" "handover_ms i = {#fl_object f#}"
        "fl_step f = Handover"
      using advance_handoff_caller [OF ad [unfolded n] fl(2,3)] by metis
    let ?p = "put_busy ?m obj (f\<lparr>fl_waiters := []\<rparr>) None (bz_queue b)"
    have ip: "minv ?p"
      using im fl(4) ok w(4) by (intro minv_put) (auto simp: busy_inv_def settle_ok_def on_script_def)
    obtain a where rq: "machine_request ?p \<lparr>rq_id = w, rq_object = to, rq_intent = i\<rparr> = (m', a)"
      using se n w(1) by (auto simp: settle.simps Let_def split: prod.splits)
    from request_inv [OF rq ip] w ct fl(5) bal advance_frame(2) [OF ad]
      put_idle_counts [OF idle, of "f\<lparr>fl_waiters := []\<rparr>" None "bz_queue b"]
    show ?thesis by (simp add: busy_handovers_def ac_simps)
  qed
qed

section \<open>Releases\<close>

text \<open>Every parent an ended hand-over names is parked, so each release ends one parked flow.\<close>

lemma parked_parent_found:
  assumes "minv m" and "p \<in># parked_parents m"
  obtains b where "hm_get (mc_busy m) p = Some b" "parked b"
proof -
  from assms(2) obtain k b where kb: "(k, b) \<in> set (mc_busy m)" "p \<in># busy_parked b"
    by (auto simp: parked_parents_def in_hm_sum)
  have get: "hm_get (mc_busy m) k = Some b"
    using hm_get_in_set [OF minvD(1) [OF assms(1)]] kb(1) by blast
  have "parked b" "p = fl_object (bz_flow b)"
    using kb(2) by (simp_all add: busy_parked_def split: if_splits)
  moreover have "fl_object (bz_flow b) = k"
    using minv_busy [OF assms(1) get] by (simp add: busy_inv_def)
  ultimately show ?thesis
    using get that by simp
qed

lemma release_parked_inv:
  assumes "release_parked m p = (m', acts)" and "minv m"
    and bal: "add_mset p (handovers m) = parked_parents m"
  shows "minv m' \<and> handovers m' = parked_parents m'"
proof -
  have "p \<in># parked_parents m" by (simp flip: bal)
  then obtain b where b: "hm_get (mc_busy m) p = Some b" "parked b"
    using parked_parent_found [OF assms(2)] by blast
  let ?m = "m\<lparr>mc_busy := hm_remove p (mc_busy m)\<rparr>"
  have bi: "busy_inv p b" by (rule minv_busy [OF assms(2) b(1)])
  have se: "settle ?m p (bz_flow b) Done (bz_queue b) = (m', acts)"
    using assms(1) b by (simp add: release_parked_def)
  have po: "parent_op (fl_intent (bz_flow b))"
    using bi b(2) handover_step_parent_op by (auto simp: busy_inv_def parked_def)
  have "settle_ok p (bz_flow b) Done"
    using bi by (simp add: settle_ok_def ending_def busy_inv_def)
  from settle_inv_simple [OF _ _ minv_take(1) [OF assms(2)] this _ se] bi
  have "minv m' \<and> handovers m' = handovers ?m + queue_handovers (bz_queue b)
      \<and> parked_parents m' = parked_parents ?m"
    using po by (simp add: store_simps busy_inv_def)
  moreover have "busy_parked b = {#p#}" "busy_handovers b = queue_handovers (bz_queue b)"
    using b(2) bi po by (simp_all add: busy_parked_def busy_inv_def busy_handovers_def)
  ultimately show ?thesis
    using take_counts(2,4) [OF minvD(1) [OF assms(2)] b(1)] bal
    by (simp add: ac_simps)
qed

lemma release_ended_inv:
  assumes "release_ended m = (m', acts)" and "minv m" and "handovers m = parked_parents m"
  shows "minv m' \<and> handovers m' = parked_parents m' \<and> mc_releases m' = []"
  using assms
proof (induction m arbitrary: m' acts rule: release_ended.induct)
  case (1 m)
  show ?case
  proof (cases "mc_releases m")
    case Nil
    with "1.prems" show ?thesis by (auto simp: release_ended.simps [of m])
  next
    case (Cons p rest)
    let ?m = "m\<lparr>mc_releases := rest\<rparr>"
    obtain m1 acts1 where rp: "release_parked ?m p = (m1, acts1)" by fastforce
    obtain m2 acts2 where re: "release_ended m1 = (m2, acts2)" by fastforce
    have res: "m' = m2" "acts = acts1 @ acts2"
      using "1.prems"(1) Cons rp re by (simp_all add: release_ended.simps [of m])
    have "add_mset p (handovers ?m) = parked_parents ?m"
      using "1.prems"(3) Cons by (simp add: handovers_def)
    with release_parked_inv [OF rp] "1.prems"(2)
    have "minv m1 \<and> handovers m1 = parked_parents m1" by simp
    with "1.IH" [OF Cons rp [symmetric] refl re] res show ?thesis by simp
  qed
qed

section \<open>Abandoned requests\<close>

lemma take_request_handovers:
  "take_request t q = Some (r, rest) \<Longrightarrow>
     queue_handovers q = handover_ms (rq_intent r) + queue_handovers rest \<and> set rest \<subseteq> set q"
  by (induction q arbitrary: rest) (auto simp: ac_simps split: if_splits)

lemma abandon_entry_inv:
  assumes "abandon_entry t b = Some (b', rel)" and "busy_inv k b"
  shows "busy_inv k b'" and "busy_parked b' = busy_parked b"
    and "busy_handovers b = busy_handovers b' + (case rel of Some p \<Rightarrow> {#p#} | None \<Rightarrow> {#})"
proof -
  have "busy_inv k b' \<and> busy_parked b' = busy_parked b \<and>
      busy_handovers b = busy_handovers b' + (case rel of Some p \<Rightarrow> {#p#} | None \<Rightarrow> {#})"
  proof (cases "t \<in> set (fl_waiters (bz_flow b))")
    case True
    let ?ws = "remove1 t (fl_waiters (bz_flow b))"
    have b': "b' = b\<lparr>bz_flow := (bz_flow b)\<lparr>fl_waiters := ?ws,
          fl_abort := (if ?ws = [] then True else fl_abort (bz_flow b))\<rparr>\<rparr>" "rel = None"
      using assms(1) True by (auto simp: abandon_entry_def Let_def)
    have "bz_outstanding b \<noteq> None"
      using assms(2) True by (auto simp: busy_inv_def split: option.splits)
    with assms(2) b' show ?thesis
      by (auto simp: busy_inv_def busy_parked_def parked_def busy_handovers_def on_script_def
          flow_waits_def length_remove1)
  next
    case False
    with assms(1) obtain r rest where tr: "take_request t (bz_queue b) = Some (r, rest)"
        "b' = b\<lparr>bz_queue := rest\<rparr>" "rel = handed_over_from (rq_intent r)"
      by (auto simp: abandon_entry_def Let_def split: option.splits)
    from take_request_handovers [OF tr(1)] assms(2) tr(2,3) show ?thesis
      by (auto simp: busy_inv_def busy_parked_def parked_def busy_handovers_def handover_ms_def
          split: option.splits)
  qed
  then show "busy_inv k b'" and "busy_parked b' = busy_parked b"
    and "busy_handovers b = busy_handovers b' + (case rel of Some p \<Rightarrow> {#p#} | None \<Rightarrow> {#})"
    by simp_all
qed

lemma abandon_scan_inv:
  assumes "abandon_scan t bs = Some (bs', obj, rel)" and "\<forall>(k, b) \<in> set bs. busy_inv k b"
  shows "(\<forall>(k, b) \<in> set bs'. busy_inv k b) \<and> hm_sum busy_parked bs' = hm_sum busy_parked bs \<and>
     hm_sum busy_handovers bs = hm_sum busy_handovers bs' + (case rel of Some p \<Rightarrow> {#p#} | None \<Rightarrow> {#})"
  using assms
proof (induction bs arbitrary: bs')
  case Nil
  then show ?case by simp
next
  case (Cons kb bs)
  obtain k b where kb: "kb = (k, b)" by fastforce
  show ?case
  proof (cases "abandon_entry t b")
    case None
    with Cons.prems kb obtain r' where "abandon_scan t bs = Some (r', obj, rel)" "bs' = (k, b) # r'"
      by auto
    with Cons.IH Cons.prems(2) kb show ?thesis by auto
  next
    case (Some e)
    obtain b' rel' where e: "e = (b', rel')" by fastforce
    with Some Cons.prems(1) kb have "bs' = (k, b') # bs" "rel = rel'" by auto
    with abandon_entry_inv [OF Some [unfolded e], of k] Cons.prems(2) kb show ?thesis
      by auto
  qed
qed

lemma abandon_request_inv:
  assumes "abandon_request m t = (m', acts)" and "minv m" and "handovers m = parked_parents m"
  shows "minv m' \<and> handovers m' = parked_parents m'"
proof (cases "abandon_scan t (mc_busy m)")
  case None
  with assms show ?thesis by (simp add: abandon_request_def)
next
  case (Some s)
  obtain bs obj rel where s: "s = (bs, obj, rel)" by (cases s) auto
  have wf: "hm_wf (mc_busy m)" by (rule minvD(1) [OF assms(2)])
  have keys: "map fst bs = map fst (mc_busy m)"
    using abandon_scan_owes [OF Some [unfolded s]] by simp
  have "\<forall>(k, b) \<in> set (mc_busy m). busy_inv k b"
    using minv_busy [OF assms(2)] hm_get_in_set [OF wf] by auto
  note scan = abandon_scan_inv [OF Some [unfolded s] this]
  have wf': "hm_wf bs" using wf keys by (simp add: hm_wf_def)
  have m': "m' = m\<lparr>mc_busy := bs,
      mc_releases := (case rel of Some p \<Rightarrow> p # mc_releases m | None \<Rightarrow> mc_releases m)\<rparr>"
    using assms(1) Some s by (simp add: abandon_request_def)
  have "minv m'"
    using scan assms(2) wf' by (auto simp: m' minv_def dest: map_of_SomeD)
  moreover have "handovers m' = parked_parents m'"
    using scan assms(3) by (cases rel) (auto simp: m' handovers_def parked_parents_def ac_simps)
  ultimately show ?thesis by simp
qed

section \<open>Entry points\<close>

definition balanced :: "machine \<Rightarrow> bool" where
  "balanced m \<longleftrightarrow> minv m \<and> handovers m = parked_parents m \<and> mc_releases m = []"

lemma balanced_new: "balanced machine_new"
  by (simp add: balanced_def machine_new_def minv_def handovers_def parked_parents_def registry_new_def)

lemma on_request_balanced:
  assumes "balanced m" and "on_request m r = (m', acts)" and "handover_ms (rq_intent r) = {#}"
  shows "balanced m'"
proof -
  obtain m1 a1 where rq: "machine_request m r = (m1, a1)" by fastforce
  obtain m2 a2 where re: "release_ended m1 = (m2, a2)" by fastforce
  have "m' = m2" using assms(2) rq re by (simp add: on_request_def)
  with request_inv [OF rq] release_ended_inv [OF re] assms(1,3) show ?thesis
    by (simp add: balanced_def)
qed

lemma on_completion_balanced:
  assumes "balanced m" and "on_completion m obj c = (m', acts)"
    and "\<And>b. hm_get (mc_busy m) obj = Some b \<Longrightarrow> bz_outstanding b \<noteq> None"
  shows "balanced m'"
proof -
  obtain m1 a1 where co: "machine_completion m obj c = (m1, a1)" by fastforce
  obtain m2 a2 where re: "release_ended m1 = (m2, a2)" by fastforce
  have "m' = m2" using assms(2) co re by (simp add: on_completion_def)
  with completion_inv [OF co _ assms(3)] release_ended_inv [OF re] assms(1) show ?thesis
    by (simp add: balanced_def)
qed

lemma abandon_balanced:
  assumes "balanced m" and "abandon m t = (m', acts)"
  shows "balanced m'"
proof -
  obtain m1 a1 where ab: "abandon_request m t = (m1, a1)" by fastforce
  obtain m2 a2 where re: "release_ended m1 = (m2, a2)" by fastforce
  have "m' = m2" using assms(2) ab re by (simp add: abandon_def)
  with abandon_request_inv [OF ab] release_ended_inv [OF re] assms(1) show ?thesis
    by (simp add: balanced_def)
qed

lemma on_beside_balanced:
  assumes "balanced m" and "on_beside m t c = (m', out)"
  shows "balanced m'"
  using assms
  by (auto simp: on_beside_def balanced_def minv_def handovers_def parked_parents_def Let_def
      split: option.splits prod.splits)

end
