(* ===== verification/Fsm_Order.thy ===== *)
theory Fsm_Order
  imports Fsm_Machine_Inv
begin

text \<open>
  Order and exclusion. Two more readings of the same entry points: an object's queue is
  served in arrival order, and the jobs handed out and not yet answered are exactly the
  outstanding jobs of the busy objects, so no object ever has two jobs in flight.
\<close>

section \<open>First in, first out\<close>

definition queue_of :: "machine \<Rightarrow> object_id \<Rightarrow> request list" where
  "queue_of m k = (case hm_get (mc_busy m) k of Some b \<Rightarrow> bz_queue b | None \<Rightarrow> [])"

text \<open>
  The queue lost requests at its front and gained requests at its end, nothing else; the
  gained ones carry tickets of \<open>T\<close>.
\<close>

definition fifo :: "request_id set \<Rightarrow> request list \<Rightarrow> request list \<Rightarrow> bool" where
  "fifo T q q' \<longleftrightarrow> (\<exists>n ext. q' = drop n q @ ext \<and> rq_id ` set ext \<subseteq> T)"

lemma fifo_refl [simp]: "fifo T q q"
  unfolding fifo_def by (rule exI [of _ 0]) simp

lemma fifo_append [simp]: "rq_id ` set ext \<subseteq> T \<Longrightarrow> fifo T q (q @ ext)"
  unfolding fifo_def by (rule exI [of _ 0]) simp

lemma fifo_one [simp]: "fifo {rq_id r} q (q @ [r])"
  by simp

lemma fifo_mono: "fifo S q q' \<Longrightarrow> S \<subseteq> T \<Longrightarrow> fifo T q q'"
  unfolding fifo_def by blast

lemma fifo_trans:
  assumes "fifo T p q" and "fifo T q r"
  shows "fifo T p r"
proof -
  obtain n e where q: "q = drop n p @ e" "rq_id ` set e \<subseteq> T" using assms(1) by (auto simp: fifo_def)
  obtain k f where r: "r = drop k q @ f" "rq_id ` set f \<subseteq> T" using assms(2) by (auto simp: fifo_def)
  have "r = drop (n + k) p @ (drop (k - length (drop n p)) e @ f)"
    by (simp add: q(1) r(1) add.commute)
  moreover have "rq_id ` set (drop (k - length (drop n p)) e @ f) \<subseteq> T"
    using q(2) r(2) set_drop_subset [of _ e] by fastforce
  ultimately show ?thesis unfolding fifo_def by blast
qed

lemma fifo_Cons: "fifo T q q' \<Longrightarrow> fifo T (r # q) q'"
  unfolding fifo_def by (metis drop_Suc_Cons)

lemma queue_of_put [store_simps]:
  "queue_of (put_busy m obj flow out q) k = (if k = obj then q else queue_of m k)"
  by (simp add: queue_of_def frame_simps store_simps)

lemma queue_of_frame [simp]:
  "queue_of (m\<lparr>mc_beside := x\<rparr>) = queue_of m"
  "queue_of (m\<lparr>mc_releases := y\<rparr>) = queue_of m"
  "queue_of (end_release m flow) = queue_of m"
  by (rule ext; simp add: queue_of_def frame_simps)+

lemma queue_of_take [store_simps]:
  "queue_of (m\<lparr>mc_busy := hm_remove obj (mc_busy m)\<rparr>) k = (if k = obj then [] else queue_of m k)"
  "queue_of (m\<lparr>mc_busy := hm_remove obj (mc_busy m), mc_registry := reg\<rparr>) k =
     (if k = obj then [] else queue_of m k)"
  by (simp_all add: queue_of_def store_simps)

lemma queue_of_idle: "hm_get (mc_busy m) k = None \<Longrightarrow> queue_of m k = []"
  by (simp add: queue_of_def)

lemma settle_fifo_simple:
  assumes "\<not> is_handoff nxt" and "hm_get (mc_busy m) obj = None"
    and "settle m obj flow nxt q = (m', acts)"
  shows "fifo {} q (queue_of m' obj) \<and> (\<forall>k. k \<noteq> obj \<longrightarrow> queue_of m' k = queue_of m k)"
  using assms
proof (induction q arbitrary: m flow nxt m' acts)
  case Nil
  then show ?case
    by (cases nxt) (auto simp: settle.simps store_simps Let_def queue_of_idle split: if_splits)
next
  case (Cons r q)
  let ?m = "end_release m flow"
  obtain f n where st: "start obj (rq_intent r) (rq_id r) (registry_facts (mc_registry ?m) obj) = (f, n)"
    by fastforce
  obtain m2 acts2 where se: "settle ?m obj f n q = (m2, acts2)"
    by fastforce
  have "fifo {} q (queue_of m2 obj) \<and> (\<forall>k. k \<noteq> obj \<longrightarrow> queue_of m2 k = queue_of m k)"
    using Cons.IH [OF start_no_handoff [OF st [symmetric]] _ se] Cons.prems(2) by (simp add: frame_simps)
  with Cons.prems st se show ?case
    by (cases nxt) (auto simp: settle.simps store_simps Let_def fifo_Cons split: if_splits)
qed

lemma request_fifo:
  assumes "machine_request m r = (m', acts)"
  shows "fifo {rq_id r} (queue_of m k) (queue_of m' k)"
proof (cases "hm_get (mc_busy m) (rq_object r)")
  case None
  obtain f n where st: "start (rq_object r) (rq_intent r) (rq_id r)
      (registry_facts (mc_registry m) (rq_object r)) = (f, n)"
    by fastforce
  have "settle m (rq_object r) f n [] = (m', acts)"
    using assms None st by (simp add: machine_request.simps begin_flow.simps Let_def)
  from settle_fifo_simple [OF start_no_handoff [OF st [symmetric]] None this] None
  show ?thesis by (cases "k = rq_object r") (auto simp: queue_of_def intro: fifo_mono)
next
  case (Some b)
  have q: "queue_of m (rq_object r) = bz_queue b"
    using Some by (simp add: queue_of_def)
  show ?thesis
  proof (cases "metadata_read (rq_intent r)")
    case True
    then have "begin_beside m r = (m', acts)"
      using assms Some by (simp add: machine_request.simps metadata_read_def)
    moreover obtain f j where "start (rq_object r) (rq_intent r) (rq_id r)
        (registry_facts (mc_registry m) (rq_object r)) = (f, Do j)"
      using start_metadata [of "rq_intent r"] True unfolding metadata_read_def by metis
    ultimately show ?thesis
      by (auto simp: begin_beside.simps Let_def)
  next
    case False
    with assms Some q show ?thesis
      by (auto simp: machine_request.simps metadata_read_def Let_def store_simps
          split: collision_decision.splits if_splits)
  qed
qed

lemma hand_over_fifo:
  "hand_over m to i ws = (m', acts) \<Longrightarrow> fifo (set ws) (queue_of m k) (queue_of m' k)"
proof (induction ws arbitrary: m acts)
  case Nil
  then show ?case by (simp add: settle.simps)
next
  case (Cons w ws)
  obtain m1 a1 where rq: "machine_request m \<lparr>rq_id = w, rq_object = to, rq_intent = i\<rparr> = (m1, a1)"
    by fastforce
  obtain m2 a2 where ho: "hand_over m1 to i ws = (m2, a2)" by fastforce
  have "m' = m2" using Cons.prems rq ho by (simp add: settle.simps)
  moreover have "fifo (set (w # ws)) (queue_of m k) (queue_of m1 k)"
    using request_fifo [OF rq, of k] by (rule fifo_mono) simp
  moreover have "fifo (set (w # ws)) (queue_of m1 k) (queue_of m2 k)"
    using Cons.IH [of m1 a2] ho \<open>m' = m2\<close> by (auto intro: fifo_mono)
  ultimately show ?case using fifo_trans by blast
qed

lemma settle_fifo:
  assumes "hm_get (mc_busy m) obj = None" and "settle m obj flow nxt q = (m', acts)"
  shows "fifo (if is_handoff nxt then set (fl_waiters flow) else {})
    (if k = obj then q else queue_of m k) (queue_of m' k)"
proof (cases "is_handoff nxt")
  case False
  from settle_fifo_simple [OF False assms] False show ?thesis by auto
next
  case True
  then obtain to i where "nxt = Handoff to i" by (cases nxt) auto
  with assms(2) hand_over_fifo [of "put_busy m obj (flow\<lparr>fl_waiters := []\<rparr>) None q" to i "fl_waiters flow" m' acts k]
  show ?thesis
    by (auto simp: settle.simps Let_def store_simps split: if_splits)
qed

lemma release_ended_fifo:
  "release_ended m = (m', acts) \<Longrightarrow> fifo {} (queue_of m k) (queue_of m' k)"
proof (induction m arbitrary: m' acts rule: release_ended.induct)
  case (1 m)
  show ?case
  proof (cases "mc_releases m")
    case Nil
    with "1.prems" show ?thesis by (auto simp: release_ended.simps [of m])
  next
    case (Cons p rest)
    let ?m = "m\<lparr>mc_releases := rest\<rparr>"
    obtain m1 a1 where rp: "release_parked ?m p = (m1, a1)" by fastforce
    obtain m2 a2 where re: "release_ended m1 = (m2, a2)" by fastforce
    have res: "m' = m2"
      using "1.prems"(1) Cons rp re by (simp_all add: release_ended.simps [of m])
    have "fifo {} (queue_of m k) (queue_of m1 k)"
    proof (cases "\<exists>b. hm_get (mc_busy ?m) p = Some b \<and> parked b")
      case False
      with rp release_parked_idle [of ?m p] show ?thesis by auto
    next
      case True
      then obtain b where b: "hm_get (mc_busy ?m) p = Some b" "parked b" by blast
      have "settle (?m\<lparr>mc_busy := hm_remove p (mc_busy ?m)\<rparr>) p (bz_flow b) Done (bz_queue b) = (m1, a1)"
        using rp b by (simp add: release_parked_def)
      from settle_fifo [OF _ this, of k] b(1) show ?thesis
        by (auto simp: store_simps queue_of_def split: if_splits)
    qed
    with "1.IH" [OF Cons rp [symmetric] refl re] res fifo_trans show ?thesis by blast
  qed
qed

lemma on_request_fifo:
  assumes "on_request m r = (m', acts)"
  shows "fifo {rq_id r} (queue_of m k) (queue_of m' k)"
proof -
  obtain m1 a1 where rq: "machine_request m r = (m1, a1)" by fastforce
  obtain m2 a2 where re: "release_ended m1 = (m2, a2)" by fastforce
  have "m' = m2" using assms rq re by (simp add: on_request_def)
  moreover have "fifo {rq_id r} (queue_of m1 k) (queue_of m2 k)"
    using release_ended_fifo [OF re, of k] by (rule fifo_mono) simp
  ultimately show ?thesis using request_fifo [OF rq, of k] fifo_trans by blast
qed

text \<open>Who waits on the flow of an object.\<close>

definition waiters_of :: "machine \<Rightarrow> object_id \<Rightarrow> request_id list" where
  "waiters_of m k = (case hm_get (mc_busy m) k of Some b \<Rightarrow> fl_waiters (bz_flow b) | None \<Rightarrow> [])"

lemma on_completion_fifo:
  assumes "on_completion m obj c = (m', acts)"
  shows "fifo (set (waiters_of m obj)) (queue_of m k) (queue_of m' k)"
proof -
  obtain m1 a1 where co: "machine_completion m obj c = (m1, a1)" by fastforce
  obtain m2 a2 where re: "release_ended m1 = (m2, a2)" by fastforce
  have m': "m' = m2" using assms co re by (simp add: on_completion_def)
  have "fifo (set (waiters_of m obj)) (queue_of m k) (queue_of m1 k)"
  proof (cases "hm_get (mc_busy m) obj")
    case None
    with co show ?thesis by (simp add: machine_completion_def)
  next
    case (Some b)
    obtain reg f n where ad: "advance (bz_flow b) c (registry_facts reg obj) = (f, n)"
      and se: "settle (m\<lparr>mc_busy := hm_remove obj (mc_busy m), mc_registry := reg\<rparr>) obj f n (bz_queue b) = (m1, a1)"
      using co Some by (auto simp: machine_completion_def Let_def split: prod.splits)
    have "queue_of m k = (if k = obj then bz_queue b
        else queue_of (m\<lparr>mc_busy := hm_remove obj (mc_busy m), mc_registry := reg\<rparr>) k)"
      using Some by (simp add: store_simps) (simp add: queue_of_def)
    then have "fifo (if is_handoff n then set (fl_waiters f) else {}) (queue_of m k) (queue_of m1 k)"
      using settle_fifo [OF _ se, of k] by (simp add: store_simps)
    moreover have "set (fl_waiters f) = set (waiters_of m obj)"
      using advance_frame(3) [OF ad] Some by (simp add: waiters_of_def)
    ultimately show ?thesis
      by (auto intro: fifo_mono split: if_splits)
  qed
  moreover have "fifo (set (waiters_of m obj)) (queue_of m1 k) (queue_of m2 k)"
    using release_ended_fifo [OF re, of k] by (rule fifo_mono) simp
  ultimately show ?thesis using m' fifo_trans by blast
qed

section \<open>Jobs in flight\<close>

definition busy_job :: "busy \<Rightarrow> (object_id \<times> job) multiset" where
  "busy_job b = (case bz_outstanding b of Some j \<Rightarrow> {#(fl_object (bz_flow b), j)#} | None \<Rightarrow> {#})"

definition in_flight :: "machine \<Rightarrow> (object_id \<times> job) multiset" where
  "in_flight m = hm_sum busy_job (mc_busy m)"

fun action_jobs :: "action \<Rightarrow> (object_id \<times> job) multiset" where
  "action_jobs (Dispatch obj j) = {#(obj, j)#}"
| "action_jobs _ = {#}"

definition dispatched :: "action list \<Rightarrow> (object_id \<times> job) multiset" where
  "dispatched acts = sum_list (map action_jobs acts)"

lemma dispatched_simps [simp]:
  "dispatched [] = {#}"
  "dispatched (a # acts) = action_jobs a + dispatched acts"
  "dispatched (acts @ acts') = dispatched acts + dispatched acts'"
  by (simp_all add: dispatched_def)

lemma dispatched_end_actions [simp]: "dispatched (end_actions obj flow out) = {#}"
  by (simp add: end_actions_def split: intent.split)

lemma in_flight_frame [simp]:
  "in_flight (m\<lparr>mc_beside := x\<rparr>) = in_flight m"
  "in_flight (m\<lparr>mc_releases := y\<rparr>) = in_flight m"
  "in_flight (end_release m flow) = in_flight m"
  by (simp_all add: in_flight_def frame_simps)

lemma in_flight_put_idle:
  assumes "hm_get (mc_busy m) obj = None"
  shows "in_flight (put_busy m obj flow (Some j) q) = add_mset (fl_object flow, j) (in_flight m)"
    and "in_flight (put_busy m obj flow None q) = in_flight m"
  using assms by (simp_all add: in_flight_def frame_simps hm_sum_insert_absent busy_job_def)

lemma in_flight_put_busy:
  assumes "hm_wf (mc_busy m)" and "hm_get (mc_busy m) obj = Some b"
    and "fl_object flow = fl_object (bz_flow b)"
  shows "in_flight (put_busy m obj flow (bz_outstanding b) q) = in_flight m"
proof -
  have "busy_job \<lparr>bz_flow = flow, bz_outstanding = bz_outstanding b, bz_queue = q\<rparr> = busy_job b"
    using assms(3) by (simp add: busy_job_def split: option.split)
  with hm_sum_replace [OF assms(1,2), of busy_job
      "\<lparr>bz_flow = flow, bz_outstanding = bz_outstanding b, bz_queue = q\<rparr>"]
  show ?thesis by (simp add: in_flight_def frame_simps ac_simps)
qed

lemma settle_jobs_simple:
  assumes "\<not> is_handoff nxt" and "hm_get (mc_busy m) obj = None"
    and "fl_object flow = obj" and "settle m obj flow nxt q = (m', acts)"
  shows "in_flight m' = in_flight m + dispatched acts"
  using assms
proof (induction q arbitrary: m flow nxt m' acts)
  case Nil
  then show ?case
    by (cases nxt) (auto simp: settle.simps in_flight_put_idle ending_def Let_def split: if_splits)
next
  case (Cons r q)
  let ?m = "end_release m flow"
  obtain f n where st: "start obj (rq_intent r) (rq_id r) (registry_facts (mc_registry ?m) obj) = (f, n)"
    by fastforce
  obtain m2 acts2 where se: "settle ?m obj f n q = (m2, acts2)"
    by fastforce
  have "in_flight m2 = in_flight m + dispatched acts2"
    using Cons.IH [OF start_no_handoff [OF st [symmetric]] _ start_ticket(1) [OF st] se] Cons.prems(2)
    by (simp add: frame_simps)
  with Cons.prems st se show ?case
    by (cases nxt) (auto simp: settle.simps in_flight_put_idle ending_def Let_def split: if_splits)
qed

lemma request_jobs:
  assumes "machine_request m r = (m', acts)" and "minv m"
  shows "in_flight m' = in_flight m + dispatched acts"
proof (cases "hm_get (mc_busy m) (rq_object r)")
  case None
  obtain f n where st: "start (rq_object r) (rq_intent r) (rq_id r)
      (registry_facts (mc_registry m) (rq_object r)) = (f, n)"
    by fastforce
  have "settle m (rq_object r) f n [] = (m', acts)"
    using assms(1) None st by (simp add: machine_request.simps begin_flow.simps Let_def)
  from settle_jobs_simple [OF start_no_handoff [OF st [symmetric]] None start_ticket(1) [OF st] this]
  show ?thesis .
next
  case (Some b)
  note put = in_flight_put_busy [OF minvD(1) [OF assms(2)] Some]
  show ?thesis
  proof (cases "metadata_read (rq_intent r)")
    case True
    then have "begin_beside m r = (m', acts)"
      using assms(1) Some by (simp add: machine_request.simps metadata_read_def)
    moreover obtain f j where "start (rq_object r) (rq_intent r) (rq_id r)
        (registry_facts (mc_registry m) (rq_object r)) = (f, Do j)"
      using start_metadata [of "rq_intent r"] True unfolding metadata_read_def by metis
    ultimately show ?thesis
      by (auto simp: begin_beside.simps Let_def)
  next
    case False
    with assms(1) Some show ?thesis
      by (auto simp: machine_request.simps metadata_read_def Let_def put
          split: collision_decision.splits if_splits)
  qed
qed

lemma completion_jobs:
  assumes co: "machine_completion m obj c = (m', acts)" and inv: "minv m"
    and b: "hm_get (mc_busy m) obj = Some b" "bz_outstanding b = Some j"
  shows "add_mset (obj, j) (in_flight m') = in_flight m + dispatched acts"
proof -
  define reg where "reg = apply_to_registry (mc_registry m) j (fl_intent (bz_flow b)) c
         (nf_etag (ca_node (fl_carry (bz_flow b)))) (nf_ignored (ca_node (fl_carry (bz_flow b))))"
  let ?m = "m\<lparr>mc_busy := hm_remove obj (mc_busy m), mc_registry := reg\<rparr>"
  obtain f n where ad: "advance (bz_flow b) c (registry_facts reg obj) = (f, n)" by fastforce
  have se: "settle ?m obj f n (bz_queue b) = (m', acts)"
    using co b ad by (simp add: machine_completion_def Let_def reg_def)
  have fl: "fl_object (bz_flow b) = obj" "on_script (bz_flow b)" "flow_waits (bz_flow b)"
      "\<forall>r \<in> set (bz_queue b). rq_object r = obj"
    using minv_busy [OF inv b(1)] b(2) by (auto simp: busy_inv_def)
  have idle: "hm_get (mc_busy ?m) obj = None" by (simp add: store_simps)
  have taken: "in_flight m = add_mset (obj, j) (in_flight ?m)"
    using hm_sum_remove [OF minvD(1) [OF inv] b(1), of busy_job] b(2) fl(1)
    by (simp add: in_flight_def busy_job_def)
  have fo: "fl_object f = obj" using advance_frame(1) [OF ad] fl(1) by simp
  have "hm_wf reg" using inv by (auto simp: reg_def apply_to_registry_wf)
  then have im: "minv ?m" by (rule minv_take(2) [OF inv])
  show ?thesis
  proof (cases "is_handoff n")
    case False
    from settle_jobs_simple [OF False idle fo se] taken show ?thesis by simp
  next
    case True
    then obtain to i where n: "n = Handoff to i" by (cases n) auto
    obtain w where w: "fl_waiters f = [w]" "fl_step f = Handover"
      using advance_handoff_caller [OF ad [unfolded n] fl(2,3)] by metis
    let ?p = "put_busy ?m obj (f\<lparr>fl_waiters := []\<rparr>) None (bz_queue b)"
    have "on_script f" by (rule advance_on_script(1) [OF fl(2) ad])
    then have ip: "minv ?p"
      using im fl(4) w(2) fo by (intro minv_put) (auto simp: busy_inv_def on_script_def)
    obtain a where rq: "machine_request ?p \<lparr>rq_id = w, rq_object = to, rq_intent = i\<rparr> = (m', a)" "acts = a"
      using se n w(1) by (auto simp: settle.simps Let_def split: prod.splits)
    from request_jobs [OF rq(1) ip] rq(2) taken in_flight_put_idle(2) [OF idle]
    show ?thesis by simp
  qed
qed

lemma release_parked_jobs:
  assumes "release_parked m p = (m', acts)" and "minv m"
  shows "in_flight m' = in_flight m + dispatched acts"
proof (cases "\<exists>b. hm_get (mc_busy m) p = Some b \<and> parked b")
  case False
  with assms release_parked_idle [of m p] show ?thesis by auto
next
  case True
  then obtain b where b: "hm_get (mc_busy m) p = Some b" "parked b" by blast
  let ?m = "m\<lparr>mc_busy := hm_remove p (mc_busy m)\<rparr>"
  have se: "settle ?m p (bz_flow b) Done (bz_queue b) = (m', acts)"
    using assms(1) b by (simp add: release_parked_def)
  have "busy_job b = {#}" using b(2) by (simp add: busy_job_def parked_def)
  then have "in_flight m = in_flight ?m"
    using hm_sum_remove [OF minvD(1) [OF assms(2)] b(1), of busy_job] by (simp add: in_flight_def)
  moreover have "fl_object (bz_flow b) = p"
    using minv_busy [OF assms(2) b(1)] by (simp add: busy_inv_def)
  ultimately show ?thesis
    using settle_jobs_simple [OF _ _ _ se] by (simp add: store_simps)
qed

lemma release_ended_jobs:
  assumes "release_ended m = (m', acts)" and "minv m" and "handovers m = parked_parents m"
  shows "in_flight m' = in_flight m + dispatched acts"
  using assms
proof (induction m arbitrary: m' acts rule: release_ended.induct)
  case (1 m)
  show ?case
  proof (cases "mc_releases m")
    case Nil
    with "1.prems" show ?thesis by (auto simp: release_ended.simps [of m])
  next
    case (Cons p rest)
    let ?m = "m\<lparr>mc_releases := rest\<rparr>"
    obtain m1 acts1 where rp: "release_parked ?m p = (m1, acts1)" by fastforce
    obtain m2 acts2 where re: "release_ended m1 = (m2, acts2)" by fastforce
    have res: "m' = m2" "acts = acts1 @ acts2"
      using "1.prems"(1) Cons rp re by (simp_all add: release_ended.simps [of m])
    have "add_mset p (handovers ?m) = parked_parents ?m"
      using "1.prems"(3) Cons by (simp add: handovers_def)
    with release_parked_inv [OF rp] "1.prems"(2)
    have "minv m1 \<and> handovers m1 = parked_parents m1" by simp
    with "1.IH" [OF Cons rp [symmetric] refl re] release_parked_jobs [OF rp] "1.prems"(2) res
    show ?thesis by simp
  qed
qed

section \<open>Entry points\<close>

lemma on_request_jobs:
  assumes "balanced m" and "on_request m r = (m', acts)" and "handover_ms (rq_intent r) = {#}"
  shows "in_flight m' = in_flight m + dispatched acts"
proof -
  obtain m1 a1 where rq: "machine_request m r = (m1, a1)" by fastforce
  obtain m2 a2 where re: "release_ended m1 = (m2, a2)" by fastforce
  have "m' = m2" "acts = a1 @ a2" using assms(2) rq re by (simp_all add: on_request_def)
  with request_inv [OF rq] request_jobs [OF rq] release_ended_jobs [OF re] assms(1,3) show ?thesis
    by (simp add: balanced_def)
qed

lemma on_completion_jobs:
  assumes "balanced m" and "on_completion m obj c = (m', acts)"
    and "hm_get (mc_busy m) obj = Some b" and "bz_outstanding b = Some j"
  shows "add_mset (obj, j) (in_flight m') = in_flight m + dispatched acts"
proof -
  obtain m1 a1 where co: "machine_completion m obj c = (m1, a1)" by fastforce
  obtain m2 a2 where re: "release_ended m1 = (m2, a2)" by fastforce
  have eq: "m' = m2" "acts = a1 @ a2" using assms(2) co re by (simp_all add: on_completion_def)
  have bal: "minv m" "handovers m = parked_parents m" using assms(1) by (simp_all add: balanced_def)
  have "minv m1 \<and> handovers m1 = parked_parents m1"
    using completion_inv [OF co bal(1) _ bal(2)] assms(3,4) by simp
  then have "add_mset (obj, j) (in_flight m2) = add_mset (obj, j) (in_flight m1) + dispatched a2"
    using release_ended_jobs [OF re] by simp
  also have "add_mset (obj, j) (in_flight m1) = in_flight m + dispatched a1"
    by (rule completion_jobs [OF co bal(1) assms(3,4)])
  finally show ?thesis using eq by (simp add: add.assoc)
qed

lemma abandon_entry_job:
  assumes "abandon_entry t b = Some (b', rel)"
  shows "busy_job b' = busy_job b"
proof (cases "t \<in> set (fl_waiters (bz_flow b))")
  case True
  have "fl_object (bz_flow b') = fl_object (bz_flow b) \<and> bz_outstanding b' = bz_outstanding b"
    using assms True by (auto simp: abandon_entry_def Let_def)
  then show ?thesis by (simp add: busy_job_def split: option.split)
next
  case False
  with assms have "bz_flow b' = bz_flow b \<and> bz_outstanding b' = bz_outstanding b"
    by (cases "take_request t (bz_queue b)") (auto simp: abandon_entry_def Let_def)
  then show ?thesis by (simp add: busy_job_def split: option.split)
qed

lemma abandon_scan_jobs:
  "abandon_scan t bs = Some (bs', obj, rel) \<Longrightarrow> hm_sum busy_job bs' = hm_sum busy_job bs"
proof (induction bs arbitrary: bs')
  case Nil
  then show ?case by simp
next
  case (Cons kb bs)
  obtain k b where kb: "kb = (k, b)" by fastforce
  note job = abandon_entry_job
  show ?case
  proof (cases "abandon_entry t b")
    case None
    with Cons.prems kb obtain r' where "abandon_scan t bs = Some (r', obj, rel)" "bs' = (k, b) # r'"
      by auto
    with Cons.IH kb show ?thesis by simp
  next
    case (Some e)
    obtain b' rel' where e: "e = (b', rel')" by fastforce
    with Some Cons.prems kb have "bs' = (k, b') # bs" by auto
    with job [OF Some [unfolded e]] kb show ?thesis by simp
  qed
qed

lemma abandon_jobs:
  assumes "balanced m" and "abandon m t = (m', acts)"
  shows "in_flight m' = in_flight m + dispatched acts"
proof -
  obtain m1 a1 where ab: "abandon_request m t = (m1, a1)" by fastforce
  obtain m2 a2 where re: "release_ended m1 = (m2, a2)" by fastforce
  have eq: "m' = m2" "acts = a1 @ a2" using assms(2) ab re by (simp_all add: abandon_def)
  have "in_flight m1 = in_flight m \<and> dispatched a1 = {#}"
    using ab by (auto simp: abandon_request_def in_flight_def answer_interrupted_def abandon_scan_jobs
        split: option.splits)
  with release_ended_jobs [OF re] abandon_request_inv [OF ab] assms(1) eq show ?thesis
    by (simp add: balanced_def)
qed

text \<open>At most one job per object: the objects of the jobs in flight are distinct keys.\<close>

lemma in_flight_objects:
  assumes "minv m"
  shows "image_mset fst (in_flight m) \<subseteq># mset (map fst (mc_busy m))"
proof -
  have "image_mset fst (hm_sum busy_job bs) \<subseteq># mset (map fst bs)"
    if "\<forall>(k, b) \<in> set bs. fl_object (bz_flow b) = k" for bs
    using that
  proof (induction bs)
    case Nil
    then show ?case by simp
  next
    case (Cons kb bs)
    then show ?case
      by (cases kb) (auto simp: busy_job_def intro: subset_mset.order_trans split: option.splits)
  qed
  moreover have "\<forall>(k, b) \<in> set (mc_busy m). fl_object (bz_flow b) = k"
    using minv_busy [OF assms] hm_get_in_set [OF minvD(1) [OF assms]] by (auto simp: busy_inv_def)
  ultimately show ?thesis by (simp add: in_flight_def)
qed

lemma one_job_per_object:
  assumes "minv m"
  shows "count (image_mset fst (in_flight m)) obj \<le> 1"
proof -
  have "count (image_mset fst (in_flight m)) obj \<le> count (mset (map fst (mc_busy m))) obj"
    by (rule mset_subset_eq_count [OF in_flight_objects [OF assms]])
  also have "\<dots> \<le> 1"
    using minvD(1) [OF assms] by (auto simp: hm_wf_def distinct_count_atmost_1)
  finally show ?thesis .
qed

end
