(* ===== verification/Fsm_Runs.thy ===== *)
theory Fsm_Runs
  imports Fsm_Order
begin

text \<open>
  Runs of the machine. The decision thread owns the machine and feeds it one message after
  another; an event is one such message, and a run is any sequence of them in which every
  arriving request carries a ticket not in use, no frontend sends a hand-over of its own,
  and executors answer the jobs they were given. The theorems below hold for every run.
\<close>

section \<open>Events\<close>

datatype event =
    Arrive request
  | Complete object_id completion
  | GiveUp request_id
  | BesideDone request_id completion
  | Configure bool
  | SeedBuffer object_id buffer

text \<open>One event: the machine after it, the tickets answered by it and the jobs it handed out.\<close>

definition apply_event :: "machine \<Rightarrow> event \<Rightarrow> machine \<times> request_id multiset \<times> (object_id \<times> job) multiset" where
  "apply_event m e =
     (case e of
        Arrive r \<Rightarrow> (case on_request m r of (m', acts) \<Rightarrow> (m', answered acts, dispatched acts))
      | Complete obj c \<Rightarrow> (case on_completion m obj c of (m', acts) \<Rightarrow> (m', answered acts, dispatched acts))
      | GiveUp t \<Rightarrow> (case abandon m t of (m', acts) \<Rightarrow> (m', answered acts, dispatched acts))
      | BesideDone t c \<Rightarrow>
          (case on_beside m t c of (m', out) \<Rightarrow>
             (m', if t \<in> fst ` set (mc_beside m) then {#t#} else {#}, {#}))
      | Configure b \<Rightarrow> (set_async_upload m b, {#}, {#})
      | SeedBuffer obj bf \<Rightarrow> (m\<lparr>mc_registry := registry_open (mc_registry m) obj bf\<rparr>, {#}, {#}))"

definition event_ok :: "machine \<Rightarrow> event \<Rightarrow> bool" where
  "event_ok m e \<longleftrightarrow>
     (case e of
        Arrive r \<Rightarrow> rq_id r \<notin># owed m \<and> handed_over_from (rq_intent r) = None
      | Complete obj c \<Rightarrow>
          (case hm_get (mc_busy m) obj of Some b \<Rightarrow> bz_outstanding b \<noteq> None | None \<Rightarrow> True)
      | _ \<Rightarrow> True)"

fun arrivals :: "event list \<Rightarrow> request_id list" where
  "arrivals [] = []"
| "arrivals (Arrive r # es) = rq_id r # arrivals es"
| "arrivals (_ # es) = arrivals es"

text \<open>The job a completion answers.\<close>

definition finished_job :: "machine \<Rightarrow> event \<Rightarrow> (object_id \<times> job) multiset" where
  "finished_job m e =
     (case e of
        Complete obj c \<Rightarrow>
          (case hm_get (mc_busy m) obj of
             Some b \<Rightarrow> (case bz_outstanding b of Some j \<Rightarrow> {#(obj, j)#} | None \<Rightarrow> {#})
           | None \<Rightarrow> {#})
      | _ \<Rightarrow> {#})"

text \<open>A run; \<open>None\<close> for a sequence of events the surroundings cannot produce.\<close>

fun run :: "machine \<Rightarrow> event list \<Rightarrow> (machine \<times> request_id multiset) option" where
  "run m [] = Some (m, {#})"
| "run m (e # es) =
     (if event_ok m e
      then (case apply_event m e of (m', ans, _) \<Rightarrow>
              map_option (\<lambda>(m'', ans'). (m'', ans + ans')) (run m' es))
      else None)"

inductive reachable :: "machine \<Rightarrow> bool" where
  initial: "reachable machine_new"
| event: "reachable m \<Longrightarrow> event_ok m e \<Longrightarrow> apply_event m e = (m', ans, jobs) \<Longrightarrow> reachable m'"

lemma run_reachable: "reachable m \<Longrightarrow> run m es = Some (m', ans) \<Longrightarrow> reachable m'"
proof (induction es arbitrary: m ans)
  case Nil
  then show ?case by simp
next
  case (Cons e es)
  then obtain m1 a1 j1 where "apply_event m e = (m1, a1, j1)" "event_ok m e"
    by (auto split: if_splits prod.splits)
  with Cons reachable.event show ?case by (fastforce split: prod.splits)
qed

section \<open>Every event keeps the invariant\<close>

lemma no_handover_ms: "handed_over_from i = None \<Longrightarrow> handover_ms i = {#}"
  by (simp add: handover_ms_def)

lemma balanced_on_script: "balanced m \<Longrightarrow> hm_get (mc_busy m) obj = Some b \<Longrightarrow> on_script (bz_flow b)"
  using minv_busy by (fastforce simp: balanced_def busy_inv_def)

lemma apply_event_balanced:
  assumes "balanced m" and "event_ok m e" and "apply_event m e = (m', ans, jobs)"
  shows "balanced m'"
proof (cases e)
  case (Arrive r)
  obtain m1 a where "on_request m r = (m1, a)" by fastforce
  with assms Arrive on_request_balanced [OF assms(1)] show ?thesis
    by (simp add: apply_event_def event_ok_def no_handover_ms)
next
  case (Complete obj c)
  obtain m1 a where co: "on_completion m obj c = (m1, a)" by fastforce
  have "bz_outstanding b \<noteq> None" if "hm_get (mc_busy m) obj = Some b" for b
    using that assms(2) Complete by (simp add: event_ok_def)
  from on_completion_balanced [OF assms(1) co this] assms(3) Complete co show ?thesis
    by (simp add: apply_event_def)
next
  case (GiveUp t)
  obtain m1 a where "abandon m t = (m1, a)" by fastforce
  with assms GiveUp abandon_balanced [OF assms(1)] show ?thesis
    by (simp add: apply_event_def)
next
  case (BesideDone t c)
  obtain m1 a where "on_beside m t c = (m1, a)" by fastforce
  with assms BesideDone on_beside_balanced [OF assms(1)] show ?thesis
    by (simp add: apply_event_def)
next
  case (Configure x)
  with assms show ?thesis
    by (auto simp: apply_event_def set_async_upload_def balanced_def minv_def handovers_def parked_parents_def)
next
  case (SeedBuffer obj bf)
  with assms show ?thesis
    by (auto simp: apply_event_def balanced_def minv_def handovers_def parked_parents_def)
qed

lemma reachable_balanced: "reachable m \<Longrightarrow> balanced m"
  by (induction rule: reachable.induct) (auto intro: balanced_new apply_event_balanced)

lemma apply_event_tickets:
  assumes "balanced m" and "event_ok m e" and "apply_event m e = (m', ans, jobs)"
  shows "owed m' + ans = owed m + mset (arrivals [e])"
proof -
  have wf: "hm_wf (mc_busy m)" "hm_wf (mc_beside m)"
    using assms(1) by (auto simp: balanced_def)
  show ?thesis
  proof (cases e)
    case (Arrive r)
    obtain m1 a where rq: "on_request m r = (m1, a)" by fastforce
    have "rq_id r \<notin> fst ` set (mc_beside m)"
      using assms(2) Arrive by (auto simp: event_ok_def owed_def)
    with on_request_tickets [OF rq wf(1)] assms(3) Arrive rq show ?thesis
      by (simp add: apply_event_def)
  next
    case (Complete obj c)
    obtain m1 a where co: "on_completion m obj c = (m1, a)" by fastforce
    have "owed m1 + answered a = owed m"
      using on_completion_tickets [OF co wf(1)] balanced_on_script [OF assms(1)] by blast
    with assms(3) Complete co show ?thesis by (simp add: apply_event_def)
  next
    case (GiveUp t)
    obtain m1 a where "abandon m t = (m1, a)" by fastforce
    with assms(3) GiveUp abandon_tickets [OF _ wf(1)] show ?thesis
      by (auto simp: apply_event_def)
  next
    case (BesideDone t c)
    obtain m1 a where "on_beside m t c = (m1, a)" by fastforce
    with assms(3) BesideDone on_beside_tickets [OF _ wf(2)] show ?thesis
      by (auto simp: apply_event_def)
  qed (use assms(3) in \<open>auto simp: apply_event_def set_async_upload_def owed_def\<close>)
qed

lemma apply_event_jobs:
  assumes "balanced m" and "event_ok m e" and "apply_event m e = (m', ans, jobs)"
  shows "in_flight m' + finished_job m e = in_flight m + jobs"
proof (cases e)
  case (Arrive r)
  obtain m1 a where "on_request m r = (m1, a)" by fastforce
  with assms Arrive on_request_jobs [OF assms(1)] show ?thesis
    by (simp add: apply_event_def event_ok_def no_handover_ms finished_job_def)
next
  case (Complete obj c)
  obtain m1 a where co: "on_completion m obj c = (m1, a)" by fastforce
  show ?thesis
  proof (cases "hm_get (mc_busy m) obj")
    case None
    with assms Complete co show ?thesis
      by (auto simp: apply_event_def on_completion_def machine_completion_def release_ended.simps [of m]
          balanced_def finished_job_def)
  next
    case (Some b)
    with assms(2) Complete obtain j where "bz_outstanding b = Some j"
      by (auto simp: event_ok_def)
    with on_completion_jobs [OF assms(1) co Some this] assms(3) Complete co Some show ?thesis
      by (simp add: apply_event_def finished_job_def)
  qed
next
  case (GiveUp t)
  obtain m1 a where "abandon m t = (m1, a)" by fastforce
  with assms GiveUp abandon_jobs [OF assms(1)] show ?thesis
    by (simp add: apply_event_def finished_job_def)
next
  case (BesideDone t c)
  with assms(3) show ?thesis
    by (auto simp: apply_event_def on_beside_def Let_def finished_job_def split: option.splits prod.splits)
qed (use assms(3) in \<open>auto simp: apply_event_def set_async_upload_def in_flight_def finished_job_def\<close>)

section \<open>Tickets in use are distinct\<close>

lemma reachable_owed_distinct: "reachable m \<Longrightarrow> count (owed m) t \<le> 1"
proof (induction rule: reachable.induct)
  case initial
  then show ?case by (simp add: owed_def machine_new_def)
next
  case (event m e m' ans jobs)
  have "owed m' + ans = owed m + mset (arrivals [e])"
    by (rule apply_event_tickets [OF reachable_balanced [OF event.hyps(1)] event.hyps(2,3)])
  then have le: "count (owed m') t \<le> count (owed m) t + count (mset (arrivals [e])) t"
    by (metis count_union le_add1)
  show ?case
  proof (cases "t \<in> set (arrivals [e])")
    case False
    then have "count (mset (arrivals [e])) t = 0" by (simp add: count_mset_0_iff)
    with le event.IH show ?thesis by linarith
  next
    case True
    then obtain r where e: "e = Arrive r" "rq_id r = t" by (cases e) auto
    with event.hyps(2) have "count (owed m) t = 0"
      by (simp add: event_ok_def not_in_iff)
    with le e show ?thesis by simp
  qed
qed

lemma waiters_ofE:
  assumes "t \<in> set (waiters_of m j)"
  obtains b where "hm_get (mc_busy m) j = Some b" "t \<in> set (fl_waiters (bz_flow b))"
  using assms that by (cases "hm_get (mc_busy m) j") (simp_all add: waiters_of_def)

lemma queue_ofE:
  assumes "t \<in> rq_id ` set (queue_of m k)"
  obtains b where "hm_get (mc_busy m) k = Some b" "t \<in># mset (map rq_id (bz_queue b))"
  using assms that by (cases "hm_get (mc_busy m) k") (simp_all add: queue_of_def)

lemma waiter_not_queued:
  assumes "reachable m" and "t \<in> set (waiters_of m j)"
  shows "t \<notin> rq_id ` set (queue_of m k)"
proof
  assume q: "t \<in> rq_id ` set (queue_of m k)"
  have wf: "hm_wf (mc_busy m)" using reachable_balanced [OF assms(1)] by (auto simp: balanced_def)
  obtain a where a: "hm_get (mc_busy m) j = Some a" "t \<in> set (fl_waiters (bz_flow a))"
    using assms(2) by (rule waiters_ofE)
  obtain b where b: "hm_get (mc_busy m) k = Some b" "t \<in># mset (map rq_id (bz_queue b))"
    using q by (rule queue_ofE)
  have ta: "1 \<le> count (mset (fl_waiters (bz_flow a))) t" and tb: "1 \<le> count (mset (map rq_id (bz_queue b))) t"
    using a(2) b(2) by (simp_all only: Suc_le_eq One_nat_def count_greater_zero_iff set_mset_mset)
  have "\<exists>rest. hm_sum busy_owes (mc_busy m) =
      mset (fl_waiters (bz_flow a)) + mset (map rq_id (bz_queue b)) + rest"
  proof (cases "j = k")
    case True
    with a(1) b(1) hm_sum_remove [OF wf a(1), of busy_owes] show ?thesis
      by (auto simp: busy_owes_def)
  next
    case False
    then have "hm_get (hm_remove j (mc_busy m)) k = Some b"
      using b(1) by (simp add: store_simps)
    from hm_sum_remove [OF wf a(1), of busy_owes]
      hm_sum_remove [OF hm_wf_remove [OF wf, of j] this, of busy_owes]
    have "hm_sum busy_owes (mc_busy m) = mset (fl_waiters (bz_flow a)) + mset (map rq_id (bz_queue b)) +
        (mset (map rq_id (bz_queue a)) + mset (fl_waiters (bz_flow b)) +
         hm_sum busy_owes (hm_remove k (hm_remove j (mc_busy m))))"
      by (simp add: busy_owes_def ac_simps)
    then show ?thesis by blast
  qed
  then obtain rest where "owed m =
      mset (fl_waiters (bz_flow a)) + mset (map rq_id (bz_queue b)) + rest"
    unfolding owed_def by (metis add.assoc)
  then have "count (owed m) t = count (mset (fl_waiters (bz_flow a))) t
      + count (mset (map rq_id (bz_queue b))) t + count rest t"
    by (simp only: count_union)
  with ta tb reachable_owed_distinct [OF assms(1), of t] show False
    by linarith
qed

lemma fresh_not_queued:
  assumes "event_ok m (Arrive r)" and "hm_wf (mc_busy m)"
  shows "rq_id r \<notin> rq_id ` set (queue_of m k)"
proof
  assume "rq_id r \<in> rq_id ` set (queue_of m k)"
  then obtain b where b: "hm_get (mc_busy m) k = Some b" "rq_id r \<in># mset (map rq_id (bz_queue b))"
    by (rule queue_ofE)
  then have "rq_id r \<in># owed m"
    using hm_sum_remove [OF assms(2) b(1), of busy_owes] by (simp add: owed_def busy_owes_def)
  with assms(1) show False by (simp add: event_ok_def)
qed

section \<open>What holds of every run\<close>

lemma run_accounts:
  "balanced m \<Longrightarrow> run m es = Some (m', ans) \<Longrightarrow> owed m' + ans = owed m + mset (arrivals es)"
proof (induction es arbitrary: m ans)
  case Nil
  then show ?case by simp
next
  case (Cons e es)
  obtain m1 a1 j1 where ev: "apply_event m e = (m1, a1, j1)" by (cases "apply_event m e") auto
  from Cons.prems(2) ev obtain a2 where ok: "event_ok m e" and r: "run m1 es = Some (m', a2)" "ans = a1 + a2"
    by (auto split: if_splits)
  have "mset (arrivals (e # es)) = mset (arrivals [e]) + mset (arrivals es)"
    by (cases e) simp_all
  with Cons.IH [OF apply_event_balanced [OF Cons.prems(1) ok ev] r(1)]
    apply_event_tickets [OF Cons.prems(1) ok ev] r(2)
  show ?case by (simp add: ac_simps)
qed

text \<open>Small concrete requests and answers for the instances below.\<close>

definition oid :: "nat \<Rightarrow> object_id" where "oid n = ObjectId (of_nat n)"
definition tid :: "nat \<Rightarrow> request_id" where "tid n = RequestId (of_nat n)"

definition found_node :: "object_id \<Rightarrow> node_facts" where
  "found_node k = default_node\<lparr>nf_id := k, nf_found := True, nf_writable := True, nf_size := 5\<rparr>"

definition ask :: "nat \<Rightarrow> nat \<Rightarrow> intent \<Rightarrow> event" where
  "ask t n i = Arrive \<lparr>rq_id = tid t, rq_object = oid n, rq_intent = i\<rparr>"

definition sample_run :: "event list" where
  "sample_run =
     [ask 1 7 (Fetch 0 10), ask 2 7 (Fetch 0 10), ask 3 7 Stat, ask 4 7 (Write 0 3),
      GiveUp (tid 2), Complete (oid 7) (Node (found_node (oid 7))),
      BesideDone (tid 3) (Node (found_node (oid 7))), Complete (oid 7) Bytes]"

text \<open>A directory (object 2) asked to remove its entry, object 5, while that is being read.\<close>

definition removal_run :: "event list" where
  "removal_run =
     [ask 1 5 (Fetch 0 10), ask 2 2 (Remove ''a''), Complete (oid 2) (Node (found_node (oid 5)))]"

definition after :: "event list \<Rightarrow> machine" where
  "after es = (case run machine_new es of Some (m, _) \<Rightarrow> m | None \<Rightarrow> machine_new)"

lemma reachable_after: "reachable (after es)"
  by (auto simp: after_def intro: reachable.initial dest: run_reachable [OF reachable.initial] split: option.split)

section \<open>Every caller is answered once\<close>

text \<open>
  C1. Every caller is accounted for, exactly once. In every run from the empty machine the
  tickets that arrived are, as a multiset, the tickets answered so far together with the
  tickets still owed an answer: no request is lost, none is answered twice, whatever
  joins, queues, is handed over, is given up or is read beside.
\<close>

theorem run_accounts_for_every_ticket:
  assumes "run machine_new es = Some (m, ans)"
  shows "mset (arrivals es) = ans + owed m"
  using run_accounts [OF balanced_new assms] by (simp add: owed_def machine_new_def ac_simps)

lemma run_accounts_for_every_ticket_witness:
  "\<exists>m. run machine_new sample_run = Some (m, {#tid 2, tid 3, tid 1#}) \<and>
     mset (arrivals sample_run) = {#tid 2, tid 3, tid 1#} + owed m"
proof -
  have "map_option snd (run machine_new sample_run) = Some {#tid 2, tid 3, tid 1#}"
    by code_simp
  then obtain m where "run machine_new sample_run = Some (m, {#tid 2, tid 3, tid 1#})"
    by auto
  with run_accounts_for_every_ticket [OF this] show ?thesis by blast
qed

text \<open>
  Nobody is left waiting on an idle machine. When a run ends with nothing busy and no
  read beside, every ticket that arrived has been answered, and a ticket that arrived once
  was answered once.
\<close>

theorem idle_run_answered_everyone:
  assumes "run machine_new es = Some (m, ans)" and "mc_busy m = []" and "mc_beside m = []"
    and "distinct (arrivals es)"
  shows "ans = mset (arrivals es) \<and> (\<forall>t \<in> set (arrivals es). count ans t = 1)"
proof -
  have "ans = mset (arrivals es)"
    using run_accounts [OF balanced_new assms(1)] assms(2,3) by (simp add: owed_def machine_new_def)
  with assms(4) show ?thesis by (simp add: distinct_count_atmost_1)
qed

lemma idle_run_answered_everyone_witness:
  "\<exists>m. run machine_new [ask 1 7 Stat, Complete (oid 7) (JobFailed Io)] = Some (m, {#tid 1#}) \<and>
     count {#tid 1#} (tid 1) = 1"
proof -
  let ?es = "[ask 1 7 Stat, Complete (oid 7) (JobFailed Io)]"
  have "map_option (\<lambda>(m, ans). (mc_busy m, mc_beside m, ans)) (run machine_new ?es) = Some ([], [], {#tid 1#})"
    by code_simp
  then obtain m where m: "run machine_new ?es = Some (m, {#tid 1#})" "mc_busy m = []" "mc_beside m = []"
    by auto
  have "arrivals ?es = [tid 1]" by code_simp
  with idle_run_answered_everyone [OF m] m(1) show ?thesis by auto
qed

section \<open>Occupancy\<close>

text \<open>
  A busy object is waiting for exactly the job its step handed out, or it is a directory
  parked on a hand-over; and what queues behind it is addressed to it. In every reachable
  machine, for every busy object: its flow belongs to it and is on a step of its own
  script, and either the outstanding job is one that step waits for, or nothing is
  outstanding, the step is the hand-over step and nobody waits here.
\<close>

theorem busy_object_waits_or_is_parked:
  assumes "reachable m" and "hm_get (mc_busy m) k = Some b"
  shows "fl_object (bz_flow b) = k \<and> on_script (bz_flow b) \<and> (\<forall>r \<in> set (bz_queue b). rq_object r = k) \<and>
    (case bz_outstanding b of
       Some j \<Rightarrow> awaits (fl_step (bz_flow b)) j \<and> \<not> parked b
     | None \<Rightarrow> parked b \<and> fl_waiters (bz_flow b) = [])"
proof -
  have "busy_inv k b"
    using reachable_balanced [OF assms(1)] assms(2) minv_busy by (auto simp: balanced_def)
  then show ?thesis
    using parked_iff [of k b] by (auto simp: busy_inv_def split: option.splits)
qed

lemma busy_object_waits_or_is_parked_witness:
  "\<exists>b. hm_get (mc_busy (after removal_run)) (oid 2) = Some b \<and> parked b \<and> fl_waiters (bz_flow b) = []"
proof -
  have "map_option bz_outstanding (hm_get (mc_busy (after removal_run)) (oid 2)) = Some None"
    by code_simp
  then obtain b where "hm_get (mc_busy (after removal_run)) (oid 2) = Some b" "bz_outstanding b = None"
    by auto
  with busy_object_waits_or_is_parked [OF reachable_after this(1)] show ?thesis by simp
qed

text \<open>
  C10. A directory is parked exactly as long as its hand-over lasts. In every reachable
  machine the multiset of parked directories equals the multiset of parents named by the
  renames and removals still running or still queued on their children, and no release is
  pending: a directory is never parked forever and never let go early.
\<close>

theorem parked_directories_match_handovers:
  assumes "reachable m"
  shows "parked_parents m = hm_sum busy_handovers (mc_busy m) \<and> mc_releases m = []"
  using reachable_balanced [OF assms] by (auto simp: balanced_def handovers_def)

lemma parked_directories_match_handovers_witness:
  "parked_parents (after removal_run) = {#oid 2#} \<and> hm_sum busy_handovers (mc_busy (after removal_run)) = {#oid 2#}"
proof -
  have "hm_sum busy_handovers (mc_busy (after removal_run)) = {#oid 2#}"
    by code_simp
  with parked_directories_match_handovers [OF reachable_after, of removal_run] show ?thesis by simp
qed

section \<open>Jobs in flight\<close>

text \<open>
  C11. Jobs are conserved and never overlap on an object. For every event of a run, the jobs
  in flight afterwards together with the job the event answered are the jobs in flight
  before together with the jobs handed out; and at no time does one object have more
  than one job in flight.
\<close>

theorem jobs_conserved_one_per_object:
  assumes "reachable m" and "event_ok m e" and "apply_event m e = (m', ans, jobs)"
  shows "in_flight m' + finished_job m e = in_flight m + jobs \<and>
    count (image_mset fst (in_flight m')) k \<le> 1"
proof -
  have bal: "balanced m" by (rule reachable_balanced [OF assms(1)])
  have "minv m'"
    using apply_event_balanced [OF bal assms(2,3)] by (simp add: balanced_def)
  with apply_event_jobs [OF bal assms(2,3)] one_job_per_object show ?thesis by simp
qed

lemma jobs_conserved_one_per_object_witness:
  "\<exists>m' ans jobs. apply_event (after removal_run) (Complete (oid 5) (Node (found_node (oid 5)))) = (m', ans, jobs) \<and>
     in_flight m' + {#(oid 5, ReadNode (oid 5))#} = in_flight (after removal_run) + jobs"
proof -
  let ?e = "Complete (oid 5) (Node (found_node (oid 5)))"
  have "event_ok (after removal_run) ?e" by code_simp
  moreover have "finished_job (after removal_run) ?e = {#(oid 5, ReadNode (oid 5))#}" by code_simp
  ultimately show ?thesis
    using jobs_conserved_one_per_object [OF reachable_after [of removal_run], of ?e]
    by (metis prod_cases3)
qed

section \<open>Order\<close>



section \<open>Readers, abandoned callers, early answers\<close>

text \<open>
  C18. Reading metadata never waits for what an object is doing. A \<open>Stat\<close> or \<open>State\<close>
  request on a busy object is handed out at once as a read beside, answers nobody else,
  and leaves what is running and queued untouched.
\<close>

theorem metadata_read_beside_busy_object:
  assumes "reachable m" and "hm_get (mc_busy m) (rq_object r) = Some b" and "metadata_read (rq_intent r)"
    and "on_request m r = (m', acts)"
  shows "\<exists>j. acts = [ReadBeside (rq_object r) j (rq_id r)] \<and> job_executor j = DbRead \<and>
    mc_busy m' = mc_busy m \<and> mc_registry m' = mc_registry m"
proof -
  let ?facts = "registry_facts (mc_registry m) (rq_object r)"
  have "\<exists>f j. start (rq_object r) (rq_intent r) (rq_id r) ?facts = (f, Do j) \<and> job_executor j = DbRead"
    using assms(3) by (auto simp: metadata_read_def start_def start_step_def)
  then obtain f j where st: "start (rq_object r) (rq_intent r) (rq_id r) ?facts = (f, Do j)"
      "job_executor j = DbRead" by blast
  let ?m = "m\<lparr>mc_beside := hm_insert (rq_id r) f (mc_beside m)\<rparr>"
  have "machine_request m r = (?m, [ReadBeside (rq_object r) j (rq_id r)])"
    using assms(2,3) st(1)
    by (simp add: machine_request.simps begin_beside.simps metadata_read_def Let_def)
  moreover have "mc_releases m = []"
    using reachable_balanced [OF assms(1)] by (simp add: balanced_def)
  ultimately show ?thesis
    using assms(4) st(2) by (auto simp: on_request_def release_ended.simps [of ?m])
qed

lemma metadata_read_beside_busy_object_witness:
  "\<exists>j. snd (on_request (after removal_run) \<lparr>rq_id = tid 9, rq_object = oid 2, rq_intent = Stat\<rparr>) =
     [ReadBeside (oid 2) j (tid 9)]"
proof -
  let ?r = "\<lparr>rq_id = tid 9, rq_object = oid 2, rq_intent = Stat\<rparr>"
  obtain m' acts where rq: "on_request (after removal_run) ?r = (m', acts)" by fastforce
  have "hm_get (mc_busy (after removal_run)) (oid 2) \<noteq> None" by code_simp
  then obtain b where "hm_get (mc_busy (after removal_run)) (rq_object ?r) = Some b" by auto
  from metadata_read_beside_busy_object [OF reachable_after this _ rq] rq show ?thesis
    by (auto simp: metadata_read_def)
qed

text \<open>
  A caller who gives up is answered, with \<open>Interrupted\<close>, and nobody is answered in its
  stead. If the ticket waits on a running flow or in a queue, it is the first action; if
  the machine does not know it there, nothing happens.
\<close>

theorem given_up_request_is_answered:
  assumes "reachable m" and "abandon m t = (m', acts)"
  shows "if t \<in># hm_sum busy_owes (mc_busy m)
    then (\<exists>k rest. acts = Answer k [t] (FailedWith Interrupted) # rest) \<and> t \<notin># owed m'
    else m' = m \<and> acts = []"
proof (cases "abandon_scan t (mc_busy m)")
  case None
  have "mc_releases m = []"
    using reachable_balanced [OF assms(1)] by (simp add: balanced_def)
  with None assms(2) have "m' = m \<and> acts = []"
    by (auto simp: abandon_def abandon_request_def release_ended.simps [of m])
  with None show ?thesis by (simp add: abandon_scan_None)
next
  case (Some s)
  obtain bs k rel where s: "s = (bs, k, rel)" by (cases s) auto
  obtain m1 a1 where ab: "abandon_request m t = (m1, a1)" by fastforce
  obtain m2 a2 where re: "release_ended m1 = (m2, a2)" by fastforce
  have acts: "acts = a1 @ a2" "m' = m2" "a1 = [Answer k [t] (FailedWith Interrupted)]"
    using ab re Some s assms(2) by (simp_all add: abandon_def abandon_request_def answer_interrupted_def)
  have wf: "hm_wf (mc_busy m)" using reachable_balanced [OF assms(1)] by (auto simp: balanced_def)
  have "owed m' + answered acts = owed m"
    using abandon_tickets [OF assms(2) wf] by simp
  then have "count (owed m') t + count (answered acts) t = count (owed m) t"
    by (metis count_union)
  then have "t \<notin># owed m'"
    using reachable_owed_distinct [OF assms(1), of t] acts by (simp add: not_in_iff)
  with Some acts abandon_scan_None [of t "mc_busy m"] show ?thesis by auto
qed

lemma given_up_request_is_answered_witness:
  "\<exists>k rest. snd (abandon (after removal_run) (tid 2)) = Answer k [tid 2] (FailedWith Interrupted) # rest"
proof -
  obtain m' acts where ab: "abandon (after removal_run) (tid 2) = (m', acts)" by fastforce
  have "tid 2 \<in># hm_sum busy_owes (mc_busy (after removal_run))" by code_simp
  with given_up_request_is_answered [OF reachable_after ab] ab show ?thesis by auto
qed

end
