(* ===== verification/Fsm_Progress.thy ===== *)
theory Fsm_Progress
  imports Fsm_Runs
begin

text \<open>
  Termination. Every script strictly descends a rank of its steps, so a flow ends after a
  bounded number of completions; summed over everything that runs and queues, the rank is
  the work a machine has left, and every completion of an outstanding job lowers it. When
  no job is in flight any more, nothing is busy, provided hand-overs go down a tree.
\<close>

section \<open>The rank of a step\<close>

fun step_rank :: "step \<Rightarrow> nat" where
  "step_rank FetchNode = 3" | "step_rank FetchBytes = 2" | "step_rank FetchPrune = 1"
| "step_rank WriteNode = 3" | "step_rank WritePrepare = 2" | "step_rank WriteBytes = 1"
| "step_rank StatNode = 1"
| "step_rank LookNode = 3" | "step_rank LookRemote = 2" | "step_rank LookChild = 1"
| "step_rank StateRead = 1"
| "step_rank AttrNode = 6" | "step_rank AttrPrepare = 5" | "step_rank AttrTruncate = 4"
| "step_rank AttrMtime = 3" | "step_rank AttrExec = 2" | "step_rank AttrFinal = 1"
| "step_rank EnumNode = 3" | "step_rank EnumRemote = 2" | "step_rank EnumChildren = 1"
| "step_rank MatRemote = 5" | "step_rank MatList = 4" | "step_rank MatInsert = 3"
| "step_rank MatLookup = 2" | "step_rank MatBuffer = 1"
| "step_rank PubNode = 10" | "step_rank PubCommit = 9" | "step_rank PubSize = 8"
| "step_rank PubUpload = 7" | "step_rank PubRecord = 6" | "step_rank PubStore = 5"
| "step_rank PubConflict = 4" | "step_rank PubReload = 4" | "step_rank PubClear = 3"
| "step_rank PubDiscard = 2" | "step_rank PubError = 1"
| "step_rank RemNode = 6"
| "step_rank DelNode = 4" | "step_rank RemRemote = 3" | "step_rank RemBuffer = 2" | "step_rank RemRows = 1"
| "step_rank MovNode = 5"
| "step_rank RelNode = 3" | "step_rank MovRemote = 2" | "step_rank MovRows = 1"
| "step_rank Handover = 0"
| "step_rank RefNode = 2" | "step_rank RefHydrate = 1"
| "step_rank RelistRemote = 1"

text \<open>The rank of a request that has not started: one more than any step it may start on.\<close>

fun intent_rank :: "intent \<Rightarrow> nat" where
  "intent_rank (Fetch _ _) = 4" | "intent_rank (Write _ _) = 4" | "intent_rank Stat = 2"
| "intent_rank (Lookup _) = 4" | "intent_rank State = 2" | "intent_rank (SetAttr _ _ _) = 7"
| "intent_rank Enumerate = 4" | "intent_rank (Materialise _ _ _) = 6" | "intent_rank Publish = 11"
| "intent_rank (Remove _) = 7" | "intent_rank (Move _ _ _) = 6" | "intent_rank (Relocate _ _ _) = 4"
| "intent_rank (Delete _) = 5" | "intent_rank Refresh = 3" | "intent_rank Relist = 2"

text \<open>The rank a decision leaves: the step waited on, the request handed over, or nothing.\<close>

fun next_rank :: "flow \<Rightarrow> flow_next \<Rightarrow> nat" where
  "next_rank flow (Do j) = step_rank (fl_step flow)"
| "next_rank flow (AnswerThen j) = step_rank (fl_step flow)"
| "next_rank flow (Handoff to i) = intent_rank i"
| "next_rank flow Done = 0"
| "next_rank flow (Fail f) = 0"
| "next_rank flow Abandoned = 0"

lemma start_rank: "start obj i w facts = (f, n) \<Longrightarrow> next_rank f n < intent_rank i"
  by (cases i) (auto simp: start_def start_step_def publish_start_def split: if_splits)

lemma step_rank_pos: "s \<noteq> Handover \<Longrightarrow> 0 < step_rank s"
  by (cases s) auto

lemma advance_step_rank:
  assumes "on_script flow" and "fl_step flow \<noteq> Handover"
  shows "next_rank (fst (advance_step flow c facts)) (snd (advance_step flow c facts)) < step_rank (fl_step flow)"
  using assms
  by (cases "fl_intent flow")
    (auto simp: on_script_def advance_step_def arm_defs decision_defs Let_def
      split: completion.split option.split)

lemma advance_failed_rank:
  assumes "on_script flow" and "fl_step flow \<noteq> Handover"
  shows "next_rank (fst (advance_failed flow f)) (snd (advance_failed flow f)) < step_rank (fl_step flow)"
  using assms step_rank_pos [OF assms(2)]
  by (auto simp: advance_failed_def past_commit_def)

lemma advance_rank:
  assumes "advance flow c facts = (f, n)" and "on_script flow" and "fl_step flow \<noteq> Handover"
  shows "next_rank f n < step_rank (fl_step flow)"
proof -
  have "next_rank (fst (advance flow c facts)) (snd (advance flow c facts)) < step_rank (fl_step flow)"
    using advance_step_rank [OF assms(2,3)] advance_failed_rank [OF assms(2,3)] step_rank_pos [OF assms(3)]
    by (cases rule: advance_cases [of flow c facts]) auto
  with assms(1) show ?thesis by simp
qed

section \<open>The work left\<close>

definition busy_work :: "busy \<Rightarrow> nat" where
  "busy_work b =
     (case bz_outstanding b of Some _ \<Rightarrow> step_rank (fl_step (bz_flow b)) | None \<Rightarrow> 0) +
     sum_list (map (intent_rank \<circ> rq_intent) (bz_queue b))"

definition queue_work :: "request list \<Rightarrow> nat" where
  "queue_work q = sum_list (map (intent_rank \<circ> rq_intent) q)"

definition work :: "machine \<Rightarrow> nat" where
  "work m = sum_list (map (\<lambda>(_, b). busy_work b) (mc_busy m))"

lemma queue_work_simps [simp]:
  "queue_work [] = 0" "queue_work (r # q) = intent_rank (rq_intent r) + queue_work q"
  "queue_work (p @ q) = queue_work p + queue_work q"
  by (simp_all add: queue_work_def)

lemma busy_work_fields [simp]:
  "busy_work \<lparr>bz_flow = f, bz_outstanding = Some j, bz_queue = q\<rparr> = step_rank (fl_step f) + queue_work q"
  "busy_work \<lparr>bz_flow = f, bz_outstanding = None, bz_queue = q\<rparr> = queue_work q"
  by (simp_all add: busy_work_def queue_work_def)

lemma work_frame [simp]:
  "work (m\<lparr>mc_beside := x\<rparr>) = work m" "work (m\<lparr>mc_releases := y\<rparr>) = work m"
  "work (end_release m flow) = work m"
  by (simp_all add: work_def frame_simps)

lemma sum_remove:
  "distinct (map fst bs) \<Longrightarrow> map_of bs k = Some b \<Longrightarrow>
     sum_list (map (\<lambda>(_, b). g b) bs) = g b + (sum_list (map (\<lambda>(_, b). g b) (AList.delete k bs)) :: nat)"
  by (induction bs) (auto split: if_splits)

lemma sum_insert:
  "distinct (map fst bs) \<Longrightarrow>
     sum_list (map (\<lambda>(_, b). g b) (AList.update k b bs)) =
     g b + (sum_list (map (\<lambda>(_, b). g b) (AList.delete k bs)) :: nat)"
  by (induction bs) (auto simp: image_iff)

lemma work_put_idle:
  "hm_get (mc_busy m) obj = None \<Longrightarrow>
     work (put_busy m obj f out q) = busy_work \<lparr>bz_flow = f, bz_outstanding = out, bz_queue = q\<rparr> + work m"
  by (simp add: work_def frame_simps hm_get_None_iff hm_insert_absent)

lemma work_put_busy:
  assumes "hm_wf (mc_busy m)" and "hm_get (mc_busy m) obj = Some b"
  shows "work (put_busy m obj f out q) + busy_work b =
    busy_work \<lparr>bz_flow = f, bz_outstanding = out, bz_queue = q\<rparr> + work m"
  using assms sum_remove [of "mc_busy m" obj b busy_work] sum_insert [of "mc_busy m" busy_work obj]
  by (simp add: work_def frame_simps hm_wf_def)

lemma work_take:
  assumes "hm_wf (mc_busy m)" and "hm_get (mc_busy m) obj = Some b"
  shows "work m = busy_work b + work (m\<lparr>mc_busy := hm_remove obj (mc_busy m), mc_registry := reg\<rparr>)"
    and "work m = busy_work b + work (m\<lparr>mc_busy := hm_remove obj (mc_busy m)\<rparr>)"
  using assms sum_remove [of "mc_busy m" obj b busy_work] by (simp_all add: work_def hm_wf_def)

lemma settle_work_simple:
  assumes "\<not> is_handoff nxt" and "hm_get (mc_busy m) obj = None"
    and "settle m obj flow nxt q = (m', acts)"
  shows "work m' \<le> work m + next_rank flow nxt + queue_work q"
  using assms
proof (induction q arbitrary: m flow nxt m' acts)
  case Nil
  then show ?case
    by (cases nxt) (auto simp: settle.simps work_put_idle Let_def split: if_splits)
next
  case (Cons r q)
  let ?m = "end_release m flow"
  obtain f n where st: "start obj (rq_intent r) (rq_id r) (registry_facts (mc_registry ?m) obj) = (f, n)"
    by fastforce
  obtain m2 acts2 where se: "settle ?m obj f n q = (m2, acts2)"
    by fastforce
  have "work m2 \<le> work m + next_rank f n + queue_work q"
    using Cons.IH [OF start_no_handoff [OF st [symmetric]] _ se] Cons.prems(2) by (simp add: frame_simps)
  with Cons.prems st se start_rank [OF st] show ?case
    by (cases nxt) (auto simp: settle.simps work_put_idle Let_def split: if_splits)
qed

lemma request_work:
  assumes "machine_request m r = (m', acts)" and "minv m"
  shows "work m' \<le> work m + intent_rank (rq_intent r)"
proof (cases "hm_get (mc_busy m) (rq_object r)")
  case None
  obtain f n where st: "start (rq_object r) (rq_intent r) (rq_id r)
      (registry_facts (mc_registry m) (rq_object r)) = (f, n)"
    by fastforce
  have "settle m (rq_object r) f n [] = (m', acts)"
    using assms(1) None st by (simp add: machine_request.simps begin_flow.simps Let_def)
  from settle_work_simple [OF start_no_handoff [OF st [symmetric]] None this] start_rank [OF st]
  show ?thesis by simp
next
  case (Some b)
  have put: "work (put_busy m (rq_object r) f (bz_outstanding b) q) + queue_work (bz_queue b) =
      work m + queue_work q" if "fl_step f = fl_step (bz_flow b)" for f q
    using work_put_busy [OF minvD(1) [OF assms(2)] Some, of f "bz_outstanding b" q] that
    by (cases "bz_outstanding b") (simp_all add: busy_work_def queue_work_def)
  show ?thesis
  proof (cases "metadata_read (rq_intent r)")
    case True
    then have "begin_beside m r = (m', acts)"
      using assms(1) Some by (simp add: machine_request.simps metadata_read_def)
    moreover obtain f j where "start (rq_object r) (rq_intent r) (rq_id r)
        (registry_facts (mc_registry m) (rq_object r)) = (f, Do j)"
      using start_metadata [of "rq_intent r"] True unfolding metadata_read_def by metis
    ultimately show ?thesis
      by (auto simp: begin_beside.simps Let_def)
  next
    case False
    with assms(1) Some
      put [of "bz_flow b" "bz_queue b @ [r]"] put [of "(bz_flow b)\<lparr>fl_abort := True\<rparr>" "bz_queue b @ [r]"]
      put [of "(bz_flow b)\<lparr>fl_waiters := fl_waiters (bz_flow b) @ [rq_id r]\<rparr>" "bz_queue b"]
    show ?thesis
      by (auto simp: machine_request.simps metadata_read_def Let_def
          split: collision_decision.splits if_splits)
  qed
qed

section \<open>Every completion lowers the work\<close>

lemma completion_work:
  assumes co: "machine_completion m obj c = (m', acts)" and inv: "minv m"
    and b: "hm_get (mc_busy m) obj = Some b" "bz_outstanding b = Some j"
  shows "work m' < work m"
proof -
  define reg where "reg = apply_to_registry (mc_registry m) j (fl_intent (bz_flow b)) c
         (nf_etag (ca_node (fl_carry (bz_flow b)))) (nf_ignored (ca_node (fl_carry (bz_flow b))))"
  let ?m = "m\<lparr>mc_busy := hm_remove obj (mc_busy m), mc_registry := reg\<rparr>"
  obtain f n where ad: "advance (bz_flow b) c (registry_facts reg obj) = (f, n)" by fastforce
  have se: "settle ?m obj f n (bz_queue b) = (m', acts)"
    using co b ad by (simp add: machine_completion_def Let_def reg_def)
  have fl: "fl_object (bz_flow b) = obj" "on_script (bz_flow b)" "flow_waits (bz_flow b)"
      "awaits (fl_step (bz_flow b)) j" "\<forall>r \<in> set (bz_queue b). rq_object r = obj"
    using minv_busy [OF inv b(1)] b(2) by (auto simp: busy_inv_def)
  have idle: "hm_get (mc_busy ?m) obj = None" by (simp add: store_simps)
  have taken: "work m = step_rank (fl_step (bz_flow b)) + queue_work (bz_queue b) + work ?m"
    using work_take(1) [OF minvD(1) [OF inv] b(1), of reg] b(2) by (simp add: busy_work_def queue_work_def)
  have less: "next_rank f n < step_rank (fl_step (bz_flow b))"
    by (rule advance_rank [OF ad fl(2) awaits_not_handover [OF fl(4)]])
  show ?thesis
  proof (cases "is_handoff n")
    case False
    from settle_work_simple [OF False idle se] taken less show ?thesis by simp
  next
    case True
    then obtain to i where n: "n = Handoff to i" by (cases n) auto
    obtain w where w: "fl_waiters f = [w]" "fl_step f = Handover"
      using advance_handoff_caller [OF ad [unfolded n] fl(2,3)] by metis
    let ?p = "put_busy ?m obj (f\<lparr>fl_waiters := []\<rparr>) None (bz_queue b)"
    have "hm_wf reg" using inv by (auto simp: reg_def apply_to_registry_wf)
    then have im: "minv ?m" by (rule minv_take(2) [OF inv])
    have "on_script f" "fl_object f = obj"
      using advance_on_script(1) [OF fl(2) ad] advance_frame(1) [OF ad] fl(1) by simp_all
    then have ip: "minv ?p"
      using im fl(5) w(2) by (intro minv_put) (auto simp: busy_inv_def on_script_def)
    obtain a where rq: "machine_request ?p \<lparr>rq_id = w, rq_object = to, rq_intent = i\<rparr> = (m', a)" "acts = a"
      using se n w(1) by (auto simp: settle.simps Let_def split: prod.splits)
    from request_work [OF rq(1) ip] work_put_idle [OF idle, of "f\<lparr>fl_waiters := []\<rparr>" None "bz_queue b"]
      taken less n
    show ?thesis by simp
  qed
qed

lemma release_parked_work:
  assumes "release_parked m p = (m', acts)" and "minv m"
  shows "work m' \<le> work m"
proof (cases "\<exists>b. hm_get (mc_busy m) p = Some b \<and> parked b")
  case False
  with assms release_parked_idle [of m p] show ?thesis by auto
next
  case True
  then obtain b where b: "hm_get (mc_busy m) p = Some b" "parked b" by blast
  let ?m = "m\<lparr>mc_busy := hm_remove p (mc_busy m)\<rparr>"
  have se: "settle ?m p (bz_flow b) Done (bz_queue b) = (m', acts)"
    using assms(1) b by (simp add: release_parked_def)
  have "work m = queue_work (bz_queue b) + work ?m"
    using work_take(2) [OF minvD(1) [OF assms(2)] b(1)] b(2)
    by (simp add: busy_work_def queue_work_def parked_def)
  with settle_work_simple [OF _ _ se] show ?thesis by (simp add: store_simps)
qed

lemma release_ended_work:
  assumes "release_ended m = (m', acts)" and "minv m" and "handovers m = parked_parents m"
  shows "work m' \<le> work m"
  using assms
proof (induction m arbitrary: m' acts rule: release_ended.induct)
  case (1 m)
  show ?case
  proof (cases "mc_releases m")
    case Nil
    with "1.prems" show ?thesis by (auto simp: release_ended.simps [of m])
  next
    case (Cons p rest)
    let ?m = "m\<lparr>mc_releases := rest\<rparr>"
    obtain m1 acts1 where rp: "release_parked ?m p = (m1, acts1)" by fastforce
    obtain m2 acts2 where re: "release_ended m1 = (m2, acts2)" by fastforce
    have res: "m' = m2"
      using "1.prems"(1) Cons rp re by (simp_all add: release_ended.simps [of m])
    have "add_mset p (handovers ?m) = parked_parents ?m"
      using "1.prems"(3) Cons by (simp add: handovers_def)
    with release_parked_inv [OF rp] "1.prems"(2)
    have "minv m1 \<and> handovers m1 = parked_parents m1" by simp
    with "1.IH" [OF Cons rp [symmetric] refl re] release_parked_work [OF rp] "1.prems"(2) res
    show ?thesis by simp
  qed
qed

lemma take_request_work: "take_request t q = Some (r, rest) \<Longrightarrow> queue_work rest \<le> queue_work q"
  by (induction q arbitrary: rest) (auto split: if_splits)

lemma abandon_entry_work:
  assumes "abandon_entry t b = Some (b', rel)"
  shows "busy_work b' \<le> busy_work b"
proof (cases "t \<in> set (fl_waiters (bz_flow b))")
  case True
  with assms show ?thesis
    by (cases "bz_outstanding b") (auto simp: abandon_entry_def busy_work_def Let_def)
next
  case False
  with assms obtain r rest where tr: "take_request t (bz_queue b) = Some (r, rest)" "b' = b\<lparr>bz_queue := rest\<rparr>"
    by (cases "take_request t (bz_queue b)") (auto simp: abandon_entry_def Let_def)
  from take_request_work [OF tr(1)] tr(2) show ?thesis
    by (cases "bz_outstanding b") (simp_all add: busy_work_def queue_work_def)
qed

lemma abandon_scan_work:
  "abandon_scan t bs = Some (bs', obj, rel) \<Longrightarrow>
     sum_list (map (\<lambda>(_, b). busy_work b) bs') \<le> sum_list (map (\<lambda>(_, b). busy_work b) bs)"
proof (induction bs arbitrary: bs')
  case Nil
  then show ?case by simp
next
  case (Cons kb bs)
  obtain k b where kb: "kb = (k, b)" by fastforce
  show ?case
  proof (cases "abandon_entry t b")
    case None
    with Cons.prems kb obtain r' where "abandon_scan t bs = Some (r', obj, rel)" "bs' = (k, b) # r'"
      by auto
    with Cons.IH kb show ?thesis by simp
  next
    case (Some e)
    obtain b' rel' where e: "e = (b', rel')" by fastforce
    with Some Cons.prems kb have "bs' = (k, b') # bs" by auto
    with abandon_entry_work [OF Some [unfolded e]] kb show ?thesis by simp
  qed
qed

text \<open>The rank of the requests an event brings in.\<close>

definition event_rank :: "event \<Rightarrow> nat" where
  "event_rank e = (case e of Arrive r \<Rightarrow> intent_rank (rq_intent r) | _ \<Rightarrow> 0)"

lemma apply_event_work:
  assumes "balanced m" and "event_ok m e" and "apply_event m e = (m', ans, jobs)"
  shows "work m' + size (finished_job m e) \<le> work m + event_rank e"
proof -
  have bal: "minv m" "handovers m = parked_parents m" using assms(1) by (simp_all add: balanced_def)
  show ?thesis
  proof (cases e)
    case (Arrive r)
    obtain m1 a1 where rq: "machine_request m r = (m1, a1)" by fastforce
    obtain m2 a2 where re: "release_ended m1 = (m2, a2)" by fastforce
    have m': "m' = m2" using assms(3) Arrive rq re by (simp add: apply_event_def on_request_def)
    have "handover_ms (rq_intent r) = {#}"
      using assms(2) Arrive by (simp add: event_ok_def no_handover_ms)
    with request_inv [OF rq bal(1)] bal(2) have "minv m1" "handovers m1 = parked_parents m1" by simp_all
    from release_ended_work [OF re this] request_work [OF rq bal(1)] m' Arrive show ?thesis
      by (simp add: event_rank_def finished_job_def)
  next
    case (Complete obj c)
    obtain m1 a1 where co: "machine_completion m obj c = (m1, a1)" by fastforce
    obtain m2 a2 where re: "release_ended m1 = (m2, a2)" by fastforce
    have m': "m' = m2" using assms(3) Complete co re by (simp add: apply_event_def on_completion_def)
    have out: "bz_outstanding b \<noteq> None" if "hm_get (mc_busy m) obj = Some b" for b
      using that assms(2) Complete by (simp add: event_ok_def)
    have "work m2 \<le> work m1"
      using release_ended_work [OF re] completion_inv [OF co bal(1) out bal(2)] by simp
    moreover have "work m1 + size (finished_job m e) \<le> work m"
    proof (cases "hm_get (mc_busy m) obj")
      case None
      with co Complete show ?thesis by (simp add: machine_completion_def finished_job_def)
    next
      case (Some b)
      with out obtain j where "bz_outstanding b = Some j" by auto
      with completion_work [OF co bal(1) Some this] Some Complete show ?thesis
        by (simp add: finished_job_def)
    qed
    ultimately show ?thesis using m' Complete by (simp add: event_rank_def)
  next
    case (GiveUp t)
    obtain m1 a1 where ab: "abandon_request m t = (m1, a1)" by fastforce
    obtain m2 a2 where re: "release_ended m1 = (m2, a2)" by fastforce
    have m': "m' = m2" using assms(3) GiveUp ab re by (simp add: apply_event_def abandon_def)
    have "work m1 \<le> work m"
    proof (cases "abandon_scan t (mc_busy m)")
      case None
      with ab show ?thesis by (simp add: abandon_request_def)
    next
      case (Some s)
      obtain bs k rel where s: "s = (bs, k, rel)" by (cases s) auto
      from abandon_scan_work [OF Some [unfolded s]] ab Some s show ?thesis
        by (auto simp: abandon_request_def work_def)
    qed
    with release_ended_work [OF re] abandon_request_inv [OF ab bal] m' GiveUp show ?thesis
      by (simp add: event_rank_def finished_job_def)
  next
    case (BesideDone t c)
    with assms(3) show ?thesis
      by (auto simp: apply_event_def on_beside_def Let_def finished_job_def event_rank_def
          split: option.splits prod.splits)
  qed (use assms(3) in \<open>auto simp: apply_event_def set_async_upload_def work_def finished_job_def event_rank_def\<close>)
qed

section \<open>How much work a run can do\<close>

text \<open>The jobs answered in the course of a run, and the work its arrivals bring.\<close>

fun jobs_done :: "machine \<Rightarrow> event list \<Rightarrow> nat" where
  "jobs_done m [] = 0"
| "jobs_done m (e # es) = size (finished_job m e) + jobs_done (fst (apply_event m e)) es"

definition asked_work :: "event list \<Rightarrow> nat" where
  "asked_work es = sum_list (map event_rank es)"

lemma run_work:
  "balanced m \<Longrightarrow> run m es = Some (m', ans) \<Longrightarrow> jobs_done m es + work m' \<le> work m + asked_work es"
proof (induction es arbitrary: m ans)
  case Nil
  then show ?case by (simp add: asked_work_def)
next
  case (Cons e es)
  obtain m1 a1 j1 where ev: "apply_event m e = (m1, a1, j1)" by (cases "apply_event m e") auto
  from Cons.prems(2) ev obtain a2 where ok: "event_ok m e" and r: "run m1 es = Some (m', a2)"
    by (auto split: if_splits)
  from Cons.IH [OF apply_event_balanced [OF Cons.prems(1) ok ev] r] apply_event_work [OF Cons.prems(1) ok ev] ev
  show ?case by (simp add: asked_work_def)
qed

lemma intent_rank_le: "handed_over_from i = None \<Longrightarrow> intent_rank i \<le> 11"
  by (cases i) (auto simp: handed_over_from_def)

lemma asked_work_le: "asked_work es \<le> 11 * length (arrivals es)"
proof (induction es)
  case Nil
  then show ?case by (simp add: asked_work_def)
next
  case (Cons e es)
  have "intent_rank i \<le> 11" for i by (cases i) auto
  with Cons show ?case by (cases e) (auto simp: asked_work_def event_rank_def intro: add_mono)
qed

text \<open>
  C15. Every operation ends. The jobs answered in a run, together with the work still to be
  done at its end, are bounded by the work the arriving requests brought in, at most
  eleven jobs for each of them: no script loops, no hand-over multiplies, and a run
  without new arrivals can only answer finitely many jobs.
\<close>

theorem run_does_bounded_work:
  assumes "run machine_new es = Some (m, ans)"
  shows "jobs_done machine_new es + work m \<le> asked_work es \<and>
    jobs_done machine_new es \<le> 11 * length (arrivals es)"
proof -
  have "jobs_done machine_new es + work m \<le> asked_work es"
    using run_work [OF balanced_new assms] by (simp add: work_def machine_new_def)
  with asked_work_le [of es] show ?thesis by simp
qed

lemma run_does_bounded_work_witness: "jobs_done machine_new sample_run = 2 \<and> (2::nat) \<le> 11 * 4"
proof -
  have "run machine_new sample_run \<noteq> None" by code_simp
  then obtain m ans where "run machine_new sample_run = Some (m, ans)" by auto
  from run_does_bounded_work [OF this] have "jobs_done machine_new sample_run \<le> 11 * length (arrivals sample_run)"
    by simp
  moreover have "jobs_done machine_new sample_run = 2" and "length (arrivals sample_run) = 4"
    by code_simp+
  ultimately show ?thesis by simp
qed

text \<open>
  C16. No deadlock. Hand-overs go from a directory to an entry below it. If some depth
  function witnesses that for the hand-overs of a reachable machine, then as long as
  anything is busy some job is in flight: whatever is occupied always has a job somewhere
  that will move it on.
\<close>

theorem busy_machine_has_job_in_flight:
  fixes depth :: "object_id \<Rightarrow> nat"
  assumes "reachable m" and "mc_busy m \<noteq> []"
    and down: "\<forall>(k, b) \<in> set (mc_busy m). \<forall>p \<in># busy_handovers b. depth p < depth k"
  shows "in_flight m \<noteq> {#}"
proof
  assume none: "in_flight m = {#}"
  let ?keys = "fst ` set (mc_busy m)"
  have bal: "balanced m" by (rule reachable_balanced [OF assms(1)])
  then have wf: "hm_wf (mc_busy m)" and inv: "minv m" by (auto simp: balanced_def)
  have fin: "finite (depth ` ?keys)" "depth ` ?keys \<noteq> {}" using assms(2) by simp_all
  obtain k where kin: "k \<in> ?keys" and "Max (depth ` ?keys) = depth k"
    using Max_in [OF fin] by blast
  then have max: "depth k' \<le> depth k" if "k' \<in> ?keys" for k'
    using Max_ge [OF fin(1), of "depth k'"] that by auto
  obtain b where b: "hm_get (mc_busy m) k = Some b"
    using kin hm_get_None_iff [of "mc_busy m" k] by fastforce
  have "bz_outstanding b = None"
  proof (cases "bz_outstanding b")
    case (Some j)
    with hm_sum_remove [OF wf b, of busy_job] none show ?thesis
      by (simp add: in_flight_def busy_job_def)
  qed simp
  then have "parked b" "fl_object (bz_flow b) = k"
    using minv_busy [OF inv b] by (auto simp: busy_inv_def parked_def)
  then have "k \<in># parked_parents m"
    using hm_sum_remove [OF wf b, of busy_parked] by (simp add: parked_parents_def busy_parked_def)
  moreover have "parked_parents m = hm_sum busy_handovers (mc_busy m)"
    using bal by (auto simp: balanced_def handovers_def)
  ultimately obtain k' b' where kb: "(k', b') \<in> set (mc_busy m)" "k \<in># busy_handovers b'"
    by (auto simp: in_hm_sum)
  then have "k' \<in> ?keys" by force
  with max [of k'] down kb show False by fastforce
qed

lemma busy_machine_has_job_in_flight_witness: "in_flight (after removal_run) \<noteq> {#}"
proof (rule busy_machine_has_job_in_flight [where depth = "\<lambda>k. if k = oid 2 then 0 else 1"])
  show "reachable (after removal_run)" by (rule reachable_after)
  show "mc_busy (after removal_run) \<noteq> []" by code_simp
  show "\<forall>(k, b) \<in> set (mc_busy (after removal_run)). \<forall>p \<in># busy_handovers b.
      (if p = oid 2 then 0 else 1) < (if k = oid 2 then 0 else (1::nat))"
    by code_simp
qed

end
