(* ===== verification/Fsm_Buffers.thy ===== *)
theory Fsm_Buffers
  imports Fsm_Runs
begin

text \<open>
  The machine as the authority on dirty buffers: the bookkeeping changes only when a job
  completes, in the way \<open>apply_to_registry\<close> says, and a change that has not been sent is
  never forgotten by anything but the job that discards or replaces its buffer.
\<close>

section \<open>Nothing but a completion touches the bookkeeping\<close>

lemma settle_registry_simple:
  "\<not> is_handoff nxt \<Longrightarrow> mc_registry (fst (settle m obj flow nxt q)) = mc_registry m"
proof (induction q arbitrary: m flow nxt)
  case Nil
  then show ?case by (cases nxt) (auto simp: settle.simps frame_simps Let_def)
next
  case (Cons r q)
  let ?m = "end_release m flow"
  obtain f n where st: "start obj (rq_intent r) (rq_id r) (registry_facts (mc_registry ?m) obj) = (f, n)"
    by fastforce
  obtain m2 a2 where se: "settle ?m obj f n q = (m2, a2)" by fastforce
  have "mc_registry m2 = mc_registry m"
    using Cons.IH [OF start_no_handoff [OF st [symmetric]], of ?m f] se by (simp add: frame_simps)
  with Cons.prems st se show ?case
    by (cases nxt) (auto simp: settle.simps frame_simps Let_def)
qed

lemma request_registry:
  assumes "machine_request m r = (m', acts)"
  shows "mc_registry m' = mc_registry m"
proof (cases "hm_get (mc_busy m) (rq_object r)")
  case None
  obtain f n where st: "start (rq_object r) (rq_intent r) (rq_id r)
      (registry_facts (mc_registry m) (rq_object r)) = (f, n)"
    by fastforce
  have "settle m (rq_object r) f n [] = (m', acts)"
    using assms None st by (simp add: machine_request.simps begin_flow.simps Let_def)
  with settle_registry_simple [OF start_no_handoff [OF st [symmetric]], of m "rq_object r" f "[]"]
  show ?thesis by simp
next
  case (Some b)
  show ?thesis
  proof (cases "metadata_read (rq_intent r)")
    case True
    then have "begin_beside m r = (m', acts)"
      using assms Some by (simp add: machine_request.simps metadata_read_def)
    moreover obtain f j where "start (rq_object r) (rq_intent r) (rq_id r)
        (registry_facts (mc_registry m) (rq_object r)) = (f, Do j)"
      using start_metadata [of "rq_intent r"] True unfolding metadata_read_def by metis
    ultimately show ?thesis
      by (auto simp: begin_beside.simps Let_def)
  next
    case False
    with assms Some show ?thesis
      by (auto simp: machine_request.simps metadata_read_def Let_def frame_simps
          split: collision_decision.splits if_splits)
  qed
qed

lemma hand_over_registry: "hand_over m to i ws = (m', acts) \<Longrightarrow> mc_registry m' = mc_registry m"
proof (induction ws arbitrary: m acts)
  case Nil
  then show ?case by (simp add: settle.simps)
next
  case (Cons w ws)
  obtain m1 a1 where rq: "machine_request m \<lparr>rq_id = w, rq_object = to, rq_intent = i\<rparr> = (m1, a1)"
    by fastforce
  obtain m2 a2 where ho: "hand_over m1 to i ws = (m2, a2)" by fastforce
  have "m' = m2" using Cons.prems rq ho by (simp add: settle.simps)
  with Cons.IH [of m1 a2] ho request_registry [OF rq] show ?case by simp
qed

lemma settle_registry: "mc_registry (fst (settle m obj flow nxt q)) = mc_registry m"
proof (cases "is_handoff nxt")
  case True
  then obtain to i where nxt: "nxt = Handoff to i" by (cases nxt) auto
  let ?p = "put_busy m obj (flow\<lparr>fl_waiters := []\<rparr>) None q"
  obtain m2 a2 where ho: "hand_over ?p to i (fl_waiters flow) = (m2, a2)" by fastforce
  with nxt hand_over_registry [OF ho] show ?thesis
    by (simp add: settle.simps Let_def frame_simps)
qed (rule settle_registry_simple)

lemma release_ended_registry: "mc_registry (fst (release_ended m)) = mc_registry m"
proof (induction m rule: release_ended.induct)
  case (1 m)
  show ?case
  proof (cases "mc_releases m")
    case Nil
    then show ?thesis by (simp add: release_ended.simps [of m])
  next
    case (Cons p rest)
    let ?m = "m\<lparr>mc_releases := rest\<rparr>"
    obtain m1 a1 where rp: "release_parked ?m p = (m1, a1)" by fastforce
    obtain m2 a2 where re: "release_ended m1 = (m2, a2)" by fastforce
    have "mc_registry m1 = mc_registry m"
    proof (cases "\<exists>b. hm_get (mc_busy ?m) p = Some b \<and> parked b")
      case False
      with rp release_parked_idle [of ?m p] show ?thesis by auto
    next
      case True
      then obtain b where "hm_get (mc_busy ?m) p = Some b" "parked b" by blast
      with rp have "settle (?m\<lparr>mc_busy := hm_remove p (mc_busy ?m)\<rparr>) p (bz_flow b) Done (bz_queue b) = (m1, a1)"
        by (simp add: release_parked_def)
      with settle_registry [of "?m\<lparr>mc_busy := hm_remove p (mc_busy ?m)\<rparr>" p "bz_flow b" Done "bz_queue b"]
      show ?thesis by simp
    qed
    with "1.IH" [OF Cons rp [symmetric] refl] re Cons rp show ?thesis
      by (simp add: release_ended.simps [of m])
  qed
qed

text \<open>The bookkeeping after an event.\<close>

definition registry_after :: "machine \<Rightarrow> event \<Rightarrow> registry" where
  "registry_after m e =
     (case e of
        Complete obj c \<Rightarrow>
          (case hm_get (mc_busy m) obj of
             Some b \<Rightarrow>
               (case bz_outstanding b of
                  Some j \<Rightarrow> apply_to_registry (mc_registry m) j (fl_intent (bz_flow b)) c
                    (nf_etag (ca_node (fl_carry (bz_flow b)))) (nf_ignored (ca_node (fl_carry (bz_flow b))))
                | None \<Rightarrow> mc_registry m)
           | None \<Rightarrow> mc_registry m)
      | SeedBuffer obj bf \<Rightarrow> registry_open (mc_registry m) obj bf
      | _ \<Rightarrow> mc_registry m)"

lemma apply_event_registry:
  assumes "apply_event m e = (m', ans, jobs)"
  shows "mc_registry m' = registry_after m e"
proof (cases e)
  case (Arrive r)
  obtain m1 a1 where rq: "machine_request m r = (m1, a1)" by fastforce
  obtain m2 a2 where re: "release_ended m1 = (m2, a2)" by fastforce
  from assms Arrive rq re request_registry [OF rq] release_ended_registry [of m1] show ?thesis
    by (simp add: apply_event_def on_request_def registry_after_def)
next
  case (Complete obj c)
  obtain m1 a1 where co: "machine_completion m obj c = (m1, a1)" by fastforce
  obtain m2 a2 where re: "release_ended m1 = (m2, a2)" by fastforce
  have "mc_registry m1 = registry_after m e"
  proof (cases "hm_get (mc_busy m) obj")
    case None
    with co Complete show ?thesis by (simp add: machine_completion_def registry_after_def)
  next
    case (Some b)
    obtain f n where ad: "advance (bz_flow b) c (registry_facts (registry_after m e) obj) = (f, n)"
      by fastforce
    let ?m = "m\<lparr>mc_busy := hm_remove obj (mc_busy m), mc_registry := registry_after m e\<rparr>"
    have "settle ?m obj f n (bz_queue b) = (m1, a1)"
      using co Some Complete ad by (simp add: machine_completion_def registry_after_def Let_def)
    with settle_registry [of ?m obj f n "bz_queue b"] show ?thesis by simp
  qed
  with assms Complete co re release_ended_registry [of m1] show ?thesis
    by (simp add: apply_event_def on_completion_def)
next
  case (GiveUp t)
  obtain m1 a1 where ab: "abandon_request m t = (m1, a1)" by fastforce
  obtain m2 a2 where re: "release_ended m1 = (m2, a2)" by fastforce
  have "mc_registry m1 = mc_registry m"
    using ab by (auto simp: abandon_request_def split: option.splits)
  with assms GiveUp ab re release_ended_registry [of m1] show ?thesis
    by (simp add: apply_event_def abandon_def registry_after_def)
qed (use assms in \<open>auto simp: apply_event_def on_beside_def set_async_upload_def registry_after_def Let_def
    split: option.splits prod.splits\<close>)

section \<open>A change is never forgotten\<close>

text \<open>The jobs that may take a dirty buffer away or put another in its place.\<close>

fun replaces_buffer :: "job \<Rightarrow> object_id \<Rightarrow> bool" where
  "replaces_buffer (DiscardBuffer x) k = (x = k)"
| "replaces_buffer (CreateBuffer x) k = (x = k)"
| "replaces_buffer (HydrateBuffer x) k = (x = k)"
| "replaces_buffer _ k = False"

lemma apply_to_registry_keeps_dirty:
  assumes "fa_buffer_dirty (registry_facts reg k)" and "\<not> replaces_buffer j k \<or> (\<exists>f. c = JobFailed f)"
  shows "fa_buffer_dirty (registry_facts (apply_to_registry reg j i c e g) k)"
proof -
  obtain b where b: "hm_get reg k = Some b" "bf_dirty b"
    using assms(1) by (cases "hm_get reg k") (simp_all add: registry_facts_def default_facts_def)
  show ?thesis
  proof (cases "\<exists>f. c = JobFailed f")
    case True
    with assms(1) show ?thesis by (auto simp: apply_to_registry_def)
  next
    case False
    with assms(2) have nr: "\<not> replaces_buffer j k" by blast
    have eff: "apply_to_registry reg j i c e g = apply_to_registry reg j i JobDone e g"
      using False by (cases c) (simp_all add: apply_to_registry_def)
    from nr b show ?thesis unfolding eff
      by (cases j) (auto simp: apply_to_registry_def registry_facts_def registry_ops store_simps Let_def
          split: option.split)
  qed
qed

text \<open>
  C20. Unsent changes are never forgotten. If the buffer of an object is dirty before an
  event, it is dirty afterwards, unless the event is the successful answer to a job that
  discards that buffer or brings in another for it, or the frontend seeds one: no failure,
  no abandoned caller, no other object's work clears the mark.
\<close>

theorem dirty_until_discarded:
  assumes "apply_event m e = (m', ans, jobs)" and "fa_buffer_dirty (registry_facts (mc_registry m) k)"
    and "\<not> fa_buffer_dirty (registry_facts (mc_registry m') k)"
  shows "(\<exists>bf. e = SeedBuffer k bf) \<or>
    (\<exists>obj c b j. e = Complete obj c \<and> (\<forall>f. c \<noteq> JobFailed f) \<and> hm_get (mc_busy m) obj = Some b \<and>
       bz_outstanding b = Some j \<and> replaces_buffer j k)"
proof -
  have clean: "\<not> fa_buffer_dirty (registry_facts (registry_after m e) k)"
    using apply_event_registry [OF assms(1)] assms(3) by simp
  show ?thesis
  proof (cases e)
    case (Complete obj c)
    obtain b where b: "hm_get (mc_busy m) obj = Some b"
      using clean assms(2) Complete by (cases "hm_get (mc_busy m) obj") (simp_all add: registry_after_def)
    obtain j where j: "bz_outstanding b = Some j"
      using clean assms(2) Complete b by (cases "bz_outstanding b") (simp_all add: registry_after_def)
    from apply_to_registry_keeps_dirty [OF assms(2), of j c] clean Complete b j show ?thesis
      by (auto simp: registry_after_def)
  next
    case (SeedBuffer obj bf)
    with clean assms(2) show ?thesis
      by (cases "obj = k") (auto simp: registry_after_def frame_simps)
  qed (use clean assms(2) in \<open>simp_all add: registry_after_def\<close>)
qed

definition seeded_run :: "event list" where
  "seeded_run = [SeedBuffer (oid 7) (buffer_new ''v1''\<lparr>bf_dirty := True\<rparr>), ask 1 7 (Delete (oid 2))]"

lemma dirty_until_discarded_witness:
  "replaces_buffer (DiscardBuffer (oid 7)) (oid 7) \<and>
   (\<exists>m e m' ans jobs. apply_event m e = (m', ans, jobs) \<and> fa_buffer_dirty (registry_facts (mc_registry m) (oid 7)) \<and>
      (\<exists>obj c b j. e = Complete obj c \<and> hm_get (mc_busy m) obj = Some b \<and> bz_outstanding b = Some j \<and>
         replaces_buffer j (oid 7)))"
proof -
  let ?m = "fst (apply_event (fst (apply_event (fst (apply_event machine_new (hd seeded_run)))
      (ask 1 7 (Delete (oid 2))))) (Complete (oid 7) (Node (found_node (oid 7)))))"
  let ?e = "Complete (oid 7) JobDone"
  obtain m' ans jobs where ev: "apply_event ?m ?e = (m', ans, jobs)"
    using prod_cases3 by blast
  have d: "fa_buffer_dirty (registry_facts (mc_registry ?m) (oid 7))" by code_simp
  have "\<not> fa_buffer_dirty (registry_facts (mc_registry (fst (apply_event ?m ?e))) (oid 7))" by code_simp
  then have "\<not> fa_buffer_dirty (registry_facts (mc_registry m') (oid 7))" by (simp only: ev fst_conv not_False_eq_True)
  from dirty_until_discarded [OF ev d this] ev d show ?thesis by (simp, blast)
qed

text \<open>What each kind of finished job leaves behind.\<close>

definition is_creation :: "intent \<Rightarrow> bool" where
  "is_creation i \<longleftrightarrow> (case i of Materialise _ _ _ \<Rightarrow> True | _ \<Rightarrow> False)"

lemma apply_failed: "apply_to_registry reg j i (JobFailed f) e g = reg"
  by (simp add: apply_to_registry_def)

lemma apply_create:
  "registry_facts (apply_to_registry reg (CreateBuffer k) i JobDone e g) k =
     \<lparr>fa_buffer_open = True, fa_buffer_dirty = is_creation i, fa_ignored = g, fa_base_etag = e,
      fa_pending_mtime = None\<rparr>"
  by (simp add: apply_to_registry_def facts_after_open buffer_new_def is_creation_def Let_def)

lemma apply_write:
  "fa_buffer_dirty (registry_facts (apply_to_registry reg (WriteBuffer k off len) i JobDone e g) k) =
     fa_buffer_open (registry_facts reg k)"
  "fa_buffer_dirty (registry_facts (apply_to_registry reg (TruncateBuffer k n) i JobDone e g) k) =
     fa_buffer_open (registry_facts reg k)"
  by (simp_all add: apply_to_registry_def facts_after_dirty)

lemma apply_record:
  "if fa_buffer_open (registry_facts reg k)
   then fa_base_etag (registry_facts (apply_to_registry reg (RecordVersion k v n) i JobDone e g) k) = v
   else apply_to_registry reg (RecordVersion k v n) i JobDone e g = reg"
proof (cases "fa_buffer_open (registry_facts reg k)")
  case True
  from facts_after_base [OF this] True show ?thesis by (simp add: apply_to_registry_def)
next
  case False
  then have "hm_get reg k = None" by simp
  with False show ?thesis by (simp add: apply_to_registry_def set_base_etag_def)
qed

lemma apply_discard: "registry_facts (apply_to_registry reg (DiscardBuffer k) i JobDone e g) k = default_facts"
  by (simp add: apply_to_registry_def facts_after_close)

text \<open>
  What a finished job means for the buffer. A failed job changes nothing; a created
  buffer starts out dirty exactly when it belongs to a newly created file, so that an
  empty new file is still published, and is based on the version that was read; writing
  and truncating mark an open buffer dirty; a recorded upload becomes the base of the next.
\<close>

theorem buffer_bookkeeping:
  "apply_to_registry reg j i (JobFailed f) e g = reg \<and>
   registry_facts (apply_to_registry reg (CreateBuffer k) i JobDone e g) k =
     \<lparr>fa_buffer_open = True, fa_buffer_dirty = is_creation i,
      fa_ignored = g, fa_base_etag = e, fa_pending_mtime = None\<rparr> \<and>
   fa_buffer_dirty (registry_facts (apply_to_registry reg (WriteBuffer k off len) i JobDone e g) k) =
     fa_buffer_open (registry_facts reg k) \<and>
   fa_buffer_dirty (registry_facts (apply_to_registry reg (TruncateBuffer k n) i JobDone e g) k) =
     fa_buffer_open (registry_facts reg k) \<and>
   (if fa_buffer_open (registry_facts reg k)
    then fa_base_etag (registry_facts (apply_to_registry reg (RecordVersion k v n) i JobDone e g) k) = v
    else apply_to_registry reg (RecordVersion k v n) i JobDone e g = reg) \<and>
   registry_facts (apply_to_registry reg (DiscardBuffer k) i JobDone e g) k = default_facts"
  using apply_failed apply_create apply_write apply_record apply_discard by metis

end
