(* ===== verification/Fsm_Publish.thy ===== *)
theory Fsm_Publish
  imports Fsm_Script_Inv
begin

text \<open>
  What the scripts promise about the order of their side effects. A script run is a flow
  together with the history of the jobs it has handed out and the answers it got; between
  two steps the machine may change who waits on the flow and may mark it as given up. The
  lemmas say what must already be in the history when a job is handed out: that is how the
  user's bytes are kept, how a flush is answered truthfully, and how the database never
  runs ahead of the server.
\<close>

section \<open>Script runs\<close>

type_synonym history = "(job \<times> completion) list"

definition succeeded :: "completion \<Rightarrow> bool" where
  "succeeded c \<longleftrightarrow> (case c of JobFailed _ \<Rightarrow> False | _ \<Rightarrow> True)"

lemma succeeded_simps [simp]:
  "succeeded (Node n)" "succeeded Bytes" "succeeded Listed" "succeeded StateKnown" "succeeded (Size s)"
  "succeeded (Uploaded e s)" "succeeded Rejected" "succeeded JobDone" "\<not> succeeded (JobFailed f)"
  by (simp_all add: succeeded_def)

lemma not_failed_succeeded: "(\<forall>f. c \<noteq> JobFailed f) \<longleftrightarrow> succeeded c"
  by (cases c) auto

text \<open>The job a decision hands out.\<close>

fun job_of :: "flow_next \<Rightarrow> job option" where
  "job_of (Do j) = Some j"
| "job_of (AnswerThen j) = Some j"
| "job_of _ = None"

inductive scripted :: "object_id \<Rightarrow> intent \<Rightarrow> facts \<Rightarrow> flow \<Rightarrow> flow_next \<Rightarrow> history \<Rightarrow> bool"
  for obj i facts0 where
  begun: "start obj i w facts0 = (flow, nxt) \<Longrightarrow> scripted obj i facts0 flow nxt []"
| went_on: "scripted obj i facts0 flow nxt h \<Longrightarrow> job_of nxt = Some j \<Longrightarrow>
     advance (flow\<lparr>fl_waiters := ws, fl_abort := ab\<rparr>) c facts = (flow', nxt') \<Longrightarrow>
     scripted obj i facts0 flow' nxt' (h @ [(j, c)])"

text \<open>A run of a script on given facts and answers, for concrete instances.\<close>

fun walk :: "flow \<Rightarrow> flow_next \<Rightarrow> (facts \<times> completion) list \<Rightarrow> history \<Rightarrow> (flow \<times> flow_next \<times> history) option" where
  "walk flow nxt [] h = Some (flow, nxt, h)"
| "walk flow nxt ((facts, c) # rest) h =
     (case job_of nxt of
        None \<Rightarrow> None
      | Some j \<Rightarrow> (case advance flow c facts of (flow', nxt') \<Rightarrow> walk flow' nxt' rest (h @ [(j, c)])))"

lemma walk_scripted:
  "scripted obj i facts0 flow nxt h \<Longrightarrow> walk flow nxt inputs h = Some (flow', nxt', h') \<Longrightarrow>
     scripted obj i facts0 flow' nxt' h'"
proof (induction inputs arbitrary: flow nxt h)
  case Nil
  then show ?case by simp
next
  case (Cons inp inputs)
  obtain facts c where inp: "inp = (facts, c)" by fastforce
  obtain j where j: "job_of nxt = Some j"
    using Cons.prems(2) inp by (cases "job_of nxt") auto
  obtain f n where ad: "advance flow c facts = (f, n)" by fastforce
  have "flow\<lparr>fl_waiters := fl_waiters flow, fl_abort := fl_abort flow\<rparr> = flow" by simp
  with scripted.went_on [OF Cons.prems(1) j, where ws = "fl_waiters flow" and ab = "fl_abort flow"] ad
  have "scripted obj i facts0 f n (h @ [(j, c)])" by simp
  with Cons.IH Cons.prems(2) inp j ad show ?case by simp
qed

definition walk_from :: "object_id \<Rightarrow> intent \<Rightarrow> facts \<Rightarrow> (facts \<times> completion) list \<Rightarrow>
    (flow \<times> flow_next \<times> history) option" where
  "walk_from obj i facts0 inputs =
     (case start obj i (RequestId 1) facts0 of (flow, nxt) \<Rightarrow> walk flow nxt inputs [])"

lemma walk_from_scripted:
  "walk_from obj i facts0 inputs = Some (flow, nxt, h) \<Longrightarrow> scripted obj i facts0 flow nxt h"
  by (auto simp: walk_from_def split: prod.splits intro: walk_scripted scripted.begun)

lemma scripted_ticket: "scripted obj i facts0 flow nxt h \<Longrightarrow> fl_object flow = obj \<and> fl_intent flow = i"
  by (induction rule: scripted.induct) (auto dest: start_ticket advance_frame)

lemma scripted_on_script:
  "scripted obj i facts0 flow nxt h \<Longrightarrow> on_script flow \<and> next_ok flow nxt"
proof (induction rule: scripted.induct)
  case begun
  then show ?case by (rule start_on_script)
next
  case (went_on flow nxt h j ab ws c facts flow' nxt')
  have "on_script (flow\<lparr>fl_waiters := ws, fl_abort := ab\<rparr>)"
    using went_on.IH by (simp add: on_script_def)
  from advance_on_script [OF this went_on.hyps(3)] show ?case by simp
qed

text \<open>How a step goes on: the flow neither was given up nor failed, unless it ends here.\<close>

lemma advance_going_on:
  assumes "advance flow c facts = (flow', nxt)"
  obtains (ends) "job_of nxt = None"
  | (failing) f j where "c = JobFailed f" "nxt = Do j" "fl_step flow' \<in> {FetchPrune, PubError}"
      "advance_failed flow f = (flow', nxt)"
  | (going) "succeeded c" "\<not> fl_abort flow" "advance_step flow c facts = (flow', nxt)"
proof (cases rule: advance_cases [of flow c facts])
  case aborted
  with assms ends show ?thesis by simp
next
  case (failed f)
  with assms have "advance_failed flow f = (flow', nxt)" by simp
  with failed failing ends show ?thesis
    by (auto simp: advance_failed_def split: if_splits)
next
  case stepped
  with assms going not_failed_succeeded [of c] show ?thesis by simp
qed

section \<open>Histories as invariants\<close>

text \<open>
  What every script invariant has to show: it holds of the job the script starts with, and a
  step that goes on, whether its job succeeded or failed, leads from it to the next. Who
  waits on the flow and whether it has been given up is none of its business.
\<close>

locale script_history =
  fixes i :: intent
    and hist :: "object_id \<Rightarrow> facts \<Rightarrow> flow \<Rightarrow> step \<Rightarrow> job \<Rightarrow> history \<Rightarrow> bool"
  assumes ticket: "hist obj facts0 (flow\<lparr>fl_waiters := ws, fl_abort := ab\<rparr>) s j h = hist obj facts0 flow s j h"
    and starts: "start obj i w facts0 = (flow, nxt) \<Longrightarrow> job_of nxt = Some j \<Longrightarrow>
      hist obj facts0 flow (fl_step flow) j []"
    and fails: "hist obj facts0 flow (fl_step flow) j h \<Longrightarrow> fl_object flow = obj \<Longrightarrow> fl_intent flow = i \<Longrightarrow>
      advance_failed flow f = (flow', nxt) \<Longrightarrow> job_of nxt = Some k \<Longrightarrow>
      hist obj facts0 flow' (fl_step flow') k (h @ [(j, JobFailed f)])"
    and steps: "hist obj facts0 flow (fl_step flow) j h \<Longrightarrow> fl_object flow = obj \<Longrightarrow> fl_intent flow = i \<Longrightarrow>
      advance_step flow c facts = (flow', nxt) \<Longrightarrow> job_of nxt = Some k \<Longrightarrow> succeeded c \<Longrightarrow>
      hist obj facts0 flow' (fl_step flow') k (h @ [(j, c)])"
begin

lemma history:
  "scripted obj i facts0 flow nxt h \<Longrightarrow> job_of nxt = Some j \<Longrightarrow> hist obj facts0 flow (fl_step flow) j h"
proof (induction arbitrary: j rule: scripted.induct)
  case begun
  then show ?case by (rule starts)
next
  case (went_on flow nxt h j0 ab ws c facts flow' nxt')
  let ?f = "flow\<lparr>fl_waiters := ws, fl_abort := ab\<rparr>"
  have t: "fl_object ?f = obj" "fl_intent ?f = i"
    using scripted_ticket [OF went_on.hyps(1)] by simp_all
  have p: "hist obj facts0 ?f (fl_step ?f) j0 h"
    using went_on.IH [OF went_on.hyps(2)] by (simp add: ticket)
  show ?case
    using went_on.hyps(3)
  proof (cases rule: advance_going_on)
    case ends
    with went_on.prems show ?thesis by simp
  next
    case (failing f j')
    with fails [OF p t failing(4) went_on.prems] show ?thesis by simp
  next
    case going
    from steps [OF p t going(3) went_on.prems going(1)] show ?thesis .
  qed
qed

end

section \<open>The history of a publish\<close>

definition done_job :: "history \<Rightarrow> job \<Rightarrow> bool" where
  "done_job h j \<longleftrightarrow> (\<exists>c. (j, c) \<in> set h \<and> succeeded c)"

definition marked_pending :: "object_id \<Rightarrow> history \<Rightarrow> bool" where
  "marked_pending obj h \<longleftrightarrow> (\<exists>e t. done_job h (MarkPending obj e t))"

text \<open>The upload landed, its version is recorded and its bytes are kept in the cache.\<close>

definition uploaded_as :: "object_id \<Rightarrow> string \<Rightarrow> u64 \<Rightarrow> history \<Rightarrow> bool" where
  "uploaded_as obj e n h \<longleftrightarrow> (\<exists>s p t. (Upload obj s p t, Uploaded e n) \<in> set h)"

definition recorded :: "object_id \<Rightarrow> history \<Rightarrow> bool" where
  "recorded obj h \<longleftrightarrow> (\<exists>e n. uploaded_as obj e n h \<and> done_job h (RecordVersion obj e n))"

definition landed :: "object_id \<Rightarrow> history \<Rightarrow> bool" where
  "landed obj h \<longleftrightarrow> recorded obj h \<and> done_job h (StoreBlob obj)"

text \<open>The server refused the upload and the conflict was resolved.\<close>

definition refused :: "object_id \<Rightarrow> history \<Rightarrow> bool" where
  "refused obj h \<longleftrightarrow> (\<exists>s p t. (Upload obj s p t, Rejected) \<in> set h)"

definition resolved :: "object_id \<Rightarrow> history \<Rightarrow> bool" where
  "resolved obj h \<longleftrightarrow> refused obj h \<and> (\<exists>e. done_job h (ResolveConflict obj e))"

lemma done_job_snoc [simp]: "done_job (h @ [(j, c)]) k \<longleftrightarrow> done_job h k \<or> (j = k \<and> succeeded c)"
  by (auto simp: done_job_def)

lemma uploaded_as_snoc [simp]:
  "uploaded_as obj e n (h @ [(j, c)]) \<longleftrightarrow>
     uploaded_as obj e n h \<or> ((\<exists>s p t. j = Upload obj s p t) \<and> c = Uploaded e n)"
  by (auto simp: uploaded_as_def)

lemma refused_snoc [simp]:
  "refused obj (h @ [(j, c)]) \<longleftrightarrow> refused obj h \<or> ((\<exists>s p t. j = Upload obj s p t) \<and> c = Rejected)"
  by (auto simp: refused_def)

lemma done_job_Cons [simp]: "done_job ((j, c) # h) k \<longleftrightarrow> (j = k \<and> succeeded c) \<or> done_job h k"
  by (auto simp: done_job_def)

lemma marked_pending_now [simp]:
  "succeeded c \<Longrightarrow> marked_pending obj (h @ [(MarkPending obj e t, c)])"
  "succeeded c \<Longrightarrow> marked_pending obj [x, (MarkPending obj e t, c)]"
  by (cases x; auto simp: marked_pending_def)+

lemma recorded_now [simp]:
  "succeeded c \<Longrightarrow> uploaded_as obj e n h \<Longrightarrow> recorded obj (h @ [(RecordVersion obj e n, c)])"
  by (auto simp: recorded_def)

lemma landed_now [simp]:
  "succeeded c \<Longrightarrow> landed obj (h @ [(StoreBlob obj, c)]) \<longleftrightarrow> recorded obj h"
  by (simp add: landed_def recorded_def)

lemma resolved_now [simp]:
  "succeeded c \<Longrightarrow> resolved obj (h @ [(ResolveConflict obj e, c)]) \<longleftrightarrow> refused obj h"
  by (auto simp: resolved_def)

lemma history_grows [simp]:
  "marked_pending obj h \<Longrightarrow> marked_pending obj (h @ [(j, c)])"
  "landed obj h \<Longrightarrow> landed obj (h @ [(j, c)])"
  "resolved obj h \<Longrightarrow> resolved obj (h @ [(j, c)])"
  unfolding marked_pending_def landed_def recorded_def resolved_def by (simp_all; blast)+

fun publish_hist :: "object_id \<Rightarrow> facts \<Rightarrow> flow \<Rightarrow> step \<Rightarrow> job \<Rightarrow> history \<Rightarrow> bool" where
  "publish_hist obj facts0 flow PubNode j h \<longleftrightarrow> h = [] \<and> j = ReadNode obj"
| "publish_hist obj facts0 flow PubCommit j h \<longleftrightarrow>
     (\<exists>n e t. h = [(ReadNode obj, Node n)] \<and> nf_found n \<and> \<not> nf_ignored n \<and> ca_node (fl_carry flow) = n \<and>
        j = MarkPending obj e t)"
| "publish_hist obj facts0 flow PubSize j h \<longleftrightarrow>
     (ReadNode obj, Node (ca_node (fl_carry flow))) \<in> set h \<and> marked_pending obj h \<and> j = BufferSize obj"
| "publish_hist obj facts0 flow PubUpload j h \<longleftrightarrow> marked_pending obj h \<and>
     (ReadNode obj, Node (ca_node (fl_carry flow))) \<in> set h \<and>
     (\<exists>s p t. (BufferSize obj, Size s) \<in> set h \<and>
        (p = MustNotExist \<longleftrightarrow> \<not> nf_materialised (ca_node (fl_carry flow))) \<and> p \<noteq> Match [] \<and>
        j = Upload obj s p t)"
| "publish_hist obj facts0 flow PubRecord j h \<longleftrightarrow> marked_pending obj h \<and>
     uploaded_as obj (ca_etag (fl_carry flow)) (ca_size (fl_carry flow)) h \<and>
     j = RecordVersion obj (ca_etag (fl_carry flow)) (ca_size (fl_carry flow))"
| "publish_hist obj facts0 flow PubStore j h \<longleftrightarrow> marked_pending obj h \<and>
     recorded obj h \<and> j = StoreBlob obj"
| "publish_hist obj facts0 flow PubReload j h \<longleftrightarrow> marked_pending obj h \<and> landed obj h"
| "publish_hist obj facts0 flow PubConflict j h \<longleftrightarrow> marked_pending obj h \<and>
     refused obj h \<and> (\<exists>e. j = ResolveConflict obj e)"
| "publish_hist obj facts0 flow PubClear j h \<longleftrightarrow> marked_pending obj h \<and> (landed obj h \<or> resolved obj h) \<and>
     j = ClearPending obj"
| "publish_hist obj facts0 flow PubDiscard j h \<longleftrightarrow> j = DiscardBuffer obj \<and>
     ((h = [] \<and> fa_buffer_open facts0 \<and> \<not> fa_buffer_dirty facts0) \<or>
      (\<exists>n. h = [(ReadNode obj, Node n)] \<and> \<not> nf_found n) \<or>
      ((landed obj h \<or> resolved obj h) \<and> done_job h (ClearPending obj)))"
| "publish_hist obj facts0 flow PubError j h \<longleftrightarrow> marked_pending obj h \<and>
     (\<exists>k. (k, JobFailed Permanent) \<in> set h) \<and> (\<exists>msg. j = SetUploadError obj msg)"
| "publish_hist obj facts0 flow _ j h \<longleftrightarrow> False"

lemma publish_hist_ticket [simp]:
  "publish_hist obj facts0 (flow\<lparr>fl_waiters := ws, fl_abort := ab\<rparr>) s j h = publish_hist obj facts0 flow s j h"
  by (cases s) simp_all

lemma publish_hist_start:
  "start obj Publish w facts0 = (flow, nxt) \<Longrightarrow> job_of nxt = Some j \<Longrightarrow>
     publish_hist obj facts0 flow (fl_step flow) j []"
  by (auto simp: start_def start_step_def publish_start_def split: if_splits)

lemma publish_hist_failed:
  assumes "publish_hist obj facts0 flow (fl_step flow) j h" and "fl_object flow = obj" and "fl_intent flow = Publish"
    and "advance_failed flow f = (flow', nxt)" and "job_of nxt = Some k"
  shows "publish_hist obj facts0 flow' (fl_step flow') k (h @ [(j, JobFailed f)])"
  using assms
  by (cases "fl_step flow")
    (auto simp: advance_failed_def past_commit_def split: if_splits)

lemma publish_hist_step:
  assumes "publish_hist obj facts0 flow (fl_step flow) j h" and "fl_object flow = obj"
    and "advance_step flow c facts = (flow', nxt)" and "job_of nxt = Some k" and "succeeded c"
  shows "publish_hist obj facts0 flow' (fl_step flow') k (h @ [(j, c)])"
  using assms
  by (cases "fl_step flow")
    (auto simp: advance_step_def pub_node_def pub_size_def pub_upload_def pub_store_def wrong_completion_def
      upload_precondition_def       Let_def split: completion.splits if_splits)

interpretation publish: script_history Publish publish_hist
  by unfold_locales
    (simp_all add: publish_hist_start publish_hist_failed publish_hist_step)

text \<open>A step that waits for a job is the step of that job.\<close>

lemma scripted_awaits:
  "scripted obj i facts0 flow nxt h \<Longrightarrow> job_of nxt = Some j \<Longrightarrow> awaits (fl_step flow) j"
  using scripted_on_script [of obj i facts0 flow nxt h] by (cases nxt) auto

lemma publish_discard_step:
  assumes "awaits s (DiscardBuffer x)" and "publish_hist obj facts0 flow s (DiscardBuffer x) h"
  shows "s = PubDiscard"
  using assms by (cases s) auto

definition clean_facts :: facts where
  "clean_facts = default_facts\<lparr>fa_buffer_open := True\<rparr>"

definition dirty_facts :: facts where
  "dirty_facts = default_facts\<lparr>fa_buffer_open := True, fa_buffer_dirty := True, fa_base_etag := ''v1''\<rparr>"

definition known_node :: node_facts where
  "known_node = default_node\<lparr>nf_id := ObjectId 7, nf_found := True, nf_materialised := True, nf_identified := True\<rparr>"

text \<open>An upload the server accepts, up to the step that lets the buffer go.\<close>

definition upload_inputs :: "(facts \<times> completion) list" where
  "upload_inputs =
     [(dirty_facts, Node known_node), (dirty_facts, JobDone), (dirty_facts, Size 5),
      (dirty_facts, Uploaded ''v2'' 5), (dirty_facts, JobDone), (dirty_facts, JobDone), (dirty_facts, JobDone)]"

text \<open>
  C3. A publish never throws away the user's bytes. When the publish of an object hands out
  the job that discards its write buffer, then either the buffer held no change to begin
  with, or the object no longer exists, or the upload of those bytes was accepted by the
  server, recorded and kept in the cache, or a refused upload was resolved as a conflict;
  and in the last two cases the pending record had been cleared first.
\<close>

theorem publish_discards_only_saved_bytes:
  assumes "scripted obj Publish facts0 flow nxt h" and "job_of nxt = Some (DiscardBuffer x)"
  shows "x = obj \<and>
    ((h = [] \<and> fa_buffer_open facts0 \<and> \<not> fa_buffer_dirty facts0) \<or>
     (\<exists>n. h = [(ReadNode obj, Node n)] \<and> \<not> nf_found n) \<or>
     ((landed obj h \<or> resolved obj h) \<and> done_job h (ClearPending obj)))"
proof -
  have hist: "publish_hist obj facts0 flow (fl_step flow) (DiscardBuffer x) h"
    by (rule publish.history [OF assms])
  from publish_discard_step [OF scripted_awaits [OF assms] hist] hist show ?thesis by simp
qed

lemma publish_discards_only_saved_bytes_witness:
  "\<exists>flow h. scripted (ObjectId 7) Publish dirty_facts flow (Do (DiscardBuffer (ObjectId 7))) h \<and>
     landed (ObjectId 7) h"
proof -
  let ?h = "[(ReadNode (ObjectId 7), Node known_node), (MarkPending (ObjectId 7) ''v1'' None, JobDone),
    (BufferSize (ObjectId 7), Size 5), (Upload (ObjectId 7) 5 (Match ''v1'') None, Uploaded ''v2'' 5),
    (RecordVersion (ObjectId 7) ''v2'' 5, JobDone), (StoreBlob (ObjectId 7), JobDone),
    (ClearPending (ObjectId 7), JobDone)]"
  have "map_option (\<lambda>(f, n, h). (n, h)) (walk_from (ObjectId 7) Publish dirty_facts upload_inputs) =
      Some (Do (DiscardBuffer (ObjectId 7)), ?h)"
    by code_simp
  then obtain flow where s: "scripted (ObjectId 7) Publish dirty_facts flow (Do (DiscardBuffer (ObjectId 7))) ?h"
    using walk_from_scripted [of "ObjectId 7" Publish dirty_facts upload_inputs] by auto
  from publish_discards_only_saved_bytes [OF s] have "landed (ObjectId 7) ?h \<or> resolved (ObjectId 7) ?h"
    by simp
  moreover have "\<not> resolved (ObjectId 7) ?h" by (simp add: resolved_def done_job_def)
  ultimately show ?thesis using s by blast
qed

text \<open>
  C18. A flush is told "saved" only when it is true. Whatever script answers its callers
  before it has ended is a publish, and by then the upload it owes is durably recorded:
  the pending record was written, and the write reported success.
\<close>

theorem early_answer_only_after_local_commit:
  assumes "scripted obj i facts0 flow (AnswerThen j) h"
  shows "i = Publish \<and> j = BufferSize obj \<and> (\<exists>e t. done_job h (MarkPending obj e t))"
proof -
  have i: "i = Publish" and step: "fl_step flow = PubSize"
    using scripted_on_script [OF assms] scripted_ticket [OF assms] by simp_all
  have "publish_hist obj facts0 flow (fl_step flow) j h"
    using publish.history [OF assms [unfolded i], of j] by simp
  with i step show ?thesis by (auto simp: marked_pending_def)
qed

lemma early_answer_only_after_local_commit_witness:
  "\<exists>flow h. scripted (ObjectId 7) Publish dirty_facts flow (AnswerThen (BufferSize (ObjectId 7))) h \<and>
     (\<exists>e t. done_job h (MarkPending (ObjectId 7) e t))"
proof -
  let ?h = "[(ReadNode (ObjectId 7), Node known_node), (MarkPending (ObjectId 7) ''v1'' None, JobDone)]"
  have "map_option (\<lambda>(f, n, h). (n, h)) (walk_from (ObjectId 7) Publish dirty_facts (take 2 upload_inputs)) =
      Some (AnswerThen (BufferSize (ObjectId 7)), ?h)"
    by code_simp
  then obtain flow where s: "scripted (ObjectId 7) Publish dirty_facts flow (AnswerThen (BufferSize (ObjectId 7))) ?h"
    using walk_from_scripted [of "ObjectId 7" Publish dirty_facts "take 2 upload_inputs"] by auto
  from early_answer_only_after_local_commit [OF s] s show ?thesis by blast
qed

text \<open>
  What an upload asserts about the server follows from the row that was read. It sends
  the size the buffer reported, for the object published; it claims absence exactly when
  the row says the object was never there, so that an unknown base of an existing file
  never turns into a claim of absence; and it never asserts an empty version.
\<close>

theorem upload_asserts_what_the_row_says:
  assumes "scripted obj Publish facts0 flow nxt h" and "job_of nxt = Some (Upload x s p t)"
  shows "x = obj \<and> (BufferSize obj, Size s) \<in> set h \<and> p \<noteq> Match [] \<and> marked_pending obj h \<and>
    (\<exists>n. (ReadNode obj, Node n) \<in> set h \<and> (p = MustNotExist \<longleftrightarrow> \<not> nf_materialised n))"
proof -
  have hist: "publish_hist obj facts0 flow (fl_step flow) (Upload x s p t) h"
    by (rule publish.history [OF assms])
  moreover have "fl_step flow = PubUpload"
    using scripted_awaits [OF assms] by (cases "fl_step flow") auto
  ultimately show ?thesis by auto
qed

lemma upload_asserts_what_the_row_says_witness:
  "\<exists>flow h. scripted (ObjectId 7) Publish dirty_facts flow (Do (Upload (ObjectId 7) 5 (Match ''v1'') None)) h \<and>
     (BufferSize (ObjectId 7), Size 5) \<in> set h"
proof -
  let ?h = "[(ReadNode (ObjectId 7), Node known_node), (MarkPending (ObjectId 7) ''v1'' None, JobDone),
    (BufferSize (ObjectId 7), Size 5)]"
  have "map_option (\<lambda>(f, n, h). (n, h)) (walk_from (ObjectId 7) Publish dirty_facts (take 3 upload_inputs)) =
      Some (Do (Upload (ObjectId 7) 5 (Match ''v1'') None), ?h)"
    by code_simp
  then obtain flow where s: "scripted (ObjectId 7) Publish dirty_facts flow (Do (Upload (ObjectId 7) 5 (Match ''v1'') None)) ?h"
    using walk_from_scripted [of "ObjectId 7" Publish dirty_facts "take 3 upload_inputs"] by auto
  from upload_asserts_what_the_row_says [OF s job_of.simps(1)]
  have "(BufferSize (ObjectId 7), Size 5) \<in> set ?h" by blast
  with s show ?thesis by blast
qed



end
