(* ===== verification/Fsm_Effects.thy ===== *)
theory Fsm_Effects
  imports Fsm_Publish
begin

text \<open>
  The order of side effects in the other scripts that change something: removal, rename,
  write and creation, and where a read takes its bytes from. Each is an instance of the
  history interface of \<open>Fsm_Publish\<close>.
\<close>

section \<open>Removal: the server first, the row last\<close>

fun delete_hist :: "object_id \<Rightarrow> facts \<Rightarrow> flow \<Rightarrow> step \<Rightarrow> job \<Rightarrow> history \<Rightarrow> bool" where
  "delete_hist obj facts0 flow DelNode j h \<longleftrightarrow> h = [] \<and> j = ReadNode obj"
| "delete_hist obj facts0 flow RemRemote j h \<longleftrightarrow>
     (ReadNode obj, Node (ca_node (fl_carry flow))) \<in> set h \<and> nf_found (ca_node (fl_carry flow)) \<and>
     nf_materialised (ca_node (fl_carry flow)) \<and> j = DeleteRemote obj"
| "delete_hist obj facts0 flow RemBuffer j h \<longleftrightarrow>
     (ReadNode obj, Node (ca_node (fl_carry flow))) \<in> set h \<and> nf_found (ca_node (fl_carry flow)) \<and>
     (nf_materialised (ca_node (fl_carry flow)) \<longrightarrow> done_job h (DeleteRemote obj)) \<and>
     j = DiscardBuffer (if nf_materialised (ca_node (fl_carry flow)) then nf_id (ca_node (fl_carry flow)) else obj)"
| "delete_hist obj facts0 flow RemRows j h \<longleftrightarrow>
     (ReadNode obj, Node (ca_node (fl_carry flow))) \<in> set h \<and> nf_found (ca_node (fl_carry flow)) \<and>
     (nf_materialised (ca_node (fl_carry flow)) \<longrightarrow> done_job h (DeleteRemote obj)) \<and>
     done_job h (DiscardBuffer (if nf_materialised (ca_node (fl_carry flow)) then nf_id (ca_node (fl_carry flow)) else obj)) \<and>
     j = RemoveRows (nf_id (ca_node (fl_carry flow)))"
| "delete_hist obj facts0 flow _ j h \<longleftrightarrow> False"

interpretation delete: script_history "Delete p" delete_hist for p
proof
  show "delete_hist obj facts0 (flow\<lparr>fl_waiters := ws, fl_abort := ab\<rparr>) s j h = delete_hist obj facts0 flow s j h"
    for obj facts0 flow ws ab s j h by (cases s) simp_all
  show "start obj (Delete p) w facts0 = (flow, nxt) \<Longrightarrow> job_of nxt = Some j \<Longrightarrow>
      delete_hist obj facts0 flow (fl_step flow) j []" for obj p w facts0 flow nxt j
    by (auto simp: start_def start_step_def)
  show "delete_hist obj facts0 flow (fl_step flow) j h \<Longrightarrow> fl_object flow = obj \<Longrightarrow> fl_intent flow = Delete p \<Longrightarrow>
      advance_failed flow f = (flow', nxt) \<Longrightarrow> job_of nxt = Some k \<Longrightarrow>
      delete_hist obj facts0 flow' (fl_step flow') k (h @ [(j, JobFailed f)])" for obj facts0 flow j h p f flow' nxt k
    by (cases "fl_step flow") (auto simp: advance_failed_def past_commit_def split: if_splits)
  show "delete_hist obj facts0 flow (fl_step flow) j h \<Longrightarrow> fl_object flow = obj \<Longrightarrow> fl_intent flow = Delete p \<Longrightarrow>
      advance_step flow c facts = (flow', nxt) \<Longrightarrow> job_of nxt = Some k \<Longrightarrow> succeeded c \<Longrightarrow>
      delete_hist obj facts0 flow' (fl_step flow') k (h @ [(j, c)])" for obj facts0 flow j h p c facts flow' nxt k
    by (cases "fl_step flow")
      (auto simp: advance_step_def del_node_def wrong_completion_def Let_def split: completion.splits if_splits)
qed

text \<open>
  C21. A removal drops the row last. When the removal of an object hands out the job that
  drops its rows, the row that was read existed, the file was deleted on the server with
  success if it had ever been there, and its write buffer was discarded with success.
\<close>

theorem removal_drops_rows_last:
  assumes "scripted obj (Delete p) facts0 flow nxt h" and "job_of nxt = Some (RemoveRows x)"
  shows "\<exists>n. (ReadNode obj, Node n) \<in> set h \<and> nf_found n \<and> x = nf_id n \<and>
    (nf_materialised n \<longrightarrow> done_job h (DeleteRemote obj)) \<and>
    done_job h (DiscardBuffer (if nf_materialised n then nf_id n else obj))"
proof -
  have hist: "delete_hist obj facts0 flow (fl_step flow) (RemoveRows x) h"
    by (rule delete.history [OF assms])
  then have "fl_step flow = RemRows" by (cases "fl_step flow") simp_all
  with hist show ?thesis by (intro exI [of _ "ca_node (fl_carry flow)"]) simp
qed

lemma removal_drops_rows_last_witness:
  "\<exists>flow h. scripted (ObjectId 7) (Delete (ObjectId 2)) clean_facts flow (Do (RemoveRows (ObjectId 7))) h \<and>
     done_job h (DeleteRemote (ObjectId 7))"
proof -
  let ?i = "Delete (ObjectId 2)"
  let ?in = "[(clean_facts, Node known_node), (clean_facts, JobDone), (clean_facts, JobDone)]"
  let ?h = "[(ReadNode (ObjectId 7), Node known_node), (DeleteRemote (ObjectId 7), JobDone),
    (DiscardBuffer (ObjectId 7), JobDone)]"
  have "map_option (\<lambda>(f, n, h). (n, h)) (walk_from (ObjectId 7) ?i clean_facts ?in) =
      Some (Do (RemoveRows (ObjectId 7)), ?h)"
    by code_simp
  then obtain flow where s: "scripted (ObjectId 7) ?i clean_facts flow (Do (RemoveRows (ObjectId 7))) ?h"
    using walk_from_scripted [of "ObjectId 7" ?i clean_facts ?in] by auto
  obtain n where n: "(ReadNode (ObjectId 7), Node n) \<in> set ?h" "nf_materialised n \<longrightarrow> done_job ?h (DeleteRemote (ObjectId 7))"
    using removal_drops_rows_last [OF s job_of.simps(1)] by blast
  then have "n = known_node" by simp
  then have "nf_materialised n" by (simp add: known_node_def)
  with n(2) s show ?thesis by blast
qed

section \<open>Rename: the server first, the rows after\<close>

fun relocate_hist :: "object_id \<Rightarrow> string \<Rightarrow> object_id \<Rightarrow> facts \<Rightarrow> flow \<Rightarrow> step \<Rightarrow> job \<Rightarrow> history \<Rightarrow> bool" where
  "relocate_hist to name obj facts0 flow RelNode j h \<longleftrightarrow> h = [] \<and> j = ReadNode obj"
| "relocate_hist to name obj facts0 flow MovRemote j h \<longleftrightarrow>
     (ReadNode obj, Node (ca_node (fl_carry flow))) \<in> set h \<and> nf_found (ca_node (fl_carry flow)) \<and>
     j = MoveRemote obj to name"
| "relocate_hist to name obj facts0 flow MovRows j h \<longleftrightarrow>
     (ReadNode obj, Node (ca_node (fl_carry flow))) \<in> set h \<and> nf_found (ca_node (fl_carry flow)) \<and>
     (nf_materialised (ca_node (fl_carry flow)) \<longrightarrow> done_job h (MoveRemote obj to name)) \<and>
     j = MoveRows obj to name"
| "relocate_hist to name obj facts0 flow _ j h \<longleftrightarrow> False"

interpretation relocate: script_history "Relocate from to name" "relocate_hist to name" for "from" to name
proof
  show "relocate_hist to name obj facts0 (flow\<lparr>fl_waiters := ws, fl_abort := ab\<rparr>) s j h = relocate_hist to name obj facts0 flow s j h"
    for to name obj facts0 flow ws ab s j h by (cases s) simp_all
  show "start obj (Relocate src to name) w facts0 = (flow, nxt) \<Longrightarrow> job_of nxt = Some j \<Longrightarrow>
      relocate_hist to name obj facts0 flow (fl_step flow) j []" for obj src to name w facts0 flow nxt j
    by (auto simp: start_def start_step_def)
  show "relocate_hist to name obj facts0 flow (fl_step flow) j h \<Longrightarrow> fl_object flow = obj \<Longrightarrow>
      fl_intent flow = Relocate src to name \<Longrightarrow> advance_failed flow f = (flow', nxt) \<Longrightarrow> job_of nxt = Some k \<Longrightarrow>
      relocate_hist to name obj facts0 flow' (fl_step flow') k (h @ [(j, JobFailed f)])"
    for to name obj facts0 flow j h src f flow' nxt k
    by (cases "fl_step flow") (auto simp: advance_failed_def past_commit_def split: if_splits)
  show "relocate_hist to name obj facts0 flow (fl_step flow) j h \<Longrightarrow> fl_object flow = obj \<Longrightarrow>
      fl_intent flow = Relocate src to name \<Longrightarrow> advance_step flow c facts = (flow', nxt) \<Longrightarrow> job_of nxt = Some k \<Longrightarrow>
      succeeded c \<Longrightarrow> relocate_hist to name obj facts0 flow' (fl_step flow') k (h @ [(j, c)])"
    for to name obj facts0 flow j h src c facts flow' nxt k
    by (cases "fl_step flow")
      (auto simp: advance_step_def rel_node_def mov_remote_def wrong_completion_def Let_def
        split: completion.splits if_splits)
qed

text \<open>
  C22. A rename moves the rows last. When the rename of an object hands out the job that
  moves its rows, they move to the place the caller named, the row that was read existed,
  and the file was moved on the server with success if it had ever been there.
\<close>

theorem rename_moves_rows_last:
  assumes "scripted obj (Relocate src to name) facts0 flow nxt h" and "job_of nxt = Some (MoveRows x q nm)"
  shows "x = obj \<and> q = to \<and> nm = name \<and>
    (\<exists>n. (ReadNode obj, Node n) \<in> set h \<and> nf_found n \<and>
      (nf_materialised n \<longrightarrow> done_job h (MoveRemote obj to name)))"
proof -
  have hist: "relocate_hist to name obj facts0 flow (fl_step flow) (MoveRows x q nm) h"
    by (rule relocate.history [OF assms])
  then have "fl_step flow = MovRows" by (cases "fl_step flow") simp_all
  with hist show ?thesis by auto
qed

lemma rename_moves_rows_last_witness:
  "\<exists>flow h. scripted (ObjectId 7) (Relocate (ObjectId 2) (ObjectId 3) ''b'') clean_facts flow
       (Do (MoveRows (ObjectId 7) (ObjectId 3) ''b'')) h \<and>
     (\<exists>n. (ReadNode (ObjectId 7), Node n) \<in> set h \<and> nf_found n)"
proof -
  let ?i = "Relocate (ObjectId 2) (ObjectId 3) ''b''"
  let ?in = "[(clean_facts, Node known_node), (clean_facts, JobDone)]"
  let ?h = "[(ReadNode (ObjectId 7), Node known_node), (MoveRemote (ObjectId 7) (ObjectId 3) ''b'', JobDone)]"
  have "map_option (\<lambda>(f, n, h). (n, h)) (walk_from (ObjectId 7) ?i clean_facts ?in) =
      Some (Do (MoveRows (ObjectId 7) (ObjectId 3) ''b''), ?h)"
    by code_simp
  then obtain flow where s: "scripted (ObjectId 7) ?i clean_facts flow (Do (MoveRows (ObjectId 7) (ObjectId 3) ''b'')) ?h"
    using walk_from_scripted [of "ObjectId 7" ?i clean_facts ?in] by auto
  from rename_moves_rows_last [OF s job_of.simps(1)] s show ?thesis by blast
qed

section \<open>Writes: an editable file with a complete buffer\<close>

definition editable :: "node_facts \<Rightarrow> bool" where
  "editable n \<longleftrightarrow> nf_found n \<and> \<not> nf_dir n \<and> nf_writable n"

definition prepare_job :: "object_id \<Rightarrow> node_facts \<Rightarrow> job" where
  "prepare_job obj n = (if nf_size n > 0 then HydrateBuffer obj else CreateBuffer obj)"

fun write_hist :: "u64 \<Rightarrow> u32 \<Rightarrow> object_id \<Rightarrow> facts \<Rightarrow> flow \<Rightarrow> step \<Rightarrow> job \<Rightarrow> history \<Rightarrow> bool" where
  "write_hist off len obj facts0 flow WriteNode j h \<longleftrightarrow> h = [] \<and> j = ReadNode obj"
| "write_hist off len obj facts0 flow WritePrepare j h \<longleftrightarrow>
     h = [(ReadNode obj, Node (ca_node (fl_carry flow)))] \<and> editable (ca_node (fl_carry flow)) \<and>
     j = prepare_job obj (ca_node (fl_carry flow))"
| "write_hist off len obj facts0 flow WriteBytes j h \<longleftrightarrow>
     (ReadNode obj, Node (ca_node (fl_carry flow))) \<in> set h \<and> editable (ca_node (fl_carry flow)) \<and>
     (length h = 1 \<or> done_job h (prepare_job obj (ca_node (fl_carry flow)))) \<and> j = WriteBuffer obj off len"
| "write_hist off len obj facts0 flow _ j h \<longleftrightarrow> False"

interpretation writing: script_history "Write off len" "write_hist off len" for off len
proof
  show "write_hist off len obj facts0 (flow\<lparr>fl_waiters := ws, fl_abort := ab\<rparr>) s j h = write_hist off len obj facts0 flow s j h"
    for off len obj facts0 flow ws ab s j h by (cases s) simp_all
  show "start obj (Write off len) w facts0 = (flow, nxt) \<Longrightarrow> job_of nxt = Some j \<Longrightarrow>
      write_hist off len obj facts0 flow (fl_step flow) j []" for obj off len w facts0 flow nxt j
    by (auto simp: start_def start_step_def)
  show "write_hist off len obj facts0 flow (fl_step flow) j h \<Longrightarrow> fl_object flow = obj \<Longrightarrow>
      fl_intent flow = Write off len \<Longrightarrow> advance_failed flow f = (flow', nxt) \<Longrightarrow> job_of nxt = Some k \<Longrightarrow>
      write_hist off len obj facts0 flow' (fl_step flow') k (h @ [(j, JobFailed f)])"
    for off len obj facts0 flow j h f flow' nxt k
    by (cases "fl_step flow") (auto simp: advance_failed_def past_commit_def split: if_splits)
  show "write_hist off len obj facts0 flow (fl_step flow) j h \<Longrightarrow> fl_object flow = obj \<Longrightarrow>
      fl_intent flow = Write off len \<Longrightarrow> advance_step flow c facts = (flow', nxt) \<Longrightarrow> job_of nxt = Some k \<Longrightarrow>
      succeeded c \<Longrightarrow> write_hist off len obj facts0 flow' (fl_step flow') k (h @ [(j, c)])"
    for off len obj facts0 flow j h c facts flow' nxt k
    by (cases "fl_step flow")
      (auto simp: advance_step_def write_node_def write_bytes_def wrong_completion_def Let_def
        editable_def prepare_job_def split: completion.splits if_splits)
qed

text \<open>
  A write reaches only an editable file, on a complete base. When a write hands out the
  job that writes its bytes, it writes the range the caller named, the row that was read
  was an existing writable file, and unless a buffer was open already the base was first
  brought in full, downloaded when the file has content and created empty when it has
  none, with success.
\<close>

theorem write_goes_to_prepared_buffer:
  assumes "scripted obj (Write off len) facts0 flow nxt h" and "job_of nxt = Some (WriteBuffer x o' l')"
  shows "x = obj \<and> o' = off \<and> l' = len \<and>
    (\<exists>n. (ReadNode obj, Node n) \<in> set h \<and> nf_found n \<and> \<not> nf_dir n \<and> nf_writable n \<and>
      (length h = 1 \<or> done_job h (if nf_size n > 0 then HydrateBuffer obj else CreateBuffer obj)))"
proof -
  have hist: "write_hist off len obj facts0 flow (fl_step flow) (WriteBuffer x o' l') h"
    by (rule writing.history [OF assms])
  then have "fl_step flow = WriteBytes"
    by (cases "fl_step flow") (simp_all add: prepare_job_def split: if_splits)
  with hist show ?thesis
    by (intro conjI exI [of _ "ca_node (fl_carry flow)"]) (simp_all add: editable_def prepare_job_def)
qed

lemma write_goes_to_prepared_buffer_witness:
  "\<exists>flow h. scripted (ObjectId 7) (Write 0 3) default_facts flow (Do (WriteBuffer (ObjectId 7) 0 3)) h \<and>
     (\<exists>n. (ReadNode (ObjectId 7), Node n) \<in> set h \<and> nf_writable n)"
proof -
  let ?n = "known_node\<lparr>nf_writable := True, nf_size := 9\<rparr>"
  let ?in = "[(default_facts, Node ?n), (clean_facts, JobDone)]"
  let ?h = "[(ReadNode (ObjectId 7), Node ?n), (HydrateBuffer (ObjectId 7), JobDone)]"
  have "map_option (\<lambda>(f, n, h). (n, h)) (walk_from (ObjectId 7) (Write 0 3) default_facts ?in) =
      Some (Do (WriteBuffer (ObjectId 7) 0 3), ?h)"
    by code_simp
  then obtain flow where s: "scripted (ObjectId 7) (Write 0 3) default_facts flow (Do (WriteBuffer (ObjectId 7) 0 3)) ?h"
    using walk_from_scripted [of "ObjectId 7" "Write 0 3" default_facts ?in] by auto
  from write_goes_to_prepared_buffer [OF s job_of.simps(1)] s show ?thesis by blast
qed

section \<open>Creation: the row, then the buffer of the new object\<close>

fun create_hist :: "string \<Rightarrow> bool \<Rightarrow> object_id \<Rightarrow> facts \<Rightarrow> flow \<Rightarrow> step \<Rightarrow> job \<Rightarrow> history \<Rightarrow> bool" where
  "create_hist name exec obj facts0 flow MatInsert j h \<longleftrightarrow> h = [] \<and> j = InsertNode obj name False exec"
| "create_hist name exec obj facts0 flow MatLookup j h \<longleftrightarrow>
     done_job h (InsertNode obj name False exec) \<and> j = ReadChild obj name"
| "create_hist name exec obj facts0 flow MatBuffer j h \<longleftrightarrow>
     done_job h (InsertNode obj name False exec) \<and>
     (ReadChild obj name, Node (ca_node (fl_carry flow))) \<in> set h \<and> nf_found (ca_node (fl_carry flow)) \<and>
     j = CreateBuffer (nf_id (ca_node (fl_carry flow)))"
| "create_hist name exec obj facts0 flow _ j h \<longleftrightarrow> False"

interpretation creating: script_history "Materialise name False exec" "create_hist name exec" for name exec
proof
  show "create_hist name exec obj facts0 (flow\<lparr>fl_waiters := ws, fl_abort := ab\<rparr>) s j h = create_hist name exec obj facts0 flow s j h"
    for name exec obj facts0 flow ws ab s j h by (cases s) simp_all
  show "start obj (Materialise name False exec) w facts0 = (flow, nxt) \<Longrightarrow> job_of nxt = Some j \<Longrightarrow>
      create_hist name exec obj facts0 flow (fl_step flow) j []" for obj name exec w facts0 flow nxt j
    by (auto simp: start_def start_step_def)
  show "create_hist name exec obj facts0 flow (fl_step flow) j h \<Longrightarrow> fl_object flow = obj \<Longrightarrow>
      fl_intent flow = Materialise name False exec \<Longrightarrow> advance_failed flow f = (flow', nxt) \<Longrightarrow> job_of nxt = Some k \<Longrightarrow>
      create_hist name exec obj facts0 flow' (fl_step flow') k (h @ [(j, JobFailed f)])"
    for name exec obj facts0 flow j h f flow' nxt k
    by (cases "fl_step flow") (auto simp: advance_failed_def past_commit_def split: if_splits)
  show "create_hist name exec obj facts0 flow (fl_step flow) j h \<Longrightarrow> fl_object flow = obj \<Longrightarrow>
      fl_intent flow = Materialise name False exec \<Longrightarrow> advance_step flow c facts = (flow', nxt) \<Longrightarrow> job_of nxt = Some k \<Longrightarrow>
      succeeded c \<Longrightarrow> create_hist name exec obj facts0 flow' (fl_step flow') k (h @ [(j, c)])"
    for name exec obj facts0 flow j h c facts flow' nxt k
    by (cases "fl_step flow")
      (auto simp: advance_step_def mat_resolve_def mat_lookup_def wrong_completion_def Let_def
        split: completion.splits if_splits)
qed

text \<open>
  A created file gets its buffer after its row. When the creation of a file hands out
  the job that creates a write buffer, the row of the new file was inserted with success
  under the name asked for, and the buffer belongs to the object that row now has.
\<close>

theorem creation_buffers_the_new_row:
  assumes "scripted obj (Materialise name False exec) facts0 flow nxt h" and "job_of nxt = Some (CreateBuffer x)"
  shows "done_job h (InsertNode obj name False exec) \<and>
    (\<exists>n. (ReadChild obj name, Node n) \<in> set h \<and> nf_found n \<and> x = nf_id n)"
proof -
  have hist: "create_hist name exec obj facts0 flow (fl_step flow) (CreateBuffer x) h"
    by (rule creating.history [OF assms])
  then have "fl_step flow = MatBuffer" by (cases "fl_step flow") simp_all
  with hist show ?thesis by auto
qed

lemma creation_buffers_the_new_row_witness:
  "\<exists>flow h. scripted (ObjectId 2) (Materialise ''a'' False True) default_facts flow (Do (CreateBuffer (ObjectId 7))) h \<and>
     done_job h (InsertNode (ObjectId 2) ''a'' False True)"
proof -
  let ?i = "Materialise ''a'' False True"
  let ?in = "[(default_facts, JobDone), (default_facts, Node known_node)]"
  let ?h = "[(InsertNode (ObjectId 2) ''a'' False True, JobDone), (ReadChild (ObjectId 2) ''a'', Node known_node)]"
  have "map_option (\<lambda>(f, n, h). (n, h)) (walk_from (ObjectId 2) ?i default_facts ?in) =
      Some (Do (CreateBuffer (ObjectId 7)), ?h)"
    by code_simp
  then obtain flow where s: "scripted (ObjectId 2) ?i default_facts flow (Do (CreateBuffer (ObjectId 7))) ?h"
    using walk_from_scripted [of "ObjectId 2" ?i default_facts ?in] by auto
  from creation_buffers_the_new_row [OF s job_of.simps(1)] s show ?thesis by blast
qed

end
