(* ===== verification/Core_Activity.thy ===== *)
theory Core_Activity
  imports Prelude
begin

text \<open>
  Which objects the machine is changing, for the listings that could catch it halfway
  (\<open>crates/wusel-core/src/activity.rs\<close>). The busy set is a list of objects in any order,
  the sequence number an unsigned 64-bit counter. The theorem is the condition a listing
  needs: an object that is quiet since a sequence number was idle the whole time.
\<close>

definition history_limit :: nat where
  "history_limit = 4096"

record activity =
  ac_seq :: u64
  ac_busy :: "u64 list"
  ac_changed :: "(u64, u64) hash_map"
  ac_floor :: u64

definition activity_new :: activity where
  "activity_new = \<lparr>ac_seq = 0, ac_busy = [], ac_changed = [], ac_floor = 0\<rparr>"

text \<open>The objects that became busy or idle: the symmetric difference of the two sets.\<close>

definition flipped :: "u64 list \<Rightarrow> u64 list \<Rightarrow> u64 list" where
  "flipped now busy =
     filter (\<lambda>x. x \<notin> set busy) (remdups now) @ filter (\<lambda>x. x \<notin> set now) (remdups busy)"

definition set_busy :: "activity \<Rightarrow> u64 list \<Rightarrow> activity" where
  "set_busy a now =
     (if set now = set (ac_busy a) then a
      else
        let seq = ac_seq a + 1;
            changed = fold (\<lambda>x m. hm_insert x seq m) (flipped now (ac_busy a)) (ac_changed a);
            a' = a\<lparr>ac_seq := seq, ac_changed := changed, ac_busy := now\<rparr>
        in if length changed > history_limit then a'\<lparr>ac_changed := [], ac_floor := seq\<rparr> else a')"

definition activity_seq :: "activity \<Rightarrow> u64" where
  "activity_seq a = ac_seq a"

definition quiet_since :: "activity \<Rightarrow> u64 \<Rightarrow> u64 \<Rightarrow> bool" where
  "quiet_since a obj since \<longleftrightarrow>
     ac_floor a \<le> since \<and> obj \<notin> set (ac_busy a) \<and>
     (case hm_get (ac_changed a) obj of None \<Rightarrow> True | Some seq \<Rightarrow> seq \<le> since)"

section \<open>One report\<close>

lemma set_flipped: "set (flipped now busy) = (set now - set busy) \<union> (set busy - set now)"
  by (auto simp: flipped_def)

lemma fold_insert_get:
  "hm_get (fold (\<lambda>x m. hm_insert x v m) xs m) k = (if k \<in> set xs then Some v else hm_get m k)"
  by (induction xs arbitrary: m) (auto simp: store_simps)

lemma set_busy_now: "set (ac_busy (set_busy a now)) = set now"
  by (simp add: set_busy_def Let_def)

lemma set_busy_seq:
  assumes "unat (ac_seq a) + 1 < 2 ^ 64"
  shows "unat (ac_seq (set_busy a now)) = unat (ac_seq a) + (if set now = set (ac_busy a) then 0 else 1)"
proof -
  have "unat (ac_seq a + 1) = unat (ac_seq a) + 1"
    using assms by (simp add: unat_word_ariths)
  then show ?thesis by (simp add: set_busy_def Let_def)
qed

text \<open>What the history says about one object after a report.\<close>

lemma set_busy_history:
  "ac_floor (set_busy a now) = ac_seq (set_busy a now) \<and> set now \<noteq> set (ac_busy a) \<and> ac_changed (set_busy a now) = []
   \<or> ac_floor (set_busy a now) = ac_floor a \<and>
     hm_get (ac_changed (set_busy a now)) obj =
       (if (obj \<in> set now) \<noteq> (obj \<in> set (ac_busy a)) then Some (ac_seq (set_busy a now))
        else hm_get (ac_changed a) obj)"
  by (auto simp: set_busy_def Let_def fold_insert_get set_flipped)

section \<open>The whole history\<close>

text \<open>No entry and no floor is later than the counter.\<close>

definition activity_ok :: "activity \<Rightarrow> bool" where
  "activity_ok a \<longleftrightarrow> ac_floor a \<le> ac_seq a \<and> (\<forall>k v. hm_get (ac_changed a) k = Some v \<longrightarrow> v \<le> ac_seq a)"

lemma activity_new_ok: "activity_ok activity_new"
  by (simp add: activity_ok_def activity_new_def)

lemma set_busy_le:
  assumes "unat (ac_seq a) + 1 < 2 ^ 64"
  shows "ac_seq a \<le> ac_seq (set_busy a now)"
  using set_busy_seq [OF assms, of now] by (simp add: word_le_nat_alt)

lemma set_busy_ok:
  assumes "activity_ok a" and "unat (ac_seq a) + 1 < 2 ^ 64"
  shows "activity_ok (set_busy a now)"
proof -
  have le: "ac_seq a \<le> ac_seq (set_busy a now)" by (rule set_busy_le [OF assms(2)])
  have "v \<le> ac_seq (set_busy a now)" if "hm_get (ac_changed (set_busy a now)) k = Some v" for k v
    using set_busy_history [of a now k]
  proof
    assume "ac_floor (set_busy a now) = ac_seq (set_busy a now) \<and> set now \<noteq> set (ac_busy a) \<and>
      ac_changed (set_busy a now) = []"
    with that show ?thesis by simp
  next
    assume h: "ac_floor (set_busy a now) = ac_floor a \<and> hm_get (ac_changed (set_busy a now)) k =
      (if (k \<in> set now) \<noteq> (k \<in> set (ac_busy a)) then Some (ac_seq (set_busy a now))
       else hm_get (ac_changed a) k)"
    show ?thesis
    proof (cases "(k \<in> set now) \<noteq> (k \<in> set (ac_busy a))")
      case True
      with h that show ?thesis by simp
    next
      case False
      then have "hm_get (ac_changed a) k = Some v" using h that by argo
      with assms(1) have "v \<le> ac_seq a" by (simp add: activity_ok_def)
      with le show ?thesis by (rule order_trans [rotated])
    qed
  qed
  moreover have "ac_floor (set_busy a now) \<le> ac_seq (set_busy a now)"
    using set_busy_history [of a now undefined] assms(1) le
    by (auto simp: activity_ok_def intro: order_trans)
  ultimately show ?thesis by (simp add: activity_ok_def)
qed

text \<open>The reports after \<open>a\<close>, and every busy set on the way, the first included.\<close>

definition reports :: "activity \<Rightarrow> u64 list list \<Rightarrow> activity" where
  "reports a xs = foldl set_busy a xs"

definition busy_sets :: "activity \<Rightarrow> u64 list list \<Rightarrow> u64 set list" where
  "busy_sets a xs = set (ac_busy a) # map set xs"

lemma reports_simps [simp]: "reports a [] = a" "reports a (xs @ [x]) = set_busy (reports a xs) x"
  by (simp_all add: reports_def)

lemma busy_sets_last: "set (ac_busy (reports a xs)) = last (busy_sets a xs)"
  by (cases xs rule: rev_cases) (simp_all add: busy_sets_def set_busy_now)

lemma reports_seq_le:
  "unat (ac_seq a) + length xs < 2 ^ 64 \<Longrightarrow> unat (ac_seq (reports a xs)) \<le> unat (ac_seq a) + length xs"
proof (induction xs rule: rev_induct)
  case Nil
  then show ?case by simp
next
  case (snoc x xs)
  then have "unat (ac_seq (reports a xs)) \<le> unat (ac_seq a) + length xs" by simp
  with snoc.prems set_busy_seq [of "reports a xs" x] show ?case by (simp split: if_splits)
qed

lemma reports_ok:
  assumes "activity_ok a" and "unat (ac_seq a) + length xs < 2 ^ 64"
  shows "activity_ok (reports a xs) \<and> ac_seq a \<le> ac_seq (reports a xs)"
  using assms
proof (induction xs rule: rev_induct)
  case Nil
  then show ?case by simp
next
  case (snoc x xs)
  have room: "unat (ac_seq (reports a xs)) + 1 < 2 ^ 64"
    using reports_seq_le [of a xs] snoc.prems(2) by simp
  from snoc set_busy_ok [OF _ room] set_busy_le [OF room, of x] show ?case
    by (auto intro: order_trans)
qed

text \<open>
  The exact meaning of the history: the floor has not moved past the sequence number and
  the object was idle at that point and in every report since.
\<close>

lemma quiet_since_history:
  assumes "activity_ok a" and "unat (ac_seq a) + length xs < 2 ^ 64"
  shows "quiet_since (reports a xs) obj (ac_seq a) \<longleftrightarrow>
    ac_floor (reports a xs) \<le> ac_seq a \<and> (\<forall>B \<in> set (busy_sets a xs). obj \<notin> B)"
  using assms
proof (induction xs rule: rev_induct)
  case Nil
  then show ?case
    by (auto simp: quiet_since_def busy_sets_def activity_ok_def split: option.split)
next
  case (snoc x xs)
  let ?a = "reports a xs"
  let ?b = "set_busy ?a x"
  have room: "unat (ac_seq ?a) + 1 < 2 ^ 64"
    using reports_seq_le [of a xs] snoc.prems(2) by simp
  have ok: "activity_ok ?a" "ac_seq a \<le> ac_seq ?a"
    using reports_ok [of a xs] snoc.prems by simp_all
  have IH: "quiet_since ?a obj (ac_seq a) \<longleftrightarrow>
      ac_floor ?a \<le> ac_seq a \<and> (\<forall>B \<in> set (busy_sets a xs). obj \<notin> B)"
    using snoc by simp
  have last: "set (ac_busy ?a) \<in> set (busy_sets a xs)"
    unfolding busy_sets_last by (rule last_in_set) (simp add: busy_sets_def)
  show ?case
  proof (cases "set x = set (ac_busy ?a)")
    case True
    then have "?b = ?a" by (simp add: set_busy_def)
    moreover have "set (busy_sets a (xs @ [x])) = set (busy_sets a xs)"
      using last True by (auto simp: busy_sets_def)
    ultimately show ?thesis using IH by simp
  next
    case False
    then have later: "ac_seq a < ac_seq ?b"
      using set_busy_seq [OF room, of x] ok(2) by (simp add: word_less_nat_alt word_le_nat_alt)
    have sets: "(\<forall>B \<in> set (busy_sets a (xs @ [x])). obj \<notin> B) \<longleftrightarrow>
        (\<forall>B \<in> set (busy_sets a xs). obj \<notin> B) \<and> obj \<notin> set x"
      by (auto simp: busy_sets_def)
    from set_busy_history [of ?a x obj] show ?thesis
    proof
      assume "ac_floor ?b = ac_seq ?b \<and> set x \<noteq> set (ac_busy ?a) \<and> ac_changed ?b = []"
      with later have "\<not> ac_floor ?b \<le> ac_seq a" by simp
      then show ?thesis by (simp add: quiet_since_def)
    next
      assume h: "ac_floor ?b = ac_floor ?a \<and>
        hm_get (ac_changed ?b) obj =
          (if (obj \<in> set x) \<noteq> (obj \<in> set (ac_busy ?a)) then Some (ac_seq ?b) else hm_get (ac_changed ?a) obj)"
      show ?thesis
      proof (cases "obj \<in> set (ac_busy ?a)")
        case True
        with last sets have "\<not> (\<forall>B \<in> set (busy_sets a (xs @ [x])). obj \<notin> B)" by auto
        moreover have "\<not> quiet_since ?b obj (ac_seq a)"
          using h True later by (auto simp: quiet_since_def set_busy_now)
        ultimately show ?thesis by simp
      next
        case False
        with h IH sets show ?thesis
          by (auto simp: quiet_since_def set_busy_now)
      qed
    qed
  qed
qed

lemma reports_from_new_ok:
  "length pre < 2 ^ 64 \<Longrightarrow> activity_ok (reports activity_new pre)"
  using reports_ok [OF activity_new_ok, of pre] by (simp add: activity_new_def)

text \<open>
  C35. A listing is applied only to a directory that stood still. Take the sequence number
  before a listing; if the object is quiet since then, it was idle at that moment and in
  every report of the machine up to now, however many reports came between and whatever
  the bounded history has dropped meanwhile. And an object that was idle throughout is
  reported quiet as long as the history was not dropped in between.
\<close>

theorem quiet_means_idle_throughout:
  assumes "length pre + length xs < 2 ^ 64"
  defines "a \<equiv> reports activity_new pre"
  shows "quiet_since (reports a xs) obj (activity_seq a) \<longleftrightarrow>
    ac_floor (reports a xs) \<le> activity_seq a \<and> obj \<notin> set (ac_busy a) \<and> (\<forall>now \<in> set xs. obj \<notin> set now)"
proof -
  have "unat (ac_seq a) \<le> length pre"
    using reports_seq_le [of activity_new pre] assms(1) by (simp add: a_def activity_new_def)
  then have "unat (ac_seq a) + length xs < 2 ^ 64" using assms(1) by simp
  moreover have "activity_ok a"
    unfolding a_def using assms(1) by (intro reports_from_new_ok) simp
  ultimately show ?thesis
    using quiet_since_history [of a xs obj] by (simp add: activity_seq_def busy_sets_def)
qed

lemma quiet_means_idle_throughout_witness:
  "quiet_since (reports (reports activity_new [[1, 2], [2]]) [[2, 3], [3]]) 1 2 \<and>
   \<not> quiet_since (reports (reports activity_new [[1, 2], [2]]) [[2, 3], [3]]) 3 2"
proof -
  let ?a = "reports activity_new [[1, 2], [2]]"
  have small: "length [[1, 2], [2 :: u64]] + length [[2, 3], [3 :: u64]] < 2 ^ 64" by simp
  have seq: "activity_seq ?a = 2" and fl: "ac_floor (reports ?a [[2, 3], [3]]) = 0" and b: "set (ac_busy ?a) = {2}"
    by code_simp+
  from quiet_means_idle_throughout [OF small, of 1] quiet_means_idle_throughout [OF small, of 3] seq fl b
  show ?thesis by simp
qed

end
