(* ===== verification/Core_Ignore.thy ===== *)
theory Core_Ignore
  imports Prelude
begin

text \<open>
  Ignore patterns (\<open>crates/wusel-core/src/ignore.rs\<close>): the glob matcher with single-star
  backtracking, over bytes. A Rust byte is an Isabelle \<open>char\<close>. The loop is a partial
  function into \<open>option\<close>: \<open>None\<close> would be a loop that never returns. Compared against the
  declarative meaning of \<open>*\<close> and \<open>?\<close>.
\<close>

section \<open>The matcher\<close>

text \<open>The loop: \<open>Some None\<close> is \<open>return false\<close>, \<open>Some (Some p)\<close> leaves the loop at pattern index \<open>p\<close>.\<close>

partial_function (option) glob_loop ::
  "string \<Rightarrow> string \<Rightarrow> nat \<Rightarrow> nat \<Rightarrow> (nat \<times> nat) option \<Rightarrow> nat option option" where
  "glob_loop pattern name p n star =
     (if n < length name then
        (if p < length pattern \<and> (pattern ! p = CHR ''?'' \<or> pattern ! p = name ! n) then
           glob_loop pattern name (p + 1) (n + 1) star
         else if p < length pattern \<and> pattern ! p = CHR ''*'' then
           glob_loop pattern name (p + 1) n (Some (p + 1, n))
         else
           (case star of
              Some (next_p, next_n) \<Rightarrow> glob_loop pattern name next_p (next_n + 1) (Some (next_p, next_n + 1))
            | None \<Rightarrow> Some None))
      else Some (Some p))"

declare glob_loop.simps [code]

function skip_stars :: "string \<Rightarrow> nat \<Rightarrow> nat" where
  "skip_stars pattern p =
     (if p < length pattern \<and> pattern ! p = CHR ''*'' then skip_stars pattern (p + 1) else p)"
  by pat_completeness auto
termination by (relation "measure (\<lambda>(pattern, p). length pattern - p)") auto

declare skip_stars.simps [simp del]

definition glob_match :: "string \<Rightarrow> string \<Rightarrow> bool option" where
  "glob_match pattern name =
     map_option
       (\<lambda>r. case r of None \<Rightarrow> False | Some p \<Rightarrow> skip_stars pattern p = length pattern)
       (glob_loop pattern name 0 0 None)"

definition is_ignored :: "string \<Rightarrow> string list \<Rightarrow> bool" where
  "is_ignored name patterns \<longleftrightarrow> list_ex (\<lambda>pat. glob_match pat name = Some True) patterns"

definition default_ignore_patterns :: "string list" where
  "default_ignore_patterns =
     [''.*.sw?'', ''4913'', ''*~'', ''.~lock.*#'', ''~$*'', ''.#*'', ''*.tmp'', ''.goutputstream-*'',
      ''.DS_Store'', ''Thumbs.db'']"

section \<open>What a pattern means\<close>

text \<open>\<open>*\<close> is any run of bytes, the empty one included, and \<open>?\<close> exactly one byte.\<close>

fun matches :: "string \<Rightarrow> string \<Rightarrow> bool" where
  "matches [] s = (s = [])"
| "matches (c # ps) s =
     (if c = CHR ''*'' then matches ps s \<or> (case s of [] \<Rightarrow> False | _ # s' \<Rightarrow> matches (c # ps) s')
      else (case s of [] \<Rightarrow> False | x # s' \<Rightarrow> (c = CHR ''?'' \<or> c = x) \<and> matches ps s'))"

lemma matches_star: "matches (CHR ''*'' # ps) s \<longleftrightarrow> (\<exists>k \<le> length s. matches ps (drop k s))"
proof (induction s)
  case Nil
  then show ?case by simp
next
  case (Cons x s)
  have "(\<exists>k \<le> length (x # s). matches ps (drop k (x # s))) \<longleftrightarrow>
      matches ps (x # s) \<or> (\<exists>k \<le> length s. matches ps (drop k s))"
    by (metis (no_types, lifting) Suc_le_mono drop0 drop_Suc_Cons length_Cons not0_implies_Suc zero_le)
  with Cons show ?case by simp
qed

lemma matches_star_suffix:
  "matches (CHR ''*'' # ps) (drop j s) \<Longrightarrow> i \<le> j \<Longrightarrow> j \<le> length s \<Longrightarrow> matches (CHR ''*'' # ps) (drop i s)"
proof -
  assume a: "matches (CHR ''*'' # ps) (drop j s)" "i \<le> j" "j \<le> length s"
  then obtain k where k: "k \<le> length s - j" "matches ps (drop k (drop j s))"
    by (auto simp only: matches_star length_drop)
  have "drop k (drop j s) = drop (k + (j - i)) (drop i s)"
    using a(2) by (simp add: add.commute)
  moreover have "k + (j - i) \<le> length (drop i s)" using k(1) a(2,3) by simp
  ultimately show ?thesis using k(2) by (auto simp only: matches_star)
qed

text \<open>A stretch of a pattern without stars consumes one byte per pattern byte.\<close>

definition stretch :: "string \<Rightarrow> string \<Rightarrow> nat \<Rightarrow> nat \<Rightarrow> nat \<Rightarrow> nat \<Rightarrow> bool" where
  "stretch pat s p0 n0 p n \<longleftrightarrow> p0 \<le> p \<and> n0 \<le> n \<and> p - p0 = n - n0 \<and> p \<le> length pat \<and> n \<le> length s \<and>
     (\<forall>i. p0 \<le> i \<and> i < p \<longrightarrow> pat ! i \<noteq> CHR ''*'')"

lemma matches_step:
  assumes "p < length pat" and "pat ! p \<noteq> CHR ''*''"
  shows "matches (drop p pat) (drop k s) \<longleftrightarrow>
    k < length s \<and> (pat ! p = CHR ''?'' \<or> pat ! p = s ! k) \<and> matches (drop (p + 1) pat) (drop (k + 1) s)"
proof -
  have "drop p pat = pat ! p # drop (Suc p) pat" using assms(1) by (rule Cons_nth_drop_Suc [symmetric])
  moreover have "k < length s \<Longrightarrow> drop k s = s ! k # drop (Suc k) s" by (rule Cons_nth_drop_Suc [symmetric])
  ultimately show ?thesis using assms(2)
    by (cases "k < length s") simp_all
qed

lemma matches_stretch:
  assumes "matches (drop p0 pat) (drop k s)" and "p0 \<le> p" and "p \<le> length pat"
    and "\<forall>i. p0 \<le> i \<and> i < p \<longrightarrow> pat ! i \<noteq> CHR ''*''"
  shows "matches (drop p pat) (drop (k + (p - p0)) s) \<and> (p0 < p \<longrightarrow> k + (p - p0) \<le> length s)"
  using assms(2,1,3,4)
proof (induction rule: dec_induct)
  case base
  then show ?case by simp
next
  case (step q)
  have q: "q < length pat" "pat ! q \<noteq> CHR ''*''" using step.prems(2,3) step.hyps by simp_all
  have "matches (drop q pat) (drop (k + (q - p0)) s)" using step by simp
  then have "k + (q - p0) < length s" "matches (drop (q + 1) pat) (drop (k + (q - p0) + 1) s)"
    using matches_step [OF q] by blast+
  moreover have "k + (Suc q - p0) = k + (q - p0) + 1" using step.hyps by simp
  ultimately show ?case by simp
qed

section \<open>The loop computes the meaning\<close>

text \<open>What the loop still has to find: a match here, or one further on from the last star.\<close>

definition later :: "string \<Rightarrow> string \<Rightarrow> (nat \<times> nat) option \<Rightarrow> bool" where
  "later pat s star \<longleftrightarrow>
     (case star of None \<Rightarrow> False | Some (sp, sn) \<Rightarrow> \<exists>k. sn < k \<and> k \<le> length s \<and> matches (drop sp pat) (drop k s))"

definition loop_inv :: "string \<Rightarrow> string \<Rightarrow> nat \<Rightarrow> nat \<Rightarrow> (nat \<times> nat) option \<Rightarrow> bool" where
  "loop_inv pat s p n star \<longleftrightarrow> p \<le> length pat \<and> n \<le> length s \<and>
     (case star of None \<Rightarrow> True | Some (sp, sn) \<Rightarrow> stretch pat s sp sn p n)"

definition loop_result :: "string \<Rightarrow> string \<Rightarrow> nat option option \<Rightarrow> bool \<Rightarrow> bool" where
  "loop_result pat s r b \<longleftrightarrow>
     (case r of None \<Rightarrow> False | Some None \<Rightarrow> \<not> b | Some (Some p) \<Rightarrow> b \<longleftrightarrow> skip_stars pat p = length pat)"

lemma skip_stars_matches: "p \<le> length pat \<Longrightarrow> skip_stars pat p = length pat \<longleftrightarrow> matches (drop p pat) []"
proof (induction pat p rule: skip_stars.induct)
  case (1 pat p)
  show ?case
  proof (cases "p < length pat")
    case True
    then have d: "drop p pat = pat ! p # drop (Suc p) pat" by (rule Cons_nth_drop_Suc [symmetric])
    from 1 True show ?thesis by (subst skip_stars.simps) (auto simp: d)
  next
    case False
    with 1 show ?thesis by (subst skip_stars.simps) simp
  qed
qed

lemma later_stretch:
  assumes "later pat s (Some (sp, sn))" and "stretch pat s sp sn p n"
  obtains j where "n < j" "j \<le> length s" "matches (drop p pat) (drop j s)"
proof -
  from assms(1) obtain k where k: "sn < k" "k \<le> length s" "matches (drop sp pat) (drop k s)"
    by (auto simp: later_def)
  have st: "sp \<le> p" "p \<le> length pat" "\<forall>i. sp \<le> i \<and> i < p \<longrightarrow> pat ! i \<noteq> CHR ''*''"
      "p - sp = n - sn" "sn \<le> n"
    using assms(2) by (simp_all add: stretch_def)
  have m: "matches (drop p pat) (drop (k + (p - sp)) s)" "sp < p \<longrightarrow> k + (p - sp) \<le> length s"
    using matches_stretch [OF k(3) st(1-3)] by blast+
  have "k + (p - sp) \<le> length s" using m(2) k(2) st(1) by (cases "sp < p") auto
  moreover have "n < k + (p - sp)" using k(1) st(4,5) by simp
  ultimately show ?thesis using that m(1) by blast
qed

lemma later_unfold:
  "sn < length s \<Longrightarrow> later pat s (Some (sp, sn)) \<longleftrightarrow>
     matches (drop sp pat) (drop (sn + 1) s) \<or> later pat s (Some (sp, sn + 1))"
  unfolding later_def by (auto simp: less_Suc_eq_le less_eq_Suc_le dest: Suc_leD) (metis le_eq_less_or_eq less_eq_Suc_le)

definition star_left :: "string \<Rightarrow> (nat \<times> nat) option \<Rightarrow> nat" where
  "star_left s star = (case star of None \<Rightarrow> length s + 1 | Some (_, sn) \<Rightarrow> length s - sn)"

lemma glob_loop_correct:
  assumes "CHR ''*'' \<notin> set s" and "loop_inv pat s p n star"
  shows "loop_result pat s (glob_loop pat s p n star) (matches (drop p pat) (drop n s) \<or> later pat s star)"
  using assms(2)
proof (induction "(star_left s star, (length pat - p) + (length s - n))" arbitrary: p n star
    rule: wf_induct_rule [OF wf_lex_prod [OF wf_less_than wf_less_than]])
  case 1
  have IH: "loop_result pat s (glob_loop pat s p' n' star') (matches (drop p' pat) (drop n' s) \<or> later pat s star')"
    if "star_left s star' < star_left s star \<or> star_left s star' = star_left s star \<and>
        (length pat - p') + (length s - n') < (length pat - p) + (length s - n)" "loop_inv pat s p' n' star'"
    for p' n' star'
    by (rule "1.hyps" [OF _ that(2)]) (use that(1) in auto)
  have inv: "p \<le> length pat" "n \<le> length s" using "1.prems" by (simp_all add: loop_inv_def)
  show ?case
  proof (cases "n < length s")
    case False
    then have n: "n = length s" using inv(2) by simp
    have "\<not> later pat s star"
    proof
      assume l: "later pat s star"
      then obtain sp sn where star: "star = Some (sp, sn)" by (auto simp: later_def split: option.splits)
      with "1.prems" have "stretch pat s sp sn p n" by (simp add: loop_inv_def)
      from later_stretch [OF l [unfolded star] this] n show False by auto
    qed
    with n skip_stars_matches [OF inv(1)] show ?thesis
      by (subst glob_loop.simps) (simp add: loop_result_def)
  next
    case True
    have star_no: "s ! n \<noteq> CHR ''*''" using assms(1) True by (metis nth_mem)
    consider (same) "p < length pat" "pat ! p = CHR ''?'' \<or> pat ! p = s ! n"
      | (star) "p < length pat" "pat ! p = CHR ''*''"
      | (mismatch) "p < length pat \<longrightarrow> pat ! p \<noteq> CHR ''?'' \<and> pat ! p \<noteq> s ! n \<and> pat ! p \<noteq> CHR ''*''"
      by blast
    then show ?thesis
    proof cases
      case same
      have ns: "pat ! p \<noteq> CHR ''*''" using same(2) star_no by auto
      have "loop_inv pat s (p + 1) (n + 1) star"
        using "1.prems" same(1) True ns
        by (auto simp: loop_inv_def stretch_def less_Suc_eq split: option.splits)
      with IH [of star "p + 1" "n + 1"] same(1) True
      have "loop_result pat s (glob_loop pat s (p + 1) (n + 1) star)
          (matches (drop (p + 1) pat) (drop (n + 1) s) \<or> later pat s star)" by simp
      moreover have "matches (drop p pat) (drop n s) = matches (drop (p + 1) pat) (drop (n + 1) s)"
        using matches_step [OF same(1) ns, of n s] same(2) True by simp
      moreover have "glob_loop pat s p n star = glob_loop pat s (p + 1) (n + 1) star"
        using same True by (subst glob_loop.simps) simp
      ultimately show ?thesis by simp
    next
      case star
      then have ns: "\<not> (pat ! p = CHR ''?'' \<or> pat ! p = s ! n)" using star_no by auto
      have inv': "loop_inv pat s (p + 1) n (Some (p + 1, n))"
        using star(1) True by (auto simp: loop_inv_def stretch_def)
      have le: "star_left s (Some (p + 1, n)) \<le> star_left s star"
        using "1.prems" by (auto simp: star_left_def loop_inv_def stretch_def split: option.splits)
      have res: "loop_result pat s (glob_loop pat s (p + 1) n (Some (p + 1, n)))
          (matches (drop (p + 1) pat) (drop n s) \<or> later pat s (Some (p + 1, n)))"
        using IH [OF _ inv'] le star(1) by linarith
      have d: "drop p pat = CHR ''*'' # drop (p + 1) pat"
        using Cons_nth_drop_Suc [OF star(1)] star(2) by simp
      have "matches (drop p pat) (drop n s) \<longleftrightarrow>
          matches (drop (p + 1) pat) (drop n s) \<or> later pat s (Some (p + 1, n))"
      proof -
        have "matches (drop p pat) (drop n s) \<longleftrightarrow> (\<exists>k \<le> length s - n. matches (drop (p + 1) pat) (drop (k + n) s))"
          unfolding d by (simp only: matches_star length_drop drop_drop)
        also have "\<dots> \<longleftrightarrow> (\<exists>j. n \<le> j \<and> j \<le> length s \<and> matches (drop (p + 1) pat) (drop j s))"
          using True by (metis Nat.le_diff_conv2 add_leD2 le_add2 le_add_diff_inverse2 less_imp_le_nat)
        also have "\<dots> \<longleftrightarrow> matches (drop (p + 1) pat) (drop n s) \<or> later pat s (Some (p + 1, n))"
          using True by (auto simp: later_def le_less)
        finally show ?thesis .
      qed
      moreover have "matches (drop p pat) (drop n s)" if l: "later pat s star"
      proof -
        obtain sp sn where st: "star = Some (sp, sn)" using l by (auto simp: later_def split: option.splits)
        with "1.prems" have "stretch pat s sp sn p n" by (simp add: loop_inv_def)
        from later_stretch [OF l [unfolded st] this]
        obtain j where j: "n < j" "j \<le> length s" "matches (drop p pat) (drop j s)" by blast
        from matches_star_suffix [of "drop (p + 1) pat" j s n] j show ?thesis
          unfolding d by simp
      qed
      moreover have same_loop: "glob_loop pat s p n star = glob_loop pat s (p + 1) n (Some (p + 1, n))"
        using star True ns by (subst glob_loop.simps) simp
      ultimately have "matches (drop (p + 1) pat) (drop n s) \<or> later pat s (Some (p + 1, n)) \<longleftrightarrow>
          matches (drop p pat) (drop n s) \<or> later pat s star" by blast
      then show ?thesis using res same_loop by simp
    next
      case mismatch
      have no: "\<not> matches (drop p pat) (drop n s)"
      proof (cases "p < length pat")
        case False
        with True show ?thesis by simp
      next
        case plt: True
        with mismatch matches_step [OF plt, of n s] show ?thesis by simp
      qed
      show ?thesis
      proof (cases star)
        case None
        with mismatch True no show ?thesis
          by (subst glob_loop.simps) (auto simp: loop_result_def later_def)
      next
        case (Some q)
        obtain sp sn where st: "star = Some (sp, sn)" using Some by (cases q) auto
        have sn: "sn \<le> n" "sp \<le> length pat" using "1.prems" st by (auto simp: loop_inv_def stretch_def)
        have inv': "loop_inv pat s sp (sn + 1) (Some (sp, sn + 1))"
          using sn True by (auto simp: loop_inv_def stretch_def)
        have "loop_result pat s (glob_loop pat s sp (sn + 1) (Some (sp, sn + 1)))
            (matches (drop sp pat) (drop (sn + 1) s) \<or> later pat s (Some (sp, sn + 1)))"
        proof (rule IH [OF _ inv'])
          have "star_left s (Some (sp, sn + 1)) < star_left s star"
            using st sn(1) True by (simp add: star_left_def)
          then show "star_left s (Some (sp, sn + 1)) < star_left s star \<or>
              star_left s (Some (sp, sn + 1)) = star_left s star \<and>
              (length pat - sp) + (length s - (sn + 1)) < (length pat - p) + (length s - n)" ..
        qed
        moreover have "glob_loop pat s p n star = glob_loop pat s sp (sn + 1) (Some (sp, sn + 1))"
          using mismatch True st by (subst glob_loop.simps) auto
        moreover have "later pat s star \<longleftrightarrow>
            matches (drop sp pat) (drop (sn + 1) s) \<or> later pat s (Some (sp, sn + 1))"
          unfolding st using later_unfold sn(1) True by simp
        ultimately show ?thesis using no by simp
      qed
    qed
  qed
qed

section \<open>For every name: it returns, and a match is a match\<close>

definition sound_inv :: "string \<Rightarrow> string \<Rightarrow> nat \<Rightarrow> nat \<Rightarrow> (nat \<times> nat) option \<Rightarrow> bool" where
  "sound_inv pat s p n star \<longleftrightarrow> p \<le> length pat \<and> n \<le> length s \<and>
     (matches (drop p pat) (drop n s) \<longrightarrow> matches pat s) \<and>
     (case star of None \<Rightarrow> True
      | Some (sp, sn) \<Rightarrow> sp \<le> length pat \<and> sn \<le> n \<and>
          (\<forall>k. sn \<le> k \<and> k \<le> length s \<and> matches (drop sp pat) (drop k s) \<longrightarrow> matches pat s))"

lemma matches_star_absorbs:
  "matches ps (drop (n + 1) s) \<Longrightarrow> n < length s \<Longrightarrow> matches (CHR ''*'' # ps) (drop n s)"
  unfolding matches_star by (rule exI [of _ 1]) simp

lemma glob_loop_sound:
  assumes "sound_inv pat s p n star"
  shows "\<exists>r. glob_loop pat s p n star = Some r \<and>
    (case r of None \<Rightarrow> True | Some q \<Rightarrow> q \<le> length pat \<and> (matches (drop q pat) [] \<longrightarrow> matches pat s))"
  using assms
proof (induction "(star_left s star, (length pat - p) + (length s - n))" arbitrary: p n star
    rule: wf_induct_rule [OF wf_lex_prod [OF wf_less_than wf_less_than]])
  case 1
  have IH: "\<exists>r. glob_loop pat s p' n' star' = Some r \<and>
      (case r of None \<Rightarrow> True | Some q \<Rightarrow> q \<le> length pat \<and> (matches (drop q pat) [] \<longrightarrow> matches pat s))"
    if "star_left s star' < star_left s star \<or> star_left s star' = star_left s star \<and>
        (length pat - p') + (length s - n') < (length pat - p) + (length s - n)" "sound_inv pat s p' n' star'"
    for p' n' star'
    by (rule "1.hyps" [OF _ that(2)]) (use that(1) in auto)
  have inv: "p \<le> length pat" "n \<le> length s" "matches (drop p pat) (drop n s) \<Longrightarrow> matches pat s"
    using "1.prems" by (simp_all add: sound_inv_def)
  show ?case
  proof (cases "n < length s")
    case False
    with inv show ?thesis by (subst glob_loop.simps) simp
  next
    case True
    consider (same) "p < length pat" "pat ! p = CHR ''?'' \<or> pat ! p = s ! n"
      | (star) "p < length pat" "\<not> (pat ! p = CHR ''?'' \<or> pat ! p = s ! n)" "pat ! p = CHR ''*''"
      | (mismatch) "p < length pat \<longrightarrow> pat ! p \<noteq> CHR ''?'' \<and> pat ! p \<noteq> s ! n \<and> pat ! p \<noteq> CHR ''*''"
      by blast
    then show ?thesis
    proof cases
      case same
      have "matches (drop p pat) (drop n s)" if m: "matches (drop (p + 1) pat) (drop (n + 1) s)"
      proof (cases "pat ! p = CHR ''*''")
        case True
        then have "drop p pat = CHR ''*'' # drop (p + 1) pat"
          using Cons_nth_drop_Suc [OF same(1)] by simp
        with matches_star_absorbs [OF m \<open>n < length s\<close>] show ?thesis by (simp only:)
      next
        case False
        with matches_step [OF same(1) False, of n s] same(2) m \<open>n < length s\<close> show ?thesis by simp
      qed
      then have "sound_inv pat s (p + 1) (n + 1) star"
        using "1.prems" same(1) True by (auto simp: sound_inv_def split: option.splits)
      from IH [OF _ this] same True show ?thesis by (subst glob_loop.simps) auto
    next
      case star
      have d: "drop p pat = CHR ''*'' # drop (p + 1) pat"
        using Cons_nth_drop_Suc [OF star(1)] star(3) by simp
      have absorbed: "matches pat s" if "n \<le> k" "k \<le> length s" "matches (drop (p + 1) pat) (drop k s)" for k
      proof -
        have "matches (CHR ''*'' # drop (p + 1) pat) (drop k s)" using that(3) by simp
        from matches_star_suffix [OF this that(1,2)] inv(3) show ?thesis unfolding d by blast
      qed
      have le: "star_left s (Some (p + 1, n)) \<le> star_left s star"
        using "1.prems" by (auto simp: star_left_def sound_inv_def split: option.splits)
      have "sound_inv pat s (p + 1) n (Some (p + 1, n))"
        using star(1) True absorbed absorbed [of n] by (auto simp: sound_inv_def)
      moreover have "star_left s (Some (p + 1, n)) < star_left s star \<or>
          star_left s (Some (p + 1, n)) = star_left s star \<and>
          (length pat - (p + 1)) + (length s - n) < (length pat - p) + (length s - n)"
        using le star(1) True by linarith
      ultimately have "\<exists>r. glob_loop pat s (p + 1) n (Some (p + 1, n)) = Some r \<and>
          (case r of None \<Rightarrow> True | Some q \<Rightarrow> q \<le> length pat \<and> (matches (drop q pat) [] \<longrightarrow> matches pat s))"
        by (intro IH)
      with star True show ?thesis by (subst glob_loop.simps) auto
    next
      case mismatch
      show ?thesis
      proof (cases star)
        case None
        with mismatch True show ?thesis by (subst glob_loop.simps) auto
      next
        case (Some q)
        obtain sp sn where st: "star = Some (sp, sn)" using Some by (cases q) auto
        have sn: "sn \<le> n" "sp \<le> length pat"
            "\<And>k. sn \<le> k \<Longrightarrow> k \<le> length s \<Longrightarrow> matches (drop sp pat) (drop k s) \<Longrightarrow> matches pat s"
          using "1.prems" st by (auto simp: sound_inv_def)
        have up: "matches pat s" if "Suc sn \<le> k" "k \<le> length s" "matches (drop sp pat) (drop k s)" for k
          using sn(3) [of k] that by simp
        have inv': "sound_inv pat s sp (sn + 1) (Some (sp, sn + 1))"
          using sn(1,2) True up up [of "Suc sn"] by (auto simp: sound_inv_def)
        have "star_left s (Some (sp, sn + 1)) < star_left s star"
          using st sn(1) True by (simp add: star_left_def)
        then have "\<exists>r. glob_loop pat s sp (sn + 1) (Some (sp, sn + 1)) = Some r \<and>
            (case r of None \<Rightarrow> True | Some q \<Rightarrow> q \<le> length pat \<and> (matches (drop q pat) [] \<longrightarrow> matches pat s))"
          by (intro IH [OF _ inv']) simp
        with st True mismatch show ?thesis by (subst glob_loop.simps) auto
      qed
    qed
  qed
qed

text \<open>
  The glob matcher always returns, and what it accepts the pattern means: for every
  pattern and every name it gives an answer, and a positive answer is a match in the
  declarative sense.
\<close>

theorem glob_match_returns_and_is_sound:
  "\<exists>b. glob_match pattern name = Some b \<and> (b \<longrightarrow> matches pattern name)"
proof -
  have "sound_inv pattern name 0 0 None" by (simp add: sound_inv_def)
  from glob_loop_sound [OF this] obtain r where r: "glob_loop pattern name 0 0 None = Some r"
      "case r of None \<Rightarrow> True | Some q \<Rightarrow> q \<le> length pattern \<and> (matches (drop q pattern) [] \<longrightarrow> matches pattern name)"
    by blast
  then show ?thesis
    using skip_stars_matches [of "the r" pattern] by (cases r) (auto simp: glob_match_def)
qed

lemma glob_match_returns_and_is_sound_witness: "matches ''*~'' ''notes~''"
proof -
  have "glob_match ''*~'' ''notes~'' = Some True" by code_simp
  with glob_match_returns_and_is_sound [of "''*~''" "''notes~''"] show ?thesis by simp
qed

text \<open>
  C40. On every name without a literal star the matcher decides exactly the declarative
  meaning of the pattern: backtracking to the last star alone loses nothing.
\<close>

theorem glob_match_meaning:
  assumes "CHR ''*'' \<notin> set name"
  shows "glob_match pattern name = Some (matches pattern name)"
proof -
  have "loop_inv pattern name 0 0 None" by (simp add: loop_inv_def)
  from glob_loop_correct [OF assms this] show ?thesis
    by (auto simp: loop_result_def later_def glob_match_def split: option.splits)
qed

lemma glob_match_meaning_witness:
  "glob_match ''.*.sw?'' ''.test.txt.swp'' = Some True \<and> glob_match ''.*.sw?'' ''.a.swpx'' = Some False"
proof -
  have "matches ''.*.sw?'' ''.test.txt.swp''" "\<not> matches ''.*.sw?'' ''.a.swpx''" by code_simp+
  with glob_match_meaning [of "''.test.txt.swp''" "''.*.sw?''"] glob_match_meaning [of "''.a.swpx''" "''.*.sw?''"]
  show ?thesis by simp
qed

text \<open>
  A star in the name defeats a star in the pattern. The loop compares bytes before it
  looks for a star, so a pattern star that meets a literal star consumes exactly that byte
  and is forgotten: the built-in pattern for temporary files does not ignore a temporary
  file whose name begins with a star, although the pattern covers it.
\<close>

theorem literal_star_is_not_ignored:
  "matches ''*.tmp'' ''*a.tmp'' \<and> glob_match ''*.tmp'' ''*a.tmp'' = Some False \<and>
   \<not> is_ignored ''*a.tmp'' default_ignore_patterns \<and> is_ignored ''a.tmp'' default_ignore_patterns"
proof -
  have "glob_match ''*.tmp'' ''*a.tmp'' = Some False" by code_simp
  moreover have "matches ''*.tmp'' ''*a.tmp''" by code_simp
  moreover have "\<not> is_ignored ''*a.tmp'' default_ignore_patterns" by code_simp
  moreover have "is_ignored ''a.tmp'' default_ignore_patterns" by code_simp
  ultimately show ?thesis by simp
qed

end
