(* ===== verification/Core_Paths.thy ===== *)
theory Core_Paths
  imports Prelude "HOL-Library.Sublist"
begin

text \<open>
  Small pure functions on names, paths and URLs: \<open>model.rs\<close> (names and permission letters),
  \<open>mount.rs\<close> (conflicting mount points), \<open>web.rs\<close> (links into the web interface) and the
  percent decoder of \<open>webdav.rs\<close>, all under \<open>crates/wusel-core/src/\<close>. Strings are byte strings,
  a byte is a \<open>char\<close>; a filesystem path is the list of its components.
\<close>

section \<open>Names and permission letters (model.rs)\<close>

text \<open>Splitting at the last separator: the part after it, or the whole when there is none.\<close>

fun basename_from :: "string \<Rightarrow> string \<Rightarrow> string" where
  "basename_from cur [] = cur"
| "basename_from cur (c # cs) = (if c = CHR ''/'' then basename_from cs cs else basename_from cur cs)"

definition basename :: "string \<Rightarrow> string" where
  "basename path = basename_from path path"

definition is_writable :: "string \<Rightarrow> bool \<Rightarrow> bool" where
  "is_writable permissions is_dir =
     (if permissions = [] then True
      else if is_dir then
        CHR ''C'' \<in> set permissions \<or> CHR ''K'' \<in> set permissions \<or> CHR ''W'' \<in> set permissions
      else CHR ''W'' \<in> set permissions)"

definition is_group_folder_root :: "string \<Rightarrow> bool \<Rightarrow> bool" where
  "is_group_folder_root mount_type is_mount_root \<longleftrightarrow> is_mount_root \<and> mount_type = ''group''"

lemma basename_from_spec:
  "(CHR ''/'' \<notin> set cs \<longrightarrow> basename_from cur cs = cur) \<and>
   (\<forall>pre name. cs = pre @ CHR ''/'' # name \<and> CHR ''/'' \<notin> set name \<longrightarrow> basename_from cur cs = name)"
proof (induction cs arbitrary: cur)
  case Nil
  then show ?case by simp
next
  case (Cons c cs)
  show ?case
  proof (intro conjI impI allI)
    show "CHR ''/'' \<notin> set (c # cs) \<Longrightarrow> basename_from cur (c # cs) = cur"
      using Cons by auto
    fix pre name
    assume a: "c # cs = pre @ CHR ''/'' # name \<and> CHR ''/'' \<notin> set name"
    show "basename_from cur (c # cs) = name"
    proof (cases pre)
      case Nil
      with a Cons.IH [of cs] show ?thesis by auto
    next
      case (Cons d pre')
      with a have "cs = pre' @ CHR ''/'' # name" by simp
      with a Cons.IH [of cs] Cons.IH [of cur] show ?thesis by auto
    qed
  qed
qed

text \<open>
  The base name is what follows the last separator: joining any parent path and a name
  with a separator gives back that name, and a path without a separator is its own name.
\<close>

theorem basename_of_joined_path:
  assumes "CHR ''/'' \<notin> set name"
  shows "basename (parent @ ''/'' @ name) = name \<and> basename name = name"
  using basename_from_spec [of name name] basename_from_spec [of "parent @ ''/'' @ name" "parent @ ''/'' @ name"]
    assms by (auto simp: basename_def)

lemma basename_of_joined_path_witness: "basename ''Docs/Sub/notes.txt'' = ''notes.txt''"
  using basename_of_joined_path [of "''notes.txt''" "''Docs/Sub''"] by simp

section \<open>Mount points (mount.rs)\<close>

type_synonym path = "string list"

text \<open>\<open>Path::starts_with\<close>: whole components, not characters.\<close>

definition starts_with :: "path \<Rightarrow> path \<Rightarrow> bool" where
  "starts_with p q \<longleftrightarrow> prefix q p"

definition find_conflict :: "path \<Rightarrow> path list \<Rightarrow> path list \<Rightarrow> path option" where
  "find_conflict target all_mounts our_mounts =
     (case find (\<lambda>m. starts_with m target) all_mounts of
        Some m \<Rightarrow> Some m
      | None \<Rightarrow> find (\<lambda>m. target \<noteq> m \<and> starts_with target m) our_mounts)"

text \<open>
  A mount point is accepted exactly when nothing is mounted at it or below it and it does
  not lie strictly inside one of our own mounts; a refusal names a mount that really is in
  the way.
\<close>

theorem conflict_free_mount_point:
  "(find_conflict target all_mounts our_mounts = None \<longleftrightarrow>
      (\<forall>m \<in> set all_mounts. \<not> prefix target m) \<and> (\<forall>m \<in> set our_mounts. \<not> strict_prefix m target)) \<and>
   (\<forall>m. find_conflict target all_mounts our_mounts = Some m \<longrightarrow>
      (m \<in> set all_mounts \<and> prefix target m) \<or> (m \<in> set our_mounts \<and> strict_prefix m target))"
  by (auto simp: find_conflict_def starts_with_def find_None_iff find_Some_iff strict_prefix_def
      split: option.splits)

lemma conflict_free_mount_point_witness:
  "find_conflict [''home'', ''u'', ''NC'', ''work''] [[], [''home'']] [[''home'', ''u'', ''NC'']] = Some [''home'', ''u'', ''NC'']
   \<and> [''home'', ''u'', ''NC''] \<in> set [[''home'', ''u'', ''NC'']]"
proof -
  let ?t = "[''home'', ''u'', ''NC'', ''work'']"
  have "find_conflict ?t [[], [''home'']] [[''home'', ''u'', ''NC'']] = Some [''home'', ''u'', ''NC'']" by code_simp
  moreover from conflict_free_mount_point [of ?t "[[], [''home'']]" "[[''home'', ''u'', ''NC'']]"] this
  have "[''home'', ''u'', ''NC''] \<in> set [[''home'', ''u'', ''NC'']]" by auto
  ultimately show ?thesis by blast
qed

section \<open>Percent encoding (web.rs, webdav.rs)\<close>

abbreviation byte :: "char \<Rightarrow> nat" where "byte c \<equiv> of_char c"

definition in_range :: "char \<Rightarrow> char \<Rightarrow> char \<Rightarrow> bool" where
  "in_range lo hi c \<longleftrightarrow> byte lo \<le> byte c \<and> byte c \<le> byte hi"

text \<open>The bytes \<open>encode_dir\<close> keeps: RFC 3986's unreserved set and the path separator.\<close>

definition kept :: "char \<Rightarrow> bool" where
  "kept b \<longleftrightarrow> in_range (CHR ''A'') (CHR ''Z'') b \<or> in_range (CHR ''a'') (CHR ''z'') b \<or>
     in_range (CHR ''0'') (CHR ''9'') b \<or> b = CHR ''-'' \<or> b = CHR ''.'' \<or> b = CHR ''_'' \<or> b = CHR ''~'' \<or>
     b = CHR ''/''"

text \<open>One uppercase hexadecimal digit.\<close>

definition hex_digit :: "nat \<Rightarrow> char" where
  "hex_digit v = ''0123456789ABCDEF'' ! v"

definition encode_byte :: "char \<Rightarrow> string" where
  "encode_byte b = (if kept b then [b] else [CHR ''%'', hex_digit (byte b div 16), hex_digit (byte b mod 16)])"

definition encode_dir :: "string \<Rightarrow> string" where
  "encode_dir path = concat (map encode_byte path)"

definition trim_end_slashes :: "string \<Rightarrow> string" where
  "trim_end_slashes s = rev (dropWhile (\<lambda>c. c = CHR ''/'') (rev s))"

fun decimal :: "nat \<Rightarrow> string" where
  "decimal n = (if n < 10 then [char_of (byte (CHR ''0'') + n)]
     else decimal (n div 10) @ [char_of (byte (CHR ''0'') + n mod 10)])"

definition object_url :: "string \<Rightarrow> u64 \<Rightarrow> string" where
  "object_url server_url file_id = trim_end_slashes server_url @ ''/index.php/f/'' @ decimal (unat file_id)"

definition reveal_url :: "string \<Rightarrow> u64 \<Rightarrow> string \<Rightarrow> string" where
  "reveal_url server_url file_id parent =
     trim_end_slashes server_url @ ''/index.php/apps/files/files/'' @ decimal (unat file_id) @ ''?dir='' @
     encode_dir parent"

text \<open>\<open>char::to_digit(16)\<close> of one byte.\<close>

definition hex_val :: "char \<Rightarrow> nat option" where
  "hex_val b =
     (if in_range (CHR ''0'') (CHR ''9'') b then Some (byte b - byte (CHR ''0''))
      else if in_range (CHR ''a'') (CHR ''f'') b then Some (byte b - byte (CHR ''a'') + 10)
      else if in_range (CHR ''A'') (CHR ''F'') b then Some (byte b - byte (CHR ''A'') + 10)
      else None)"

text \<open>
  The decoding loop of \<open>percent_decode\<close>, down to the bytes it collects; turning bytes that
  are no UTF-8 into replacement characters is left to the standard library.
\<close>

fun percent_decode :: "string \<Rightarrow> string" where
  "percent_decode [] = []"
| "percent_decode (b # rest) =
     (case rest of
        h # l # rest' \<Rightarrow>
          (if b = CHR ''%'' then
             (case (hex_val h, hex_val l) of
                (Some hi, Some lo) \<Rightarrow> char_of (hi * 16 + lo) # percent_decode rest'
              | _ \<Rightarrow> b # percent_decode rest)
           else b # percent_decode rest)
      | _ \<Rightarrow> b # percent_decode rest)"

lemma sixteen:
  assumes "v < 16"
  shows "v = 0 \<or> v = 1 \<or> v = 2 \<or> v = 3 \<or> v = 4 \<or> v = 5 \<or> v = 6 \<or> v = 7 \<or>
    v = 8 \<or> v = 9 \<or> v = 10 \<or> v = 11 \<or> v = 12 \<or> v = 13 \<or> v = 14 \<or> v = (15 :: nat)"
  using assms by presburger

lemma hex_val_digit:
  assumes "v < 16"
  shows "hex_val (hex_digit v) = Some v"
proof -
  show ?thesis
    using sixteen [OF assms] by (elim disjE) (simp_all add: hex_val_def hex_digit_def in_range_def)
qed

lemma byte_nibbles: "byte b div 16 < 16" "byte b mod 16 < 16"
proof -
  have "byte b < 256"
    by (metis of_char_mod_256 mod_less_divisor zero_less_numeral)
  then show "byte b div 16 < 16" "byte b mod 16 < 16" by (auto simp: less_mult_imp_div_less)
qed

lemma percent_not_kept: "kept b \<Longrightarrow> b \<noteq> CHR ''%''"
  by (auto simp: kept_def in_range_def)

lemma percent_decode_plain: "b \<noteq> CHR ''%'' \<Longrightarrow> percent_decode (b # rest) = b # percent_decode rest"
  by (auto split: list.split)

lemma percent_decode_encoded: "percent_decode (encode_byte b @ rest) = b # percent_decode rest"
proof (cases "kept b")
  case True
  with percent_decode_plain [OF percent_not_kept [OF True]] show ?thesis by (simp add: encode_byte_def)
next
  case False
  then show ?thesis by (simp add: encode_byte_def hex_val_digit byte_nibbles)
qed

lemma decode_encode: "percent_decode (encode_dir path) = path"
  by (induction path) (simp_all add: encode_dir_def percent_decode_encoded)

text \<open>
  Percent encoding is undone by the decoder: every path, whatever bytes its names are
  made of, comes back from its encoded form byte for byte.
\<close>

theorem percent_round_trip: "percent_decode (encode_dir path) = path"
  by (rule decode_encode)

lemma hex_digit_plain: "v < 16 \<Longrightarrow> kept (hex_digit v)"
  by (drule sixteen, elim disjE) (simp_all add: kept_def hex_digit_def in_range_def)

text \<open>
  An encoded path cannot break out of its query value: it contains only unreserved
  characters, separators and percent signs, so neither an ampersand nor a question mark
  nor a hash of a folder name reaches the URL, and different folders get different links.
\<close>

theorem encoded_path_is_inert:
  "(\<forall>c \<in> set (encode_dir path). kept c \<or> c = CHR ''%'') \<and>
   (encode_dir path = encode_dir path' \<longrightarrow> path = path')"
proof -
  have "\<forall>c \<in> set (encode_byte b). kept c \<or> c = CHR ''%''" for b
    by (auto simp: encode_byte_def hex_digit_plain byte_nibbles)
  then have "\<forall>c \<in> set (encode_dir path). kept c \<or> c = CHR ''%''" by (auto simp: encode_dir_def)
  moreover have "path = path'" if "encode_dir path = encode_dir path'"
    using arg_cong [OF that, of percent_decode] by (simp only: decode_encode)
  ultimately show ?thesis by blast
qed

lemma encoded_path_is_inert_witness:
  "CHR ''&'' \<notin> set (encode_dir ''a&b?c'')"
  using encoded_path_is_inert [of "''a&b?c''" "''a&b?c''"] by (auto simp: kept_def in_range_def)

end
