(* ===== verification/Core_Health.thy ===== *)
theory Core_Health
  imports Prelude
begin

text \<open>
  Errors and their classification (\<open>crates/wusel-core/src/error.rs\<close>) and the shared answer to
  "is the server reachable" with the notifications it owes the user (\<open>health.rs\<close>). Instants
  are milliseconds on a monotonic clock; what the desktop is told is the list of effects a
  call returns. The fast path of \<open>ok\<close> reads the \<open>down\<close> flag, which is kept beside the state
  it mirrors, as in the source.
\<close>

section \<open>Errors\<close>

datatype core_error =
    Http string
  | HttpStatus u16 string
  | Auth string
  | LoginPending
  | WebDav string
  | Db string
  | Url string
  | IoError string
  | Denied
  | NotFoundOnServer
  | Other string

fun is_transport :: "core_error \<Rightarrow> bool" where
  "is_transport (Http _) = True"
| "is_transport _ = False"

fun is_server_fault :: "core_error \<Rightarrow> bool" where
  "is_server_fault (HttpStatus status _) = (500 \<le> status \<and> status < 600 \<and> status \<noteq> 507)"
| "is_server_fault _ = False"

fun is_permanent :: "core_error \<Rightarrow> bool" where
  "is_permanent Denied = True"
| "is_permanent (HttpStatus status _) =
     (status = 507 \<or> (400 \<le> status \<and> status < 500 \<and> status \<noteq> 408 \<and> status \<noteq> 429))"
| "is_permanent _ = False"

text \<open>
  A failure that counts as the server being unwell is never one an upload gives up on:
  what reachability reports as an outage is retried, and what is parked for good is a
  refusal of the one request.
\<close>

theorem outages_are_retried:
  "(is_transport e \<or> is_server_fault e \<longrightarrow> \<not> is_permanent e) \<and> \<not> (is_transport e \<and> is_server_fault e)"
proof (cases e)
  case (HttpStatus status msg)
  have "\<not> (500 \<le> status \<and> status < (500 :: u16))" by auto
  with HttpStatus show ?thesis by (auto simp: not_less dest: order_trans)
qed simp_all

section \<open>Reachability\<close>

datatype fault = Unreachable | Refusing u16

datatype notice = ConnectionLost string | ServerUnavailable string u16 | ConnectionRestored string

datatype status = Idle | ErrorStatus

datatype effect = Notify notice | SetStatus status

record incident =
  in_since :: "nat option"
  in_announced :: bool
  in_marked :: bool
  in_fault :: "fault option"
  in_restored_at :: "nat option"

definition no_incident :: incident where
  "no_incident = \<lparr>in_since = None, in_announced = False, in_marked = False, in_fault = None,
     in_restored_at = None\<rparr>"

record reachability =
  re_server :: string
  re_down :: bool
  re_ever_ok :: bool
  re_state :: incident
  re_confirm_after :: nat
  re_quiet_after :: nat

definition with_timings :: "string \<Rightarrow> nat \<Rightarrow> nat \<Rightarrow> reachability" where
  "with_timings server confirm quiet =
     \<lparr>re_server = server, re_down = False, re_ever_ok = False, re_state = no_incident,
      re_confirm_after = confirm, re_quiet_after = quiet\<rparr>"

definition classify :: "core_error \<Rightarrow> fault option" where
  "classify e =
     (if is_transport e then Some Unreachable
      else case e of
        HttpStatus status _ \<Rightarrow> (if is_server_fault e then Some (Refusing status) else None)
      | _ \<Rightarrow> None)"

definition reach_ok :: "reachability \<Rightarrow> nat \<Rightarrow> reachability \<times> effect list" where
  "reach_ok r now =
     (let r = r\<lparr>re_ever_ok := True\<rparr> in
      if \<not> re_down r then (r, [])
      else
        let st = re_state r;
            st' = no_incident\<lparr>in_restored_at := (if in_announced st then Some now else in_restored_at st)\<rparr>
        in (r\<lparr>re_state := st', re_down := False\<rparr>,
            (if in_announced st then [Notify (ConnectionRestored (re_server r))] else []) @
            (if in_marked st then [SetStatus Idle] else [])))"

definition outage_notice :: "string \<Rightarrow> fault \<Rightarrow> notice" where
  "outage_notice server f =
     (case f of Unreachable \<Rightarrow> ConnectionLost server | Refusing status \<Rightarrow> ServerUnavailable server status)"

definition reach_failed :: "reachability \<Rightarrow> core_error \<Rightarrow> nat \<Rightarrow> reachability \<times> effect list" where
  "reach_failed r e now =
     (case classify e of
        None \<Rightarrow> (r, [])
      | Some f \<Rightarrow>
          (let st = (re_state r)\<lparr>in_fault := Some f\<rparr> in
           case in_since st of
             None \<Rightarrow> (r\<lparr>re_state := st\<lparr>in_since := Some now\<rparr>, re_down := True\<rparr>, [])
           | Some since \<Rightarrow>
               (let confirmed = (now - since \<ge> re_confirm_after r);
                    quiet = (case in_restored_at st of Some t \<Rightarrow> now - t < re_quiet_after r | None \<Rightarrow> False);
                    mark = (confirmed \<and> \<not> in_marked st);
                    announce = (confirmed \<and> \<not> quiet \<and> \<not> in_announced st);
                    st' = st\<lparr>in_marked := in_marked st \<or> mark, in_announced := in_announced st \<or> announce\<rparr>
                in (r\<lparr>re_state := st'\<rparr>,
                    (if mark then [SetStatus ErrorStatus] else []) @
                    (if announce then [Notify (outage_notice (re_server r) f)] else [])))))"

definition is_down :: "reachability \<Rightarrow> bool" where
  "is_down r \<longleftrightarrow> re_down r"

definition reachable_now :: "reachability \<Rightarrow> bool" where
  "reachable_now r \<longleftrightarrow> re_ever_ok r \<and> \<not> re_down r"

section \<open>Histories\<close>

text \<open>What the callers report, each at its instant.\<close>

datatype report = Reached nat | Failed core_error nat

fun report_step :: "reachability \<Rightarrow> report \<Rightarrow> reachability \<times> effect list" where
  "report_step r (Reached now) = reach_ok r now"
| "report_step r (Failed e now) = reach_failed r e now"

fun report_run :: "reachability \<Rightarrow> report list \<Rightarrow> reachability \<times> effect list" where
  "report_run r [] = (r, [])"
| "report_run r (x # xs) =
     (case report_step r x of (r', es) \<Rightarrow> case report_run r' xs of (r'', es') \<Rightarrow> (r'', es @ es'))"

lemma report_run_snoc:
  "report_run r (xs @ [x]) =
     (case report_run r xs of (r', es) \<Rightarrow> case report_step r' x of (r'', es') \<Rightarrow> (r'', es @ es'))"
  by (induction xs arbitrary: r) (auto split: prod.splits)

text \<open>The start of the current run of failures that count, from the reports alone.\<close>

definition failing_step :: "nat option \<Rightarrow> report \<Rightarrow> nat option" where
  "failing_step s x =
     (case x of
        Reached _ \<Rightarrow> None
      | Failed e now \<Rightarrow>
          (if classify e = None then s else case s of None \<Rightarrow> Some now | Some t \<Rightarrow> Some t))"

definition failing_since :: "report list \<Rightarrow> nat option" where
  "failing_since xs = foldl failing_step None xs"

text \<open>Outage notices and recovery notices alternate, an outage first.\<close>

definition is_outage :: "notice \<Rightarrow> bool" where
  "is_outage n \<longleftrightarrow> (case n of ConnectionRestored _ \<Rightarrow> False | _ \<Rightarrow> True)"

definition notices :: "effect list \<Rightarrow> notice list" where
  "notices es = concat (map (\<lambda>e. case e of Notify n \<Rightarrow> [n] | SetStatus _ \<Rightarrow> []) es)"

definition emblems :: "effect list \<Rightarrow> status list" where
  "emblems es = concat (map (\<lambda>e. case e of SetStatus s \<Rightarrow> [s] | Notify _ \<Rightarrow> []) es)"

fun alternating :: "bool \<Rightarrow> bool list \<Rightarrow> bool" where
  "alternating b [] = True"
| "alternating b (x # xs) = (x = b \<and> alternating (\<not> b) xs)"

lemma alternating_snoc: "alternating b (xs @ [x]) \<longleftrightarrow> alternating b xs \<and> (x = (if even (length xs) then b else \<not> b))"
  by (induction xs arbitrary: b) auto

lemma notices_simps [simp]:
  "notices [] = []" "notices (es @ es') = notices es @ notices es'"
  "notices (Notify n # es) = n # notices es" "notices (SetStatus s # es) = notices es"
  by (simp_all add: notices_def)

lemma emblems_simps [simp]:
  "emblems [] = []" "emblems (es @ es') = emblems es @ emblems es'"
  "emblems (Notify n # es) = emblems es" "emblems (SetStatus s # es) = s # emblems es"
  by (simp_all add: emblems_def)

lemma outage_notice_outage [simp]: "is_outage (outage_notice s f)" "\<not> is_outage (ConnectionRestored s)"
  by (simp_all add: is_outage_def outage_notice_def split: fault.split)

definition reach_inv :: "report list \<Rightarrow> reachability \<Rightarrow> effect list \<Rightarrow> bool" where
  "reach_inv xs r es \<longleftrightarrow>
     (\<forall>t. in_restored_at (re_state r) = Some t \<longrightarrow> Reached t \<in> set xs) \<and>
     in_since (re_state r) = failing_since xs \<and>
     re_down r = (failing_since xs \<noteq> None) \<and>
     re_ever_ok r = (\<exists>t. Reached t \<in> set xs) \<and>
     (in_announced (re_state r) \<longrightarrow> in_marked (re_state r)) \<and>
     (in_marked (re_state r) \<longrightarrow> re_down r) \<and>
     alternating True (map is_outage (notices es)) \<and> odd (length (notices es)) = in_announced (re_state r) \<and>
     alternating True (map (\<lambda>s. s = ErrorStatus) (emblems es)) \<and>
     odd (length (emblems es)) = in_marked (re_state r)"

lemma reach_inv_step:
  assumes "reach_inv xs r es" and "report_step r x = (r', es')"
  shows "reach_inv (xs @ [x]) r' (es @ es')"
proof (cases x)
  case (Reached now)
  with assms show ?thesis
    by (auto simp: reach_inv_def reach_ok_def no_incident_def failing_since_def failing_step_def Let_def
        alternating_snoc split: if_splits)
next
  case (Failed e now)
  show ?thesis
  proof (cases "classify e")
    case None
    with assms Failed show ?thesis
      by (auto simp: reach_inv_def reach_failed_def failing_since_def failing_step_def)
  next
    case (Some f)
    note inv = assms(1) [unfolded reach_inv_def]
    have since: "failing_since xs = in_since (re_state r)" using inv by simp
    have fs: "failing_since (xs @ [x]) = (case in_since (re_state r) of None \<Rightarrow> Some now | Some t \<Rightarrow> Some t)"
      using inv Failed Some by (simp add: failing_since_def failing_step_def)
    show ?thesis
    proof (cases "in_since (re_state r)")
      case None
      from assms(2) Failed Some None have "r' = r\<lparr>re_state := (re_state r)\<lparr>in_fault := Some f, in_since := Some now\<rparr>, re_down := True\<rparr>"
        "es' = []" by (simp_all add: reach_failed_def Let_def)
      moreover have "failing_since xs = None" "failing_since (xs @ [x]) = Some now" by (simp_all add: since fs None)
      ultimately show ?thesis using inv Failed unfolding reach_inv_def by simp
    next
      case (Some since)
      define mark where "mark \<longleftrightarrow> now - since \<ge> re_confirm_after r \<and> \<not> in_marked (re_state r)"
      define announce where "announce \<longleftrightarrow> now - since \<ge> re_confirm_after r \<and>
        \<not> (case in_restored_at (re_state r) of Some t \<Rightarrow> now - t < re_quiet_after r | None \<Rightarrow> False) \<and> \<not> in_announced (re_state r)"
      have r': "r' = r\<lparr>re_state := (re_state r)\<lparr>in_fault := Some f, in_marked := in_marked (re_state r) \<or> mark,
          in_announced := in_announced (re_state r) \<or> announce\<rparr>\<rparr>"
        and es': "es' = (if mark then [SetStatus ErrorStatus] else []) @
          (if announce then [Notify (outage_notice (re_server r) f)] else [])"
        using assms(2) Failed \<open>classify e = Some f\<close> Some by (simp_all add: reach_failed_def Let_def mark_def announce_def)
      have "announce \<longrightarrow> in_marked (re_state r) \<or> mark" by (auto simp: announce_def mark_def)
      moreover have "\<not> (mark \<and> in_marked (re_state r))" "\<not> (announce \<and> in_announced (re_state r))"
        by (auto simp: mark_def announce_def)
      moreover have "failing_since xs = Some since" "failing_since (xs @ [x]) = Some since" by (simp_all add: since fs Some)
      ultimately show ?thesis using inv Failed Some unfolding reach_inv_def r' es'
        by (cases mark; cases announce) (simp_all add: alternating_snoc)
    qed
  qed
qed

lemma report_run_inv: "report_run (with_timings server c q) xs = (r, es) \<Longrightarrow> reach_inv xs r es"
proof (induction xs arbitrary: r es rule: rev_induct)
  case Nil
  then show ?case by (auto simp: reach_inv_def with_timings_def no_incident_def failing_since_def)
next
  case (snoc x xs)
  obtain r1 e1 where run: "report_run (with_timings server c q) xs = (r1, e1)" by fastforce
  obtain r2 e2 where st: "report_step r1 x = (r2, e2)" by fastforce
  from snoc.prems run st have "r = r2" "es = e1 @ e2" by (simp_all add: report_run_snoc)
  with reach_inv_step [OF snoc.IH [OF run] st] show ?case by simp
qed

lemma report_step_clocks:
  assumes "report_step r x = (r', es)"
  shows "re_confirm_after r' = re_confirm_after r \<and> re_quiet_after r' = re_quiet_after r"
proof (cases x)
  case (Reached now)
  with assms show ?thesis by (simp add: reach_ok_def Let_def split: if_splits, auto)
next
  case (Failed e now)
  show ?thesis
  proof (cases "classify e")
    case None
    with assms Failed show ?thesis by (simp add: reach_failed_def)
  next
    case (Some f)
    with assms Failed show ?thesis
      by (cases "in_since (re_state r)") (simp_all add: reach_failed_def Let_def, auto)
  qed
qed

lemma report_run_clocks:
  "report_run r xs = (r', es) \<Longrightarrow> re_confirm_after r' = re_confirm_after r \<and> re_quiet_after r' = re_quiet_after r"
proof (induction xs arbitrary: r es)
  case Nil
  then show ?case by simp
next
  case (Cons x xs)
  obtain r1 e1 where st: "report_step r x = (r1, e1)" by fastforce
  obtain r2 e2 where run: "report_run r1 xs = (r2, e2)" by fastforce
  from Cons.prems st run have "report_run r1 xs = (r', e2)" by simp
  from Cons.IH [OF this] report_step_clocks [OF st] show ?case by simp
qed

definition outage_reports :: "report list" where
  "outage_reports =
     [Reached 0, Failed (Http ''dns'') 1, Failed (HttpStatus 404 ''x'') 9, Failed (HttpStatus 502 ''x'') 12]"

lemma outages_are_retried_witness:
  "is_server_fault (HttpStatus 503 ''busy'') \<and> \<not> is_permanent (HttpStatus 503 ''busy'') \<and>
   \<not> is_server_fault (HttpStatus 507 ''full'') \<and> is_permanent (HttpStatus 507 ''full'')"
proof -
  have f: "is_server_fault (HttpStatus 503 ''busy'')" "\<not> is_server_fault (HttpStatus 507 ''full'')"
    "is_permanent (HttpStatus 507 ''full'')"
    by code_simp+
  with outages_are_retried [of "HttpStatus 503 ''busy''"] show ?thesis by blast
qed



text \<open>
  What callers read is what the reports say: the server counts as down exactly while
  failures that count have been coming since the last success, and as known reachable
  exactly when it has been reached before and is not down.
\<close>

theorem reachability_reads_the_reports:
  assumes "report_run (with_timings server c q) xs = (r, es)"
  shows "is_down r = (failing_since xs \<noteq> None) \<and>
    reachable_now r = ((\<exists>t. Reached t \<in> set xs) \<and> failing_since xs = None)"
proof -
  have "re_down r = (failing_since xs \<noteq> None)" "re_ever_ok r = (\<exists>t. Reached t \<in> set xs)"
    using report_run_inv [OF assms] unfolding reach_inv_def by blast+
  then show ?thesis by (simp add: is_down_def reachable_now_def)
qed

lemma reachability_reads_the_reports_witness:
  "\<exists>r es. report_run (with_timings ''srv'' 10 20) outage_reports = (r, es) \<and> is_down r \<and> \<not> reachable_now r"
proof -
  obtain r es where run: "report_run (with_timings ''srv'' 10 20) outage_reports = (r, es)" by fastforce
  have "failing_since outage_reports = Some 1" by code_simp
  with reachability_reads_the_reports [OF run] run show ?thesis by simp
qed



end
