(* ===== verification/Ordered_Map.thy ===== *)
theory Ordered_Map
  imports Prelude "HOL-Library.List_Lexorder" "HOL-Library.Char_ord"
begin

text \<open>
  \<open>std::collections::BTreeMap\<close> as a list of entries in strictly ascending key order, the second
  provider of the keyed store of the prelude. \<open>String\<close> keys compare byte by byte, which is
  the lexicographic order of the library on lists of characters.
\<close>

type_synonym ('k, 'v) btree_map = "('k \<times> 'v) list"

fun bt_insert :: "'k :: linorder \<Rightarrow> 'v \<Rightarrow> ('k, 'v) btree_map \<Rightarrow> ('k, 'v) btree_map" where
  "bt_insert k v [] = [(k, v)]"
| "bt_insert k v ((j, w) # m) =
     (if k < j then (k, v) # (j, w) # m
      else if k = j then (k, v) # m
      else (j, w) # bt_insert k v m)"

abbreviation bt_get :: "('k :: linorder, 'v) btree_map \<Rightarrow> 'k \<Rightarrow> 'v option" where
  "bt_get m k \<equiv> map_of m k"

definition bt_remove :: "'k :: linorder \<Rightarrow> ('k, 'v) btree_map \<Rightarrow> ('k, 'v) btree_map" where
  "bt_remove k m = filter (\<lambda>(j, w). j \<noteq> k) m"

text \<open>\<open>Extend\<close> and \<open>FromIterator\<close>: the entries one after the other, a later one wins.\<close>

definition bt_extend :: "('k :: linorder, 'v) btree_map \<Rightarrow> ('k \<times> 'v) list \<Rightarrow> ('k, 'v) btree_map" where
  "bt_extend m kvs = fold (\<lambda>(k, v). bt_insert k v) kvs m"

definition bt_wf :: "('k :: linorder, 'v) btree_map \<Rightarrow> bool" where
  "bt_wf m \<longleftrightarrow> sorted_wrt (<) (map fst m)"

lemma bt_wf_Nil [simp]: "bt_wf []"
  by (simp add: bt_wf_def)

lemma bt_wf_Cons [simp]: "bt_wf ((k, v) # m) \<longleftrightarrow> (\<forall>j \<in> fst ` set m. k < j) \<and> bt_wf m"
  by (simp add: bt_wf_def)

lemma bt_insert_keys [simp]: "fst ` set (bt_insert k v m) = insert k (fst ` set m)"
  by (induction k v m rule: bt_insert.induct) (auto split: if_splits)

lemma bt_wf_insert [simp, intro]: "bt_wf m \<Longrightarrow> bt_wf (bt_insert k v m)"
proof (induction m)
  case Nil
  then show ?case by simp
next
  case (Cons e m)
  obtain j w where e: "e = (j, w)" by (cases e)
  with Cons.prems have j: "\<forall>i \<in> fst ` set m. j < i" and m: "bt_wf m" by simp_all
  show ?case
  proof (cases "k < j")
    case True
    with e j m show ?thesis by (auto dest: less_trans)
  next
    case False
    with e j Cons.IH [OF m] m show ?thesis by (auto simp: not_less le_less)
  qed
qed

lemma bt_get_insert [store_simps]:
  "bt_get (bt_insert k v m) j = (if j = k then Some v else bt_get m j)"
  by (induction k v m rule: bt_insert.induct) (auto split: if_splits)

lemma bt_wf_remove [simp, intro]: "bt_wf m \<Longrightarrow> bt_wf (bt_remove k m)"
  by (induction m) (auto simp: bt_remove_def)

lemma bt_get_remove [store_simps]: "bt_get (bt_remove k m) j = (if j = k then None else bt_get m j)"
  by (induction m) (auto simp: bt_remove_def)

interpretation bt: keyed_store "[]" bt_get bt_insert bt_remove bt_wf
  by unfold_locales (auto simp: store_simps)

lemma bt_wf_distinct: "bt_wf m \<Longrightarrow> distinct (map fst m)"
  by (simp add: bt_wf_def strict_sorted_iff)

lemma bt_extend_get:
  assumes "bt_wf m"
  shows "bt_wf (bt_extend m kvs)"
    and "bt_get (bt_extend m kvs) j = (case map_of (rev kvs) j of Some v \<Rightarrow> Some v | None \<Rightarrow> bt_get m j)"
  using bt.fold_put_get [OF assms, of kvs j] by (simp_all add: bt_extend_def)

lemma bt_entries: "bt_wf m \<Longrightarrow> map (\<lambda>k. (k, the (bt_get m k))) (map fst m) = m"
  by (auto simp: bt_wf_distinct o_def intro!: map_idI)

text \<open>Two ordered maps with the same lookups are the same list.\<close>

lemma bt_ext:
  assumes "bt_wf m" and "bt_wf m'" and "bt_get m = bt_get m'"
  shows "m = m'"
proof -
  have keys: "fst ` set m = fst ` set m'" using assms(3) by (metis dom_map_of_conv_image_fst)
  have "map fst m = map fst m'"
  proof (rule sorted_distinct_set_unique)
    show "sorted (map fst m)" "sorted (map fst m')"
      using assms(1,2) by (simp_all add: bt_wf_def strict_sorted_iff)
  qed (use assms(1,2) bt_wf_distinct keys in \<open>auto simp: image_comp\<close>)
  moreover have "m = map (\<lambda>k. (k, the (bt_get m k))) (map fst m)" "m' = map (\<lambda>k. (k, the (bt_get m' k))) (map fst m')"
    by (rule bt_entries [symmetric], rule assms)+
  ultimately show ?thesis using assms(3) by metis
qed

lemma option_eq_by_Some: "(\<And>d. x = Some d \<longleftrightarrow> y = Some d) \<Longrightarrow> x = y"
  by (metis not_None_eq)

lemma map_of_rev: "distinct (map fst kvs) \<Longrightarrow> map_of (rev kvs) = map_of kvs"
  by (metis distinct_rev map_of_inject_set rev_map set_rev)

lemma bt_extend_entries: "bt_wf m \<Longrightarrow> bt_extend [] m = m"
proof (rule bt_ext)
  assume wf: "bt_wf m"
  show "bt_wf (bt_extend [] m)" by (rule bt_extend_get) simp
  show "bt_get (bt_extend [] m) = bt_get m"
  proof
    fix j
    have "distinct (map fst m)" using wf by (rule bt_wf_distinct)
    then have "map_of (rev m) j = map_of m j" by (simp only: map_of_rev)
    then show "bt_get (bt_extend [] m) j = bt_get m j"
      using bt_extend_get(2) [of "[]" m j] by (simp split: option.splits)
  qed
qed

end
