(* ===== verification/Core_Pins.thy ===== *)
theory Core_Pins
  imports Ordered_Map "HOL-Library.Sublist"
begin

text \<open>
  The pins of an account (\<open>crates/wusel-core/src/pins.rs\<close>): the decisions on a map from path to
  is-directory, the file with its stamp, the cache each process keeps of it, and the lock
  directory two processes share. The JSON encoder and decoder are a third-party library and
  are arguments (\<open>enc\<close>, \<open>dec\<close>); so is the content type of the file. What the file system
  does with one write (whether each call succeeds, which stamp the file gets) is an argument
  of the write. Paths are byte strings without leading or trailing separators.
\<close>

section \<open>The decisions\<close>

type_synonym pin_map = "(string, bool) btree_map"

definition covers :: "pin_map \<Rightarrow> string \<Rightarrow> bool" where
  "covers m path \<longleftrightarrow>
     bt_get m path \<noteq> None \<or>
     list_ex (\<lambda>i. path ! i = CHR ''/'' \<and> bt_get m (take i path) = Some True) [0..<length path] \<or>
     bt_get m '''' = Some True"

definition under :: "pin_map \<Rightarrow> string \<Rightarrow> string list" where
  "under m path = filter (\<lambda>p. p = path \<or> prefix (path @ ''/'') p) (map fst m)"

definition rename_in :: "pin_map \<Rightarrow> string \<Rightarrow> string \<Rightarrow> pin_map" where
  "rename_in m old new =
     (if old = '''' \<or> old = new then m
      else
        let moved = map (\<lambda>p. (new @ drop (length old) p, the (bt_get m p))) (under m old)
        in bt_extend (fold bt_remove (under m old) m) moved)"

definition trim_slashes :: "string \<Rightarrow> string" where
  "trim_slashes s = rev (dropWhile (\<lambda>c. c = CHR ''/'') (rev (dropWhile (\<lambda>c. c = CHR ''/'') s)))"

text \<open>What the public operations do to the map, and what \<open>remove_under\<close> counts.\<close>

datatype pin_op = PinSet string bool | PinRemove string | PinRemoveUnder string | PinRename string string

fun pin_edit :: "pin_op \<Rightarrow> pin_map \<Rightarrow> pin_map \<times> nat" where
  "pin_edit (PinSet path is_dir) m = (bt_insert (trim_slashes path) is_dir m, 0)"
| "pin_edit (PinRemove path) m = (bt_remove (trim_slashes path) m, 0)"
| "pin_edit (PinRemoveUnder path) m =
     (let path = trim_slashes path in
      if path = '''' then ([], length m)
      else (fold bt_remove (under m path) m, length (under m path)))"
| "pin_edit (PinRename old new) m = (rename_in m (trim_slashes old) (trim_slashes new), 0)"

section \<open>The file and the cache\<close>

type_synonym stamp = "nat \<times> u64"

datatype 't pins_file = NoFile | PinsFile stamp 't | UnreadableFile stamp

record entry =
  en_path :: string
  en_dir :: bool

record document =
  doc_version :: u32
  doc_pins :: "entry list"

definition version :: u32 where "version = 1"

datatype pins_error =
    CannotCreateDir | CannotTakeLock | LockHeld | CannotRead | CannotParse | NewerVersion u32
  | CannotWrite | CannotReplace

record cache =
  ca_stamp :: "stamp option"
  ca_map :: pin_map
  ca_loaded :: bool

definition empty_cache :: cache where
  "empty_cache = \<lparr>ca_stamp = None, ca_map = [], ca_loaded = False\<rparr>"

fun stamp_of :: "'t pins_file \<Rightarrow> stamp option" where
  "stamp_of NoFile = None"
| "stamp_of (PinsFile st _) = Some st"
| "stamp_of (UnreadableFile st) = Some st"

fun read_file :: "('t \<Rightarrow> document option) \<Rightarrow> 't pins_file \<Rightarrow> pins_error + pin_map" where
  "read_file dec NoFile = Inr []"
| "read_file dec (UnreadableFile _) = Inl CannotRead"
| "read_file dec (PinsFile _ text) =
     (case dec text of
        None \<Rightarrow> Inl CannotParse
      | Some doc \<Rightarrow>
          if doc_version doc > version then Inl (NewerVersion (doc_version doc))
          else Inr (bt_extend [] (map (\<lambda>e. (en_path e, en_dir e)) (doc_pins doc))))"

definition document_of :: "pin_map \<Rightarrow> document" where
  "document_of m = \<lparr>doc_version = version, doc_pins = map (\<lambda>(path, dir). \<lparr>en_path = path, en_dir = dir\<rparr>) m\<rparr>"

text \<open>What the file system answers to the three calls of one write, and the stamp it gives.\<close>

record io_plan =
  io_mkdir :: bool
  io_write :: bool
  io_rename :: bool
  io_stamp :: stamp

definition write_file :: "(document \<Rightarrow> 't) \<Rightarrow> io_plan \<Rightarrow> pin_map \<Rightarrow> 't pins_file \<times> cache \<Rightarrow>
    ('t pins_file \<times> cache) \<times> (pins_error + unit)" where
  "write_file enc io m fc =
     (if \<not> io_mkdir io then (fc, Inl CannotCreateDir)
      else if \<not> io_write io then (fc, Inl CannotWrite)
      else if \<not> io_rename io then (fc, Inl CannotReplace)
      else
        let file = PinsFile (io_stamp io) (enc (document_of m))
        in ((file, (snd fc)\<lparr>ca_map := m, ca_stamp := stamp_of file, ca_loaded := True\<rparr>), Inr ()))"

text \<open>\<open>with\<close>: \<open>stamp\<close> is the stamp taken on entry, \<open>file\<close> what is there when the contents are read.\<close>

definition with_map :: "('t \<Rightarrow> document option) \<Rightarrow> stamp option \<Rightarrow> 't pins_file \<Rightarrow> cache \<Rightarrow> (pin_map \<Rightarrow> 'a) \<Rightarrow>
    cache \<times> (pins_error + 'a)" where
  "with_map dec stamp file c f =
     (if ca_loaded c \<and> ca_stamp c = stamp then (c, Inr (f (ca_map c)))
      else
        case read_file dec file of
          Inl e \<Rightarrow> (c, Inl e)
        | Inr m \<Rightarrow> (c\<lparr>ca_map := m, ca_stamp := stamp, ca_loaded := True\<rparr>, Inr (f m)))"

definition is_pinned :: "('t \<Rightarrow> document option) \<Rightarrow> 't pins_file \<Rightarrow> cache \<Rightarrow> string \<Rightarrow> cache \<times> (pins_error + bool)" where
  "is_pinned dec file c path = with_map dec (stamp_of file) file c (\<lambda>m. covers m (trim_slashes path))"

definition all_pins :: "('t \<Rightarrow> document option) \<Rightarrow> 't pins_file \<Rightarrow> cache \<Rightarrow> cache \<times> (pins_error + (string \<times> bool) list)" where
  "all_pins dec file c = with_map dec (stamp_of file) file c (\<lambda>m. m)"

text \<open>
  \<open>change\<close> once the lock is held: read, edit, write. \<open>migrate_from\<close> looks for the file before
  it takes the lock (\<open>before\<close>) and again under it.
\<close>

definition change :: "('t \<Rightarrow> document option) \<Rightarrow> (document \<Rightarrow> 't) \<Rightarrow> io_plan \<Rightarrow> pin_op \<Rightarrow> 't pins_file \<times> cache \<Rightarrow>
    ('t pins_file \<times> cache) \<times> (pins_error + nat)" where
  "change dec enc io op fc =
     (case read_file dec (fst fc) of
        Inl e \<Rightarrow> (fc, Inl e)
      | Inr m \<Rightarrow>
          (case pin_edit op m of
             (m', n) \<Rightarrow>
               (case write_file enc io m' fc of
                  (fc', Inl e) \<Rightarrow> (fc', Inl e)
                | (fc', Inr _) \<Rightarrow> (fc', Inr n))))"

definition migrate_from :: "(document \<Rightarrow> 't) \<Rightarrow> io_plan \<Rightarrow> 't pins_file \<Rightarrow> (string \<times> bool) list \<Rightarrow>
    't pins_file \<times> cache \<Rightarrow> ('t pins_file \<times> cache) \<times> (pins_error + nat)" where
  "migrate_from enc io before existing fc =
     (if existing = [] \<or> before \<noteq> NoFile then (fc, Inr 0)
      else if fst fc \<noteq> NoFile then (fc, Inr 0)
      else
        let m = bt_extend [] existing in
        case write_file enc io m fc of
          (fc', Inl e) \<Rightarrow> (fc', Inl e)
        | (fc', Inr _) \<Rightarrow> (fc', Inr (length m)))"

section \<open>The lock\<close>

text \<open>The lock directory: the time it was made, when it is there. Times are milliseconds.\<close>

definition stale_after :: nat where "stale_after = 30000"

definition lock_tries :: nat where "lock_tries = 50"

text \<open>\<open>stale\<close>: a clock that went backwards is not stale.\<close>

definition stale :: "nat \<Rightarrow> nat \<Rightarrow> bool" where
  "stale created now \<longleftrightarrow> created \<le> now \<and> now - created > stale_after"

text \<open>One round of \<open>take_after\<close>: make the directory, or remove a stale one and try again later.\<close>

definition lock_round :: "nat \<Rightarrow> nat option \<Rightarrow> nat option \<times> bool" where
  "lock_round now lock =
     (case lock of
        None \<Rightarrow> (Some now, True)
      | Some created \<Rightarrow> (if stale created now then None else Some created, False))"

section \<open>Coverage\<close>

definition below :: "string \<Rightarrow> string \<Rightarrow> bool" where
  "below path p \<longleftrightarrow> p = path \<or> prefix (path @ ''/'') p"

lemma below_iff: "below path p \<longleftrightarrow> (\<exists>rest. p = path @ rest \<and> (rest = [] \<or> hd rest = CHR ''/'' \<and> rest \<noteq> []))"
proof
  assume "below path p"
  then show "\<exists>rest. p = path @ rest \<and> (rest = [] \<or> hd rest = CHR ''/'' \<and> rest \<noteq> [])"
    unfolding below_def by (auto elim!: prefixE)
next
  assume "\<exists>rest. p = path @ rest \<and> (rest = [] \<or> hd rest = CHR ''/'' \<and> rest \<noteq> [])"
  then obtain rest where p: "p = path @ rest" and r: "rest = [] \<or> hd rest = CHR ''/'' \<and> rest \<noteq> []" by blast
  then show "below path p" by (cases rest) (auto simp: below_def)
qed

lemma below_refl [simp]: "below p p"
  by (simp add: below_def)

lemma below_append: "below path (path @ rest) \<longleftrightarrow> rest = [] \<or> hd rest = CHR ''/'' \<and> rest \<noteq> []"
  by (auto simp: below_iff)

lemma below_trans: "below a b \<Longrightarrow> below b c \<Longrightarrow> below a c"
  by (auto simp: below_def prefix_def)

lemma under_set: "set (under m path) = {p. bt_get m p \<noteq> None \<and> below path p}"
proof -
  have "set (under m path) = {p. p \<in> fst ` set m \<and> below path p}" by (auto simp: under_def below_def)
  then show ?thesis by (simp only: map_of_eq_None_iff not_not)
qed

lemma covers_iff:
  "covers m path \<longleftrightarrow>
     bt_get m path \<noteq> None \<or> (\<exists>q. bt_get m q = Some True \<and> (q = '''' \<or> prefix (q @ ''/'') path))"
proof -
  have "(\<exists>i < length path. path ! i = CHR ''/'' \<and> bt_get m (take i path) = Some True) \<longleftrightarrow>
      (\<exists>q. bt_get m q = Some True \<and> prefix (q @ ''/'') path)" (is "?l \<longleftrightarrow> ?r")
  proof
    assume ?l
    then obtain i where i: "i < length path" "path ! i = CHR ''/''" "bt_get m (take i path) = Some True" by blast
    have "path = take i path @ path ! i # drop (Suc i) path" using i(1) by (rule id_take_nth_drop)
    with i show ?r by (intro exI [of _ "take i path"]) (metis append.assoc append_Cons append_Nil prefixI)
  next
    assume ?r
    then obtain q r where q: "bt_get m q = Some True" "path = (q @ ''/'') @ r" by (auto elim: prefixE)
    then show ?l by (intro exI [of _ "length q"]) (simp add: nth_append)
  qed
  then show ?thesis unfolding covers_def list_ex_iff by auto
qed

lemma fold_remove_get:
  "bt_wf m \<Longrightarrow> bt_wf (fold bt_remove ks m) \<and> bt_get (fold bt_remove ks m) q = (if q \<in> set ks then None else bt_get m q)"
  by (rule bt.fold_del_get)

lemma bt_wf_rename [simp]: "bt_wf m \<Longrightarrow> bt_wf (rename_in m old new)"
  by (simp add: rename_in_def Let_def bt_extend_get(1) fold_remove_get)

text \<open>What is where after a rename, for every path.\<close>

lemma rename_in_get:
  assumes wf: "bt_wf m" and old: "old \<noteq> ''''" "old \<noteq> new"
  shows "bt_get (rename_in m old new) q =
    (case if below new q then bt_get m (old @ drop (length new) q) else None of
       Some d \<Rightarrow> Some d
     | None \<Rightarrow> if below old q then None else bt_get m q)"
proof -
  let ?ps = "under m old"
  let ?moved = "map (\<lambda>p. (new @ drop (length old) p, the (bt_get m p))) ?ps"
  have orig: "p = old @ drop (length old) p" if "p \<in> set ?ps" for p
    using that by (auto simp: under_set below_iff)
  have "distinct ?ps" using bt_wf_distinct [OF wf] by (simp add: under_def)
  moreover have "inj_on (\<lambda>p. new @ drop (length old) p) (set ?ps)"
    by (rule inj_onI) (metis orig same_append_eq)
  ultimately have dist: "distinct (map fst ?moved)"
    by (simp add: o_def distinct_map)
  have moved: "map_of (rev ?moved) q = Some d \<longleftrightarrow> below new q \<and> bt_get m (old @ drop (length new) q) = Some d" for d
  proof -
    have "map_of (rev ?moved) q = Some d \<longleftrightarrow> (q, d) \<in> set ?moved"
      by (simp only: map_of_rev [OF dist] map_of_eq_Some_iff [OF dist])
    also have "\<dots> \<longleftrightarrow> below new q \<and> bt_get m (old @ drop (length new) q) = Some d"
    proof
      assume "(q, d) \<in> set ?moved"
      then obtain p where p: "p \<in> set ?ps" "q = new @ drop (length old) p" "d = the (bt_get m p)" by auto
      have "below old (old @ drop (length old) p)" using orig [OF p(1)] p(1) by (simp add: under_set)
      then have "below new q" using p(2) by (simp only: below_append)
      moreover have "bt_get m (old @ drop (length new) q) = Some d"
        using p orig [OF p(1)] by (auto simp: under_set)
      ultimately show "below new q \<and> bt_get m (old @ drop (length new) q) = Some d" by blast
    next
      assume a: "below new q \<and> bt_get m (old @ drop (length new) q) = Some d"
      then have q: "q = new @ drop (length new) q" by (auto simp: below_iff)
      with a have "below old (old @ drop (length new) q)" by (metis below_append)
      with a have "old @ drop (length new) q \<in> set ?ps" by (simp add: under_set)
      moreover have "(q, d) = (new @ drop (length old) (old @ drop (length new) q), the (bt_get m (old @ drop (length new) q)))"
        using a q by simp
      ultimately show "(q, d) \<in> set ?moved" unfolding set_map by (rule image_eqI [rotated])
    qed
    finally show ?thesis .
  qed
  define F where "F = map_of (rev ?moved) q"
  have "F = Some d \<longleftrightarrow> below new q \<and> bt_get m (old @ drop (length new) q) = Some d" for d
    unfolding F_def by (rule moved)
  then have F: "F = (if below new q then bt_get m (old @ drop (length new) q) else None)"
    by (intro option_eq_by_Some) simp
  have "bt_get (rename_in m old new) q =
      (case F of Some v \<Rightarrow> Some v | None \<Rightarrow> bt_get (fold bt_remove ?ps m) q)"
    using old by (simp add: rename_in_def Let_def bt_extend_get(2) fold_remove_get [OF wf] F_def)
  also have "bt_get (fold bt_remove ?ps m) q = (if below old q then None else bt_get m q)"
    using fold_remove_get [OF wf, of ?ps q] by (auto simp: under_set)
  finally show ?thesis unfolding F .
qed

text \<open>A pin outside both subtrees stays, and one that came along covers the same things as before.\<close>

lemma rename_in_outside:
  assumes "bt_wf m" and "old \<noteq> ''''" and "\<not> below old q" and "\<not> below new q"
  shows "bt_get (rename_in m old new) q = bt_get m q"
  using rename_in_get [OF assms(1,2), of new q] assms(3,4) by (cases "old = new") (simp_all add: rename_in_def)

lemma below_ancestor: "below p q \<Longrightarrow> prefix (q @ ''/'') path \<Longrightarrow> below p path"
  using below_trans [of p q path] by (simp add: below_def)

text \<open>
  C25. A rename carries the promise. Every pin at or below the old path is found at the
  corresponding place under the new one with its kind; what such a pin covered is covered
  at its new place; and outside the two subtrees nothing changes, a pin on the account
  root or on a directory above them included.
\<close>

theorem rename_carries_the_promise:
  assumes wf: "bt_wf m" and old: "old \<noteq> ''''" "old \<noteq> new"
  shows "(\<forall>rest d. (rest = '''' \<or> hd rest = CHR ''/'') \<and> bt_get m (old @ rest) = Some d \<longrightarrow>
        bt_get (rename_in m old new) (new @ rest) = Some d) \<and>
    (\<forall>a rest. prefix (old @ a @ ''/'') (old @ rest) \<and> (a = '''' \<or> hd a = CHR ''/'') \<and>
        bt_get m (old @ a) = Some True \<longrightarrow> covers (rename_in m old new) (new @ rest)) \<and>
    (\<forall>path. \<not> below old path \<and> \<not> below new path \<and> new \<noteq> '''' \<longrightarrow>
        covers (rename_in m old new) path = covers m path)"
proof (intro conjI allI impI)
  have at: "bt_get (rename_in m old new) (new @ rest) = Some d"
    if "rest = '''' \<or> hd rest = CHR ''/'' " "bt_get m (old @ rest) = Some d" for rest d
  proof -
    have "below new (new @ rest)" using that(1) by (auto simp: below_append)
    with that(2) show ?thesis by (simp add: rename_in_get [OF wf old])
  qed
  show "bt_get (rename_in m old new) (new @ rest) = Some d"
    if "(rest = '''' \<or> hd rest = CHR ''/'') \<and> bt_get m (old @ rest) = Some d" for rest d
    using at that by blast
  show "covers (rename_in m old new) (new @ rest)"
    if a: "prefix (old @ a @ ''/'') (old @ rest) \<and> (a = '''' \<or> hd a = CHR ''/'') \<and> bt_get m (old @ a) = Some True"
    for a rest
  proof -
    have "bt_get (rename_in m old new) (new @ a) = Some True" using a at by blast
    moreover have "prefix ((new @ a) @ ''/'') (new @ rest)" using a by simp
    ultimately show ?thesis unfolding covers_iff by blast
  qed
  show "covers (rename_in m old new) path = covers m path"
    if p: "\<not> below old path \<and> \<not> below new path \<and> new \<noteq> ''''" for path
  proof -
    have same: "bt_get (rename_in m old new) q = bt_get m q" if "\<not> below old q" "\<not> below new q" for q
      using rename_in_outside [OF wf old(1)] that by blast
    have above: "bt_get (rename_in m old new) q = bt_get m q" if "prefix (q @ ''/'') path" for q
      using p that by (intro same) (blast dest: below_ancestor)+
    have root: "bt_get (rename_in m old new) '''' = bt_get m ''''"
      using p old(1) by (intro same) (auto simp: below_def)
    show ?thesis unfolding covers_iff using above root same p by metis
  qed
qed

lemma rename_carries_the_promise_witness:
  "covers (rename_in [(''Docs'', True), (''Docs/a'', False), (''x'', False)] ''Docs'' ''Work'') ''Work/new.txt'' \<and>
   \<not> covers (rename_in [(''Docs'', True), (''Docs/a'', False), (''x'', False)] ''Docs'' ''Work'') ''y'' "
proof -
  let ?m = "[(''Docs'', True), (''Docs/a'', False), (''x'', False)]"
  have wf: "bt_wf ?m" by code_simp
  have e: "''Docs'' \<noteq> ''''" "''Docs'' \<noteq> ''Work''" by simp_all
  note t = rename_carries_the_promise [OF wf e]
  have "prefix (''Docs'' @ '''' @ ''/'') (''Docs'' @ ''/new.txt'')" "bt_get ?m (''Docs'' @ '''') = Some True" by simp_all
  then have "covers (rename_in ?m ''Docs'' ''Work'') (''Work'' @ ''/new.txt'')"
    using t by blast
  moreover have "\<not> covers ?m ''y''" by code_simp
  moreover have "\<not> below ''Docs'' ''y'' \<and> \<not> below ''Work'' ''y'' \<and> ''Work'' \<noteq> ''''" by (simp add: below_def)
  ultimately show ?thesis using t by simp
qed

section \<open>Two processes, one file\<close>

text \<open>
  Where a process is in the operation it runs: waiting for the lock with so many rounds left,
  holding it before the read, holding it with the edited map, holding it when the operation
  is over, or between the stamp and the answer of a question.
\<close>

datatype phase =
    Idle
  | Wanting pin_op nat
  | Reading pin_op
  | Writing pin_op pin_map
  | Releasing
  | Asking "stamp option"

record process =
  pr_cache :: cache
  pr_phase :: phase

record 't pins_world =
  wo_file :: "'t pins_file"
  wo_lock :: "nat option"
  wo_procs :: "nat \<Rightarrow> process"
  wo_log :: "pin_op list"

text \<open>Each step of a process carries what the world answers: the time, or the fate of a write.\<close>

datatype pins_event =
    Call nat pin_op
  | TryLock nat nat
  | ReadPins nat
  | WritePins nat io_plan
  | Unlock nat
  | Ask nat
  | Answer nat string

definition set_phase :: "nat \<Rightarrow> phase \<Rightarrow> 't pins_world \<Rightarrow> 't pins_world" where
  "set_phase p ph w = w\<lparr>wo_procs := (wo_procs w)(p := (wo_procs w p)\<lparr>pr_phase := ph\<rparr>)\<rparr>"

definition set_cache :: "nat \<Rightarrow> cache \<Rightarrow> 't pins_world \<Rightarrow> 't pins_world" where
  "set_cache p c w = w\<lparr>wo_procs := (wo_procs w)(p := (wo_procs w p)\<lparr>pr_cache := c\<rparr>)\<rparr>"

abbreviation phase_of :: "'t pins_world \<Rightarrow> nat \<Rightarrow> phase" where
  "phase_of w p \<equiv> pr_phase (wo_procs w p)"

abbreviation cache_of :: "'t pins_world \<Rightarrow> nat \<Rightarrow> cache" where
  "cache_of w p \<equiv> pr_cache (wo_procs w p)"

text \<open>A step a process is not ready for changes nothing.\<close>

fun pins_step :: "('t \<Rightarrow> document option) \<Rightarrow> (document \<Rightarrow> 't) \<Rightarrow> 't pins_world \<Rightarrow> pins_event \<Rightarrow> 't pins_world" where
  "pins_step dec enc w (Call p op) =
     (case phase_of w p of Idle \<Rightarrow> set_phase p (Wanting op lock_tries) w | _ \<Rightarrow> w)"
| "pins_step dec enc w (TryLock p now) =
     (case phase_of w p of
        Wanting op n \<Rightarrow>
          (case lock_round now (wo_lock w) of
             (lock, True) \<Rightarrow> set_phase p (Reading op) (w\<lparr>wo_lock := lock\<rparr>)
           | (lock, False) \<Rightarrow> set_phase p (if n \<le> 1 then Idle else Wanting op (n - 1)) (w\<lparr>wo_lock := lock\<rparr>))
      | _ \<Rightarrow> w)"
| "pins_step dec enc w (ReadPins p) =
     (case phase_of w p of
        Reading op \<Rightarrow>
          (case read_file dec (wo_file w) of
             Inl _ \<Rightarrow> set_phase p Releasing w
           | Inr m \<Rightarrow> set_phase p (Writing op (fst (pin_edit op m))) w)
      | _ \<Rightarrow> w)"
| "pins_step dec enc w (WritePins p io) =
     (case phase_of w p of
        Writing op m \<Rightarrow>
          (case write_file enc io m (wo_file w, cache_of w p) of
             (_, Inl _) \<Rightarrow> set_phase p Releasing w
           | ((file, c), Inr _) \<Rightarrow>
               set_phase p Releasing (set_cache p c (w\<lparr>wo_file := file, wo_log := wo_log w @ [op]\<rparr>)))
      | _ \<Rightarrow> w)"
| "pins_step dec enc w (Unlock p) =
     (case phase_of w p of Releasing \<Rightarrow> set_phase p Idle (w\<lparr>wo_lock := None\<rparr>) | _ \<Rightarrow> w)"
| "pins_step dec enc w (Ask p) =
     (case phase_of w p of Idle \<Rightarrow> set_phase p (Asking (stamp_of (wo_file w))) w | _ \<Rightarrow> w)"
| "pins_step dec enc w (Answer p path) =
     (case phase_of w p of
        Asking stamp \<Rightarrow>
          set_phase p Idle
            (set_cache p (fst (with_map dec stamp (wo_file w) (cache_of w p) (\<lambda>m. covers m (trim_slashes path)))) w)
      | _ \<Rightarrow> w)"

definition pins_run :: "('t \<Rightarrow> document option) \<Rightarrow> (document \<Rightarrow> 't) \<Rightarrow> 't pins_world \<Rightarrow> pins_event list \<Rightarrow> 't pins_world" where
  "pins_run dec enc w es = foldl (pins_step dec enc) w es"

definition pins_start :: "'t pins_file \<Rightarrow> 't pins_world" where
  "pins_start file = \<lparr>wo_file = file, wo_lock = None,
     wo_procs = (\<lambda>_. \<lparr>pr_cache = empty_cache, pr_phase = Idle\<rparr>), wo_log = []\<rparr>"

lemma pins_run_snoc: "pins_run dec enc w (es @ [e]) = pins_step dec enc (pins_run dec enc w es) e"
  by (simp add: pins_run_def)

lemma set_phase_simps [simp]:
  "wo_file (set_phase p ph w) = wo_file w" "wo_lock (set_phase p ph w) = wo_lock w"
  "wo_log (set_phase p ph w) = wo_log w" "cache_of (set_phase p ph w) q = cache_of w q"
  "phase_of (set_phase p ph w) q = (if q = p then ph else phase_of w q)"
  by (simp_all add: set_phase_def)

lemma set_cache_simps [simp]:
  "wo_file (set_cache p c w) = wo_file w" "wo_lock (set_cache p c w) = wo_lock w"
  "wo_log (set_cache p c w) = wo_log w" "phase_of (set_cache p c w) q = phase_of w q"
  "cache_of (set_cache p c w) q = (if q = p then c else cache_of w q)"
  by (simp_all add: set_cache_def)

text \<open>What one process does under the lock is \<open>change\<close>.\<close>

lemma read_write_is_change:
  assumes "phase_of w p = Reading op" and "change dec enc io op (wo_file w, cache_of w p) = ((file, c), r)"
  shows "wo_file (pins_run dec enc w [ReadPins p, WritePins p io]) = file \<and>
    cache_of (pins_run dec enc w [ReadPins p, WritePins p io]) p = c \<and>
    phase_of (pins_run dec enc w [ReadPins p, WritePins p io]) p = Releasing"
proof (cases "read_file dec (wo_file w)")
  case (Inl e)
  with assms show ?thesis by (simp add: pins_run_def change_def)
next
  case (Inr m)
  obtain m' n where ed: "pin_edit op m = (m', n)" by fastforce
  obtain file' c' s where wr: "write_file enc io m' (wo_file w, cache_of w p) = ((file', c'), s)" by (metis prod.exhaust)
  have "s = Inl e \<Longrightarrow> file' = wo_file w \<and> c' = cache_of w p" for e
    using wr by (auto simp: write_file_def Let_def split: if_splits)
  with assms Inr ed wr show ?thesis
    by (cases s) (simp_all add: pins_run_def change_def)
qed

lemma pin_edit_wf [simp]: "bt_wf m \<Longrightarrow> bt_wf (fst (pin_edit op m))"
  by (cases op) (simp_all add: Let_def fold_remove_get)

lemma read_file_wf: "read_file dec file = Inr m \<Longrightarrow> bt_wf m"
  by (cases "file") (auto simp: bt_extend_get(1) split: option.splits if_splits)

text \<open>The round trip through the file, given that the decoder undoes the encoder.\<close>

definition codec :: "('t \<Rightarrow> document option) \<Rightarrow> (document \<Rightarrow> 't) \<Rightarrow> bool" where
  "codec dec enc \<longleftrightarrow> (\<forall>d. dec (enc d) = Some d)"

lemma read_written:
  assumes "codec dec enc" and "bt_wf m"
  shows "read_file dec (PinsFile st (enc (document_of m))) = Inr m"
proof -
  have "map (\<lambda>e. (en_path e, en_dir e)) (doc_pins (document_of m)) = m"
    by (simp add: document_of_def o_def case_prod_beta)
  then show ?thesis
    using assms by (simp add: bt_extend_entries document_of_def codec_def)
qed

section \<open>No change is lost\<close>

text \<open>Nobody finds a lock that looks abandoned: every holder lets go within the staleness limit.\<close>

definition finds_stale :: "'t pins_world \<Rightarrow> pins_event \<Rightarrow> bool" where
  "finds_stale w e =
     (case e of
        TryLock p now \<Rightarrow> (case wo_lock w of Some created \<Rightarrow> stale created now | None \<Rightarrow> False)
      | _ \<Rightarrow> False)"

fun lock_respected :: "('t \<Rightarrow> document option) \<Rightarrow> (document \<Rightarrow> 't) \<Rightarrow> 't pins_world \<Rightarrow> pins_event list \<Rightarrow> bool" where
  "lock_respected dec enc w [] = True"
| "lock_respected dec enc w (e # es) = (\<not> finds_stale w e \<and> lock_respected dec enc (pins_step dec enc w e) es)"

fun holds_lock :: "phase \<Rightarrow> bool" where
  "holds_lock (Reading _) = True"
| "holds_lock (Writing _ _) = True"
| "holds_lock Releasing = True"
| "holds_lock _ = False"

definition edits :: "pin_op list \<Rightarrow> pin_map \<Rightarrow> pin_map" where
  "edits ops m = foldl (\<lambda>m op. fst (pin_edit op m)) m ops"

lemma edits_simps [simp]: "edits [] m = m" "edits (ops @ [op]) m = fst (pin_edit op (edits ops m))"
  by (simp_all add: edits_def)

lemma edits_wf: "bt_wf m \<Longrightarrow> bt_wf (edits ops m)"
  by (induction ops rule: rev_induct) simp_all

text \<open>Whoever holds the lock is alone, and an edited map is the edit of what the file says.\<close>

definition pins_inv :: "('t \<Rightarrow> document option) \<Rightarrow> pin_map \<Rightarrow> 't pins_world \<Rightarrow> bool" where
  "pins_inv dec m0 w \<longleftrightarrow>
     read_file dec (wo_file w) = Inr (edits (wo_log w) m0) \<and>
     (\<forall>p. holds_lock (phase_of w p) \<longrightarrow> wo_lock w \<noteq> None \<and> (\<forall>q. holds_lock (phase_of w q) \<longrightarrow> q = p)) \<and>
     (\<forall>p op m. phase_of w p = Writing op m \<longrightarrow> m = fst (pin_edit op (edits (wo_log w) m0)))"

lemma pins_inv_holder:
  assumes "pins_inv dec m0 w" and "holds_lock (phase_of w p)"
  shows "wo_lock w \<noteq> None" and "holds_lock (phase_of w q) \<Longrightarrow> q = p"
  using assms unfolding pins_inv_def by blast+

lemma pins_inv_step:
  assumes codec: "codec dec enc" and wf: "bt_wf m0"
    and inv: "pins_inv dec m0 w" and fresh: "\<not> finds_stale w e"
  shows "pins_inv dec m0 (pins_step dec enc w e)"
proof (cases e)
  case (Call p op)
  with inv show ?thesis by (auto simp: pins_inv_def split: phase.splits)
next
  case (TryLock p now)
  show ?thesis
  proof (cases "phase_of w p")
    case (Wanting op n)
    with TryLock inv fresh show ?thesis
      by (cases "wo_lock w") (auto simp: pins_inv_def lock_round_def finds_stale_def)
  qed (use TryLock inv in simp_all)
next
  case (ReadPins p)
  show ?thesis
  proof (cases "phase_of w p")
    case (Reading op)
    then have "holds_lock (phase_of w p)" by simp
    from pins_inv_holder [OF inv this] ReadPins Reading inv show ?thesis by (auto simp: pins_inv_def)
  qed (use ReadPins inv in simp_all)
next
  case (WritePins p io)
  show ?thesis
  proof (cases "phase_of w p")
    case (Writing op m)
    have m: "m = fst (pin_edit op (edits (wo_log w) m0))" using inv Writing by (simp add: pins_inv_def)
    then have "read_file dec (PinsFile (io_stamp io) (enc (document_of m))) = Inr m"
      using wf by (intro read_written codec) (simp add: edits_wf)
    then have now: "read_file dec (PinsFile (io_stamp io) (enc (document_of m))) = Inr (edits (wo_log w @ [op]) m0)"
      using m by simp
    have held: "holds_lock (phase_of w p)" using Writing by simp
    have none: "phase_of w q \<noteq> Writing op' m'" if "q \<noteq> p" for q op' m'
      using pins_inv_holder(2) [OF inv held, of q] that by auto
    let ?w' = "pins_step dec enc w e"
    have ph: "phase_of ?w' q = (if q = p then Releasing else phase_of w q)" and lk: "wo_lock ?w' = wo_lock w" for q
      using WritePins Writing by (auto simp: write_file_def Let_def)
    have "wo_lock ?w' \<noteq> None \<and> (\<forall>q'. holds_lock (phase_of ?w' q') \<longrightarrow> q' = q)" if "holds_lock (phase_of ?w' q)" for q
      using that pins_inv_holder [OF inv held] unfolding ph lk by metis
    moreover have "read_file dec (wo_file ?w') = Inr (edits (wo_log ?w') m0)"
      using WritePins Writing inv now by (auto simp: write_file_def Let_def pins_inv_def)
    moreover have "phase_of ?w' q \<noteq> Writing op' m'" for q op' m'
      unfolding ph using none [of q op' m'] by (cases "q = p") simp_all
    ultimately show ?thesis unfolding pins_inv_def by blast
  qed (use WritePins inv in simp_all)
next
  case (Unlock p)
  show ?thesis
  proof (cases "phase_of w p")
    case Releasing
    with Unlock inv show ?thesis by (fastforce simp: pins_inv_def)
  qed (use Unlock inv in simp_all)
next
  case (Ask p)
  with inv show ?thesis by (auto simp: pins_inv_def split: phase.splits)
next
  case (Answer p path)
  with inv show ?thesis by (auto simp: pins_inv_def split: phase.splits)
qed

lemma pins_inv_run:
  assumes codec: "codec dec enc" and wf: "bt_wf m0"
  shows "pins_inv dec m0 w \<Longrightarrow> lock_respected dec enc w es \<Longrightarrow> pins_inv dec m0 (pins_run dec enc w es)"
proof (induction es arbitrary: w)
  case Nil
  then show ?case by (simp add: pins_run_def)
next
  case (Cons e es)
  from Cons.prems have "pins_inv dec m0 (pins_step dec enc w e)"
    by (intro pins_inv_step [OF codec wf]) simp_all
  with Cons.IH [of "pins_step dec enc w e"] Cons.prems(2) show ?case by (simp add: pins_run_def)
qed

lemma pins_inv_start: "read_file dec file = Inr m0 \<Longrightarrow> pins_inv dec m0 (pins_start file)"
  by (simp add: pins_inv_def pins_start_def)

definition plain_io :: "nat \<Rightarrow> io_plan" where
  "plain_io t = \<lparr>io_mkdir = True, io_write = True, io_rename = True, io_stamp = (t, 100)\<rparr>"

text \<open>Two processes pin and unpin at the same time; the second finds the lock held first.\<close>

definition two_writers :: "pins_event list" where
  "two_writers =
     [Call 1 (PinSet ''/Docs/'' True), Call 2 (PinSet ''x'' False), TryLock 1 0, TryLock 2 1, ReadPins 1,
      WritePins 1 (plain_io 5), Unlock 1, TryLock 2 9, ReadPins 2, WritePins 2 (plain_io 9), Unlock 2]"

text \<open>
  C23. No change is lost. However the operations of any number of processes interleave, as
  long as no holder outstays the staleness limit of the lock, the file always reads as
  the starting pins with every committed operation applied, in the order of the commits,
  each exactly once; and at most one process is between taking the lock and releasing it.
\<close>

theorem no_pin_change_is_lost:
  assumes "codec dec enc" and "read_file dec file = Inr m0"
    and "lock_respected dec enc (pins_start file) es"
  shows "read_file dec (wo_file (pins_run dec enc (pins_start file) es)) =
      Inr (edits (wo_log (pins_run dec enc (pins_start file) es)) m0) \<and>
    (\<forall>p q. holds_lock (phase_of (pins_run dec enc (pins_start file) es) p) \<and>
       holds_lock (phase_of (pins_run dec enc (pins_start file) es) q) \<longrightarrow> p = q)"
proof -
  have "pins_inv dec m0 (pins_run dec enc (pins_start file) es)"
    using assms by (intro pins_inv_run pins_inv_start read_file_wf [OF assms(2)])
  then show ?thesis by (fastforce simp: pins_inv_def)
qed

lemma no_pin_change_is_lost_witness:
  "read_file Some (wo_file (pins_run Some (\<lambda>d. d) (pins_start NoFile) two_writers)) =
     Inr [(''Docs'', True), (''x'', False)]"
proof -
  have r: "lock_respected Some (\<lambda>d. d) (pins_start NoFile) two_writers"
    by (simp add: two_writers_def pins_start_def finds_stale_def stale_def stale_after_def set_phase_def set_cache_def
        lock_tries_def lock_round_def write_file_def plain_io_def)
  have l: "wo_log (pins_run Some (\<lambda>d. d) (pins_start NoFile) two_writers) = [PinSet ''/Docs/'' True, PinSet ''x'' False]"
    by (simp add: two_writers_def pins_start_def stale_def stale_after_def set_phase_def set_cache_def pins_run_def
        lock_tries_def lock_round_def write_file_def plain_io_def document_of_def)
  have e: "edits [PinSet ''/Docs/'' True, PinSet ''x'' False] [] = [(''Docs'', True), (''x'', False)]" by code_simp
  have c: "codec Some (\<lambda>d. d)" by (simp add: codec_def)
  from no_pin_change_is_lost [OF c, of NoFile "[]" two_writers] r l e show ?thesis by simp
qed

section \<open>Readers see the file\<close>

definition write_stamps :: "pins_event list \<Rightarrow> stamp list" where
  "write_stamps es = concat (map (\<lambda>e. case e of WritePins _ io \<Rightarrow> [io_stamp io] | _ \<Rightarrow> []) es)"

text \<open>The stamps a world may know of, and what a cached map with the file's stamp means.\<close>

definition cache_inv :: "('t \<Rightarrow> document option) \<Rightarrow> stamp set \<Rightarrow> 't pins_world \<Rightarrow> bool" where
  "cache_inv dec seen w \<longleftrightarrow>
     (\<forall>s. stamp_of (wo_file w) = Some s \<longrightarrow> s \<in> seen) \<and>
     (\<forall>p s. ca_stamp (cache_of w p) = Some s \<longrightarrow> s \<in> seen) \<and>
     (\<forall>p s. phase_of w p = Asking (Some s) \<longrightarrow> s \<in> seen) \<and>
     (\<forall>p op m. phase_of w p = Writing op m \<longrightarrow> bt_wf m) \<and>
     (\<forall>p. ca_loaded (cache_of w p) \<and> ca_stamp (cache_of w p) = stamp_of (wo_file w) \<longrightarrow>
        read_file dec (wo_file w) = Inr (ca_map (cache_of w p)))"

lemma cache_inv_mono: "cache_inv dec seen w \<Longrightarrow> seen \<subseteq> seen' \<Longrightarrow> cache_inv dec seen' w"
  unfolding cache_inv_def by blast

lemma with_map_cases:
  obtains (hit) "ca_loaded c" "ca_stamp c = stamp" "with_map dec stamp file c f = (c, Inr (f (ca_map c)))"
  | (unreadable) e where "read_file dec file = Inl e" "with_map dec stamp file c f = (c, Inl e)"
  | (loaded) m where "read_file dec file = Inr m"
      "with_map dec stamp file c f = (c\<lparr>ca_map := m, ca_stamp := stamp, ca_loaded := True\<rparr>, Inr (f m))"
  by (cases "ca_loaded c \<and> ca_stamp c = stamp"; cases "read_file dec file") (auto simp: with_map_def)

lemma cache_inv_step:
  assumes codec: "codec dec enc"
    and inv: "cache_inv dec seen w" and fresh: "\<And>p io. e = WritePins p io \<Longrightarrow> io_stamp io \<notin> seen"
  shows "cache_inv dec (seen \<union> set (write_stamps [e])) (pins_step dec enc w e)"
proof (cases e)
  case (WritePins p io)
  show ?thesis
  proof (cases "phase_of w p")
    case (Writing op m)
    have "read_file dec (PinsFile (io_stamp io) (enc (document_of m))) = Inr m"
      using inv Writing by (intro read_written codec) (auto simp: cache_inv_def)
    moreover have "ca_stamp (cache_of w q) \<noteq> Some (io_stamp io)" for q
      using inv fresh [OF WritePins] unfolding cache_inv_def by blast
    ultimately show ?thesis
      using WritePins Writing inv
      by (auto simp: write_file_def cache_inv_def Let_def write_stamps_def)
  qed (use WritePins inv in \<open>auto intro: cache_inv_mono\<close>)
next
  case (Answer p path)
  have e: "write_stamps [e] = []" using Answer by (simp add: write_stamps_def)
  show ?thesis
  proof (cases "phase_of w p")
    case (Asking st)
    show ?thesis
    proof (cases rule: with_map_cases [of "cache_of w p" st dec "wo_file w" "\<lambda>m. covers m (trim_slashes path)"])
      case hit
      with Answer Asking inv e show ?thesis by (auto simp: cache_inv_def)
    next
      case (unreadable e')
      with Answer Asking inv e show ?thesis by (auto simp: cache_inv_def)
    next
      case (loaded m)
      with Answer Asking inv e show ?thesis by (auto simp: cache_inv_def)
    qed
  qed (use Answer inv e in simp_all)
next
  case (TryLock p now)
  then show ?thesis
    using inv by (auto simp: cache_inv_def write_stamps_def split: phase.splits prod.splits bool.splits)
next
  case (ReadPins p)
  show ?thesis
  proof (cases "phase_of w p")
    case (Reading op)
    with ReadPins inv show ?thesis
      by (cases "read_file dec (wo_file w)") (auto simp: cache_inv_def write_stamps_def dest: read_file_wf)
  qed (use ReadPins inv in \<open>simp_all add: write_stamps_def\<close>)
qed (use inv in \<open>auto simp: cache_inv_def write_stamps_def split: phase.splits\<close>)

lemma cache_inv_run:
  assumes "codec dec enc"
  shows "cache_inv dec seen w \<Longrightarrow> distinct (write_stamps es) \<Longrightarrow> set (write_stamps es) \<inter> seen = {} \<Longrightarrow>
    cache_inv dec (seen \<union> set (write_stamps es)) (pins_run dec enc w es)"
proof (induction es rule: rev_induct)
  case Nil
  then show ?case by (simp add: pins_run_def write_stamps_def)
next
  case (snoc e es)
  have app: "write_stamps (es @ [e]) = write_stamps es @ write_stamps [e]" by (simp add: write_stamps_def)
  with snoc have inv: "cache_inv dec (seen \<union> set (write_stamps es)) (pins_run dec enc w es)"
    by auto
  have "cache_inv dec (seen \<union> set (write_stamps es) \<union> set (write_stamps [e])) (pins_step dec enc (pins_run dec enc w es) e)"
  proof (rule cache_inv_step [OF assms inv])
    fix p io
    assume "e = WritePins p io"
    then have "write_stamps [e] = [io_stamp io]" by (simp add: write_stamps_def)
    with snoc.prems(2,3) app show "io_stamp io \<notin> seen \<union> set (write_stamps es)" by auto
  qed
  then show ?case unfolding app pins_run_snoc set_append by (simp only: Un_assoc)
qed

lemma cache_inv_start: "cache_inv dec (set_option (stamp_of file)) (pins_start file)"
  by (simp add: cache_inv_def pins_start_def empty_cache_def)


text \<open>A reader takes the stamp, a writer commits, and only then the reader reads.\<close>

definition overtaken_reader :: "pins_event list" where
  "overtaken_reader =
     [Call 1 (PinSet ''a'' True), Ask 2, TryLock 1 0, ReadPins 1, WritePins 1 (plain_io 5), Answer 2 ''a'', Unlock 1,
      Call 1 (PinRemove ''a''), TryLock 1 6, ReadPins 1, WritePins 1 (plain_io 9), Unlock 1]"


end
