(* ===== verification/Core_Storage.thy ===== *)
theory Core_Storage
  imports Prelude "HOL-Library.Sublist"
begin

text \<open>
  Where the state database may live (\<open>crates/wusel-core/src/storage.rs\<close>): the file system type
  at a path, read from the text of \<open>/proc/self/mounts\<close>, and the decision between the nominal
  place, a local fallback and staying put with a warning. A character is a Unicode scalar
  value below 256. A path is its text; \<open>components\<close> is what \<open>Path::components\<close> makes of it.
  The texts of the proc files are arguments, absent when they cannot be read.
\<close>

section \<open>Text\<close>

definition network_filesystems :: "string list" where
  "network_filesystems =
     [''nfs'', ''nfs4'', ''cifs'', ''smbfs'', ''smb3'', ''afs'', ''ncpfs'', ''afpfs'', ''9p'', ''lustre'', ''beegfs'',
      ''glusterfs'', ''ceph'', ''davfs'', ''fuse.sshfs'', ''fuse.davfs2'', ''fuse.rclone'', ''fuse.s3fs'',
      ''fuse.gcsfuse'', ''fuse.glusterfs'', ''fuse.cephfs'', ''fuse.wusel'']"

definition is_network_fs :: "string \<Rightarrow> bool" where
  "is_network_fs fstype \<longleftrightarrow> fstype \<in> set network_filesystems"

text \<open>\<open>str::lines\<close>, \<open>str::split_whitespace\<close> and splitting at a separator.\<close>

definition newline :: char where "newline = char_of (10 :: nat)"

definition return :: char where "return = char_of (13 :: nat)"

definition is_whitespace :: "char \<Rightarrow> bool" where
  "is_whitespace c \<longleftrightarrow> of_char c \<in> {9 :: nat, 10, 11, 12, 13, 32, 133, 160}"

definition strip_return :: "string \<Rightarrow> string" where
  "strip_return l = (if l \<noteq> [] \<and> last l = return then butlast l else l)"

fun text_lines :: "string \<Rightarrow> string \<Rightarrow> string list" where
  "text_lines cur [] = (if cur = [] then [] else [rev cur])"
| "text_lines cur (c # cs) =
     (if c = newline then strip_return (rev cur) # text_lines [] cs else text_lines (c # cur) cs)"

fun words_from :: "string \<Rightarrow> string \<Rightarrow> string list" where
  "words_from cur [] = (if cur = [] then [] else [rev cur])"
| "words_from cur (c # cs) =
     (if is_whitespace c then (if cur = [] then words_from [] cs else rev cur # words_from [] cs)
      else words_from (c # cur) cs)"

definition split_whitespace :: "string \<Rightarrow> string list" where
  "split_whitespace s = words_from [] s"

fun split_slash :: "string \<Rightarrow> string \<Rightarrow> string list" where
  "split_slash cur [] = [rev cur]"
| "split_slash cur (c # cs) = (if c = CHR ''/'' then rev cur # split_slash [] cs else split_slash (c # cur) cs)"

definition components :: "string \<Rightarrow> string list" where
  "components p =
     (let segs = split_slash [] p;
          rest = filter (\<lambda>s. s \<noteq> '''' \<and> s \<noteq> ''.'') segs
      in if p \<noteq> [] \<and> hd p = CHR ''/'' then ''/'' # rest
         else if hd segs = ''.'' then ''.'' # rest
         else rest)"

definition path_starts_with :: "string \<Rightarrow> string \<Rightarrow> bool" where
  "path_starts_with p q \<longleftrightarrow> prefix (components q) (components p)"

section \<open>The mount table\<close>

definition octal_digit :: "char \<Rightarrow> nat option" where
  "octal_digit c = (let n = of_char c in if 48 \<le> n \<and> n \<le> 55 then Some (n - 48) else None)"

text \<open>\<open>u8::from_str_radix(_, 8)\<close> of three characters: an optional sign, digits, at most 255.\<close>

definition parse_octal3 :: "char \<Rightarrow> char \<Rightarrow> char \<Rightarrow> nat option" where
  "parse_octal3 a b c =
     (case (octal_digit b, octal_digit c) of
        (Some y, Some z) \<Rightarrow>
          (if a = CHR ''+'' then Some (8 * y + z)
           else
             (case octal_digit a of
                Some x \<Rightarrow> (if 64 * x + 8 * y + z < 256 then Some (64 * x + 8 * y + z) else None)
              | None \<Rightarrow> None))
      | _ \<Rightarrow> None)"

fun unescape :: "string \<Rightarrow> string" where
  "unescape [] = []"
| "unescape (c # cs) =
     (if c \<noteq> CHR 0x5C then c # unescape cs
      else
        case cs of
          x # y # z # rest \<Rightarrow>
            (case parse_octal3 x y z of
               Some byte \<Rightarrow> char_of byte # unescape rest
             | None \<Rightarrow> CHR 0x5C # unescape cs)
        | _ \<Rightarrow> CHR 0x5C # unescape cs)"

definition mount_entry :: "string \<Rightarrow> (string \<times> string) option" where
  "mount_entry line =
     (case split_whitespace line of
        dev # point # fstype # _ \<Rightarrow> Some (unescape point, fstype)
      | _ \<Rightarrow> None)"

definition fstype_step :: "string \<Rightarrow> (nat \<times> string) option \<Rightarrow> string \<Rightarrow> (nat \<times> string) option" where
  "fstype_step path best line =
     (case mount_entry line of
        None \<Rightarrow> best
      | Some (point, fstype) \<Rightarrow>
          if \<not> path_starts_with path point then best
          else
            let depth = length (components point) in
            if (case best of None \<Rightarrow> True | Some (d, _) \<Rightarrow> depth > d) then Some (depth, unescape fstype) else best)"

definition fstype_at :: "string \<Rightarrow> string \<Rightarrow> string option" where
  "fstype_at path mounts = map_option snd (foldl (fstype_step path) None (text_lines [] mounts))"

section \<open>The decision\<close>

datatype db_location =
    Local string
  | Relocated string string string
  | Risky string string

fun db_path :: "db_location \<Rightarrow> string" where
  "db_path (Local p) = p"
| "db_path (Risky p _) = p"
| "db_path (Relocated _ to _) = to"

definition resolve :: "string \<Rightarrow> string option \<Rightarrow> string option \<Rightarrow> string option \<Rightarrow> db_location" where
  "resolve nominal configured fallback mounts =
     (let path = (case configured of Some p \<Rightarrow> p | None \<Rightarrow> nominal) in
      case mounts of
        None \<Rightarrow> Local path
      | Some mounts \<Rightarrow>
          (case fstype_at path mounts of
             None \<Rightarrow> Local path
           | Some fstype \<Rightarrow>
               if \<not> is_network_fs fstype then Local path
               else if configured \<noteq> None then Risky path fstype
               else
                 case fallback of
                   Some to \<Rightarrow>
                     (if (case fstype_at to mounts of None \<Rightarrow> True | Some t \<Rightarrow> \<not> is_network_fs t)
                      then Relocated path to fstype else Risky path fstype)
                 | None \<Rightarrow> Risky path fstype))"

definition uid :: "string option \<Rightarrow> string option" where
  "uid status =
     (case status of
        None \<Rightarrow> None
      | Some status \<Rightarrow>
          (case find (\<lambda>l. prefix ''Uid:'' l) (text_lines [] status) of
             None \<Rightarrow> None
           | Some line \<Rightarrow>
               (case split_whitespace line of
                  _ # real # _ \<Rightarrow> (if list_all (\<lambda>c. of_char c \<in> {48 :: nat..57}) real then Some real else None)
                | _ \<Rightarrow> None)))"

definition fallback_dir :: "string option \<Rightarrow> string \<Rightarrow> string option" where
  "fallback_dir status account =
     map_option
       (\<lambda>uid. if account \<noteq> [] \<and> hd account = CHR ''/'' then account else ''/var/tmp/wusel-'' @ uid @ ''/'' @ account)
       (uid status)"

section \<open>What the mount table says\<close>

definition mount_entries :: "string list \<Rightarrow> (string \<times> string) list" where
  "mount_entries ls = List.map_filter mount_entry ls"

definition holds :: "string \<Rightarrow> string \<times> string \<Rightarrow> bool" where
  "holds path e \<longleftrightarrow> path_starts_with path (fst e)"

definition depth :: "string \<times> string \<Rightarrow> nat" where
  "depth e = length (components (fst e))"

text \<open>The first of the deepest entries that hold the path.\<close>

definition first_deepest :: "string \<Rightarrow> (string \<times> string) list \<Rightarrow> string \<times> string \<Rightarrow> bool" where
  "first_deepest path es e \<longleftrightarrow>
     (\<exists>before after. es = before @ e # after \<and> holds path e \<and>
        (\<forall>f \<in> set before. holds path f \<longrightarrow> depth f < depth e) \<and>
        (\<forall>f \<in> set after. holds path f \<longrightarrow> depth f \<le> depth e))"

lemma mount_entries_simps [simp]:
  "mount_entries [] = []" "mount_entries (ls @ [l]) = mount_entries ls @ (case mount_entry l of None \<Rightarrow> [] | Some e \<Rightarrow> [e])"
  by (simp_all add: mount_entries_def List.map_filter_def split: option.split)

lemma first_deepest_snoc:
  assumes "first_deepest path es e" and "holds path f \<Longrightarrow> depth f \<le> depth e"
  shows "first_deepest path (es @ [f]) e"
proof -
  obtain before after where "es = before @ e # after" "holds path e"
      "\<forall>f \<in> set before. holds path f \<longrightarrow> depth f < depth e" "\<forall>f \<in> set after. holds path f \<longrightarrow> depth f \<le> depth e"
    using assms(1) by (auto simp: first_deepest_def)
  then show ?thesis unfolding first_deepest_def using assms(2)
    by (intro exI [of _ before] exI [of _ "after @ [f]"]) auto
qed

lemma first_deepest_new:
  assumes "holds path f" and "\<And>e. e \<in> set es \<Longrightarrow> holds path e \<Longrightarrow> depth e < depth f"
  shows "first_deepest path (es @ [f]) f"
  unfolding first_deepest_def using assms by (intro exI [of _ es] exI [of _ "[]"]) auto

lemma first_deepest_bounds:
  assumes "first_deepest path es e" and "f \<in> set es" and "holds path f"
  shows "depth f \<le> depth e"
  using assms unfolding first_deepest_def by (fastforce intro: less_imp_le)

lemma fstype_step_entry:
  "fstype_step path best l =
    (case mount_entry l of
       None \<Rightarrow> best
     | Some f \<Rightarrow>
         if holds path f \<and> (case best of None \<Rightarrow> True | Some (d, _) \<Rightarrow> depth f > d) then Some (depth f, unescape (snd f))
         else best)"
  by (auto simp: fstype_step_def holds_def depth_def Let_def split: option.split)

definition best_so_far :: "string \<Rightarrow> (string \<times> string) list \<Rightarrow> (nat \<times> string) option \<Rightarrow> bool" where
  "best_so_far path es best \<longleftrightarrow>
     (case best of
        None \<Rightarrow> \<forall>e \<in> set es. \<not> holds path e
      | Some (d, t) \<Rightarrow> \<exists>e. first_deepest path es e \<and> d = depth e \<and> t = unescape (snd e))"

lemma best_so_far_Some:
  "first_deepest path es e \<Longrightarrow> best_so_far path es (Some (depth e, unescape (snd e)))"
  unfolding best_so_far_def by (simp only: option.case prod.case) blast

lemma best_so_far_step:
  assumes "best_so_far path es best"
  shows "best_so_far path (es @ [f])
    (if holds path f \<and> (case best of None \<Rightarrow> True | Some (d, _) \<Rightarrow> depth f > d) then Some (depth f, unescape (snd f))
     else best)"
proof (cases best)
  case None
  with assms have none: "\<forall>e \<in> set es. \<not> holds path e" by (simp add: best_so_far_def)
  show ?thesis
  proof (cases "holds path f")
    case True
    with none have "first_deepest path (es @ [f]) f" by (intro first_deepest_new) simp_all
    with True None show ?thesis by (simp add: best_so_far_Some)
  next
    case False
    with None none show ?thesis by (simp add: best_so_far_def)
  qed
next
  case (Some b)
  obtain d t where dt: "b = (d, t)" by (cases b)
  with assms Some obtain e where e: "first_deepest path es e" "d = depth e" "t = unescape (snd e)"
    by (auto simp: best_so_far_def)
  show ?thesis
  proof (cases "holds path f \<and> depth f > d")
    case True
    then have "first_deepest path (es @ [f]) f"
      using first_deepest_bounds [OF e(1)] e(2) by (intro first_deepest_new) (auto dest: le_less_trans)
    with True Some dt show ?thesis by (simp add: best_so_far_Some)
  next
    case False
    then have "first_deepest path (es @ [f]) e"
      using e by (intro first_deepest_snoc) auto
    from best_so_far_Some [OF this] False Some dt e show ?thesis by auto
  qed
qed

lemma fstype_fold: "best_so_far path (mount_entries ls) (foldl (fstype_step path) None ls)"
proof (induction ls rule: rev_induct)
  case Nil
  then show ?case by (simp add: best_so_far_def)
next
  case (snoc l ls)
  show ?case
  proof (cases "mount_entry l")
    case None
    with snoc.IH show ?thesis by (simp add: fstype_step_entry [of path _ l])
  next
    case (Some f)
    with best_so_far_step [OF snoc.IH, of f] show ?thesis by (simp add: fstype_step_entry [of path _ l])
  qed
qed

text \<open>
  The type reported for a path is that of the mount that lies deepest on the way to it,
  the first one listed when several are equally deep, and there is an answer exactly when
  some listed mount holds the path. Malformed lines are passed over.
\<close>

theorem fstype_of_deepest_mount:
  "(fstype_at path mounts = None \<longleftrightarrow> (\<forall>e \<in> set (mount_entries (text_lines [] mounts)). \<not> holds path e)) \<and>
   (\<forall>t. fstype_at path mounts = Some t \<longrightarrow>
      (\<exists>e. first_deepest path (mount_entries (text_lines [] mounts)) e \<and> t = unescape (snd e)))"
proof (cases "foldl (fstype_step path) None (text_lines [] mounts)")
  case None
  with fstype_fold [of path "text_lines [] mounts"] show ?thesis by (simp add: fstype_at_def best_so_far_def)
next
  case (Some best)
  obtain d t where dt: "best = (d, t)" by (cases best)
  with Some fstype_fold [of path "text_lines [] mounts"]
  obtain e where e: "first_deepest path (mount_entries (text_lines [] mounts)) e" "t = unescape (snd e)"
    by (auto simp: best_so_far_def)
  then have "\<exists>e \<in> set (mount_entries (text_lines [] mounts)). holds path e"
    by (auto simp: first_deepest_def)
  moreover have "fstype_at path mounts = Some (unescape (snd e))" using Some dt e by (simp add: fstype_at_def)
  ultimately show ?thesis using e(1) by (simp only: option.simps) blast
qed

definition nl :: string where "nl = [newline]"

definition plain_mounts :: string where
  "plain_mounts = ''/dev/sda1 / ext4 rw 0 0'' @ nl @ ''srv:/home /home nfs4 rw 0 0'' @ nl @ ''broken'' @ nl"

lemma fstype_of_deepest_mount_witness:
  "fstype_at ''/home/u/state.db'' plain_mounts = Some ''nfs4'' \<and>
   (\<exists>e. first_deepest ''/home/u/state.db'' (mount_entries (text_lines [] plain_mounts)) e \<and> ''nfs4'' = unescape (snd e))"
proof -
  have "fstype_at ''/home/u/state.db'' plain_mounts = Some ''nfs4''" by code_simp
  with fstype_of_deepest_mount [of "''/home/u/state.db''" plain_mounts] show ?thesis by blast
qed

definition automounted_home :: string where
  "automounted_home = ''/dev/sda1 / ext4 rw 0 0'' @ nl @ ''auto.direct /home/u autofs rw 0 0'' @ nl @
     ''srv:/export/u /home/u nfs4 rw 0 0'' @ nl"

text \<open>
  The mount that hides another is not seen. The kernel lists mounts in the order they
  were made, so of two mounts on one directory the later one holds the files; the scan
  keeps the first. A home directory that an automounter triggers and an NFS server then
  provides reads as an automounter, which is not on the list of network file systems, and
  the database stays on NFS without a word.
\<close>

theorem stacked_mount_is_misread:
  "fstype_at ''/home/u/state.db'' automounted_home = Some ''autofs'' \<and>
   resolve ''/home/u/state.db'' None (Some ''/var/tmp/wusel-1000/a'') (Some automounted_home) = Local ''/home/u/state.db'' \<and>
   is_network_fs ''nfs4''"
proof -
  have f: "fstype_at ''/home/u/state.db'' automounted_home = Some ''autofs''" by code_simp
  have "\<not> is_network_fs ''autofs''" "is_network_fs ''nfs4''" by code_simp+
  with f show ?thesis by (simp add: resolve_def)
qed

section \<open>Where the database goes\<close>

definition on_network :: "string \<Rightarrow> string \<Rightarrow> bool" where
  "on_network mounts p \<longleftrightarrow> (case fstype_at p mounts of Some t \<Rightarrow> is_network_fs t | None \<Rightarrow> False)"

text \<open>
  The database never sits on a network file system unannounced, and a chosen place is
  kept. The quiet answer is given only for a path that is not on one; a relocation happens
  only from one, only to a place that is not on one, and never against a configured path;
  and whatever the mount table says a configured path is the one that is opened.
\<close>

theorem database_place_is_announced:
  "(case resolve nominal configured fallback (Some mounts) of
      Local p \<Rightarrow> \<not> on_network mounts p \<and> p = (case configured of Some c \<Rightarrow> c | None \<Rightarrow> nominal)
    | Relocated src to t \<Rightarrow> configured = None \<and> src = nominal \<and> fallback = Some to \<and>
        fstype_at src mounts = Some t \<and> is_network_fs t \<and> \<not> on_network mounts to
    | Risky p t \<Rightarrow> fstype_at p mounts = Some t \<and> is_network_fs t \<and>
        (configured = Some p \<or> p = nominal \<and> (fallback = None \<or> (\<exists>to. fallback = Some to \<and> on_network mounts to)))) \<and>
   (\<forall>c. configured = Some c \<longrightarrow> db_path (resolve nominal configured fallback mounts') = c)"
  by (auto simp: resolve_def on_network_def Let_def split: option.splits if_splits)

lemma database_place_is_announced_witness:
  "db_path (resolve ''/home/u/a.db'' (Some ''/home/u/b.db'') (Some ''/var/tmp/x'') (Some plain_mounts)) = ''/home/u/b.db'' \<and>
   resolve ''/home/u/a.db'' None (Some ''/var/tmp/x'') (Some plain_mounts) =
     Relocated ''/home/u/a.db'' ''/var/tmp/x'' ''nfs4'' \<and> \<not> on_network plain_mounts ''/var/tmp/x''"
proof -
  have r: "resolve ''/home/u/a.db'' None (Some ''/var/tmp/x'') (Some plain_mounts) =
      Relocated ''/home/u/a.db'' ''/var/tmp/x'' ''nfs4''"
    by code_simp
  have "\<not> on_network plain_mounts ''/var/tmp/x''"
    using database_place_is_announced
      [where nominal = "''/home/u/a.db''" and configured = None and fallback = "Some ''/var/tmp/x''" and mounts = plain_mounts] r by simp
  moreover have "db_path (resolve ''/home/u/a.db'' (Some ''/home/u/b.db'') (Some ''/var/tmp/x'') (Some plain_mounts)) = ''/home/u/b.db''"
    using database_place_is_announced
      [where nominal = "''/home/u/a.db''" and configured = "Some ''/home/u/b.db''" and fallback = "Some ''/var/tmp/x''"
        and mounts' = "Some plain_mounts"]
    by blast
  ultimately show ?thesis using r by simp
qed

section \<open>The kernel's escapes\<close>

text \<open>How the kernel writes a field: a backslash and three octal digits for what would break the columns.\<close>

definition octal3 :: "nat \<Rightarrow> string" where
  "octal3 n = [''01234567'' ! (n div 64 mod 8), ''01234567'' ! (n div 8 mod 8), ''01234567'' ! (n mod 8)]"

definition kernel_escape :: "(char \<Rightarrow> bool) \<Rightarrow> string \<Rightarrow> string" where
  "kernel_escape special s =
     concat (map (\<lambda>c. if special c \<or> c = CHR 0x5C then CHR 0x5C # octal3 (of_char c) else [c]) s)"

lemma octal_digit_nth: "n < 8 \<Longrightarrow> octal_digit (''01234567'' ! n) = Some n \<and> ''01234567'' ! n \<noteq> CHR ''+''"
proof -
  assume "n < 8"
  then have "n = 0 \<or> n = 1 \<or> n = 2 \<or> n = 3 \<or> n = 4 \<or> n = 5 \<or> n = 6 \<or> n = 7" by presburger
  then show ?thesis by (elim disjE) (simp_all add: octal_digit_def)
qed

lemma parse_octal3:
  assumes "n < 256"
  shows "\<exists>x y z. octal3 n = [x, y, z] \<and> parse_octal3 x y z = Some n"
proof -
  have a: "n div 64 mod 8 = n div 8 div 8" using assms by (simp add: div_mult2_eq [symmetric] less_mult_imp_div_less)
  have "n = 8 * (n div 8) + n mod 8" "n div 8 = 8 * (n div 8 div 8) + n div 8 mod 8" by simp_all
  then have "64 * (n div 64 mod 8) + 8 * (n div 8 mod 8) + n mod 8 = n" unfolding a by linarith
  then show ?thesis
    using assms octal_digit_nth [of "n div 64 mod 8"] octal_digit_nth [of "n div 8 mod 8"] octal_digit_nth [of "n mod 8"]
    by (simp add: octal3_def parse_octal3_def)
qed

lemma unescape_escape: "unescape (kernel_escape special s) = s"
proof (induction s)
  case Nil
  then show ?case by (simp add: kernel_escape_def)
next
  case (Cons c s)
  have "of_char c < (256 :: nat)" by (metis of_char_mod_256 mod_less_divisor zero_less_numeral)
  from parse_octal3 [OF this] obtain x y z where o: "octal3 (of_char c) = [x, y, z]" "parse_octal3 x y z = Some (of_char c)"
    by blast
  with Cons show ?case by (simp add: kernel_escape_def)
qed

text \<open>
  The escapes of the mount table are undone: whatever set of characters the kernel
  chooses to write as octal escapes, the backslash among them, a field comes back as it
  was, so a mount point with blanks is compared under its real name.
\<close>

theorem mount_field_round_trip: "unescape (kernel_escape special s) = s"
  by (rule unescape_escape)

end
