(* ===== verification/Core_State.thy ===== *)
theory Core_State
  imports Ordered_Map Core_Paths
begin

text \<open>
  The local state (\<open>crates/wusel-core/src/state.rs\<close>): the table of nodes that maps inodes to
  paths and caches what the server said, and the table of uploads still owed. A table is an
  ordered map from its integer primary key; SQLite is a library, so a statement is modelled
  by what its SQL says: the rows it touches, the constraints of the schema (unique paths,
  unique names in a directory) checked where it changes a constrained column, an insert
  taking one more than the largest row id. A transaction that fails leaves nothing. Loops that
  follow the parent links are partial functions: \<open>None\<close> would be a loop that never returns.
  Inodes are natural numbers; the clock is an argument.
\<close>

section \<open>The tables\<close>

type_synonym inode = nat

definition root_inode :: inode where "root_inode = 1"

record remote_entry =
  rem_path :: string
  rem_is_dir :: bool
  rem_size :: u64
  rem_etag :: string
  rem_mtime :: int
  rem_file_id :: "u64 option"
  rem_permissions :: string
  rem_mount_type :: string
  rem_is_mount_root :: bool

record node =
  nd_parent :: inode
  nd_name :: string
  nd_path :: string
  nd_is_dir :: bool
  nd_size :: u64
  nd_etag :: string
  nd_mtime :: int
  nd_file_id :: "u64 option"
  nd_permissions :: string
  nd_group_root :: bool
  nd_exec :: bool
  nd_children_loaded :: bool
  nd_loaded_at :: int

datatype upload_state = UploadPending | UploadUploading | UploadError

fun upload_state_str :: "upload_state \<Rightarrow> string" where
  "upload_state_str UploadPending = ''pending''"
| "upload_state_str UploadUploading = ''uploading''"
| "upload_state_str UploadError = ''error''"

definition upload_state_of :: "string \<Rightarrow> upload_state" where
  "upload_state_of s =
     (if s = ''uploading'' then UploadUploading else if s = ''error'' then UploadError else UploadPending)"

record upload_row =
  pu_remote_path :: string
  pu_base_etag :: string
  pu_mtime :: "int option"
  pu_state :: string
  pu_attempts :: nat
  pu_last_error :: "string option"

text \<open>The row as the rest of the code reads it.\<close>

record pending_upload =
  pend_object :: inode
  pend_remote_path :: string
  pend_base_etag :: string
  pend_mtime :: "int option"
  pend_state :: upload_state
  pend_attempts :: u32
  pend_last_error :: "string option"

definition pending_from_row :: "inode \<times> upload_row \<Rightarrow> pending_upload" where
  "pending_from_row = (\<lambda>(i, u).
     \<lparr>pend_object = i, pend_remote_path = pu_remote_path u, pend_base_etag = pu_base_etag u, pend_mtime = pu_mtime u,
      pend_state = upload_state_of (pu_state u), pend_attempts = of_nat (pu_attempts u),
      pend_last_error = pu_last_error u\<rparr>)"

record state_db =
  db_nodes :: "(inode, node) btree_map"
  db_uploads :: "(inode, upload_row) btree_map"

datatype db_error = NoSuchRow | ConstraintFailed | OwnSubtree inode | NodeVanished

text \<open>A statement that may fail, in a loop that may not return.\<close>

type_synonym 'a outcome = "(db_error + 'a) option"

definition and_then :: "'a outcome \<Rightarrow> ('a \<Rightarrow> 'b outcome) \<Rightarrow> 'b outcome" where
  "and_then x f = (case x of None \<Rightarrow> None | Some (Inl e) \<Rightarrow> Some (Inl e) | Some (Inr a) \<Rightarrow> f a)"

definition new_node :: "inode \<Rightarrow> string \<Rightarrow> string \<Rightarrow> bool \<Rightarrow> node" where
  "new_node parent name path is_dir =
     \<lparr>nd_parent = parent, nd_name = name, nd_path = path, nd_is_dir = is_dir, nd_size = 0, nd_etag = '''',
      nd_mtime = 0, nd_file_id = None, nd_permissions = '''', nd_group_root = False, nd_exec = False,
      nd_children_loaded = False, nd_loaded_at = 0\<rparr>"

definition init_schema :: state_db where
  "init_schema = \<lparr>db_nodes = [(root_inode, new_node root_inode '''' '''' True)], db_uploads = []\<rparr>"

section \<open>Statements\<close>

abbreviation node_by_inode :: "state_db \<Rightarrow> inode \<Rightarrow> node option" where
  "node_by_inode db i \<equiv> bt_get (db_nodes db) i"

definition put_node :: "inode \<Rightarrow> node \<Rightarrow> state_db \<Rightarrow> state_db" where
  "put_node i n db = db\<lparr>db_nodes := bt_insert i n (db_nodes db)\<rparr>"

text \<open>An update of columns no constraint mentions; a missing row is no error.\<close>

definition update_row :: "inode \<Rightarrow> (node \<Rightarrow> node) \<Rightarrow> state_db \<Rightarrow> state_db" where
  "update_row i f db = (case node_by_inode db i of None \<Rightarrow> db | Some n \<Rightarrow> put_node i (f n) db)"

definition row_conflict :: "state_db \<Rightarrow> inode \<Rightarrow> node \<Rightarrow> bool" where
  "row_conflict db i n \<longleftrightarrow>
     list_ex (\<lambda>(j, m). j \<noteq> i \<and> (nd_path m = nd_path n \<or> nd_parent m = nd_parent n \<and> nd_name m = nd_name n)) (db_nodes db)"

definition update_keys :: "inode \<Rightarrow> (node \<Rightarrow> node) \<Rightarrow> state_db \<Rightarrow> state_db outcome" where
  "update_keys i f db =
     (case node_by_inode db i of
        None \<Rightarrow> Some (Inr db)
      | Some n \<Rightarrow> if row_conflict db i (f n) then Some (Inl ConstraintFailed) else Some (Inr (put_node i (f n) db)))"

definition next_rowid :: "state_db \<Rightarrow> inode" where
  "next_rowid db = (if db_nodes db = [] then 1 else Suc (fst (last (db_nodes db))))"

definition insert_row :: "node \<Rightarrow> state_db \<Rightarrow> (state_db \<times> inode) outcome" where
  "insert_row n db =
     (let i = next_rowid db in
      if row_conflict db i n then Some (Inl ConstraintFailed) else Some (Inr (put_node i n db, i)))"

definition join_path :: "string \<Rightarrow> string \<Rightarrow> string" where
  "join_path parent_path name = (if parent_path = '''' then name else parent_path @ ''/'' @ name)"

text \<open>\<open>WHERE parent = ?1 AND inode != ?1\<close>\<close>

definition child_rows :: "state_db \<Rightarrow> inode \<Rightarrow> (inode \<times> node) list" where
  "child_rows db parent = filter (\<lambda>(i, n). nd_parent n = parent \<and> i \<noteq> parent) (db_nodes db)"

definition kids :: "state_db \<Rightarrow> inode \<Rightarrow> inode list" where
  "kids db parent = map fst (child_rows db parent)"

definition children_of :: "state_db \<Rightarrow> inode \<Rightarrow> (inode \<times> node) list" where
  "children_of db parent = child_rows db parent"

definition child_by_name :: "state_db \<Rightarrow> inode \<Rightarrow> string \<Rightarrow> (inode \<times> node) option" where
  "child_by_name db parent name = find (\<lambda>(i, n). nd_name n = name) (child_rows db parent)"

definition node_by_path :: "state_db \<Rightarrow> string \<Rightarrow> (inode \<times> node) option" where
  "node_by_path db path =
     (let path = rev (dropWhile (\<lambda>c. c = CHR ''/'') (rev (dropWhile (\<lambda>c. c = CHR ''/'') path)))
      in find (\<lambda>(i, n). nd_path n = path) (db_nodes db))"

definition node_by_file_id :: "state_db \<Rightarrow> u64 \<Rightarrow> (inode \<times> node) option" where
  "node_by_file_id db fid = find (\<lambda>(i, n). nd_file_id n = Some fid) (db_nodes db)"

definition descendant_file_ids :: "state_db \<Rightarrow> string \<Rightarrow> (string \<times> u64) list" where
  "descendant_file_ids db path =
     (let path = rev (dropWhile (\<lambda>c. c = CHR ''/'') (rev (dropWhile (\<lambda>c. c = CHR ''/'') path)))
      in List.map_filter
           (\<lambda>(i, n).
              case nd_file_id n of
                None \<Rightarrow> None
              | Some fid \<Rightarrow>
                  if path = '''' \<or> nd_path n = path \<or> prefix (path @ ''/'') (nd_path n) then Some (nd_path n, fid) else None)
           (db_nodes db))"

definition children_loaded :: "state_db \<Rightarrow> inode \<Rightarrow> bool" where
  "children_loaded db i = (case node_by_inode db i of None \<Rightarrow> False | Some n \<Rightarrow> nd_children_loaded n)"

definition node_count :: "state_db \<Rightarrow> nat" where
  "node_count db = length (db_nodes db)"

definition node_row_is_writable :: "node \<Rightarrow> bool" where
  "node_row_is_writable n = is_writable (nd_permissions n) (nd_is_dir n)"

text \<open>\<open>dir_needs_reload\<close>; \<open>saturating_sub\<close> on the unsigned reading of a time is written out.\<close>

definition dir_needs_reload :: "state_db \<Rightarrow> u64 \<Rightarrow> inode \<Rightarrow> u64 \<Rightarrow> int \<Rightarrow> u64 \<Rightarrow> bool" where
  "dir_needs_reload db now i ttl_secs invalidate_after push_floor_secs =
     (case node_by_inode db i of
        None \<Rightarrow> True
      | Some n \<Rightarrow>
          if \<not> nd_children_loaded n then True
          else
            let loaded = (word_of_int (nd_loaded_at n) :: u64);
                age = (if loaded \<le> now then now - loaded else 0);
                pushed = (nd_loaded_at n \<le> invalidate_after \<and> push_floor_secs \<le> age)
            in ttl_secs \<le> age \<or> pushed)"

section \<open>Subtrees\<close>

text \<open>The stack of a loop is a list with its top first.\<close>

partial_function (option) collect :: "state_db \<Rightarrow> inode list \<Rightarrow> inode list \<Rightarrow> inode list option" where
  "collect db stack to_delete =
     (case stack of
        [] \<Rightarrow> Some to_delete
      | i # rest \<Rightarrow> collect db (rev (kids db i) @ rest) (to_delete @ [i]))"

declare collect.simps [code]

definition delete_row :: "inode \<Rightarrow> state_db \<Rightarrow> state_db" where
  "delete_row i db = db\<lparr>db_nodes := bt_remove i (db_nodes db), db_uploads := bt_remove i (db_uploads db)\<rparr>"

definition delete_subtree :: "inode \<Rightarrow> state_db \<Rightarrow> (state_db \<times> nat) option" where
  "delete_subtree i db = map_option (\<lambda>is. (fold delete_row is db, length is)) (collect db [i] [])"

definition max_ancestor_walk :: nat where "max_ancestor_walk = 1024"

fun descends_walk :: "nat \<Rightarrow> state_db \<Rightarrow> inode \<Rightarrow> inode \<Rightarrow> bool" where
  "descends_walk 0 db cur ancestor = True"
| "descends_walk (Suc k) db cur ancestor =
     (if cur = ancestor then True
      else
        case node_by_inode db cur of
          Some n \<Rightarrow> if nd_parent n \<noteq> cur then descends_walk k db (nd_parent n) ancestor else False
        | None \<Rightarrow> False)"

definition descends_from :: "state_db \<Rightarrow> inode \<Rightarrow> inode \<Rightarrow> bool" where
  "descends_from db i ancestor = descends_walk max_ancestor_walk db i ancestor"

text \<open>The children of one directory get their new paths; the directories among them are pushed.\<close>

fun rewrite_children :: "string \<Rightarrow> (inode \<times> node) list \<Rightarrow> state_db \<Rightarrow> (inode \<times> string) list \<Rightarrow>
    (state_db \<times> (inode \<times> string) list) outcome" where
  "rewrite_children dir_path [] db stack = Some (Inr (db, stack))"
| "rewrite_children dir_path ((child, n) # rest) db stack =
     (let child_path = dir_path @ ''/'' @ nd_name n in
      and_then (update_keys child (\<lambda>m. m\<lparr>nd_path := child_path\<rparr>) db) (\<lambda>db.
      rewrite_children dir_path rest db (if nd_is_dir n then (child, child_path) # stack else stack)))"

partial_function (option) rewrite_paths :: "state_db \<Rightarrow> (inode \<times> string) list \<Rightarrow> (db_error + state_db) option" where
  "rewrite_paths db stack =
     (case stack of
        [] \<Rightarrow> Some (Inr db)
      | (dir, dir_path) # rest \<Rightarrow>
          (case rewrite_children dir_path (child_rows db dir) db rest of
             None \<Rightarrow> None
           | Some (Inl e) \<Rightarrow> Some (Inl e)
           | Some (Inr (db', stack')) \<Rightarrow> rewrite_paths db' stack'))"

declare rewrite_paths.simps [code]

section \<open>Operations\<close>

definition reconcile_row :: "inode \<Rightarrow> string \<Rightarrow> string \<Rightarrow> remote_entry \<Rightarrow> node" where
  "reconcile_row parent name path c =
     (new_node parent name path (rem_is_dir c))
       \<lparr>nd_size := rem_size c, nd_etag := rem_etag c, nd_mtime := rem_mtime c, nd_file_id := rem_file_id c,
        nd_permissions := rem_permissions c,
        nd_group_root := is_group_folder_root (rem_mount_type c) (rem_is_mount_root c)\<rparr>"

definition refresh_row :: "remote_entry \<Rightarrow> node \<Rightarrow> node" where
  "refresh_row c n =
     n\<lparr>nd_size := rem_size c, nd_etag := rem_etag c, nd_mtime := rem_mtime c, nd_file_id := rem_file_id c,
       nd_permissions := rem_permissions c,
       nd_group_root := is_group_folder_root (rem_mount_type c) (rem_is_mount_root c)\<rparr>"

text \<open>\<open>INSERT ... ON CONFLICT(parent, name) DO UPDATE\<close>\<close>

definition upsert_child :: "inode \<Rightarrow> string \<Rightarrow> string \<Rightarrow> remote_entry \<Rightarrow> state_db \<Rightarrow> state_db outcome" where
  "upsert_child parent name path c db =
     (case find (\<lambda>(i, n). nd_parent n = parent \<and> nd_name n = name) (db_nodes db) of
        Some (i, n) \<Rightarrow> Some (Inr (put_node i (refresh_row c n) db))
      | None \<Rightarrow> map_option (map_sum id fst) (insert_row (reconcile_row parent name path c) db))"

definition reconcile_entry :: "(inode \<Rightarrow> bool) \<Rightarrow> inode \<Rightarrow> string \<Rightarrow> remote_entry \<Rightarrow> state_db \<Rightarrow> state_db outcome" where
  "reconcile_entry protected parent parent_path c db =
     (let name = basename (rem_path c);
          path = (if parent_path = '''' then rem_path c else parent_path @ ''/'' @ name)
      in case child_by_name db parent name of
           None \<Rightarrow> upsert_child parent name path c db
         | Some (i, n) \<Rightarrow>
             if protected i then Some (Inr db)
             else if nd_is_dir n \<noteq> rem_is_dir c then
               (case delete_subtree i db of
                  None \<Rightarrow> None
                | Some (db', _) \<Rightarrow> upsert_child parent name path c db')
             else upsert_child parent name path c db)"

fun reconcile_entries :: "(inode \<Rightarrow> bool) \<Rightarrow> inode \<Rightarrow> string \<Rightarrow> remote_entry list \<Rightarrow> state_db \<Rightarrow> state_db outcome" where
  "reconcile_entries protected parent parent_path [] db = Some (Inr db)"
| "reconcile_entries protected parent parent_path (c # cs) db =
     and_then (reconcile_entry protected parent parent_path c db)
       (reconcile_entries protected parent parent_path cs)"

fun delete_subtrees :: "inode list \<Rightarrow> state_db \<Rightarrow> (state_db \<times> nat) option" where
  "delete_subtrees [] db = Some (db, 0)"
| "delete_subtrees (i # is) db =
     (case delete_subtree i db of
        None \<Rightarrow> None
      | Some (db', k) \<Rightarrow> map_option (\<lambda>(db'', k'). (db'', k + k')) (delete_subtrees is db'))"

definition gone_children :: "(inode \<Rightarrow> bool) \<Rightarrow> inode \<Rightarrow> string list \<Rightarrow> state_db \<Rightarrow> inode list" where
  "gone_children protected parent seen db =
     map fst (filter (\<lambda>(i, n). nd_name n \<notin> set seen \<and> nd_file_id n \<noteq> None \<and> \<not> protected i) (child_rows db parent))"

definition reconcile_children_except :: "inode \<Rightarrow> string \<Rightarrow> remote_entry list \<Rightarrow> (inode \<Rightarrow> bool) \<Rightarrow> int \<Rightarrow> state_db \<Rightarrow>
    state_db outcome" where
  "reconcile_children_except parent parent_path children protected now db =
     and_then (reconcile_entries protected parent parent_path children db) (\<lambda>db.
       map_option (\<lambda>(db', _). Inr (update_row parent (\<lambda>n. n\<lparr>nd_children_loaded := True, nd_loaded_at := now\<rparr>) db'))
         (delete_subtrees (gone_children protected parent (map (\<lambda>c. basename (rem_path c)) children) db) db))"

definition reconcile_children :: "inode \<Rightarrow> string \<Rightarrow> remote_entry list \<Rightarrow> int \<Rightarrow> state_db \<Rightarrow> state_db outcome" where
  "reconcile_children parent parent_path children now db =
     reconcile_children_except parent parent_path children (\<lambda>_. False) now db"

definition insert_local_file :: "inode \<Rightarrow> string \<Rightarrow> int \<Rightarrow> state_db \<Rightarrow> (state_db \<times> inode \<times> node) outcome" where
  "insert_local_file parent name now db =
     (case node_by_inode db parent of
        None \<Rightarrow> Some (Inl NoSuchRow)
      | Some p \<Rightarrow>
          and_then (insert_row ((new_node parent name (join_path (nd_path p) name) False)\<lparr>nd_mtime := now\<rparr>) db) (\<lambda>(db', i).
          case node_by_inode db' i of None \<Rightarrow> Some (Inl NodeVanished) | Some n \<Rightarrow> Some (Inr (db', i, n))))"

definition set_size :: "inode \<Rightarrow> u64 \<Rightarrow> state_db \<Rightarrow> state_db" where
  "set_size i bytes = update_row i (\<lambda>n. n\<lparr>nd_size := bytes\<rparr>)"

definition set_mtime :: "inode \<Rightarrow> int \<Rightarrow> state_db \<Rightarrow> state_db" where
  "set_mtime i mtime = update_row i (\<lambda>n. n\<lparr>nd_mtime := mtime\<rparr>)"

definition set_exec :: "inode \<Rightarrow> bool \<Rightarrow> state_db \<Rightarrow> state_db" where
  "set_exec i exec = update_row i (\<lambda>n. if nd_is_dir n then n else n\<lparr>nd_exec := exec\<rparr>)"

definition set_etag_size :: "inode \<Rightarrow> string \<Rightarrow> u64 \<Rightarrow> state_db \<Rightarrow> state_db" where
  "set_etag_size i etag bytes = update_row i (\<lambda>n. n\<lparr>nd_etag := etag, nd_size := bytes\<rparr>)"

definition rename_node :: "inode \<Rightarrow> inode \<Rightarrow> string \<Rightarrow> state_db \<Rightarrow> state_db outcome" where
  "rename_node i new_parent new_name db =
     (case node_by_inode db new_parent of
        None \<Rightarrow> Some (Inl NoSuchRow)
      | Some p \<Rightarrow>
          update_keys i
            (\<lambda>n. n\<lparr>nd_parent := new_parent, nd_name := new_name, nd_path := join_path (nd_path p) new_name\<rparr>) db)"

definition inherit_identity :: "node \<Rightarrow> node \<Rightarrow> node" where
  "inherit_identity occ n =
     (if nd_file_id n = None then
        n\<lparr>nd_file_id := nd_file_id occ, nd_etag := nd_etag occ, nd_permissions := nd_permissions occ\<rparr>
      else n)"

definition move_subtree :: "inode \<Rightarrow> inode \<Rightarrow> string \<Rightarrow> state_db \<Rightarrow> (state_db \<times> string \<times> string) outcome" where
  "move_subtree i new_parent new_name db =
     (if descends_from db new_parent i then Some (Inl (OwnSubtree i))
      else
        case (node_by_inode db i, node_by_inode db new_parent) of
          (Some n, Some p) \<Rightarrow>
            let path = join_path (nd_path p) new_name;
                occupant = find (\<lambda>(j, m). nd_parent m = new_parent \<and> nd_name m = new_name \<and> j \<noteq> i) (db_nodes db)
            in and_then
                 (case occupant of
                    None \<Rightarrow> Some (Inr db)
                  | Some (j, _) \<Rightarrow> map_option (\<lambda>(db', _). Inr db') (delete_subtree j db)) (\<lambda>db.
               and_then (update_keys i (\<lambda>n. n\<lparr>nd_parent := new_parent, nd_name := new_name, nd_path := path\<rparr>) db) (\<lambda>db.
               and_then (rewrite_paths db [(i, path)]) (\<lambda>db.
               Some (Inr ((case occupant of None \<Rightarrow> db | Some (_, occ) \<Rightarrow> update_row i (inherit_identity occ) db),
                          nd_path n, path)))))
        | _ \<Rightarrow> Some (Inl NoSuchRow))"

definition remove_unmaterialized_files :: "state_db \<Rightarrow> state_db" where
  "remove_unmaterialized_files db =
     db\<lparr>db_nodes := filter
          (\<lambda>(i, n). \<not> (nd_file_id n = None \<and> \<not> nd_is_dir n \<and> i \<noteq> root_inode \<and> i \<notin> fst ` set (db_uploads db)))
          (db_nodes db)\<rparr>"

definition remove_subtree :: "inode \<Rightarrow> state_db \<Rightarrow> state_db option" where
  "remove_subtree i db = map_option fst (delete_subtree i db)"

definition forget_children :: "inode \<Rightarrow> state_db \<Rightarrow> (state_db \<times> nat) option" where
  "forget_children i db =
     map_option (\<lambda>(db', k). (update_row i (\<lambda>n. n\<lparr>nd_children_loaded := False, nd_loaded_at := 0\<rparr>) db', k))
       (delete_subtrees (kids db i) db)"

section \<open>Uploads owed\<close>

definition mark_pending_upload :: "inode \<Rightarrow> string \<Rightarrow> string \<Rightarrow> int option \<Rightarrow> state_db \<Rightarrow> state_db" where
  "mark_pending_upload i remote_path base_etag mtime db =
     db\<lparr>db_uploads := bt_insert i
          \<lparr>pu_remote_path = remote_path, pu_base_etag = base_etag, pu_mtime = mtime, pu_state = ''pending'',
           pu_attempts = 0, pu_last_error = None\<rparr> (db_uploads db)\<rparr>"

definition pending_uploads :: "state_db \<Rightarrow> pending_upload list" where
  "pending_uploads db = map pending_from_row (db_uploads db)"

definition pending_upload_of :: "state_db \<Rightarrow> inode \<Rightarrow> pending_upload option" where
  "pending_upload_of db i = map_option (\<lambda>u. pending_from_row (i, u)) (bt_get (db_uploads db) i)"

definition update_upload :: "inode \<Rightarrow> (upload_row \<Rightarrow> upload_row) \<Rightarrow> state_db \<Rightarrow> state_db" where
  "update_upload i f db =
     (case bt_get (db_uploads db) i of
        None \<Rightarrow> db
      | Some u \<Rightarrow> db\<lparr>db_uploads := bt_insert i (f u) (db_uploads db)\<rparr>)"

definition set_upload_state :: "inode \<Rightarrow> upload_state \<Rightarrow> string option \<Rightarrow> state_db \<Rightarrow> state_db" where
  "set_upload_state i st last_error =
     update_upload i (\<lambda>u. u\<lparr>pu_state := upload_state_str st, pu_last_error := last_error\<rparr>)"

definition bump_upload_attempt :: "inode \<Rightarrow> state_db \<Rightarrow> state_db" where
  "bump_upload_attempt i = update_upload i (\<lambda>u. u\<lparr>pu_attempts := pu_attempts u + 1\<rparr>)"

definition move_pending_upload :: "inode \<Rightarrow> string \<Rightarrow> state_db \<Rightarrow> state_db" where
  "move_pending_upload i new_remote_path = update_upload i (\<lambda>u. u\<lparr>pu_remote_path := new_remote_path\<rparr>)"

definition clear_pending_upload :: "inode \<Rightarrow> state_db \<Rightarrow> state_db" where
  "clear_pending_upload i db = db\<lparr>db_uploads := bt_remove i (db_uploads db)\<rparr>"

definition remove_orphaned_uploads :: "state_db \<Rightarrow> state_db \<times> nat" where
  "remove_orphaned_uploads db =
     (let kept = filter (\<lambda>(i, u). node_by_inode db i \<noteq> None) (db_uploads db)
      in (db\<lparr>db_uploads := kept\<rparr>, length (db_uploads db) - length kept))"

end
