(* ===== verification/Core_State_Tree.thy ===== *)
theory Core_State_Tree
  imports Core_State
begin

text \<open>
  The shape of the node table: a tree of directories rooted at inode 1 in which every path is
  the path of the parent and the name. The loops of \<open>state.rs\<close> that walk it return, and
  what they visit is the subtree.
\<close>

section \<open>The invariant\<close>

definition good_name :: "string \<Rightarrow> bool" where
  "good_name name \<longleftrightarrow> name \<noteq> '''' \<and> CHR ''/'' \<notin> set name"

definition rooted :: "state_db \<Rightarrow> bool" where
  "rooted db \<longleftrightarrow>
     (case node_by_inode db root_inode of
        None \<Rightarrow> False
      | Some r \<Rightarrow> nd_parent r = root_inode \<and> nd_name r = '''' \<and> nd_path r = '''' \<and> nd_is_dir r)"

definition hangs :: "state_db \<Rightarrow> inode \<Rightarrow> node \<Rightarrow> bool" where
  "hangs db i n \<longleftrightarrow>
     good_name (nd_name n) \<and>
     (case node_by_inode db (nd_parent n) of
        None \<Rightarrow> False
      | Some p \<Rightarrow> nd_is_dir p \<and> nd_path n = join_path (nd_path p) (nd_name n))"

definition names_unique :: "state_db \<Rightarrow> bool" where
  "names_unique db \<longleftrightarrow>
     (\<forall>i j n m. node_by_inode db i = Some n \<and> node_by_inode db j = Some m \<and> nd_parent n = nd_parent m \<and>
        nd_name n = nd_name m \<longrightarrow> i = j)"

definition tree_wf :: "state_db \<Rightarrow> bool" where
  "tree_wf db \<longleftrightarrow>
     bt_wf (db_nodes db) \<and> bt_wf (db_uploads db) \<and> rooted db \<and> names_unique db \<and>
     (\<forall>i n. i \<noteq> root_inode \<and> node_by_inode db i = Some n \<longrightarrow> hangs db i n)"

lemma tree_wfD:
  assumes "tree_wf db"
  shows "bt_wf (db_nodes db)" and "bt_wf (db_uploads db)" and "rooted db" and "names_unique db"
    and "\<And>i n. i \<noteq> root_inode \<Longrightarrow> node_by_inode db i = Some n \<Longrightarrow> hangs db i n"
  using assms by (simp_all add: tree_wf_def)

lemma tree_wf_root:
  assumes "tree_wf db"
  obtains r where "node_by_inode db root_inode = Some r" "nd_parent r = root_inode" "nd_name r = ''''"
    "nd_path r = ''''" "nd_is_dir r"
  using tree_wfD(3) [OF assms] by (auto simp: rooted_def split: option.splits)

lemma tree_wf_parent:
  assumes "tree_wf db" and "node_by_inode db i = Some n" and "i \<noteq> root_inode"
  shows "\<exists>p. node_by_inode db (nd_parent n) = Some p \<and> nd_is_dir p \<and>
    nd_path n = join_path (nd_path p) (nd_name n) \<and> good_name (nd_name n)"
  using tree_wfD(5) [OF assms(1,3,2)] by (auto simp: hangs_def split: option.splits)

lemma join_path_longer: "good_name name \<Longrightarrow> length p < length (join_path p name)"
  by (auto simp: join_path_def good_name_def)

lemma join_path_inj:
  assumes "join_path p a = join_path q b" and "good_name a" and "good_name b"
  shows "p = q \<and> a = b"
proof -
  have split: "x = y \<and> u = v" if "x @ CHR ''/'' # u = y @ CHR ''/'' # v" "CHR ''/'' \<notin> set u" "CHR ''/'' \<notin> set v"
    for x y u v :: string
    using that by (auto simp: append_eq_append_conv2 append_eq_Cons_conv Cons_eq_append_conv)
  from assms show ?thesis
    by (auto simp: join_path_def good_name_def split: if_splits dest: split)
qed

section \<open>Paths identify rows\<close>

lemma path_unique:
  assumes wf: "tree_wf db"
  shows "node_by_inode db i = Some n \<Longrightarrow> node_by_inode db j = Some m \<Longrightarrow> nd_path n = nd_path m \<Longrightarrow> i = j"
proof (induction "length (nd_path n)" arbitrary: i j n m rule: less_induct)
  case less
  obtain r where r: "node_by_inode db root_inode = Some r" "nd_path r = ''''" by (rule tree_wf_root [OF wf])
  have nonroot: "nd_path n' \<noteq> ''''" if "node_by_inode db k = Some n'" "k \<noteq> root_inode" for k n'
  proof -
    note k = that
    obtain p :: node where "nd_path n' = join_path (nd_path p) (nd_name n')" "good_name (nd_name n')"
      using tree_wf_parent [OF wf k] by blast
    then show ?thesis using join_path_longer [of "nd_name n'" "nd_path p"] by auto
  qed
  show ?case
  proof (cases "i = root_inode \<or> j = root_inode")
    case True
    with less.prems r nonroot show ?thesis by (metis option.inject)
  next
    case False
    then have ij: "i \<noteq> root_inode" "j \<noteq> root_inode" by auto
    obtain p where p: "node_by_inode db (nd_parent n) = Some p" "nd_path n = join_path (nd_path p) (nd_name n)"
        "good_name (nd_name n)"
      using tree_wf_parent [OF wf less.prems(1) ij(1)] by blast
    obtain q where q: "node_by_inode db (nd_parent m) = Some q" "nd_path m = join_path (nd_path q) (nd_name m)"
        "good_name (nd_name m)"
      using tree_wf_parent [OF wf less.prems(2) ij(2)] by blast
    have eq: "nd_path p = nd_path q" "nd_name n = nd_name m"
      using join_path_inj [of "nd_path p" "nd_name n" "nd_path q" "nd_name m"] p q less.prems(3) by simp_all
    have "nd_parent n = nd_parent m"
      using less.hyps [OF _ p(1) q(1) eq(1)] p(2,3) join_path_longer by metis
    with eq(2) less.prems(1,2) tree_wfD(4) [OF wf] show ?thesis unfolding names_unique_def by blast
  qed
qed

section \<open>Children and subtrees\<close>

lemma bt_in_set: "bt_wf m \<Longrightarrow> (k, v) \<in> set m \<longleftrightarrow> bt_get m k = Some v"
  using bt_wf_distinct [of m] by simp

lemma child_rows_iff:
  "tree_wf db \<Longrightarrow> (j, n) \<in> set (child_rows db i) \<longleftrightarrow> node_by_inode db j = Some n \<and> nd_parent n = i \<and> j \<noteq> i"
  by (auto simp: child_rows_def bt_in_set tree_wfD(1))

lemma kids_iff: "tree_wf db \<Longrightarrow> j \<in> set (kids db i) \<longleftrightarrow> (\<exists>n. node_by_inode db j = Some n \<and> nd_parent n = i \<and> j \<noteq> i)"
proof -
  assume wf: "tree_wf db"
  have "j \<in> set (kids db i) \<longleftrightarrow> (\<exists>n. (j, n) \<in> set (child_rows db i))"
    by (auto simp: kids_def intro: rev_image_eqI)
  then show ?thesis by (simp add: child_rows_iff [OF wf])
qed

lemma distinct_child_rows: "bt_wf (db_nodes db) \<Longrightarrow> distinct (map fst (child_rows db i))"
  unfolding child_rows_def using bt_wf_distinct by (rule distinct_map_filter)

definition below_edges :: "state_db \<Rightarrow> (inode \<times> inode) set" where
  "below_edges db = {(i, j). j \<in> set (kids db i)}"

text \<open>The rows of a subtree, its root included.\<close>

definition subtree :: "state_db \<Rightarrow> inode \<Rightarrow> inode set" where
  "subtree db i = (below_edges db)\<^sup>* `` {i}"

lemma subtree_refl [simp]: "i \<in> subtree db i"
  by (simp add: subtree_def)

lemma subtree_kid: "j \<in> subtree db i \<Longrightarrow> k \<in> set (kids db j) \<Longrightarrow> k \<in> subtree db i"
  by (auto simp: subtree_def below_edges_def intro: rtrancl_into_rtrancl)

lemma subtree_trans: "j \<in> subtree db i \<Longrightarrow> k \<in> subtree db j \<Longrightarrow> k \<in> subtree db i"
  by (auto simp: subtree_def intro: rtrancl_trans)

lemma subtree_cases:
  assumes "k \<in> subtree db i"
  obtains "k = i" | j where "j \<in> subtree db i" "k \<in> set (kids db j)"
  using assms by (auto simp: subtree_def below_edges_def elim: rtranclE)

lemma subtree_induct [consumes 1, case_names root kid]:
  assumes "k \<in> subtree db i" and "P i"
    and "\<And>j k. j \<in> subtree db i \<Longrightarrow> P j \<Longrightarrow> k \<in> set (kids db j) \<Longrightarrow> P k"
  shows "P k"
proof -
  have "(i, k) \<in> (below_edges db)\<^sup>*" using assms(1) by (simp add: subtree_def)
  then show ?thesis
  proof (induction rule: rtrancl_induct)
    case base
    show ?case by (rule assms(2))
  next
    case (step y z)
    then show ?case using assms(3) [of y z] by (simp add: subtree_def below_edges_def)
  qed
qed

definition path_len :: "state_db \<Rightarrow> inode \<Rightarrow> nat" where
  "path_len db i = (case node_by_inode db i of None \<Rightarrow> 0 | Some n \<Rightarrow> length (nd_path n))"

lemma kid_not_root: "tree_wf db \<Longrightarrow> k \<in> set (kids db i) \<Longrightarrow> k \<noteq> root_inode"
  using tree_wf_root [of db] by (metis kids_iff option.inject)

lemma kid_parent:
  assumes "tree_wf db" and "k \<in> set (kids db i)"
  shows "\<exists>n p. node_by_inode db k = Some n \<and> nd_parent n = i \<and> node_by_inode db i = Some p \<and> nd_is_dir p \<and>
    nd_path n = join_path (nd_path p) (nd_name n) \<and> good_name (nd_name n) \<and> k \<noteq> root_inode"
proof -
  obtain n where n: "node_by_inode db k = Some n" "nd_parent n = i" using assms by (auto simp: kids_iff)
  have "k \<noteq> root_inode" by (rule kid_not_root [OF assms])
  with tree_wf_parent [OF assms(1) n(1)] n show ?thesis by blast
qed

lemma kid_longer: "tree_wf db \<Longrightarrow> k \<in> set (kids db i) \<Longrightarrow> path_len db i < path_len db k"
  by (drule (1) kid_parent) (auto simp: path_len_def dest: join_path_longer)

lemma kid_unique_parent: "tree_wf db \<Longrightarrow> k \<in> set (kids db i) \<Longrightarrow> k \<in> set (kids db j) \<Longrightarrow> i = j"
  by (metis kids_iff option.inject)

lemma subtree_len:
  assumes "tree_wf db" and "k \<in> subtree db i"
  shows "path_len db i \<le> path_len db k"
  using assms(2) by (induction rule: subtree_induct) (auto dest: kid_longer [OF assms(1)])

lemma subtree_antisym: "tree_wf db \<Longrightarrow> k \<in> set (kids db j) \<Longrightarrow> j \<in> subtree db i \<Longrightarrow> k \<noteq> i"
  using kid_longer subtree_len by (metis leD)

lemma subtree_unknown:
  assumes "tree_wf db" and "node_by_inode db i = None"
  shows "subtree db i = {i}"
proof -
  have "set (kids db i) = {}"
    using kid_parent [OF assms(1), of _ i] assms(2) by fastforce
  have "k = i" if "k \<in> subtree db i" for k
    using that by (induction rule: subtree_induct) (use \<open>set (kids db i) = {}\<close> in auto)
  then show ?thesis by auto
qed

text \<open>
  Walking a subtree with a stack: what is popped and what is pushed never meet, since a row
  has one parent and lies deeper than it. A walk visits the children \<open>K\<close> picks of each row.
\<close>

definition walk_inv :: "state_db \<Rightarrow> (inode \<Rightarrow> inode set) \<Rightarrow> inode \<Rightarrow> inode list \<Rightarrow> inode list \<Rightarrow> bool" where
  "walk_inv db K i popped stack \<longleftrightarrow>
     distinct (popped @ stack) \<and> set (popped @ stack) \<subseteq> subtree db i \<and> i \<in> set (popped @ stack) \<and>
     (\<forall>j \<in> set (popped @ stack). j \<noteq> i \<longrightarrow> (\<exists>p \<in> set popped. j \<in> set (kids db p))) \<and>
     (\<forall>p \<in> set popped. K p \<subseteq> set (popped @ stack))"

lemma walk_inv_start: "walk_inv db K i [] [i]"
  by (simp add: walk_inv_def)

lemma distinct_kids: "tree_wf db \<Longrightarrow> distinct (kids db i)"
  by (simp add: kids_def distinct_child_rows tree_wfD(1))

lemma walk_inv_fresh:
  assumes wf: "tree_wf db" and inv: "walk_inv db K i popped (j # rest)"
  shows "set (kids db j) \<inter> set (popped @ j # rest) = {}"
proof (rule ccontr)
  assume "set (kids db j) \<inter> set (popped @ j # rest) \<noteq> {}"
  then obtain k where k: "k \<in> set (kids db j)" "k \<in> set (popped @ j # rest)" by blast
  have "j \<in> subtree db i" using inv by (auto simp: walk_inv_def)
  then have "k \<noteq> i" using subtree_antisym [OF wf k(1)] by blast
  with inv k(2) obtain p where "p \<in> set popped" "k \<in> set (kids db p)" unfolding walk_inv_def by blast
  then have "j \<in> set popped" using kid_unique_parent [OF wf k(1)] by metis
  then show False using inv by (auto simp: walk_inv_def)
qed

lemma walk_inv_step:
  assumes wf: "tree_wf db" and inv: "walk_inv db K i popped (j # rest)"
    and ks: "distinct ks" "set ks = K j" "K j \<subseteq> set (kids db j)"
  shows "walk_inv db K i (popped @ [j]) (ks @ rest)"
proof -
  have fresh: "set ks \<inter> set (popped @ j # rest) = {}" using walk_inv_fresh [OF wf inv] ks by blast
  have j: "j \<in> subtree db i" using inv by (auto simp: walk_inv_def)
  have "distinct ((popped @ [j]) @ ks @ rest)"
    using inv fresh ks(1) by (auto simp: walk_inv_def)
  moreover have "set ((popped @ [j]) @ ks @ rest) \<subseteq> subtree db i"
    using inv subtree_kid [OF j] ks by (auto simp: walk_inv_def)
  moreover have "i \<in> set ((popped @ [j]) @ ks @ rest)" using inv by (auto simp: walk_inv_def)
  moreover have "\<exists>p \<in> set (popped @ [j]). k \<in> set (kids db p)"
    if "k \<in> set ((popped @ [j]) @ ks @ rest)" "k \<noteq> i" for k
  proof (cases "k \<in> set ks")
    case True
    then show ?thesis using ks by auto
  next
    case False
    with that have "k \<in> set (popped @ j # rest)" by auto
    with that(2) inv obtain p where "p \<in> set popped" "k \<in> set (kids db p)" unfolding walk_inv_def by blast
    then show ?thesis by auto
  qed
  moreover have "K p \<subseteq> set ((popped @ [j]) @ ks @ rest)" if "p \<in> set (popped @ [j])" for p
  proof (cases "p = j")
    case False
    with that inv have "K p \<subseteq> set (popped @ j # rest)" unfolding walk_inv_def by simp
    then show ?thesis by auto
  qed (use ks in auto)
  ultimately show ?thesis unfolding walk_inv_def by (intro conjI ballI impI)
qed

lemma walk_inv_done:
  assumes "walk_inv db K i popped []"
  shows "i \<in> set popped" and "p \<in> set popped \<Longrightarrow> k \<in> K p \<Longrightarrow> k \<in> set popped" and "set popped \<subseteq> subtree db i"
proof -
  show "i \<in> set popped" and "set popped \<subseteq> subtree db i" using assms by (simp_all add: walk_inv_def)
  have "\<forall>p \<in> set popped. K p \<subseteq> set popped" using assms by (simp add: walk_inv_def)
  then show "p \<in> set popped \<Longrightarrow> k \<in> K p \<Longrightarrow> k \<in> set popped" by blast
qed

lemma subtree_known: "tree_wf db \<Longrightarrow> k \<in> subtree db i \<Longrightarrow> k = i \<or> node_by_inode db k \<noteq> None"
  by (erule subtree_cases) (auto simp: kids_iff)

lemma finite_subtree: "tree_wf db \<Longrightarrow> finite (subtree db i)"
proof -
  assume wf: "tree_wf db"
  have "subtree db i \<subseteq> insert i (fst ` set (db_nodes db))"
    using subtree_known [OF wf] by (auto simp: map_of_eq_None_iff)
  then show ?thesis by (rule finite_subset) simp
qed

text \<open>What is left of the subtree shrinks with every round.\<close>

lemma walk_inv_measure:
  assumes "tree_wf db" and "walk_inv db K i (popped @ [j]) stack"
  shows "card (subtree db i) - length (popped @ [j]) < card (subtree db i) - length popped"
proof -
  have "distinct (popped @ [j])" "set (popped @ [j]) \<subseteq> subtree db i" using assms(2) by (auto simp: walk_inv_def)
  then have "length (popped @ [j]) \<le> card (subtree db i)"
    by (metis card_mono distinct_card finite_subtree [OF assms(1)])
  then show ?thesis by simp
qed

lemma collect_walk:
  assumes wf: "tree_wf db"
  shows "walk_inv db (\<lambda>j. set (kids db j)) i popped stack \<Longrightarrow>
    \<exists>is. collect db stack popped = Some is \<and> distinct is \<and> set is = subtree db i"
proof (induction "card (subtree db i) - length popped" arbitrary: popped stack rule: less_induct)
  case less
  show ?case
  proof (cases stack)
    case Nil
    with less.prems have inv: "walk_inv db (\<lambda>j. set (kids db j)) i popped []" by simp
    have "k \<in> set popped" if "k \<in> subtree db i" for k
      using that by (induction rule: subtree_induct) (use walk_inv_done(1,2) [OF inv] in auto)
    with walk_inv_done(3) [OF inv] have "set popped = subtree db i" by blast
    moreover have "collect db stack popped = Some popped" using Nil by (subst collect.simps) simp
    moreover have "distinct popped" using inv by (simp add: walk_inv_def)
    ultimately show ?thesis by blast
  next
    case (Cons j rest)
    have inv: "walk_inv db (\<lambda>j. set (kids db j)) i (popped @ [j]) (rev (kids db j) @ rest)"
      using walk_inv_step [OF wf, of _ i popped j rest "rev (kids db j)"] less.prems Cons distinct_kids [OF wf] by simp
    from less.hyps [OF walk_inv_measure [OF wf inv] inv] Cons show ?thesis by (subst collect.simps) simp
  qed
qed

lemma collect_subtree:
  assumes "tree_wf db"
  obtains "is" where "collect db [i] [] = Some is" "distinct is" "set is = subtree db i"
  using collect_walk [OF assms walk_inv_start] by blast

lemma delete_rows_get:
  "bt_get (db_nodes (fold delete_row is db)) j = (if j \<in> set is then None else bt_get (db_nodes db) j)"
  "bt_get (db_uploads (fold delete_row is db)) j = (if j \<in> set is then None else bt_get (db_uploads db) j)"
  by (induction "is" arbitrary: db) (auto simp: delete_row_def store_simps)

lemma delete_rows_wf:
  "bt_wf (db_nodes db) \<Longrightarrow> bt_wf (db_nodes (fold delete_row is db))"
  "bt_wf (db_uploads db) \<Longrightarrow> bt_wf (db_uploads (fold delete_row is db))"
  by (induction "is" arbitrary: db) (auto simp: delete_row_def)

text \<open>What a removal leaves, as a relation between the tables before and after.\<close>

definition without :: "inode set \<Rightarrow> state_db \<Rightarrow> state_db \<Rightarrow> bool" where
  "without S db db' \<longleftrightarrow>
     bt_wf (db_nodes db') \<and> bt_wf (db_uploads db') \<and>
     (\<forall>j. node_by_inode db' j = (if j \<in> S then None else node_by_inode db j)) \<and>
     (\<forall>j. bt_get (db_uploads db') j = (if j \<in> S then None else bt_get (db_uploads db) j))"

lemma delete_subtree_without:
  assumes "tree_wf db"
  obtains db' where "delete_subtree i db = Some (db', card (subtree db i))" "without (subtree db i) db db'"
proof -
  obtain "is" where c: "collect db [i] [] = Some is" "distinct is" "set is = subtree db i"
    by (rule collect_subtree [OF assms])
  have "delete_subtree i db = Some (fold delete_row is db, card (subtree db i))"
    using c by (simp add: delete_subtree_def distinct_card [symmetric])
  moreover have "without (subtree db i) db (fold delete_row is db)"
    using c tree_wfD(1,2) [OF assms] by (simp add: without_def delete_rows_get delete_rows_wf)
  ultimately show ?thesis by (rule that)
qed

text \<open>Taking subtrees out of a tree leaves a tree, as long as the root stays.\<close>

definition closed_below :: "state_db \<Rightarrow> inode set \<Rightarrow> bool" where
  "closed_below db S \<longleftrightarrow> (\<forall>j \<in> S. set (kids db j) \<subseteq> S)"

lemma closed_below_subtree: "closed_below db (subtree db i)"
  by (auto simp: closed_below_def intro: subtree_kid)

lemma without_tree:
  assumes wf: "tree_wf db" and w: "without S db db'" and S: "closed_below db S" "root_inode \<notin> S"
  shows "tree_wf db'"
proof -
  have get: "node_by_inode db' j = (if j \<in> S then None else node_by_inode db j)" for j
    using w by (simp add: without_def)
  have "hangs db' j n" if j: "j \<noteq> root_inode" "node_by_inode db' j = Some n" for j n
  proof -
    from j(2) get have n: "node_by_inode db j = Some n" "j \<notin> S" by (auto split: if_splits)
    obtain p where p: "node_by_inode db (nd_parent n) = Some p" "nd_is_dir p"
        "nd_path n = join_path (nd_path p) (nd_name n)" "good_name (nd_name n)"
      using tree_wf_parent [OF wf n(1) j(1)] by blast
    have "nd_parent n \<noteq> j"
    proof
      assume "nd_parent n = j"
      with p n have "nd_path n = join_path (nd_path n) (nd_name n)" by simp
      with join_path_longer [OF p(4), of "nd_path n"] show False by simp
    qed
    then have "j \<in> set (kids db (nd_parent n))" using n(1) by (auto simp: kids_iff [OF wf])
    with S(1) n(2) have "nd_parent n \<notin> S" by (auto simp: closed_below_def)
    with p get show ?thesis by (simp add: hangs_def)
  qed
  moreover have "rooted db'" using tree_wfD(3) [OF wf] S(2) get by (simp add: rooted_def)
  moreover have "names_unique db'"
    unfolding names_unique_def get using tree_wfD(4) [OF wf, unfolded names_unique_def] by (auto split: if_splits)
  ultimately show ?thesis using w by (simp add: tree_wf_def without_def)
qed

lemma root_not_below: "tree_wf db \<Longrightarrow> i \<noteq> root_inode \<Longrightarrow> root_inode \<notin> subtree db i"
  by (metis kid_not_root subtree_cases)

end
