(* ===== verification/Core_State_Moves.thy ===== *)
theory Core_State_Moves
  imports Core_State_Tree
begin

text \<open>
  Moving a row and its subtree (\<open>move_subtree\<close>): the loop that rewrites the paths returns,
  hits no constraint, and leaves exactly the old tree with one branch hung elsewhere.
\<close>

section \<open>Statements on rows\<close>

lemma put_node_get [store_simps]:
  "node_by_inode (put_node i n db) j = (if j = i then Some n else node_by_inode db j)"
  "db_uploads (put_node i n db) = db_uploads db"
  "bt_wf (db_nodes db) \<Longrightarrow> bt_wf (db_nodes (put_node i n db))"
  by (simp_all add: put_node_def store_simps)

lemma update_row_get [store_simps]:
  "node_by_inode (update_row i f db) j = (if j = i then map_option f (node_by_inode db i) else node_by_inode db j)"
  "db_uploads (update_row i f db) = db_uploads db"
  "bt_wf (db_nodes db) \<Longrightarrow> bt_wf (db_nodes (update_row i f db))"
  by (auto simp: update_row_def store_simps split: option.split)

lemma row_conflict_iff:
  assumes "bt_wf (db_nodes db)"
  shows "row_conflict db i n \<longleftrightarrow>
    (\<exists>j m. j \<noteq> i \<and> node_by_inode db j = Some m \<and>
       (nd_path m = nd_path n \<or> nd_parent m = nd_parent n \<and> nd_name m = nd_name n))"
  using bt_in_set [OF assms] by (auto simp: row_conflict_def list_ex_iff)

lemma update_keys_ok:
  assumes "bt_wf (db_nodes db)" and "node_by_inode db i = Some n"
    and "\<And>j m. j \<noteq> i \<Longrightarrow> node_by_inode db j = Some m \<Longrightarrow>
      nd_path m \<noteq> nd_path (f n) \<and> \<not> (nd_parent m = nd_parent (f n) \<and> nd_name m = nd_name (f n))"
  shows "update_keys i f db = Some (Inr (put_node i (f n) db))"
proof -
  have "\<not> row_conflict db i (f n)" unfolding row_conflict_iff [OF assms(1)] using assms(3) by blast
  with assms(2) show ?thesis by (simp add: update_keys_def)
qed

section \<open>One directory's children\<close>

definition dirs_of :: "string \<Rightarrow> (inode \<times> node) list \<Rightarrow> (inode \<times> string) list" where
  "dirs_of dir_path cs = map (\<lambda>(c, n). (c, dir_path @ ''/'' @ nd_name n)) (filter (\<lambda>(c, n). nd_is_dir n) cs)"

definition repathed :: "string \<Rightarrow> (inode \<times> node) list \<Rightarrow> state_db \<Rightarrow> state_db \<Rightarrow> bool" where
  "repathed dir_path cs db db' \<longleftrightarrow>
     bt_wf (db_nodes db') \<and> db_uploads db' = db_uploads db \<and>
     (\<forall>j. node_by_inode db' j =
        (case map_of cs j of
           None \<Rightarrow> node_by_inode db j
         | Some n \<Rightarrow> Some (n\<lparr>nd_path := dir_path @ ''/'' @ nd_name n\<rparr>)))"

lemma rewrite_children_ok:
  assumes "bt_wf (db_nodes db)" and "distinct (map fst cs)" and "distinct (map (nd_name \<circ> snd) cs)"
    and "\<And>c n. (c, n) \<in> set cs \<Longrightarrow> node_by_inode db c = Some n"
    and "names_unique db"
    and "\<And>c n k m. (c, n) \<in> set cs \<Longrightarrow> k \<noteq> c \<Longrightarrow> node_by_inode db k = Some m \<Longrightarrow> nd_path m \<noteq> dir_path @ ''/'' @ nd_name n"
  shows "\<exists>db'. rewrite_children dir_path cs db stack = Some (Inr (db', rev (dirs_of dir_path cs) @ stack)) \<and>
    repathed dir_path cs db db'"
  using assms
proof (induction cs arbitrary: db stack)
  case Nil
  then show ?case by (simp add: repathed_def dirs_of_def)
next
  case (Cons e cs)
  obtain c n where e: "e = (c, n)" by (cases e)
  let ?n = "n\<lparr>nd_path := dir_path @ ''/'' @ nd_name n\<rparr>"
  let ?db = "put_node c ?n db"
  have c: "node_by_inode db c = Some n" using Cons.prems(4) e by simp
  have unique: "j = c" if "node_by_inode db j = Some m" "nd_parent m = nd_parent n" "nd_name m = nd_name n" for j m
    using Cons.prems(5) that c unfolding names_unique_def by blast
  have up: "update_keys c (\<lambda>m. m\<lparr>nd_path := dir_path @ ''/'' @ nd_name n\<rparr>) db = Some (Inr ?db)"
    using Cons.prems(1) c
  proof (rule update_keys_ok)
    fix j m
    assume "j \<noteq> c" "node_by_inode db j = Some m"
    then show "nd_path m \<noteq> nd_path ?n \<and> \<not> (nd_parent m = nd_parent ?n \<and> nd_name m = nd_name ?n)"
      using Cons.prems(6) [of c n j m] unique [of j m] e by auto
  qed
  have notin: "c \<notin> fst ` set cs" using Cons.prems(2) e by simp
  have "\<exists>db'. rewrite_children dir_path cs ?db (if nd_is_dir n then (c, dir_path @ ''/'' @ nd_name n) # stack else stack) =
      Some (Inr (db', rev (dirs_of dir_path cs) @ (if nd_is_dir n then (c, dir_path @ ''/'' @ nd_name n) # stack else stack))) \<and>
    repathed dir_path cs ?db db'"
  proof (rule Cons.IH)
    show "bt_wf (db_nodes ?db)" using Cons.prems(1) by (simp add: store_simps)
    show "distinct (map fst cs)" "distinct (map (nd_name \<circ> snd) cs)" using Cons.prems(2,3) by (simp_all add: o_def)
    show "node_by_inode ?db d = Some m" if "(d, m) \<in> set cs" for d m
      using that Cons.prems(4) notin by (force simp: store_simps)
    show "names_unique ?db"
      using Cons.prems(5) c unfolding names_unique_def put_node_get by (auto split: if_splits)
    show "nd_path m \<noteq> dir_path @ ''/'' @ nd_name n'"
      if "(d, n') \<in> set cs" "k \<noteq> d" "node_by_inode ?db k = Some m" for d n' k m
    proof (cases "k = c")
      case True
      have "nd_name n' \<noteq> nd_name n" using Cons.prems(3) e that(1) by force
      with True that(3) show ?thesis by (auto simp: store_simps)
    next
      case False
      with that Cons.prems(6) [of d n' k m] show ?thesis by (simp add: store_simps)
    qed
  qed
  then obtain db' where db': "rewrite_children dir_path cs ?db (if nd_is_dir n then (c, dir_path @ ''/'' @ nd_name n) # stack else stack) =
      Some (Inr (db', rev (dirs_of dir_path cs) @ (if nd_is_dir n then (c, dir_path @ ''/'' @ nd_name n) # stack else stack)))"
      "repathed dir_path cs ?db db'" by blast
  have "map_of cs c = None" using notin by (simp add: map_of_eq_None_iff)
  with db'(2) have "repathed dir_path (e # cs) db db'"
    unfolding repathed_def e by (auto simp: store_simps split: option.split)
  moreover have "rewrite_children dir_path (e # cs) db stack = Some (Inr (db', rev (dirs_of dir_path (e # cs)) @ stack))"
    using db'(1) up e by (cases "nd_is_dir n") (simp_all add: and_then_def Let_def dirs_of_def)
  ultimately show ?case by blast
qed

section \<open>A branch and its new place\<close>

text \<open>Row \<open>i\<close> may hang under \<open>P\<close> with the name \<open>nm\<close>: the place is free and not below the row itself.\<close>

definition movable :: "state_db \<Rightarrow> inode \<Rightarrow> node \<Rightarrow> inode \<Rightarrow> node \<Rightarrow> string \<Rightarrow> bool" where
  "movable db i n P p nm \<longleftrightarrow>
     tree_wf db \<and> node_by_inode db i = Some n \<and> i \<noteq> root_inode \<and> node_by_inode db P = Some p \<and> nd_is_dir p \<and>
     good_name nm \<and> P \<notin> subtree db i \<and>
     (\<forall>j m. node_by_inode db j = Some m \<and> nd_parent m = P \<and> nd_name m = nm \<longrightarrow> j = i)"

lemma nonroot_path:
  assumes "tree_wf db" and "node_by_inode db i = Some n" and "i \<noteq> root_inode"
  shows "nd_path n \<noteq> ''''"
proof -
  obtain p :: node where "nd_path n = join_path (nd_path p) (nd_name n)" "good_name (nd_name n)"
    using tree_wf_parent [OF assms] by blast
  then show ?thesis using join_path_longer [of "nd_name n" "nd_path p"] by auto
qed

lemma kid_path:
  assumes wf: "tree_wf db" and "k \<in> set (kids db d)" and "d \<noteq> root_inode" and "node_by_inode db k = Some m"
    and "node_by_inode db d = Some p"
  shows "nd_path m = nd_path p @ ''/'' @ nd_name m"
  using kid_parent [OF wf assms(2)] nonroot_path [OF wf assms(5,3)] assms(4,5) by (auto simp: join_path_def)

text \<open>Below a row, every path continues the path of the row at a separator.\<close>

lemma subtree_path:
  assumes wf: "tree_wf db" and i: "node_by_inode db i = Some n" "i \<noteq> root_inode" and "k \<in> subtree db i"
  shows "\<exists>m r. node_by_inode db k = Some m \<and> nd_path m = nd_path n @ r \<and> (r = '''' \<longrightarrow> k = i) \<and>
    (r \<noteq> '''' \<longrightarrow> hd r = CHR ''/'')"
  using assms(4)
proof (induction rule: subtree_induct)
  case root
  with i show ?case by auto
next
  case (kid j k)
  then obtain m r where m: "node_by_inode db j = Some m" "nd_path m = nd_path n @ r" "r \<noteq> '''' \<longrightarrow> hd r = CHR ''/''"
    by blast
  have j: "j \<noteq> root_inode" using root_not_below [OF wf i(2)] kid.hyps(1) by blast
  obtain m' where m': "node_by_inode db k = Some m'" using kid_parent [OF wf kid.hyps(2)] by blast
  have "nd_path m' = nd_path n @ (r @ ''/'' @ nd_name m')"
    using kid_path [OF wf kid.hyps(2) j m' m(1)] m(2) by simp
  moreover have "hd (r @ ''/'' @ nd_name m') = CHR ''/''" using m(3) by (cases r) auto
  ultimately show ?case using m' by blast
qed

text \<open>Conversely, a path that continues another at a separator belongs to a row below that path's.\<close>

lemma path_ancestor:
  assumes wf: "tree_wf db"
  shows "node_by_inode db k = Some m \<Longrightarrow> nd_path m = q @ ''/'' @ r \<Longrightarrow> q \<noteq> '''' \<Longrightarrow>
    \<exists>a ma. node_by_inode db a = Some ma \<and> nd_path ma = q \<and> k \<in> subtree db a"
proof (induction "length (nd_path m)" arbitrary: k m r rule: less_induct)
  case less
  have k: "k \<noteq> root_inode" using less.prems tree_wf_root [OF wf] by fastforce
  obtain p where p: "node_by_inode db (nd_parent m) = Some p" "nd_path m = join_path (nd_path p) (nd_name m)"
      "good_name (nd_name m)"
    using tree_wf_parent [OF wf less.prems(1) k] by blast
  have ne: "nd_path p \<noteq> ''''"
  proof
    assume "nd_path p = ''''"
    then have "nd_name m = q @ CHR ''/'' # r" using p(2) less.prems(2) by (simp add: join_path_def)
    then have "CHR ''/'' \<in> set (nd_name m)" by simp
    with p(3) show False by (simp add: good_name_def)
  qed
  then have eq: "nd_path p @ CHR ''/'' # nd_name m = q @ CHR ''/'' # r" using p(2) less.prems(2) by (simp add: join_path_def)
  have shorter: "length (nd_path p) < length (nd_path m)" using join_path_longer [OF p(3)] p(2) by simp
  have "nd_parent m \<noteq> k" using shorter p(1) less.prems(1) by auto
  then have kid: "k \<in> set (kids db (nd_parent m))" using less.prems(1) by (auto simp: kids_iff [OF wf])
  from eq have "nd_path p = q \<or> (\<exists>u. nd_path p = q @ CHR ''/'' # u)"
    using p(3) by (auto simp: append_eq_append_conv2 Cons_eq_append_conv append_eq_Cons_conv good_name_def)
  then show ?case
  proof (elim disjE exE)
    assume "nd_path p = q"
    with p(1) subtree_kid [OF subtree_refl kid] show ?thesis by blast
  next
    fix u
    assume "nd_path p = q @ CHR ''/'' # u"
    then obtain a ma where "node_by_inode db a = Some ma" "nd_path ma = q" "nd_parent m \<in> subtree db a"
      using less.hyps [OF shorter p(1), of u] less.prems(3) by auto
    with kid show ?thesis by (blast intro: subtree_kid)
  qed
qed

lemma movable_place:
  assumes mv: "movable db i n P p nm" and k: "node_by_inode db k = Some m"
    and path: "nd_path m = join_path (nd_path p) nm @ ''/'' @ r"
  shows "k \<in> subtree db i \<and> nd_path n = join_path (nd_path p) nm"
proof -
  have wf: "tree_wf db" and name: "good_name nm" and P: "node_by_inode db P = Some p" using mv by (simp_all add: movable_def)
  have "join_path (nd_path p) nm \<noteq> ''''" using join_path_longer [OF name, of "nd_path p"] by auto
  from path_ancestor [OF wf k path this] obtain a ma where a: "node_by_inode db a = Some ma"
      "nd_path ma = join_path (nd_path p) nm" "k \<in> subtree db a" by blast
  have "a \<noteq> root_inode" using a(1,2) tree_wf_root [OF wf] join_path_longer [OF name, of "nd_path p"] by fastforce
  then obtain pa where pa: "node_by_inode db (nd_parent ma) = Some pa"
      "nd_path ma = join_path (nd_path pa) (nd_name ma)" "good_name (nd_name ma)"
    using tree_wf_parent [OF wf a(1)] by blast
  then have "nd_path pa = nd_path p" "nd_name ma = nm" using join_path_inj a(2) name by metis+
  moreover then have "nd_parent ma = P" using path_unique [OF wf pa(1) P] by blast
  ultimately have "a = i" using mv a(1) unfolding movable_def by blast
  with a mv show ?thesis by (auto simp: movable_def)
qed

text \<open>The rows while the loop runs: the children of the directories in \<open>A\<close> have their new paths.\<close>

definition branch_row :: "state_db \<Rightarrow> inode \<Rightarrow> node \<Rightarrow> inode \<Rightarrow> string \<Rightarrow> string \<Rightarrow> inode set \<Rightarrow> inode \<Rightarrow> node option" where
  "branch_row db i n P nm path A j =
     (case node_by_inode db j of
        None \<Rightarrow> None
      | Some m \<Rightarrow> Some
          (if j = i then m\<lparr>nd_parent := P, nd_name := nm, nd_path := path\<rparr>
           else if j \<in> subtree db i \<and> nd_parent m \<in> A then m\<lparr>nd_path := path @ drop (length (nd_path n)) (nd_path m)\<rparr>
           else m))"

definition branch_at :: "state_db \<Rightarrow> inode \<Rightarrow> node \<Rightarrow> inode \<Rightarrow> string \<Rightarrow> string \<Rightarrow> inode set \<Rightarrow> state_db \<Rightarrow> bool" where
  "branch_at db i n P nm path A db' \<longleftrightarrow>
     bt_wf (db_nodes db') \<and> db_uploads db' = db_uploads db \<and>
     (\<forall>j. node_by_inode db' j = branch_row db i n P nm path A j)"

section \<open>The loop\<close>

definition dir_kids :: "state_db \<Rightarrow> inode \<Rightarrow> inode set" where
  "dir_kids db d = {k \<in> set (kids db d). \<exists>m. node_by_inode db k = Some m \<and> nd_is_dir m}"

definition new_path :: "node \<Rightarrow> string \<Rightarrow> node \<Rightarrow> string" where
  "new_path n path m = path @ drop (length (nd_path n)) (nd_path m)"

lemma child_rows_member:
  "bt_wf (db_nodes db) \<Longrightarrow> (j, n) \<in> set (child_rows db i) \<longleftrightarrow> node_by_inode db j = Some n \<and> nd_parent n = i \<and> j \<noteq> i"
  by (auto simp: child_rows_def bt_in_set)

lemma movableD:
  assumes "movable db i n P p nm"
  shows "tree_wf db" and "node_by_inode db i = Some n" and "i \<noteq> root_inode" and "node_by_inode db P = Some p"
    and "nd_is_dir p" and "good_name nm" and "P \<notin> subtree db i"
    and "\<And>j m. node_by_inode db j = Some m \<Longrightarrow> nd_parent m = P \<Longrightarrow> nd_name m = nm \<Longrightarrow> j = i"
  using assms by (auto simp: movable_def)

text \<open>While the loop has not come to a directory, its children are as they were.\<close>

lemma branch_children:
  assumes mv: "movable db i n P p nm" and at: "branch_at db i n P nm path A db'"
    and d: "d \<in> subtree db i" "d \<notin> A"
  shows "(c, m) \<in> set (child_rows db' d) \<longleftrightarrow> c \<in> set (kids db d) \<and> node_by_inode db c = Some m"
proof -
  have wf: "tree_wf db" by (rule movableD(1) [OF mv])
  have get: "node_by_inode db' c = branch_row db i n P nm path A c" and b: "bt_wf (db_nodes db')"
    using at by (simp_all add: branch_at_def)
  have P: "P \<noteq> d" using movableD(7) [OF mv] d(1) by blast
  have i: "c \<in> set (kids db d) \<Longrightarrow> c \<noteq> i" using subtree_antisym [OF wf _ d(1)] by blast
  show ?thesis
    unfolding child_rows_member [OF b] get kids_iff [OF wf]
    using P d(2) i [unfolded kids_iff [OF wf]]
    by (cases "node_by_inode db c") (auto simp: branch_row_def)
qed

lemma branch_names_unique:
  assumes mv: "movable db i n P p nm" and at: "branch_at db i n P nm path A db'"
  shows "names_unique db'"
  unfolding names_unique_def
proof (intro allI impI, elim conjE)
  fix j k m m'
  assume a: "node_by_inode db' j = Some m" "node_by_inode db' k = Some m'" "nd_parent m = nd_parent m'" "nd_name m = nd_name m'"
  have get: "node_by_inode db' x = branch_row db i n P nm path A x" for x using at by (simp add: branch_at_def)
  have old: "\<exists>q. node_by_inode db x = Some q \<and> (x = i \<longrightarrow> nd_parent r = P \<and> nd_name r = nm) \<and>
      (x \<noteq> i \<longrightarrow> nd_parent r = nd_parent q \<and> nd_name r = nd_name q)" if "node_by_inode db' x = Some r" for x r
    using that unfolding get by (auto simp: branch_row_def split: option.splits if_splits)
  obtain q q' where q: "node_by_inode db j = Some q" "j = i \<longrightarrow> nd_parent m = P \<and> nd_name m = nm"
      "j \<noteq> i \<longrightarrow> nd_parent m = nd_parent q \<and> nd_name m = nd_name q"
      "node_by_inode db k = Some q'" "k = i \<longrightarrow> nd_parent m' = P \<and> nd_name m' = nm"
      "k \<noteq> i \<longrightarrow> nd_parent m' = nd_parent q' \<and> nd_name m' = nd_name q'"
    using old [OF a(1)] old [OF a(2)] by blast
  have u: "names_unique db" by (rule tree_wfD(4) [OF movableD(1) [OF mv]])
  show "j = k"
  proof (cases "j = i \<or> k = i")
    case True
    then show ?thesis using q a(3,4) movableD(8) [OF mv] by metis
  next
    case False
    then show ?thesis using q a(3,4) u unfolding names_unique_def by metis
  qed
qed

lemma subtree_split:
  assumes mv: "movable db i n P p nm" and k: "k \<in> subtree db i" and m: "node_by_inode db k = Some m"
  shows "nd_path m = nd_path n @ drop (length (nd_path n)) (nd_path m)"
    and "drop (length (nd_path n)) (nd_path m) = '''' \<Longrightarrow> k = i"
    and "drop (length (nd_path n)) (nd_path m) \<noteq> '''' \<Longrightarrow> hd (drop (length (nd_path n)) (nd_path m)) = CHR ''/''"
  using subtree_path [OF movableD(1-3) [OF mv] k] m by auto

text \<open>No row is in the way of a path the loop assigns.\<close>

lemma branch_no_conflict:
  assumes mv: "movable db i n P p nm" and path: "path = join_path (nd_path p) nm"
    and at: "branch_at db i n P nm path A db'"
    and c: "c \<in> subtree db i" "c \<noteq> i" "node_by_inode db c = Some mc" and k: "k \<noteq> c" "node_by_inode db' k = Some m"
  shows "nd_path m \<noteq> new_path n path mc"
proof
  assume eq: "nd_path m = new_path n path mc"
  have wf: "tree_wf db" by (rule movableD(1) [OF mv])
  let ?r = "drop (length (nd_path n)) (nd_path mc)"
  have r: "nd_path mc = nd_path n @ ?r" "?r \<noteq> ''''" "hd ?r = CHR ''/''"
    using subtree_split [OF mv c(1,3)] c(2) by blast+
  then obtain r' where r': "?r = CHR ''/'' # r'" by (cases ?r) auto
  obtain q where q: "node_by_inode db k = Some q" "m = (if k = i then q\<lparr>nd_parent := P, nd_name := nm, nd_path := path\<rparr>
      else if k \<in> subtree db i \<and> nd_parent q \<in> A then q\<lparr>nd_path := new_path n path q\<rparr> else q)"
    using at k(2) by (auto simp: branch_at_def branch_row_def new_path_def split: option.splits)
  consider "k = i" | "k \<noteq> i" "k \<in> subtree db i" "m = q\<lparr>nd_path := new_path n path q\<rparr>" | "k \<noteq> i" "m = q"
    using q(2) by metis
  then show False
  proof cases
    case 1
    with q(2) eq r(2) show False by (auto simp: new_path_def)
  next
    case 2
    with eq have "drop (length (nd_path n)) (nd_path q) = ?r" by (simp add: new_path_def)
    then have "nd_path q = nd_path mc" using subtree_split(1) [OF mv 2(2) q(1)] r(1) by metis
    with path_unique [OF wf q(1) c(3)] k(1) show False by blast
  next
    case 3
    with eq r' have "nd_path q = path @ ''/'' @ r'" by (simp add: new_path_def)
    with movable_place [OF mv q(1)] path have "nd_path n = path" by simp
    with eq 3 r(1) have "nd_path q = nd_path mc" by (simp add: new_path_def)
    with path_unique [OF wf q(1) c(3)] k(1) show False by blast
  qed
qed

lemma branch_names_distinct:
  assumes mv: "movable db i n P p nm" and at: "branch_at db i n P nm path A db'"
  shows "distinct (map fst (child_rows db' d))" and "distinct (map (nd_name \<circ> snd) (child_rows db' d))"
proof -
  have b: "bt_wf (db_nodes db')" using at by (simp add: branch_at_def)
  show d: "distinct (map fst (child_rows db' d))" by (rule distinct_child_rows [OF b])
  have "inj_on (nd_name \<circ> snd) (set (child_rows db' d))"
  proof (rule inj_onI)
    fix x y
    assume "x \<in> set (child_rows db' d)" "y \<in> set (child_rows db' d)" "(nd_name \<circ> snd) x = (nd_name \<circ> snd) y"
    then have "node_by_inode db' (fst x) = Some (snd x)" "node_by_inode db' (fst y) = Some (snd y)"
        "nd_parent (snd x) = nd_parent (snd y)" "nd_name (snd x) = nd_name (snd y)"
      using child_rows_member [OF b] by (metis comp_apply prod.collapse)+
    then show "x = y"
      using branch_names_unique [OF mv at] unfolding names_unique_def by (metis option.inject prod_eqI)
  qed
  then show "distinct (map (nd_name \<circ> snd) (child_rows db' d))"
    using d by (simp only: distinct_map)
qed

lemma branch_round:
  assumes mv: "movable db i n P p nm" and path: "path = join_path (nd_path p) nm"
    and at: "branch_at db i n P nm path A db'"
    and d: "d \<in> subtree db i" "d \<notin> A" "node_by_inode db d = Some md" and dp: "dir_path = new_path n path md"
  shows "\<exists>db''. rewrite_children dir_path (child_rows db' d) db' stack =
      Some (Inr (db'', rev (dirs_of dir_path (child_rows db' d)) @ stack)) \<and>
    branch_at db i n P nm path (insert d A) db''"
proof -
  have wf: "tree_wf db" by (rule movableD(1) [OF mv])
  have b: "bt_wf (db_nodes db')" using at by (simp add: branch_at_def)
  have droot: "d \<noteq> root_inode" using root_not_below [OF wf movableD(3) [OF mv]] d(1) by blast
  note member = branch_children [OF mv at d(1,2)]
  have child: "dir_path @ ''/'' @ nd_name m = new_path n path m"
    if "c \<in> set (kids db d)" "node_by_inode db c = Some m" for c m
  proof -
    have "nd_path m = nd_path md @ ''/'' @ nd_name m" by (rule kid_path [OF wf that(1) droot that(2) d(3)])
    moreover have "nd_path md = nd_path n @ drop (length (nd_path n)) (nd_path md)"
      by (rule subtree_split(1) [OF mv d(1,3)])
    ultimately have "drop (length (nd_path n)) (nd_path m) = drop (length (nd_path n)) (nd_path md) @ ''/'' @ nd_name m"
      by (metis append.assoc append_eq_conv_conj)
    then show ?thesis by (simp add: dp new_path_def)
  qed
  have "\<exists>db''. rewrite_children dir_path (child_rows db' d) db' stack =
      Some (Inr (db'', rev (dirs_of dir_path (child_rows db' d)) @ stack)) \<and>
    repathed dir_path (child_rows db' d) db' db''"
  proof (rule rewrite_children_ok [OF b branch_names_distinct [OF mv at]])
    show "names_unique db'" by (rule branch_names_unique [OF mv at])
    show "node_by_inode db' c = Some m" if "(c, m) \<in> set (child_rows db' d)" for c m
      using that by (simp add: child_rows_member [OF b])
    show "nd_path m' \<noteq> dir_path @ ''/'' @ nd_name m"
      if "(c, m) \<in> set (child_rows db' d)" "k \<noteq> c" "node_by_inode db' k = Some m'" for c m k m'
    proof -
      from that(1) member have c: "c \<in> set (kids db d)" "node_by_inode db c = Some m" by blast+
      have "c \<in> subtree db i" "c \<noteq> i" using subtree_kid [OF d(1) c(1)] subtree_antisym [OF wf c(1) d(1)] by blast+
      from branch_no_conflict [OF mv path at this c(2) that(2,3)] child [OF c] show ?thesis by simp
    qed
  qed
  then obtain db'' where db'': "rewrite_children dir_path (child_rows db' d) db' stack =
      Some (Inr (db'', rev (dirs_of dir_path (child_rows db' d)) @ stack))"
      "repathed dir_path (child_rows db' d) db' db''" by blast
  have "node_by_inode db'' j = branch_row db i n P nm path (insert d A) j" for j
  proof (cases "map_of (child_rows db' d) j")
    case None
    then have "j \<notin> fst ` set (child_rows db' d)" by (simp add: map_of_eq_None_iff)
    then have "\<not> (j \<in> set (kids db d) \<and> (\<exists>m. node_by_inode db j = Some m))" using member by force
    then have nk: "j \<notin> set (kids db d)" using kids_iff [OF wf] by blast
    have "node_by_inode db'' j = branch_row db i n P nm path A j"
      using db''(2) None at by (simp add: repathed_def branch_at_def)
    moreover have "branch_row db i n P nm path (insert d A) j = branch_row db i n P nm path A j"
    proof (cases "node_by_inode db j")
      case (Some m)
      have "\<not> (j \<in> subtree db i \<and> j \<noteq> i \<and> nd_parent m = d)"
      proof
        assume a: "j \<in> subtree db i \<and> j \<noteq> i \<and> nd_parent m = d"
        then obtain k where "j \<in> set (kids db k)" by (blast elim: subtree_cases)
        with Some a have "j \<in> set (kids db d)" by (auto simp: kids_iff [OF wf])
        with nk show False by blast
      qed
      with Some show ?thesis by (auto simp: branch_row_def)
    qed (simp add: branch_row_def)
    ultimately show ?thesis by simp
  next
    case (Some m)
    then have "(j, m) \<in> set (child_rows db' d)" by (rule map_of_SomeD)
    with member have c: "j \<in> set (kids db d)" "node_by_inode db j = Some m" by blast+
    have "j \<in> subtree db i" "j \<noteq> i" using subtree_kid [OF d(1) c(1)] subtree_antisym [OF wf c(1) d(1)] by blast+
    moreover have "nd_parent m = d" using c by (simp add: kids_iff [OF wf])
    ultimately show ?thesis using db''(2) Some c child [OF c] by (simp add: repathed_def branch_row_def new_path_def)
  qed
  with db'' at show ?thesis by (auto simp: branch_at_def repathed_def)
qed

lemma rewrite_walk:
  assumes mv: "movable db i n P p nm" and path: "path = join_path (nd_path p) nm"
  shows "walk_inv db (dir_kids db) i popped (map fst stack) \<Longrightarrow> branch_at db i n P nm path (set popped) db' \<Longrightarrow>
    (\<And>d q. (d, q) \<in> set stack \<Longrightarrow> \<exists>m. node_by_inode db d = Some m \<and> q = new_path n path m) \<Longrightarrow>
    \<exists>db''. rewrite_paths db' stack = Some (Inr db'') \<and> branch_at db i n P nm path (subtree db i) db''"
proof (induction "card (subtree db i) - length popped" arbitrary: popped stack db' rule: less_induct)
  case less
  have wf: "tree_wf db" by (rule movableD(1) [OF mv])
  show ?case
  proof (cases stack)
    case Nil
    then have inv: "walk_inv db (dir_kids db) i popped []" using less.prems(1) by simp
    have dirs: "node_by_inode db k = Some m \<Longrightarrow> nd_is_dir m \<Longrightarrow> k \<in> set popped" if "k \<in> subtree db i" for k m
      using that
    proof (induction arbitrary: m rule: subtree_induct)
      case root
      show ?case by (rule walk_inv_done(1) [OF inv])
    next
      case (kid j k)
      obtain q where "node_by_inode db j = Some q" "nd_is_dir q" using kid_parent [OF wf kid.hyps(2)] by blast
      then have "j \<in> set popped" by (rule kid.IH)
      moreover have "k \<in> dir_kids db j" using kid by (auto simp: dir_kids_def)
      ultimately show ?case by (rule walk_inv_done(2) [OF inv])
    qed
    have "branch_row db i n P nm path (set popped) j = branch_row db i n P nm path (subtree db i) j" for j
    proof (cases "node_by_inode db j")
      case (Some m)
      have "nd_parent m \<in> set popped \<and> nd_parent m \<in> subtree db i" if j: "j \<in> subtree db i" "j \<noteq> i"
      proof -
        obtain d where d: "d \<in> subtree db i" "j \<in> set (kids db d)" using j by (blast elim: subtree_cases)
        then have "nd_parent m = d" using Some by (simp add: kids_iff [OF wf])
        moreover obtain q where "node_by_inode db d = Some q" "nd_is_dir q" using kid_parent [OF wf d(2)] by blast
        ultimately show ?thesis using dirs [OF d(1)] d(1) by blast
      qed
      with Some show ?thesis by (auto simp: branch_row_def)
    qed (simp add: branch_row_def)
    then have "branch_at db i n P nm path (subtree db i) db'" using less.prems(2) by (simp add: branch_at_def)
    moreover have "rewrite_paths db' stack = Some (Inr db')" using Nil by (subst rewrite_paths.simps) simp
    ultimately show ?thesis by blast
  next
    case (Cons e rest)
    obtain d q where e: "e = (d, q)" by (cases e)
    obtain md where md: "node_by_inode db d = Some md" "q = new_path n path md" using less.prems(3) Cons e by auto
    have inv: "walk_inv db (dir_kids db) i popped (d # map fst rest)" using less.prems(1) Cons e by simp
    then have d: "d \<in> subtree db i" "d \<notin> set popped" by (auto simp: walk_inv_def)
    note member = branch_children [OF mv less.prems(2) d]
    let ?new = "rev (dirs_of q (child_rows db' d))"
    obtain db'' where db'': "rewrite_children q (child_rows db' d) db' rest = Some (Inr (db'', ?new @ rest))"
        "branch_at db i n P nm path (insert d (set popped)) db''"
      using branch_round [OF mv path less.prems(2) d md(1), of q rest] md(2) by blast
    have news: "set ?new = {(c, q @ ''/'' @ nd_name m) | c m. c \<in> dir_kids db d \<and> node_by_inode db c = Some m}"
      using member by (force simp: dirs_of_def dir_kids_def)
    have "map fst (dirs_of q (child_rows db' d)) = map fst (filter (\<lambda>(c, n). nd_is_dir n) (child_rows db' d))"
      by (auto simp: dirs_of_def)
    then have "distinct (map fst ?new)"
      using branch_names_distinct(1) [OF mv less.prems(2), of d] by (simp add: rev_map [symmetric] distinct_map_filter)
    moreover have "set (map fst ?new) = dir_kids db d"
      using news by (force simp: dir_kids_def)
    moreover have "dir_kids db d \<subseteq> set (kids db d)" by (auto simp: dir_kids_def)
    ultimately have inv': "walk_inv db (dir_kids db) i (popped @ [d]) (map fst (?new @ rest))"
      using walk_inv_step [OF wf inv, of "map fst ?new"] by simp
    have "\<exists>db'''. rewrite_paths db'' (?new @ rest) = Some (Inr db''') \<and> branch_at db i n P nm path (subtree db i) db'''"
    proof (rule less.hyps [OF walk_inv_measure [OF wf inv'] inv'])
      show "branch_at db i n P nm path (set (popped @ [d])) db''" using db''(2) by simp
      fix c r
      assume "(c, r) \<in> set (?new @ rest)"
      then consider "(c, r) \<in> set rest" | m where "c \<in> set (kids db d)" "node_by_inode db c = Some m" "r = q @ ''/'' @ nd_name m"
        using news by (auto simp: dir_kids_def)
      then show "\<exists>m. node_by_inode db c = Some m \<and> r = new_path n path m"
      proof cases
        case 1
        with less.prems(3) Cons show ?thesis by auto
      next
        case (2 m)
        have "d \<noteq> root_inode" using root_not_below [OF wf movableD(3) [OF mv]] d(1) by blast
        from kid_path [OF wf 2(1) this 2(2) md(1)] subtree_split(1) [OF mv d(1) md(1)]
        have "drop (length (nd_path n)) (nd_path m) = drop (length (nd_path n)) (nd_path md) @ ''/'' @ nd_name m"
          by (metis append.assoc append_eq_conv_conj)
        with 2 md(2) show ?thesis by (simp add: new_path_def)
      qed
    qed
    then show ?thesis using db''(1) Cons e by (subst rewrite_paths.simps) simp
  qed
qed

lemma branch_tree:
  assumes mv: "movable db i n P p nm" and path: "path = join_path (nd_path p) nm"
    and at: "branch_at db i n P nm path (subtree db i) db'"
  shows "tree_wf db'"
proof -
  have wf: "tree_wf db" by (rule movableD(1) [OF mv])
  have get: "node_by_inode db' j = branch_row db i n P nm path (subtree db i) j" for j using at by (simp add: branch_at_def)
  have iroot: "i \<noteq> root_inode" by (rule movableD(3) [OF mv])
  have sroot: "root_inode \<notin> subtree db i" by (rule root_not_below [OF wf iroot])
  have outside: "node_by_inode db' j = node_by_inode db j" if "j \<notin> subtree db i" for j
    unfolding get using that by (cases "node_by_inode db j") (auto simp: branch_row_def)
  have "hangs db' j m" if j: "j \<noteq> root_inode" "node_by_inode db' j = Some m" for j m
  proof -
    obtain q where q: "node_by_inode db j = Some q"
      using j(2) unfolding get by (auto simp: branch_row_def split: option.splits)
    obtain r where r: "node_by_inode db (nd_parent q) = Some r" "nd_is_dir r" "nd_path q = join_path (nd_path r) (nd_name q)"
        "good_name (nd_name q)"
      using tree_wf_parent [OF wf q j(1)] by blast
    have other: "nd_parent q \<noteq> j" using join_path_longer [OF r(4), of "nd_path r"] r q by auto
    then have kid: "j \<in> set (kids db (nd_parent q))" using q by (auto simp: kids_iff [OF wf])
    show ?thesis
    proof (cases "j \<in> subtree db i")
      case False
      then have "nd_parent q \<notin> subtree db i" using kid subtree_kid by blast
      with False outside q r j(2) show ?thesis by (simp add: hangs_def)
    next
      case True
      show ?thesis
      proof (cases "j = i")
        case True
        then have "m = q\<lparr>nd_parent := P, nd_name := nm, nd_path := path\<rparr>"
          using j(2) q unfolding get by (simp add: branch_row_def)
        with movableD(4-7) [OF mv] outside path show ?thesis by (simp add: hangs_def)
      next
        case False
        have par: "nd_parent q \<in> subtree db i"
          using True False kid kid_unique_parent [OF wf kid] by (metis subtree_cases)
        then have proot: "nd_parent q \<noteq> root_inode" using sroot by metis
        have m: "m = q\<lparr>nd_path := new_path n path q\<rparr>"
          using j(2) q True False par unfolding get by (simp add: branch_row_def new_path_def)
        obtain r' where r': "node_by_inode db' (nd_parent q) = Some r'" "nd_is_dir r'" "nd_path r' = new_path n path r"
        proof (cases "nd_parent q = i")
          case True
          with r(1,2) movableD(2) [OF mv] show ?thesis
            by (intro that [of "r\<lparr>nd_parent := P, nd_name := nm, nd_path := path\<rparr>"])
              (simp_all add: get branch_row_def new_path_def)
        next
          case pi: False
          then obtain d where "d \<in> subtree db i" "nd_parent q \<in> set (kids db d)" using par by (blast elim: subtree_cases)
          with r(1) have "nd_parent r \<in> subtree db i" by (simp add: kids_iff [OF wf])
          with r(1,2) par pi show ?thesis
            by (intro that [of "r\<lparr>nd_path := new_path n path r\<rparr>"])
              (simp_all add: get branch_row_def new_path_def)
        qed
        have "nd_path q = nd_path r @ ''/'' @ nd_name q" by (rule kid_path [OF wf kid proot q r(1)])
        moreover have "nd_path r = nd_path n @ drop (length (nd_path n)) (nd_path r)" by (rule subtree_split(1) [OF mv par r(1)])
        ultimately have "drop (length (nd_path n)) (nd_path q) = drop (length (nd_path n)) (nd_path r) @ ''/'' @ nd_name q"
          by (metis append.assoc append_eq_conv_conj)
        then have "new_path n path q = nd_path r' @ ''/'' @ nd_name q" by (simp add: r'(3) new_path_def)
        moreover have "nd_path r' \<noteq> ''''"
          using join_path_longer [OF movableD(6) [OF mv], of "nd_path p"] path by (auto simp: r'(3) new_path_def)
        ultimately show ?thesis using m r' r(4) by (simp add: hangs_def join_path_def)
      qed
    qed
  qed
  moreover have "rooted db'"
    using tree_wfD(3) [OF wf] outside [OF sroot] by (simp add: rooted_def)
  moreover have "names_unique db'" by (rule branch_names_unique [OF mv at])
  ultimately show ?thesis using at tree_wfD(2) [OF wf] by (simp add: tree_wf_def branch_at_def)
qed

lemma move_branch:
  assumes mv: "movable db i n P p nm" and path: "path = join_path (nd_path p) nm"
  shows "\<exists>db1 db'. update_keys i (\<lambda>n. n\<lparr>nd_parent := P, nd_name := nm, nd_path := path\<rparr>) db = Some (Inr db1) \<and>
    rewrite_paths db1 [(i, path)] = Some (Inr db') \<and> branch_at db i n P nm path (subtree db i) db' \<and> tree_wf db'"
proof -
  have wf: "tree_wf db" by (rule movableD(1) [OF mv])
  have i: "node_by_inode db i = Some n" by (rule movableD(2) [OF mv])
  let ?n = "n\<lparr>nd_parent := P, nd_name := nm, nd_path := path\<rparr>"
  have "update_keys i (\<lambda>n. n\<lparr>nd_parent := P, nd_name := nm, nd_path := path\<rparr>) db = Some (Inr (put_node i ?n db))"
    using tree_wfD(1) [OF wf] i
  proof (rule update_keys_ok)
    fix j m
    assume j: "j \<noteq> i" "node_by_inode db j = Some m"
    have "nd_path m \<noteq> path"
    proof
      assume eq: "nd_path m = path"
      have "j \<noteq> root_inode" using j(2) eq path tree_wf_root [OF wf] join_path_longer [OF movableD(6) [OF mv], of "nd_path p"]
        by fastforce
      then obtain q where q: "node_by_inode db (nd_parent m) = Some q" "nd_path m = join_path (nd_path q) (nd_name m)"
          "good_name (nd_name m)"
        using tree_wf_parent [OF wf j(2)] by blast
      have "nd_path q = nd_path p" "nd_name m = nm"
        using join_path_inj [of "nd_path q" "nd_name m" "nd_path p" nm] q eq path movableD(6) [OF mv] by simp_all
      moreover then have "nd_parent m = P" using path_unique [OF wf q(1) movableD(4) [OF mv]] by blast
      ultimately show False using movableD(8) [OF mv j(2)] j(1) by blast
    qed
    then show "nd_path m \<noteq> nd_path ?n \<and> \<not> (nd_parent m = nd_parent ?n \<and> nd_name m = nd_name ?n)"
      using movableD(8) [OF mv j(2)] j(1) by auto
  qed
  moreover have start: "branch_at db i n P nm path (set []) (put_node i ?n db)"
    using i tree_wfD(1) [OF wf] by (auto simp: branch_at_def branch_row_def store_simps split: option.split)
  moreover have "\<exists>db'. rewrite_paths (put_node i ?n db) [(i, path)] = Some (Inr db') \<and>
      branch_at db i n P nm path (subtree db i) db'"
    using rewrite_walk [OF mv path _ start, of "[(i, path)]"] i by (simp add: walk_inv_start new_path_def)
  ultimately show ?thesis using branch_tree [OF mv path] by blast
qed

section \<open>Moving onto an occupied name\<close>

lemma descends_walk_sound:
  assumes wf: "tree_wf db"
  shows "\<not> descends_walk k db cur ancestor \<Longrightarrow> cur \<notin> subtree db ancestor"
proof (induction k arbitrary: cur)
  case 0
  then show ?case by simp
next
  case (Suc k)
  show ?case
  proof
    assume "cur \<in> subtree db ancestor"
    moreover have "cur \<noteq> ancestor" using Suc.prems by auto
    ultimately obtain d where d: "d \<in> subtree db ancestor" "cur \<in> set (kids db d)" by (blast elim: subtree_cases)
    then obtain n where "node_by_inode db cur = Some n" "nd_parent n = d" "cur \<noteq> d" by (auto simp: kids_iff [OF wf])
    with Suc.prems \<open>cur \<noteq> ancestor\<close> have "\<not> descends_walk k db d ancestor" by auto
    with Suc.IH d(1) show False by blast
  qed
qed

lemma subtree_without:
  assumes wf: "tree_wf db" and w: "without S db db'" and S: "closed_below db S" and wf': "tree_wf db'" and i: "i \<notin> S"
  shows "subtree db' i = subtree db i - S"
proof -
  have get: "node_by_inode db' j = (if j \<in> S then None else node_by_inode db j)" for j
    using w by (simp add: without_def)
  have kids: "k \<in> set (kids db' j) \<longleftrightarrow> k \<notin> S \<and> k \<in> set (kids db j)" for j k
    by (auto simp: kids_iff [OF wf] kids_iff [OF wf'] get)
  have "k \<in> subtree db i - S" if "k \<in> subtree db' i" for k
    using that by (induction rule: subtree_induct) (auto simp: kids i intro: subtree_kid)
  moreover have "k \<notin> S \<Longrightarrow> k \<in> subtree db' i" if "k \<in> subtree db i" for k
    using that
  proof (induction rule: subtree_induct)
    case (kid j k)
    then have "j \<notin> S" using S by (auto simp: closed_below_def)
    with kid show ?case using kids by (blast intro: subtree_kid)
  qed simp
  ultimately show ?thesis by blast
qed

text \<open>The rows a move removes: the subtree of whatever else has the name at the destination.\<close>

definition replaced :: "state_db \<Rightarrow> inode \<Rightarrow> inode \<Rightarrow> string \<Rightarrow> (inode \<times> node) option" where
  "replaced db i P nm = find (\<lambda>(j, m). nd_parent m = P \<and> nd_name m = nm \<and> j \<noteq> i) (db_nodes db)"

definition replaced_rows :: "state_db \<Rightarrow> inode \<Rightarrow> inode \<Rightarrow> string \<Rightarrow> inode set" where
  "replaced_rows db i P nm = (case replaced db i P nm of None \<Rightarrow> {} | Some (j, _) \<Rightarrow> subtree db j)"

definition moved_row :: "state_db \<Rightarrow> inode \<Rightarrow> inode \<Rightarrow> string \<Rightarrow> string \<Rightarrow> node \<Rightarrow> inode \<Rightarrow> node option" where
  "moved_row db i P nm path n j =
     (if j \<in> replaced_rows db i P nm then None
      else if j = i then
        Some ((case replaced db i P nm of None \<Rightarrow> id | Some (_, occ) \<Rightarrow> inherit_identity occ)
          (n\<lparr>nd_parent := P, nd_name := nm, nd_path := path\<rparr>))
      else if j \<in> subtree db i then map_option (\<lambda>m. m\<lparr>nd_path := new_path n path m\<rparr>) (node_by_inode db j)
      else node_by_inode db j)"

lemma replaced_SomeD:
  assumes "tree_wf db" and "replaced db i P nm = Some (j, m)"
  shows "node_by_inode db j = Some m" and "nd_parent m = P" and "nd_name m = nm" and "j \<noteq> i"
  using assms(2) bt_in_set [OF tree_wfD(1) [OF assms(1)]] by (auto simp: replaced_def find_Some_iff dest!: nth_mem)

lemma replaced_None:
  assumes "tree_wf db" and "replaced db i P nm = None" and "node_by_inode db j = Some m" and "nd_parent m = P" "nd_name m = nm"
  shows "j = i"
  using assms(2-5) bt_in_set [OF tree_wfD(1) [OF assms(1)], of j m] by (auto simp: replaced_def find_None_iff)

lemma tree_update_row:
  assumes wf: "tree_wf db" and f: "\<And>n. nd_parent (f n) = nd_parent n \<and> nd_name (f n) = nd_name n \<and> nd_path (f n) = nd_path n \<and> nd_is_dir (f n) = nd_is_dir n"
  shows "tree_wf (update_row i f db)"
proof -
  have get: "node_by_inode (update_row i f db) j = (if j = i then map_option f (node_by_inode db i) else node_by_inode db j)" for j
    by (rule update_row_get)
  have orig: "\<exists>m. node_by_inode db j = Some m \<and> nd_parent n = nd_parent m \<and> nd_name n = nd_name m \<and> nd_path n = nd_path m \<and>
      nd_is_dir n = nd_is_dir m" if "node_by_inode (update_row i f db) j = Some n" for j n
    using that f unfolding get by (auto split: if_splits)
  have forth: "\<exists>m. node_by_inode (update_row i f db) j = Some m \<and> nd_parent m = nd_parent n \<and> nd_name m = nd_name n \<and>
      nd_path m = nd_path n \<and> nd_is_dir m = nd_is_dir n" if "node_by_inode db j = Some n" for j n
    using that f unfolding get by (auto split: if_splits)
  have "hangs (update_row i f db) j n" if j: "j \<noteq> root_inode" "node_by_inode (update_row i f db) j = Some n" for j n
  proof -
    obtain m where m: "node_by_inode db j = Some m" "nd_parent n = nd_parent m" "nd_name n = nd_name m" "nd_path n = nd_path m"
      using orig [OF j(2)] by blast
    obtain p where p: "node_by_inode db (nd_parent m) = Some p" "nd_is_dir p" "nd_path m = join_path (nd_path p) (nd_name m)"
        "good_name (nd_name m)"
      using tree_wf_parent [OF wf m(1) j(1)] by blast
    from forth [OF p(1)] p m show ?thesis by (auto simp: hangs_def)
  qed
  moreover have "rooted (update_row i f db)"
  proof -
    obtain r where r: "node_by_inode db root_inode = Some r" "nd_parent r = root_inode" "nd_name r = ''''" "nd_path r = ''''" "nd_is_dir r"
      by (rule tree_wf_root [OF wf])
    from forth [OF r(1)] r show ?thesis by (auto simp: rooted_def)
  qed
  moreover have "names_unique (update_row i f db)"
    unfolding names_unique_def
  proof (intro allI impI, elim conjE)
    fix j k n m
    assume "node_by_inode (update_row i f db) j = Some n" "node_by_inode (update_row i f db) k = Some m"
      "nd_parent n = nd_parent m" "nd_name n = nd_name m"
    with orig [of j n] orig [of k m] tree_wfD(4) [OF wf] show "j = k" unfolding names_unique_def by metis
  qed
  ultimately show ?thesis using tree_wfD(1,2) [OF wf] by (simp add: tree_wf_def store_simps)
qed

lemma and_then_simps [simp]:
  "and_then None f = None" "and_then (Some (Inl e)) f = Some (Inl e)" "and_then (Some (Inr a)) f = f a"
  by (simp_all add: and_then_def)

text \<open>The occupant of the destination goes first, and then the destination is free.\<close>

definition make_room :: "state_db \<Rightarrow> inode \<Rightarrow> inode \<Rightarrow> string \<Rightarrow> state_db outcome" where
  "make_room db i P nm =
     (case replaced db i P nm of
        None \<Rightarrow> Some (Inr db)
      | Some (j, _) \<Rightarrow> map_option (\<lambda>(db', _). Inr db') (delete_subtree j db))"

lemma replaced_rows_kept:
  assumes wf: "tree_wf db" and nm: "good_name nm"
  shows "closed_below db (replaced_rows db i P nm)" and "P \<notin> replaced_rows db i P nm" and "root_inode \<notin> replaced_rows db i P nm"
proof -
  show "closed_below db (replaced_rows db i P nm)"
    using closed_below_subtree by (auto simp: replaced_rows_def closed_below_def split: option.split)
  have "P \<notin> replaced_rows db i P nm \<and> root_inode \<notin> replaced_rows db i P nm"
  proof (cases "replaced db i P nm")
    case (Some e)
    obtain j m where e: "e = (j, m)" by (cases e)
    note j = replaced_SomeD [OF wf Some [unfolded e]]
    have root: "j \<noteq> root_inode" using j nm tree_wf_root [OF wf] by (metis good_name_def option.inject)
    obtain q where q: "nd_path m = join_path (nd_path q) (nd_name m)" "node_by_inode db (nd_parent m) = Some q" "good_name (nd_name m)"
      using tree_wf_parent [OF wf j(1) root] by blast
    have "P \<noteq> j" using q j join_path_longer [OF q(3), of "nd_path q"] by auto
    then have "j \<in> set (kids db P)" using j by (auto simp: kids_iff [OF wf])
    then have "P \<notin> subtree db j" using subtree_antisym [OF wf] by blast
    with Some e root_not_below [OF wf root] show ?thesis by (simp add: replaced_rows_def)
  qed (simp add: replaced_rows_def)
  then show "P \<notin> replaced_rows db i P nm" "root_inode \<notin> replaced_rows db i P nm" by simp_all
qed

lemma make_room_without:
  assumes wf: "tree_wf db" and nm: "good_name nm"
  obtains db0 where "make_room db i P nm = Some (Inr db0)" "without (replaced_rows db i P nm) db db0" "tree_wf db0"
proof -
  obtain db0 where rm: "make_room db i P nm = Some (Inr db0)" and w: "without (replaced_rows db i P nm) db db0"
  proof (cases "replaced db i P nm")
    case None
    with wf tree_wfD(1,2) show ?thesis by (intro that [of db]) (simp_all add: make_room_def without_def replaced_rows_def)
  next
    case (Some e)
    obtain j m where e: "e = (j, m)" by (cases e)
    obtain db0 where "delete_subtree j db = Some (db0, card (subtree db j))" "without (subtree db j) db db0"
      by (rule delete_subtree_without [OF wf])
    with Some e show ?thesis by (intro that [of db0]) (simp_all add: make_room_def replaced_rows_def)
  qed
  moreover have "tree_wf db0" by (rule without_tree [OF wf w replaced_rows_kept(1,3) [OF wf nm]])
  ultimately show ?thesis by (rule that)
qed

lemma place_is_free:
  assumes wf: "tree_wf db" and w: "without (replaced_rows db i P nm) db db0"
    and j: "node_by_inode db0 j = Some m" "nd_parent m = P" "nd_name m = nm"
  shows "j = i"
proof -
  have get0: "node_by_inode db0 j = (if j \<in> replaced_rows db i P nm then None else node_by_inode db j)"
    using w by (simp add: without_def)
  then have m: "node_by_inode db j = Some m" "j \<notin> replaced_rows db i P nm" using j(1) by (auto split: if_splits)
  show ?thesis
  proof (cases "replaced db i P nm")
    case None
    from replaced_None [OF wf None m(1) j(2,3)] show ?thesis .
  next
    case (Some e)
    obtain k r where e: "e = (k, r)" by (cases e)
    note k = replaced_SomeD [OF wf Some [unfolded e]]
    have "j = k" using tree_wfD(4) [OF wf] k m(1) j(2,3) unfolding names_unique_def by metis
    with m(2) Some e show ?thesis by (simp add: replaced_rows_def)
  qed
qed

text \<open>The rows after the removal and the move of the branch, as a formula over the rows before.\<close>

lemma moved_row_eq:
  assumes wf: "tree_wf db" and n: "node_by_inode db i = Some n" "i \<notin> replaced_rows db i P nm"
    and w: "without (replaced_rows db i P nm) db db0" and wf0: "tree_wf db0"
    and sub0: "subtree db0 i = subtree db i - replaced_rows db i P nm"
    and at: "branch_at db0 i n P nm path (subtree db0 i) db2"
    and f: "f = (case replaced db i P nm of None \<Rightarrow> id | Some (_, occ) \<Rightarrow> inherit_identity occ)"
  shows "(if j = i then map_option f (node_by_inode db2 i) else node_by_inode db2 j) = moved_row db i P nm path n j"
proof -
  let ?S = "replaced_rows db i P nm"
  have get0: "node_by_inode db0 k = (if k \<in> ?S then None else node_by_inode db k)" for k using w by (simp add: without_def)
  have get2: "node_by_inode db2 k = branch_row db0 i n P nm path (subtree db0 i) k" for k using at by (simp add: branch_at_def)
  show ?thesis
  proof (cases "j \<in> ?S \<or> j = i \<or> node_by_inode db j = None")
    case True
    with get0 get2 n f show ?thesis by (auto simp: branch_row_def moved_row_def)
  next
    case False
    then obtain m where m: "node_by_inode db j = Some m" by auto
    have "nd_parent m \<in> subtree db0 i" if "j \<in> subtree db0 i" "j \<noteq> i"
    proof -
      note j = that
      obtain d where "d \<in> subtree db0 i" "j \<in> set (kids db0 d)" using j by (blast elim: subtree_cases)
      with m False get0 show ?thesis by (simp add: kids_iff [OF wf0])
    qed
    with m False get0 get2 sub0 show ?thesis by (auto simp: branch_row_def moved_row_def new_path_def)
  qed
qed

definition finish_move :: "state_db \<Rightarrow> inode \<Rightarrow> inode \<Rightarrow> string \<Rightarrow> state_db \<Rightarrow> state_db" where
  "finish_move db i P nm db2 = (case replaced db i P nm of None \<Rightarrow> db2 | Some (_, occ) \<Rightarrow> update_row i (inherit_identity occ) db2)"

lemma move_run:
  assumes "tree_wf db" and "node_by_inode db i = Some n" and "i \<noteq> root_inode"
    and "node_by_inode db P = Some p" and "nd_is_dir p" and "good_name nm"
    and "\<not> descends_from db P i" and "i \<notin> replaced_rows db i P nm"
  obtains db0 db2 where "without (replaced_rows db i P nm) db db0" and "tree_wf db0"
    and "subtree db0 i = subtree db i - replaced_rows db i P nm"
    and "branch_at db0 i n P nm (join_path (nd_path p) nm) (subtree db0 i) db2"
    and "move_subtree i P nm db = Some (Inr (finish_move db i P nm db2, nd_path n, join_path (nd_path p) nm))"
    and "tree_wf (finish_move db i P nm db2)"
proof -
  let ?path = "join_path (nd_path p) nm"
  let ?S = "replaced_rows db i P nm"
  obtain db0 where rm: "make_room db i P nm = Some (Inr db0)" and w: "without ?S db db0" and wf0: "tree_wf db0"
    by (rule make_room_without [OF assms(1,6)])
  have sub0: "subtree db0 i = subtree db i - ?S"
    by (rule subtree_without [OF assms(1) w replaced_rows_kept(1) [OF assms(1,6)] wf0 assms(8)])
  have Pi: "P \<notin> subtree db i" using assms(7) descends_walk_sound [OF assms(1)] unfolding descends_from_def by blast
  have get0: "node_by_inode db0 j = (if j \<in> ?S then None else node_by_inode db j)" for j using w by (simp add: without_def)
  have "node_by_inode db0 i = Some n" "node_by_inode db0 P = Some p" "P \<notin> subtree db0 i"
    using assms(2,4,8) replaced_rows_kept(2) [OF assms(1,6)] Pi sub0 by (simp_all add: get0)
  then have mv: "movable db0 i n P p nm"
    unfolding movable_def using wf0 assms(3,5,6) place_is_free [OF assms(1) w] by blast
  obtain db1 db2 where up: "update_keys i (\<lambda>n. n\<lparr>nd_parent := P, nd_name := nm, nd_path := ?path\<rparr>) db0 = Some (Inr db1)"
      and rw: "rewrite_paths db1 [(i, ?path)] = Some (Inr db2)" and at: "branch_at db0 i n P nm ?path (subtree db0 i) db2"
      and wf2: "tree_wf db2"
    using move_branch [OF mv refl] by blast
  have "move_subtree i P nm db = Some (Inr (finish_move db i P nm db2, nd_path n, ?path))"
    using assms(2,4,7) rm [unfolded make_room_def replaced_def] up rw
    by (simp add: move_subtree_def finish_move_def replaced_def Let_def)
  moreover have "tree_wf (finish_move db i P nm db2)"
    using wf2 by (auto simp: finish_move_def inherit_identity_def intro!: tree_update_row split: option.split if_splits)
  ultimately show ?thesis by (rule that [OF w wf0 sub0 at])
qed

text \<open>
  C26. A move keeps every inode and loses nothing but what it replaces. Given a consistent
  tree, a destination directory that is not below the moved row, a proper name and an
  occupant of the destination that is not an ancestor of the moved row, the move returns,
  hits no constraint of the schema, and leaves a consistent tree: the occupant's subtree
  and the uploads it owed are gone, the moved row hangs under its new name with the
  occupant's identity if it had none of its own, every row below it has its path rewritten
  to the new place, and every other row and owed upload is as it was.
\<close>

theorem move_keeps_every_inode:
  assumes "tree_wf db" and "node_by_inode db i = Some n" and "i \<noteq> root_inode"
    and "node_by_inode db P = Some p" and "nd_is_dir p" and "good_name nm"
    and "\<not> descends_from db P i" and "i \<notin> replaced_rows db i P nm"
  shows "\<exists>db'. move_subtree i P nm db = Some (Inr (db', nd_path n, join_path (nd_path p) nm)) \<and> tree_wf db' \<and>
    (\<forall>j. node_by_inode db' j = moved_row db i P nm (join_path (nd_path p) nm) n j) \<and>
    (\<forall>j. bt_get (db_uploads db') j = (if j \<in> replaced_rows db i P nm then None else bt_get (db_uploads db) j))"
proof -
  let ?path = "join_path (nd_path p) nm"
  obtain db0 db2 where w: "without (replaced_rows db i P nm) db db0" and wf0: "tree_wf db0"
      and sub0: "subtree db0 i = subtree db i - replaced_rows db i P nm"
      and at: "branch_at db0 i n P nm ?path (subtree db0 i) db2"
      and run: "move_subtree i P nm db = Some (Inr (finish_move db i P nm db2, nd_path n, ?path))"
      and wf': "tree_wf (finish_move db i P nm db2)"
    by (rule move_run [OF assms])
  have "node_by_inode (finish_move db i P nm db2) j = moved_row db i P nm ?path n j" for j
  proof -
    let ?f = "case replaced db i P nm of None \<Rightarrow> id | Some (_, occ) \<Rightarrow> inherit_identity occ"
    have "node_by_inode (finish_move db i P nm db2) j = (if j = i then map_option ?f (node_by_inode db2 i) else node_by_inode db2 j)"
      by (auto simp: finish_move_def update_row_get option.map_id split: option.split)
    also have "\<dots> = moved_row db i P nm ?path n j"
      by (rule moved_row_eq [OF assms(1,2,8) w wf0 sub0 at refl])
    finally show ?thesis .
  qed
  moreover have "db_uploads (finish_move db i P nm db2) = db_uploads db0"
    using at by (simp add: finish_move_def branch_at_def update_row_get(2) split: option.split)
  moreover have "bt_get (db_uploads db0) j = (if j \<in> replaced_rows db i P nm then None else bt_get (db_uploads db) j)" for j
    using w by (simp add: without_def)
  ultimately show ?thesis using run wf' by auto
qed

text \<open>An account with a directory, a document in it, and the temporary file of an atomic save.\<close>

definition sample_db :: state_db where
  "sample_db =
     init_schema\<lparr>db_nodes :=
       [(1, new_node 1 '''' '''' True), (2, (new_node 1 ''Docs'' ''Docs'' True)\<lparr>nd_file_id := Some 7\<rparr>),
        (3, (new_node 2 ''a.odt'' ''Docs/a.odt'' False)\<lparr>nd_file_id := Some 8, nd_etag := ''v1''\<rparr>),
        (4, new_node 2 ''a.tmp'' ''Docs/a.tmp'' False), (5, (new_node 1 ''Work'' ''Work'' True)\<lparr>nd_file_id := Some 9\<rparr>)],
     db_uploads := [(3, \<lparr>pu_remote_path = ''Docs/a.odt'', pu_base_etag = ''v1'', pu_mtime = None, pu_state = ''pending'',
       pu_attempts = 0, pu_last_error = None\<rparr>)]\<rparr>"

definition check_tree :: "state_db \<Rightarrow> bool" where
  "check_tree db \<longleftrightarrow>
     bt_wf (db_nodes db) \<and> bt_wf (db_uploads db) \<and> rooted db \<and>
     list_all (\<lambda>(i, n). list_all (\<lambda>(j, m). nd_parent n = nd_parent m \<and> nd_name n = nd_name m \<longrightarrow> i = j) (db_nodes db)) (db_nodes db) \<and>
     list_all (\<lambda>(i, n). i = root_inode \<or> hangs db i n) (db_nodes db)"

lemma check_tree_wf: "check_tree db \<Longrightarrow> tree_wf db"
proof -
  assume c: "check_tree db"
  then have "bt_wf (db_nodes db)" by (simp add: check_tree_def)
  note member = bt_in_set [OF this]
  from c show ?thesis unfolding check_tree_def tree_wf_def names_unique_def list_all_iff using member by blast
qed

lemma sample_db_wf: "tree_wf sample_db"
  by (rule check_tree_wf) code_simp

lemma move_keeps_every_inode_witness:
  "\<exists>db'. move_subtree 2 5 ''Old'' sample_db = Some (Inr (db', ''Docs'', ''Work/Old'')) \<and> tree_wf db' \<and>
     map_option nd_path (node_by_inode db' 3) = Some ''Work/Old/a.odt'' \<and>
     bt_get (db_uploads db') 3 = bt_get (db_uploads sample_db) 3"
proof -
  let ?n = "(new_node 1 ''Docs'' ''Docs'' True)\<lparr>nd_file_id := Some 7\<rparr>"
  let ?p = "(new_node 1 ''Work'' ''Work'' True)\<lparr>nd_file_id := Some 9\<rparr>"
  have n: "node_by_inode sample_db 2 = Some ?n" "node_by_inode sample_db 5 = Some ?p" by (simp_all add: sample_db_def)
  have d: "\<not> descends_from sample_db 5 2" by code_simp
  have r: "replaced sample_db 2 5 ''Old'' = None" by code_simp
  have k: "3 \<in> subtree sample_db 2"
  proof (rule subtree_kid [OF subtree_refl])
    show "3 \<in> set (kids sample_db 2)" by code_simp
  qed
  have rr: "2 \<notin> replaced_rows sample_db 2 5 ''Old''" "3 \<notin> replaced_rows sample_db 2 5 ''Old''"
    by (simp_all add: replaced_rows_def r)
  have g: "good_name ''Old''" by (simp add: good_name_def)
  obtain db' where db': "move_subtree 2 5 ''Old'' sample_db = Some (Inr (db', nd_path ?n, join_path (nd_path ?p) ''Old''))"
      "tree_wf db'" "node_by_inode db' 3 = moved_row sample_db 2 5 ''Old'' (join_path (nd_path ?p) ''Old'') ?n 3"
      "bt_get (db_uploads db') 3 = bt_get (db_uploads sample_db) 3"
    using move_keeps_every_inode [OF sample_db_wf n(1) _ n(2) _ g d rr(1)] rr(2)
    by (auto simp: root_inode_def new_node_def)
  have "map_option nd_path (moved_row sample_db 2 5 ''Old'' (join_path (nd_path ?p) ''Old'') ?n 3) = Some ''Work/Old/a.odt''"
    using k rr(2) by (simp add: moved_row_def sample_db_def new_path_def new_node_def join_path_def)
  with db' show ?thesis by (auto simp: new_node_def join_path_def)
qed

text \<open>
  Renaming something onto one of its own ancestors destroys it. The refusal to move a row
  into its own subtree covers the destination directory, not the occupant it replaces: when
  the occupant is an ancestor of the moved row, the whole subtree is deleted, the moved row
  with it and the uploads they owe, and the move reports success.
\<close>

theorem move_onto_ancestor_destroys:
  "case move_subtree 3 1 ''Docs'' sample_db of
     Some (Inr (db', old, new)) \<Rightarrow>
       old = ''Docs/a.odt'' \<and> new = ''Docs'' \<and> node_by_inode db' 3 = None \<and> node_by_inode db' 2 = None \<and> db_uploads db' = []
   | _ \<Rightarrow> False"
  by code_simp

end
