(* ===== verification/Core_State_Reconcile.thy ===== *)
theory Core_State_Reconcile
  imports Core_State_Moves
begin

text \<open>
  Applying a listing (\<open>reconcile_children_except\<close>): which rows of the tree survive, which are
  refreshed and which are new, as a formula over the rows before and the listing.
\<close>

section \<open>Putting a child in place\<close>

lemma tree_put_same:
  assumes "tree_wf db" and "node_by_inode db i = Some n"
    and "\<And>n. nd_parent (f n) = nd_parent n \<and> nd_name (f n) = nd_name n \<and> nd_path (f n) = nd_path n \<and> nd_is_dir (f n) = nd_is_dir n"
  shows "tree_wf (put_node i (f n) db)"
  using tree_update_row [OF assms(1), of f i] assms by (simp add: update_row_def)

lemma next_rowid_fresh:
  assumes "bt_wf (db_nodes db)" and "node_by_inode db j = Some n"
  shows "j < next_rowid db"
proof -
  obtain m e where m: "db_nodes db = m @ [e]" using assms(2) by (cases "db_nodes db" rule: rev_cases) auto
  then have j: "(j, n) \<in> set (m @ [e])" using assms(2) by (metis map_of_SomeD)
  have "sorted_wrt (<) (map fst m @ [fst e])" using assms(1) m by (simp add: bt_wf_def)
  then have "\<forall>x \<in> fst ` set m. x < fst e" by (auto simp: sorted_wrt_append)
  with j have "j \<le> fst e" by force
  then show ?thesis using m by (simp add: next_rowid_def)
qed

lemma tree_put_new:
  assumes wf: "tree_wf db" and p: "node_by_inode db P = Some p" "nd_is_dir p"
    and n: "nd_parent n = P" "good_name (nd_name n)" "nd_path n = join_path (nd_path p) (nd_name n)"
    and free: "\<And>j m. node_by_inode db j = Some m \<Longrightarrow> nd_parent m = P \<Longrightarrow> nd_name m \<noteq> nd_name n"
  shows "insert_row n db = Some (Inr (put_node (next_rowid db) n db, next_rowid db))"
    and "node_by_inode db (next_rowid db) = None" and "tree_wf (put_node (next_rowid db) n db)"
proof -
  let ?i = "next_rowid db"
  have b: "bt_wf (db_nodes db)" by (rule tree_wfD(1) [OF wf])
  show none: "node_by_inode db ?i = None"
    using next_rowid_fresh [OF b] by (cases "node_by_inode db ?i") auto
  have path: "nd_path m \<noteq> nd_path n" if jm: "node_by_inode db j = Some m" for j m
  proof
    assume eq: "nd_path m = nd_path n"
    have j: "j \<noteq> root_inode"
      using jm eq n(3) tree_wf_root [OF wf] join_path_longer [OF n(2), of "nd_path p"] by fastforce
    obtain q where q: "node_by_inode db (nd_parent m) = Some q" "nd_path m = join_path (nd_path q) (nd_name m)" "good_name (nd_name m)"
      using tree_wf_parent [OF wf jm j] by blast
    have "nd_path q = nd_path p" "nd_name m = nd_name n"
      using join_path_inj [of "nd_path q" "nd_name m" "nd_path p" "nd_name n"] q eq n by simp_all
    moreover then have "nd_parent m = P" using path_unique [OF wf q(1) p(1)] by blast
    ultimately show False using free [OF jm] by blast
  qed
  have "\<not> row_conflict db ?i n" unfolding row_conflict_iff [OF b] using path free n(1) by metis
  then show "insert_row n db = Some (Inr (put_node ?i n db, ?i))" by (simp add: insert_row_def Let_def)
  have P: "P \<noteq> ?i" using none p(1) by auto
  obtain r where r: "node_by_inode db root_inode = Some r" by (rule tree_wf_root [OF wf])
  have root: "?i \<noteq> root_inode" using none r by auto
  have "hangs (put_node ?i n db) j m" if j: "j \<noteq> root_inode" "node_by_inode (put_node ?i n db) j = Some m" for j m
  proof (cases "j = ?i")
    case True
    with j p n P show ?thesis by (simp add: hangs_def put_node_get)
  next
    case False
    with j have m: "node_by_inode db j = Some m" by (simp add: put_node_get)
    obtain q where q: "node_by_inode db (nd_parent m) = Some q" "nd_is_dir q" "nd_path m = join_path (nd_path q) (nd_name m)"
        "good_name (nd_name m)"
      using tree_wf_parent [OF wf m j(1)] by blast
    then have "nd_parent m \<noteq> ?i" using none by auto
    with q show ?thesis by (simp add: hangs_def put_node_get)
  qed
  moreover have "rooted (put_node ?i n db)" using tree_wfD(3) [OF wf] root by (simp add: rooted_def put_node_get)
  moreover have "names_unique (put_node ?i n db)"
    unfolding names_unique_def
  proof (intro allI impI, elim conjE)
    fix a b m m'
    assume a: "node_by_inode (put_node ?i n db) a = Some m" "node_by_inode (put_node ?i n db) b = Some m'"
      "nd_parent m = nd_parent m'" "nd_name m = nd_name m'"
    show "a = b"
    proof (cases "a = ?i \<or> b = ?i")
      case True
      then show ?thesis using a n(1) free [of a m] free [of b m'] by (auto simp: put_node_get split: if_splits)
    next
      case False
      then show ?thesis using a tree_wfD(4) [OF wf] unfolding names_unique_def by (auto simp: put_node_get)
    qed
  qed
  ultimately show "tree_wf (put_node ?i n db)" using tree_wfD(1,2) [OF wf] by (simp add: tree_wf_def put_node_get)
qed

section \<open>Subtrees that a change leaves alone\<close>

lemma subtree_same:
  assumes "\<And>j k. j \<in> subtree db i \<Longrightarrow> k \<in> set (kids db' j) \<longleftrightarrow> k \<in> set (kids db j)"
  shows "subtree db' i = subtree db i"
proof -
  have "k \<in> subtree db i" if "k \<in> subtree db' i" for k
    using that by (induction rule: subtree_induct) (use assms in \<open>auto intro: subtree_kid\<close>)
  moreover have "k \<in> subtree db' i" if "k \<in> subtree db i" for k
    using that by (induction rule: subtree_induct) (use assms in \<open>auto intro: subtree_kid\<close>)
  ultimately show ?thesis by blast
qed

lemma delete_subtrees_without:
  "tree_wf db \<Longrightarrow> root_inode \<notin> (\<Union>i \<in> set is. subtree db i) \<Longrightarrow>
    \<exists>db' k. delete_subtrees is db = Some (db', k) \<and> without (\<Union>i \<in> set is. subtree db i) db db' \<and> tree_wf db'"
proof (induction "is" arbitrary: db)
  case Nil
  then show ?case using tree_wfD(1,2) by (simp add: without_def)
next
  case (Cons i "is")
  obtain db1 where d: "delete_subtree i db = Some (db1, card (subtree db i))" and w: "without (subtree db i) db db1"
    by (rule delete_subtree_without [OF Cons.prems(1)])
  have root: "root_inode \<notin> subtree db i" using Cons.prems(2) by simp
  have wf1: "tree_wf db1" by (rule without_tree [OF Cons.prems(1) w closed_below_subtree root])
  have sub: "subtree db1 j \<subseteq> subtree db j" and sub': "subtree db j \<subseteq> subtree db i \<union> subtree db1 j" for j
  proof -
    have "node_by_inode db1 j = (if j \<in> subtree db i then None else node_by_inode db j)" for j using w by (simp add: without_def)
    then have kids: "k \<in> set (kids db1 j) \<longleftrightarrow> k \<notin> subtree db i \<and> k \<in> set (kids db j)" for j k
      by (auto simp: kids_iff [OF wf1] kids_iff [OF Cons.prems(1)])
    have "k \<in> subtree db j" if "k \<in> subtree db1 j" for k
      using that by (induction rule: subtree_induct) (auto simp: kids intro: subtree_kid)
    then show "subtree db1 j \<subseteq> subtree db j" by blast
    have "k \<in> subtree db i \<union> subtree db1 j" if "k \<in> subtree db j" for k
      using that by (induction rule: subtree_induct) (use kids in \<open>auto intro: subtree_kid\<close>)
    then show "subtree db j \<subseteq> subtree db i \<union> subtree db1 j" by blast
  qed
  have "root_inode \<notin> (\<Union>j \<in> set is. subtree db1 j)" using Cons.prems(2) sub by auto
  from Cons.IH [OF wf1 this] obtain db' k where d': "delete_subtrees is db1 = Some (db', k)"
      "without (\<Union>j \<in> set is. subtree db1 j) db1 db'" "tree_wf db'" by blast
  have "j \<in> (\<Union>i \<in> set (i # is). subtree db i) \<longleftrightarrow> j \<in> subtree db i \<or> j \<in> (\<Union>j \<in> set is. subtree db1 j)" for j
    using sub sub' by (simp only: list.set UN_insert Un_iff) blast
  with w d'(2) have "without (\<Union>i \<in> set (i # is). subtree db i) db db'"
    unfolding without_def by simp
  with d d' show ?case by auto
qed

section \<open>One entry of the listing\<close>

abbreviation entry_name :: "remote_entry \<Rightarrow> string" where
  "entry_name c \<equiv> basename (rem_path c)"

text \<open>A listing of the directory: proper names, each once; below the root the path is the name.\<close>

definition listing_ok :: "string \<Rightarrow> remote_entry list \<Rightarrow> bool" where
  "listing_ok parent_path cs \<longleftrightarrow>
     distinct (map entry_name cs) \<and> (\<forall>c \<in> set cs. good_name (entry_name c) \<and> (parent_path = '''' \<longrightarrow> rem_path c = entry_name c))"

definition is_child :: "state_db \<Rightarrow> inode \<Rightarrow> inode \<Rightarrow> node \<Rightarrow> bool" where
  "is_child db P i n \<longleftrightarrow> node_by_inode db i = Some n \<and> nd_parent n = P \<and> i \<noteq> P"

lemma child_by_name_Some:
  assumes "tree_wf db" and "child_by_name db P name = Some (i, n)"
  shows "is_child db P i n" and "nd_name n = name"
  using assms(2) child_rows_iff [OF assms(1)]
  by (auto simp: child_by_name_def is_child_def find_Some_iff dest!: nth_mem)

lemma child_by_name_eq:
  assumes wf: "tree_wf db"
  shows "child_by_name db P name = Some (i, n) \<longleftrightarrow> is_child db P i n \<and> nd_name n = name"
proof
  assume "child_by_name db P name = Some (i, n)"
  with child_by_name_Some [OF wf] show "is_child db P i n \<and> nd_name n = name" by blast
next
  assume c: "is_child db P i n \<and> nd_name n = name"
  then have "(i, n) \<in> set (child_rows db P)" by (simp add: is_child_def child_rows_iff [OF wf])
  with c have "child_by_name db P name \<noteq> None" by (auto simp: child_by_name_def find_None_iff)
  then obtain j m where j: "child_by_name db P name = Some (j, m)" by auto
  from child_by_name_Some [OF wf j] c have "j = i \<and> m = n"
    using tree_wfD(4) [OF wf] unfolding is_child_def names_unique_def by (metis option.inject)
  with j show "child_by_name db P name = Some (i, n)" by simp
qed

lemma child_by_name_none:
  assumes "tree_wf db"
  shows "child_by_name db P name = None \<longleftrightarrow> (\<forall>i n. is_child db P i n \<longrightarrow> nd_name n \<noteq> name)"
proof
  assume "child_by_name db P name = None"
  then show "\<forall>i n. is_child db P i n \<longrightarrow> nd_name n \<noteq> name"
    using child_by_name_eq [OF assms, of P name] by (metis option.distinct(1))
next
  assume "\<forall>i n. is_child db P i n \<longrightarrow> nd_name n \<noteq> name"
  then show "child_by_name db P name = None"
    using child_by_name_eq [OF assms, of P name] by (cases "child_by_name db P name") auto
qed

text \<open>The row the upsert finds is the child of that name; a row that is its own parent has no name.\<close>

lemma upsert_find:
  assumes wf: "tree_wf db" and "good_name name"
  shows "find (\<lambda>(i, n). nd_parent n = P \<and> nd_name n = name) (db_nodes db) = child_by_name db P name"
proof -
  have own: "i \<noteq> P" if row: "node_by_inode db i = Some n" "nd_parent n = P" "nd_name n = name" for i n
  proof
    assume "i = P"
    obtain r where r: "node_by_inode db root_inode = Some r" "nd_name r = ''''" by (rule tree_wf_root [OF wf])
    have "i \<noteq> root_inode" using row(1,3) r assms(2) by (auto simp: good_name_def)
    then obtain p where "node_by_inode db P = Some p" "nd_path n = join_path (nd_path p) (nd_name n)" "good_name (nd_name n)"
      using tree_wf_parent [OF wf row(1)] row(2) by blast
    then have "length (nd_path p) < length (nd_path n)" using join_path_longer by metis
    moreover have "p = n" using \<open>i = P\<close> row(1) \<open>node_by_inode db P = Some p\<close> by simp
    ultimately show False by simp
  qed
  have "find (\<lambda>(i, n). nd_parent n = P \<and> nd_name n = name) (db_nodes db) =
      find (\<lambda>(i, n). nd_name n = name \<and> nd_parent n = P \<and> i \<noteq> P) (db_nodes db)"
    using own bt_in_set [OF tree_wfD(1) [OF wf]] by (intro find_cong refl) auto
  also have "\<dots> = child_by_name db P name"
  proof -
    have "find (\<lambda>(i, n). nd_name n = name \<and> nd_parent n = P \<and> i \<noteq> P) xs =
        find (\<lambda>(i, n). nd_name n = name) (filter (\<lambda>(i, n). nd_parent n = P \<and> i \<noteq> P) xs)" for xs :: "(inode \<times> node) list"
      by (induction xs) auto
    then show ?thesis by (simp add: child_by_name_def child_rows_def)
  qed
  finally show ?thesis .
qed

text \<open>The child of a name is replaced when the server has another kind of object there.\<close>

definition flips :: "state_db \<Rightarrow> (inode \<Rightarrow> bool) \<Rightarrow> inode \<Rightarrow> remote_entry \<Rightarrow> inode \<Rightarrow> bool" where
  "flips db protected P c i \<longleftrightarrow>
     (\<exists>n. is_child db P i n \<and> nd_name n = entry_name c \<and> \<not> protected i \<and> nd_is_dir n \<noteq> rem_is_dir c)"

definition inserts :: "state_db \<Rightarrow> (inode \<Rightarrow> bool) \<Rightarrow> inode \<Rightarrow> remote_entry \<Rightarrow> bool" where
  "inserts db protected P c \<longleftrightarrow> child_by_name db P (entry_name c) = None \<or> (\<exists>i. flips db protected P c i)"

definition refreshed :: "(inode \<Rightarrow> bool) \<Rightarrow> inode \<Rightarrow> remote_entry list \<Rightarrow> inode \<Rightarrow> node \<Rightarrow> node" where
  "refreshed protected P cs i n =
     (if nd_parent n = P \<and> i \<noteq> P \<and> \<not> protected i then
        (case find (\<lambda>c. entry_name c = nd_name n) cs of None \<Rightarrow> n | Some c \<Rightarrow> refresh_row c n)
      else n)"

definition fresh_row :: "inode \<Rightarrow> string \<Rightarrow> remote_entry \<Rightarrow> node" where
  "fresh_row P parent_path c = reconcile_row P (entry_name c) (join_path parent_path (entry_name c)) c"

lemma refreshed_keys [simp]:
  "nd_parent (refreshed protected P cs i n) = nd_parent n" "nd_name (refreshed protected P cs i n) = nd_name n"
  "nd_is_dir (refreshed protected P cs i n) = nd_is_dir n" "nd_path (refreshed protected P cs i n) = nd_path n"
  by (auto simp: refreshed_def refresh_row_def split: option.split)

lemma fresh_row_keys [simp]:
  "nd_parent (fresh_row P pp c) = P" "nd_name (fresh_row P pp c) = entry_name c"
  "nd_path (fresh_row P pp c) = join_path pp (entry_name c)" "nd_is_dir (fresh_row P pp c) = rem_is_dir c"
  by (simp_all add: fresh_row_def reconcile_row_def new_node_def)

text \<open>What one entry does to the tables.\<close>

lemma upsert_refresh:
  assumes wf: "tree_wf db" and "good_name (entry_name c)" and "is_child db P i n" and "nd_name n = entry_name c"
  shows "upsert_child P (entry_name c) path c db = Some (Inr (put_node i (refresh_row c n) db))"
    and "tree_wf (put_node i (refresh_row c n) db)"
proof -
  have "child_by_name db P (entry_name c) = Some (i, n)" using assms child_by_name_eq [OF wf] by blast
  then show "upsert_child P (entry_name c) path c db = Some (Inr (put_node i (refresh_row c n) db))"
    by (simp add: upsert_child_def upsert_find [OF wf assms(2)])
  show "tree_wf (put_node i (refresh_row c n) db)"
    using assms(3) by (intro tree_put_same [OF wf]) (auto simp: is_child_def refresh_row_def)
qed

lemma upsert_insert:
  assumes wf: "tree_wf db" and name: "good_name (entry_name c)" and p: "node_by_inode db P = Some p" "nd_is_dir p"
    and none: "child_by_name db P (entry_name c) = None"
  shows "upsert_child P (entry_name c) (join_path (nd_path p) (entry_name c)) c db =
      Some (Inr (put_node (next_rowid db) (fresh_row P (nd_path p) c) db))"
    and "node_by_inode db (next_rowid db) = None"
    and "tree_wf (put_node (next_rowid db) (fresh_row P (nd_path p) c) db)"
proof -
  have "nd_name m \<noteq> nd_name (fresh_row P (nd_path p) c)" if "node_by_inode db j = Some m" "nd_parent m = P" for j m
  proof
    assume "nd_name m = nd_name (fresh_row P (nd_path p) c)"
    then have "find (\<lambda>(i, n). nd_parent n = P \<and> nd_name n = entry_name c) (db_nodes db) \<noteq> None"
      using that bt_in_set [OF tree_wfD(1) [OF wf]] by (auto simp: find_None_iff)
    with none show False by (simp add: upsert_find [OF wf name])
  qed
  from tree_put_new [OF wf p _ _ _ this] name
  show "upsert_child P (entry_name c) (join_path (nd_path p) (entry_name c)) c db =
      Some (Inr (put_node (next_rowid db) (fresh_row P (nd_path p) c) db))"
    and "node_by_inode db (next_rowid db) = None" and "tree_wf (put_node (next_rowid db) (fresh_row P (nd_path p) c) db)"
    using none by (simp_all add: upsert_child_def upsert_find [OF wf name] fresh_row_def [symmetric])
qed

section \<open>The whole listing\<close>

definition dropped :: "state_db \<Rightarrow> (inode \<Rightarrow> bool) \<Rightarrow> inode \<Rightarrow> remote_entry list \<Rightarrow> inode set" where
  "dropped db protected P cs = {j. \<exists>c \<in> set cs. \<exists>i. flips db protected P c i \<and> j \<in> subtree db i}"

text \<open>The tables after the entries \<open>cs\<close> of the listing, against the tables before.\<close>

definition reconciled :: "state_db \<Rightarrow> (inode \<Rightarrow> bool) \<Rightarrow> inode \<Rightarrow> string \<Rightarrow> remote_entry list \<Rightarrow> state_db \<Rightarrow> bool" where
  "reconciled db protected P pp cs db' \<longleftrightarrow>
     tree_wf db' \<and>
     (\<forall>j n. node_by_inode db j = Some n \<and> j \<notin> dropped db protected P cs \<longrightarrow>
        node_by_inode db' j = Some (refreshed protected P cs j n)) \<and>
     (\<forall>j n'. node_by_inode db' j = Some n' \<longrightarrow>
        (j \<notin> dropped db protected P cs \<and> node_by_inode db j \<noteq> None) \<or>
        (\<exists>c \<in> set cs. inserts db protected P c \<and> n' = fresh_row P pp c)) \<and>
     (\<forall>c \<in> set cs. \<exists>j n'. is_child db' P j n' \<and> nd_name n' = entry_name c) \<and>
     (\<forall>j. bt_get (db_uploads db') j = (if j \<in> dropped db protected P cs then None else bt_get (db_uploads db) j))"

lemma reconciledD:
  assumes "reconciled db protected P pp cs db'"
  shows "tree_wf db'"
    and "\<And>j n. node_by_inode db j = Some n \<Longrightarrow> j \<notin> dropped db protected P cs \<Longrightarrow>
        node_by_inode db' j = Some (refreshed protected P cs j n)"
    and "\<And>j n'. node_by_inode db' j = Some n' \<Longrightarrow>
        (j \<notin> dropped db protected P cs \<and> node_by_inode db j \<noteq> None) \<or>
        (\<exists>c \<in> set cs. inserts db protected P c \<and> n' = fresh_row P pp c)"
    and "\<And>c. c \<in> set cs \<Longrightarrow> \<exists>j n'. is_child db' P j n' \<and> nd_name n' = entry_name c"
    and "\<And>j. bt_get (db_uploads db') j = (if j \<in> dropped db protected P cs then None else bt_get (db_uploads db) j)"
  using assms unfolding reconciled_def by blast+

lemma is_child_kid: "tree_wf db \<Longrightarrow> is_child db P i n \<Longrightarrow> i \<in> set (kids db P)"
  by (auto simp: is_child_def kids_iff)

lemma parent_not_below_child: "tree_wf db \<Longrightarrow> is_child db P i n \<Longrightarrow> P \<notin> subtree db i"
  using subtree_antisym is_child_kid by metis

lemma siblings_disjoint:
  assumes wf: "tree_wf db" and i: "is_child db P i n" and i': "is_child db P i' n'" and ne: "i \<noteq> i'"
    and "k \<in> subtree db i"
  shows "k \<notin> subtree db i'"
  using assms(5)
proof (induction rule: subtree_induct)
  case root
  show ?case
  proof
    assume "i \<in> subtree db i'"
    then obtain j where "j \<in> subtree db i'" "i \<in> set (kids db j)" using ne by (blast elim: subtree_cases)
    with kid_unique_parent [OF wf _ is_child_kid [OF wf i]] have "P \<in> subtree db i'" by metis
    with parent_not_below_child [OF wf i'] show False by blast
  qed
next
  case (kid j k)
  show ?case
  proof
    assume "k \<in> subtree db i'"
    then show False
    proof (cases rule: subtree_cases)
      case 1
      with kid_unique_parent [OF wf kid.hyps(2)] is_child_kid [OF wf i'] have "j = P" by metis
      with kid.hyps(1) parent_not_below_child [OF wf i] show False by blast
    next
      case (2 j')
      with kid_unique_parent [OF wf kid.hyps(2)] kid.IH show False by metis
    qed
  qed
qed

lemma dropped_unlisted:
  assumes wf: "tree_wf db" and i: "is_child db P i n" "nd_name n \<notin> entry_name ` set cs" and k: "k \<in> subtree db i"
  shows "k \<notin> dropped db protected P cs"
proof
  assume "k \<in> dropped db protected P cs"
  then obtain c i' n' where c: "c \<in> set cs" "is_child db P i' n'" "nd_name n' = entry_name c" "k \<in> subtree db i'"
    by (auto simp: dropped_def flips_def)
  have "i \<noteq> i'" using c i by (auto simp: is_child_def)
  with siblings_disjoint [OF wf i(1) c(2) _ k] c(4) show False by blast
qed

lemma parent_not_dropped: "tree_wf db \<Longrightarrow> P \<notin> dropped db protected P cs"
  by (auto simp: dropped_def flips_def dest: parent_not_below_child)

lemma find_name_None: "nm \<notin> entry_name ` set cs \<Longrightarrow> find (\<lambda>c. entry_name c = nm) cs = None"
  by (induction cs) auto

lemma refreshed_unlisted: "nd_name n \<notin> entry_name ` set cs \<Longrightarrow> refreshed protected P cs i n = n"
proof -
  assume "nd_name n \<notin> entry_name ` set cs"
  then have "find (\<lambda>c. entry_name c = nd_name n) cs = None" by (rule find_name_None)
  then show ?thesis by (simp add: refreshed_def)
qed

lemma reconciled_child:
  assumes wf: "tree_wf db" and r: "reconciled db protected P pp cs db'" and nm: "nm \<notin> entry_name ` set cs"
  shows "is_child db' P i n \<and> nd_name n = nm \<longleftrightarrow> is_child db P i n \<and> nd_name n = nm"
proof
  assume a: "is_child db' P i n \<and> nd_name n = nm"
  then have "node_by_inode db' i = Some n" by (simp add: is_child_def)
  from reconciledD(3) [OF r this] show "is_child db P i n \<and> nd_name n = nm"
  proof (elim disjE conjE bexE)
    assume i: "i \<notin> dropped db protected P cs" "node_by_inode db i \<noteq> None"
    then obtain m where m: "node_by_inode db i = Some m" by auto
    from reconciledD(2) [OF r m i(1)] a have n: "n = refreshed protected P cs i m" by (simp add: is_child_def)
    with a nm have "n = m" using refreshed_unlisted [of m cs protected P i] by auto
    with a m show ?thesis by (simp add: is_child_def)
  next
    fix c
    assume "c \<in> set cs" "n = fresh_row P pp c"
    with a nm show ?thesis by auto
  qed
next
  assume a: "is_child db P i n \<and> nd_name n = nm"
  with nm have u: "nd_name n \<notin> entry_name ` set cs" by simp
  from a have n: "node_by_inode db i = Some n" by (simp add: is_child_def)
  have "i \<notin> dropped db protected P cs" using dropped_unlisted [OF wf _ u subtree_refl] a by blast
  from reconciledD(2) [OF r n this] a show "is_child db' P i n \<and> nd_name n = nm"
    using refreshed_unlisted [OF u] by (simp add: is_child_def)
qed

lemma reconciled_subtree:
  assumes wf: "tree_wf db" and r: "reconciled db protected P pp cs db'"
    and i: "is_child db P i n" "nd_name n \<notin> entry_name ` set cs"
  shows "subtree db' i = subtree db i"
proof (rule subtree_same)
  fix j k
  assume j: "j \<in> subtree db i"
  have jP: "j \<noteq> P" using j parent_not_below_child [OF wf i(1)] by blast
  have wf': "tree_wf db'" by (rule reconciledD(1) [OF r])
  show "k \<in> set (kids db' j) \<longleftrightarrow> k \<in> set (kids db j)"
  proof
    assume "k \<in> set (kids db' j)"
    then obtain n' where n': "node_by_inode db' k = Some n'" "nd_parent n' = j" "k \<noteq> j" by (auto simp: kids_iff [OF wf'])
    from reconciledD(3) [OF r n'(1)] jP n'(2)
    have k: "k \<notin> dropped db protected P cs" "node_by_inode db k \<noteq> None" by auto
    then obtain m where m: "node_by_inode db k = Some m" by auto
    from reconciledD(2) [OF r m k(1)] n' have "nd_parent m = j" by simp
    with m n'(3) show "k \<in> set (kids db j)" by (simp add: kids_iff [OF wf])
  next
    assume kid: "k \<in> set (kids db j)"
    then obtain m where m: "node_by_inode db k = Some m" "nd_parent m = j" "k \<noteq> j" by (auto simp: kids_iff [OF wf])
    have "k \<notin> dropped db protected P cs" using dropped_unlisted [OF wf i subtree_kid [OF j kid]] .
    from reconciledD(2) [OF r m(1) this] m show "k \<in> set (kids db' j)" by (simp add: kids_iff [OF wf'])
  qed
qed

lemma dropped_snoc: "dropped db protected P (cs @ [c]) = dropped db protected P cs \<union> {j. \<exists>i. flips db protected P c i \<and> j \<in> subtree db i}"
  by (auto simp: dropped_def)

lemma find_append: "find Q (xs @ ys) = (case find Q xs of None \<Rightarrow> find Q ys | Some x \<Rightarrow> Some x)"
  by (induction xs) auto

lemma refreshed_snoc:
  assumes "entry_name c \<notin> entry_name ` set cs"
  shows "refreshed protected P (cs @ [c]) i n =
    (if nd_parent n = P \<and> i \<noteq> P \<and> \<not> protected i \<and> nd_name n = entry_name c then refresh_row c n
     else refreshed protected P cs i n)"
proof (cases "nd_name n = entry_name c")
  case True
  with assms have "find (\<lambda>c. entry_name c = nd_name n) cs = None" by (intro find_name_None) simp
  with True show ?thesis by (auto simp: refreshed_def find_append split: option.split)
next
  case False
  then show ?thesis by (auto simp: refreshed_def find_append split: option.split)
qed

lemma flips_unique:
  "tree_wf db \<Longrightarrow> is_child db P i n \<Longrightarrow> nd_name n = entry_name c \<Longrightarrow>
    flips db protected P c j \<longleftrightarrow> j = i \<and> \<not> protected i \<and> nd_is_dir n \<noteq> rem_is_dir c"
  using tree_wfD(4) [of db] unfolding flips_def is_child_def names_unique_def by (metis option.inject)

text \<open>With the name free, the entry becomes a new row.\<close>

lemma reconciled_insert:
  assumes wf1: "tree_wf db1" and p: "node_by_inode db1 P = Some p" "nd_is_dir p"
    and name: "good_name (entry_name c)" and none: "child_by_name db1 P (entry_name c) = None"
    and ins: "inserts db protected P c"
    and rows: "\<And>j n. node_by_inode db j = Some n \<Longrightarrow> j \<notin> dropped db protected P (cs @ [c]) \<Longrightarrow>
        node_by_inode db1 j = Some (refreshed protected P (cs @ [c]) j n)"
    and known: "\<And>j n'. node_by_inode db1 j = Some n' \<Longrightarrow>
        (j \<notin> dropped db protected P (cs @ [c]) \<and> node_by_inode db j \<noteq> None) \<or>
        (\<exists>c \<in> set cs. inserts db protected P c \<and> n' = fresh_row P (nd_path p) c)"
    and listed: "\<And>c. c \<in> set cs \<Longrightarrow> \<exists>j n'. is_child db1 P j n' \<and> nd_name n' = entry_name c"
    and ups: "\<And>j. bt_get (db_uploads db1) j = (if j \<in> dropped db protected P (cs @ [c]) then None else bt_get (db_uploads db) j)"
  shows "\<exists>db'. upsert_child P (entry_name c) (join_path (nd_path p) (entry_name c)) c db1 = Some (Inr db') \<and>
    reconciled db protected P (nd_path p) (cs @ [c]) db'"
proof -
  note up = upsert_insert [OF wf1 name p none]
  let ?i = "next_rowid db1"
  let ?db' = "put_node ?i (fresh_row P (nd_path p) c) db1"
  have iP: "?i \<noteq> P" using up(2) p(1) by auto
  have get: "node_by_inode ?db' j = (if j = ?i then Some (fresh_row P (nd_path p) c) else node_by_inode db1 j)" for j
    by (rule put_node_get)
  have old: "j \<noteq> ?i" if "node_by_inode db1 j = Some n" for j n using that up(2) by auto
  have rows': "node_by_inode ?db' j = Some (refreshed protected P (cs @ [c]) j n)"
    if "node_by_inode db j = Some n" "j \<notin> dropped db protected P (cs @ [c])" for j n
    using rows [OF that] old [OF rows [OF that]] by (simp add: get)
  have known': "(j \<notin> dropped db protected P (cs @ [c]) \<and> node_by_inode db j \<noteq> None) \<or>
      (\<exists>c \<in> set (cs @ [c]). inserts db protected P c \<and> n' = fresh_row P (nd_path p) c)"
    if "node_by_inode ?db' j = Some n'" for j n'
  proof (cases "j = ?i")
    case True
    with that ins show ?thesis by (simp add: get)
  next
    case False
    with that known [of j n'] show ?thesis by (auto simp: get)
  qed
  have listed': "\<exists>j n'. is_child ?db' P j n' \<and> nd_name n' = entry_name d" if d: "d \<in> set (cs @ [c])" for d
  proof (cases "d = c")
    case True
    with iP have "is_child ?db' P ?i (fresh_row P (nd_path p) c)" by (simp add: is_child_def get)
    with True show ?thesis by (intro exI [of _ ?i] exI [of _ "fresh_row P (nd_path p) c"]) simp
  next
    case False
    with d obtain j n' where j: "is_child db1 P j n'" "nd_name n' = entry_name d" using listed [of d] by auto
    then have "is_child ?db' P j n'" using old by (simp add: is_child_def get)
    with j(2) show ?thesis by blast
  qed
  have "reconciled db protected P (nd_path p) (cs @ [c]) ?db'"
    unfolding reconciled_def using up(3) rows' known' listed' ups by (simp add: put_node_get)
  with up(1) show ?thesis by blast
qed

lemma reconciled_lookup:
  assumes "tree_wf db" and r: "reconciled db protected P pp cs db'" and "nm \<notin> entry_name ` set cs"
  shows "child_by_name db' P nm = child_by_name db P nm"
proof -
  have "child_by_name db' P nm = Some e \<longleftrightarrow> child_by_name db P nm = Some e" for e
    using reconciled_child [OF assms, of "fst e" "snd e"] child_by_name_eq [OF assms(1), of P nm "fst e" "snd e"]
      child_by_name_eq [OF reconciledD(1) [OF r], of P nm "fst e" "snd e"] by simp
  then show ?thesis by (rule option_eq_by_Some)
qed

text \<open>An entry whose name is taken by a protected row, or by an object of the same kind.\<close>

lemma reconciled_keep:
  assumes wf: "tree_wf db" and r: "reconciled db protected P pp cs dbk" and fresh: "entry_name c \<notin> entry_name ` set cs"
    and i: "is_child db P i n" "nd_name n = entry_name c" and noflip: "protected i \<or> nd_is_dir n = rem_is_dir c"
    and f: "f = (if protected i then (\<lambda>n. n) else refresh_row c)"
    and db': "tree_wf db'" "\<And>j. node_by_inode db' j = (if j = i then map_option f (node_by_inode dbk i) else node_by_inode dbk j)"
      "db_uploads db' = db_uploads dbk"
  shows "reconciled db protected P pp (cs @ [c]) db'"
proof -
  have D: "dropped db protected P (cs @ [c]) = dropped db protected P cs"
    using noflip flips_unique [OF wf i] by (auto simp: dropped_snoc)
  have u: "nd_name n \<notin> entry_name ` set cs" using fresh i(2) by simp
  have ik: "is_child dbk P i n" using reconciled_child [OF wf r fresh] i by blast
  have unique: "j = i \<and> m = n" if "node_by_inode db j = Some m" "nd_parent m = P" "j \<noteq> P" "nd_name m = entry_name c" for j m
    using that i tree_wfD(4) [OF wf] unfolding is_child_def names_unique_def by (metis option.inject)
  have rows: "node_by_inode db' j = Some (refreshed protected P (cs @ [c]) j m)"
    if j: "node_by_inode db j = Some m" "j \<notin> dropped db protected P cs" for j m
  proof (cases "j = i")
    case True
    then have "m = n" using j(1) i(1) by (simp add: is_child_def)
    moreover have "f n = refreshed protected P (cs @ [c]) i n"
      using i refreshed_unlisted [OF u, of protected P i] by (auto simp: refreshed_snoc [OF fresh] f is_child_def)
    ultimately show ?thesis using True ik by (simp add: db'(2) is_child_def)
  next
    case False
    then have "refreshed protected P (cs @ [c]) j m = refreshed protected P cs j m"
      using unique [OF j(1)] by (auto simp: refreshed_snoc [OF fresh])
    with False reconciledD(2) [OF r j] show ?thesis by (simp add: db'(2))
  qed
  have known: "(j \<notin> dropped db protected P cs \<and> node_by_inode db j \<noteq> None) \<or>
      (\<exists>c \<in> set (cs @ [c]). inserts db protected P c \<and> n' = fresh_row P pp c)"
    if j: "node_by_inode db' j = Some n'" for j n'
  proof (cases "j = i")
    case True
    have "i \<notin> dropped db protected P cs" by (rule dropped_unlisted [OF wf i(1) u subtree_refl])
    with True i(1) show ?thesis by (simp add: is_child_def)
  next
    case False
    with j reconciledD(3) [OF r, of j n'] show ?thesis by (auto simp: db'(2))
  qed
  have kept: "\<exists>m'. is_child db' P j m' \<and> nd_name m' = nd_name m" if "is_child dbk P j m" for j m
    using that f by (cases "j = i") (auto simp: is_child_def db'(2) refresh_row_def)
  have "\<exists>j n'. is_child db' P j n' \<and> nd_name n' = entry_name d" if d: "d \<in> set (cs @ [c])" for d
    using d reconciledD(4) [OF r] kept kept [OF ik] i(2) by (cases "d = c") (metis, force)
  with rows known reconciledD(5) [OF r] db'(1,3) D show ?thesis unfolding reconciled_def by simp
qed

lemma reconcile_step:
  assumes wf: "tree_wf db" and p: "node_by_inode db P = Some p" "nd_is_dir p"
    and r: "reconciled db protected P (nd_path p) cs dbk"
    and c: "good_name (entry_name c)" "entry_name c \<notin> entry_name ` set cs" "nd_path p = '''' \<longrightarrow> rem_path c = entry_name c"
  shows "\<exists>db'. reconcile_entry protected P (nd_path p) c dbk = Some (Inr db') \<and>
    reconciled db protected P (nd_path p) (cs @ [c]) db'"
proof -
  have wfk: "tree_wf dbk" by (rule reconciledD(1) [OF r])
  have path: "(if nd_path p = '''' then rem_path c else nd_path p @ ''/'' @ entry_name c) = join_path (nd_path p) (entry_name c)"
    using c(3) by (simp add: join_path_def)
  have look: "child_by_name dbk P (entry_name c) = child_by_name db P (entry_name c)"
    by (rule reconciled_lookup [OF wf r c(2)])
  have pk: "\<exists>p'. node_by_inode dbk P = Some p' \<and> nd_is_dir p' \<and> nd_path p' = nd_path p"
    using reconciledD(2) [OF r p(1) parent_not_dropped [OF wf]] p(2) by simp
  have refresh: "refreshed protected P (cs @ [c]) j n = refreshed protected P cs j n"
    if "node_by_inode db j = Some n" "child_by_name db P (entry_name c) = None" for j n
    using that child_by_name_none [OF wf] by (auto simp: refreshed_snoc [OF c(2)] is_child_def)
  show ?thesis
  proof (cases "child_by_name db P (entry_name c)")
    case None
    have D: "dropped db protected P (cs @ [c]) = dropped db protected P cs"
      using None child_by_name_none [OF wf] by (auto simp: dropped_snoc flips_def)
    obtain p' where p': "node_by_inode dbk P = Some p'" "nd_is_dir p'" "nd_path p' = nd_path p" using pk by blast
    have "inserts db protected P c" using None by (simp add: inserts_def)
    from reconciled_insert [OF wfk p'(1,2) c(1) _ this, where cs = cs] None look D p'(3) refresh [OF _ None]
      reconciledD(2-5) [OF r] path
    show ?thesis by (simp add: reconcile_entry_def Let_def)
  next
    case (Some e)
    obtain i n where e: "e = (i, n)" by (cases e)
    then have i: "is_child db P i n" "nd_name n = entry_name c" using child_by_name_Some [OF wf] Some by blast+
    have ik: "is_child dbk P i n" using reconciled_child [OF wf r c(2)] i by blast
    then have ni: "node_by_inode dbk i = Some n" by (simp add: is_child_def)
    consider (kept) "protected i" | (same) "\<not> protected i" "nd_is_dir n = rem_is_dir c" | (flip) "\<not> protected i" "nd_is_dir n \<noteq> rem_is_dir c"
      by blast
    then show ?thesis
    proof cases
      case kept
      have "reconciled db protected P (nd_path p) (cs @ [c]) dbk"
        using kept ni by (intro reconciled_keep [OF wf r c(2) i _ refl wfk]) (auto simp: option.map_id0 [unfolded id_def])
      with kept Some e look show ?thesis by (simp add: reconcile_entry_def Let_def)
    next
      case same
      note up = upsert_refresh [OF wfk c(1) ik i(2)]
      have "reconciled db protected P (nd_path p) (cs @ [c]) (put_node i (refresh_row c n) dbk)"
        using same ni by (intro reconciled_keep [OF wf r c(2) i _ refl up(2)]) (auto simp: put_node_get)
      with same Some e look up(1) path show ?thesis by (simp add: reconcile_entry_def Let_def)
    next
      case flip
      have u: "nd_name n \<notin> entry_name ` set cs" using c(2) i(2) by simp
      have sub: "subtree dbk i = subtree db i" by (rule reconciled_subtree [OF wf r i(1) u])
      obtain db1 where d: "delete_subtree i dbk = Some (db1, card (subtree dbk i))" and w: "without (subtree dbk i) dbk db1"
        by (rule delete_subtree_without [OF wfk])
      have root: "i \<noteq> root_inode" using kid_not_root [OF wf is_child_kid [OF wf i(1)]] .
      have wf1: "tree_wf db1" by (rule without_tree [OF wfk w closed_below_subtree root_not_below [OF wfk root]])
      have get1: "node_by_inode db1 j = (if j \<in> subtree db i then None else node_by_inode dbk j)" for j
        using w by (simp add: without_def sub)
      have D: "j \<in> dropped db protected P (cs @ [c]) \<longleftrightarrow> j \<in> dropped db protected P cs \<or> j \<in> subtree db i" for j
        using flip flips_unique [OF wf i] by (auto simp: dropped_snoc)
      obtain p' where p': "node_by_inode dbk P = Some p'" "nd_is_dir p'" "nd_path p' = nd_path p" using pk by blast
      have p1: "node_by_inode db1 P = Some p'" using p'(1) parent_not_below_child [OF wf i(1)] by (simp add: get1)
      have none: "child_by_name db1 P (entry_name c) = None"
      proof -
        have "nd_name m \<noteq> entry_name c" if "is_child db1 P j m" for j m
        proof
          assume "nd_name m = entry_name c"
          moreover have m: "is_child dbk P j m" "j \<notin> subtree db i" using that by (auto simp: is_child_def get1 split: if_splits)
          ultimately have "j = i" using ik i(2) tree_wfD(4) [OF wfk] unfolding is_child_def names_unique_def by metis
          with m(2) show False by simp
        qed
        then show ?thesis by (simp add: child_by_name_none [OF wf1])
      qed
      have ins: "inserts db protected P c" using flip flips_unique [OF wf i] by (simp add: inserts_def)
      have "\<exists>db'. upsert_child P (entry_name c) (join_path (nd_path p') (entry_name c)) c db1 = Some (Inr db') \<and>
          reconciled db protected P (nd_path p') (cs @ [c]) db'"
      proof (rule reconciled_insert [OF wf1 p1 p'(2) c(1) none ins])
        fix j m
        assume j: "node_by_inode db j = Some m" "j \<notin> dropped db protected P (cs @ [c])"
        then have "j \<noteq> i" using D by auto
        have "\<not> (nd_parent m = P \<and> j \<noteq> P \<and> nd_name m = entry_name c)"
        proof
          assume "nd_parent m = P \<and> j \<noteq> P \<and> nd_name m = entry_name c"
          with i have "nd_parent m = nd_parent n" "nd_name m = nd_name n" by (simp_all add: is_child_def)
          moreover have "node_by_inode db i = Some n" using i(1) by (simp add: is_child_def)
          ultimately show False using j(1) \<open>j \<noteq> i\<close> tree_wfD(4) [OF wf] unfolding names_unique_def by blast
        qed
        then have "refreshed protected P (cs @ [c]) j m = refreshed protected P cs j m"
          by (auto simp: refreshed_snoc [OF c(2)])
        with j D reconciledD(2) [OF r j(1)] show "node_by_inode db1 j = Some (refreshed protected P (cs @ [c]) j m)"
          by (simp add: get1)
      next
        fix j m
        assume "node_by_inode db1 j = Some m"
        then have "node_by_inode dbk j = Some m" "j \<notin> subtree db i" by (auto simp: get1 split: if_splits)
        with reconciledD(3) [OF r this(1)] D p'(3)
        show "(j \<notin> dropped db protected P (cs @ [c]) \<and> node_by_inode db j \<noteq> None) \<or>
            (\<exists>c \<in> set cs. inserts db protected P c \<and> m = fresh_row P (nd_path p') c)" by auto
      next
        fix d
        assume dd: "d \<in> set cs"
        obtain j m where j: "is_child dbk P j m" "nd_name m = entry_name d" using reconciledD(4) [OF r dd] by blast
        have "entry_name d \<noteq> entry_name c" using dd c(2) by (metis (mono_tags, lifting) image_eqI)
        then have "j \<noteq> i" using j i(2) ik by (auto simp: is_child_def)
        then have "j \<notin> subtree dbk i" using siblings_disjoint [OF wfk j(1) ik _ subtree_refl] by blast
        with j show "\<exists>j n'. is_child db1 P j n' \<and> nd_name n' = entry_name d" by (auto simp: is_child_def get1 sub)
      next
        fix j
        show "bt_get (db_uploads db1) j = (if j \<in> dropped db protected P (cs @ [c]) then None else bt_get (db_uploads db) j)"
          using w reconciledD(5) [OF r, of j] D by (simp add: without_def sub)
      qed
      with flip Some e look d path p'(3) show ?thesis by (simp add: reconcile_entry_def Let_def)
    qed
  qed
qed

lemma reconcile_all:
  assumes wf: "tree_wf db" and p: "node_by_inode db P = Some p" "nd_is_dir p"
  shows "reconciled db protected P (nd_path p) done dbk \<Longrightarrow> listing_ok (nd_path p) (done @ cs) \<Longrightarrow>
    \<exists>db'. reconcile_entries protected P (nd_path p) cs dbk = Some (Inr db') \<and>
      reconciled db protected P (nd_path p) (done @ cs) db'"
proof (induction cs arbitrary: "done" dbk)
  case Nil
  then show ?case by simp
next
  case (Cons c cs)
  have "good_name (entry_name c)" "entry_name c \<notin> entry_name ` set done" "nd_path p = '''' \<longrightarrow> rem_path c = entry_name c"
    using Cons.prems(2) by (auto simp: listing_ok_def)
  from reconcile_step [OF wf p Cons.prems(1) this] obtain db1
    where db1: "reconcile_entry protected P (nd_path p) c dbk = Some (Inr db1)" "reconciled db protected P (nd_path p) (done @ [c]) db1"
    by blast
  have "listing_ok (nd_path p) ((done @ [c]) @ cs)" using Cons.prems(2) by simp
  from Cons.IH [OF db1(2) this] db1(1) show ?case by (simp add: and_then_simps)
qed

lemma reconciled_start: "tree_wf db \<Longrightarrow> reconciled db protected P pp [] db"
  by (simp add: reconciled_def dropped_def refreshed_def)

section \<open>What the server no longer has\<close>

definition gone :: "state_db \<Rightarrow> (inode \<Rightarrow> bool) \<Rightarrow> inode \<Rightarrow> remote_entry list \<Rightarrow> inode set" where
  "gone db protected P cs =
     {j. \<exists>i n. is_child db P i n \<and> nd_name n \<notin> entry_name ` set cs \<and> nd_file_id n \<noteq> None \<and> \<not> protected i \<and> j \<in> subtree db i}"

lemma gone_children_iff:
  assumes "tree_wf db"
  shows "i \<in> set (gone_children protected P seen db) \<longleftrightarrow>
    (\<exists>n. is_child db P i n \<and> nd_name n \<notin> set seen \<and> nd_file_id n \<noteq> None \<and> \<not> protected i)"
  by (auto simp: gone_children_def is_child_def child_rows_iff [OF assms] image_iff)

lemma gone_after_entries:
  assumes wf: "tree_wf db" and r: "reconciled db protected P pp cs db'"
  shows "(\<Union>i \<in> set (gone_children protected P (map entry_name cs) db'). subtree db' i) = gone db protected P cs"
proof -
  have "(\<Union>i \<in> set (gone_children protected P (map entry_name cs) db'). subtree db' i) = gone db' protected P cs"
    unfolding gone_def by (intro set_eqI) (simp only: UN_iff gone_children_iff [OF reconciledD(1) [OF r]] set_map Bex_def mem_Collect_eq, blast)
  also have "\<dots> = gone db protected P cs"
  proof -
    have same: "is_child db' P i n \<and> j \<in> subtree db' i \<longleftrightarrow> is_child db P i n \<and> j \<in> subtree db i"
      if "nd_name n \<notin> entry_name ` set cs" for i n j
      using reconciled_child [OF wf r that, of i n] reconciled_subtree [OF wf r _ that, of i] by auto
    show ?thesis unfolding gone_def by (intro Collect_cong ex_cong1) (use same in blast)
  qed
  finally show ?thesis .
qed

definition loaded_row :: "int \<Rightarrow> node \<Rightarrow> node" where
  "loaded_row now n = n\<lparr>nd_children_loaded := True, nd_loaded_at := now\<rparr>"


lemma reconcile_run:
  assumes wf: "tree_wf db" and p: "node_by_inode db P = Some p" "nd_is_dir p" and ok: "listing_ok (nd_path p) cs"
  obtains dbk db2 where "reconciled db protected P (nd_path p) cs dbk" and "without (gone db protected P cs) dbk db2"
    and "reconcile_children_except P (nd_path p) cs protected now db = Some (Inr (update_row P (loaded_row now) db2))"
    and "tree_wf (update_row P (loaded_row now) db2)"
proof -
  let ?G = "gone db protected P cs"
  obtain dbk where k: "reconcile_entries protected P (nd_path p) cs db = Some (Inr dbk)"
      and r: "reconciled db protected P (nd_path p) cs dbk"
    using reconcile_all [OF wf p reconciled_start [OF wf], of cs] ok by auto
  note wfk = reconciledD(1) [OF r]
  let ?gs = "gone_children protected P (map entry_name cs) dbk"
  note G = gone_after_entries [OF wf r]
  have root: "root_inode \<notin> ?G"
    unfolding gone_def using root_not_below [OF wf kid_not_root [OF wf is_child_kid [OF wf]]] by blast
  obtain db2 m where d: "delete_subtrees ?gs dbk = Some (db2, m)" and w: "without ?G dbk db2" and wf2: "tree_wf db2"
    using delete_subtrees_without [OF wfk] root unfolding G [symmetric] by blast
  let ?db' = "update_row P (loaded_row now) db2"
  have wf': "tree_wf ?db'" by (rule tree_update_row [OF wf2]) (auto simp: loaded_row_def)
  have run: "reconcile_children_except P (nd_path p) cs protected now db = Some (Inr ?db')"
    using k d by (simp add: reconcile_children_except_def and_then_simps loaded_row_def [abs_def])
  show ?thesis by (rule that [OF r w run wf'])
qed

text \<open>What a listing does, as a lemma for the theories that list.\<close>

lemma listing_effect:
  assumes wf: "tree_wf db" and p: "node_by_inode db P = Some p" "nd_is_dir p" and ok: "listing_ok (nd_path p) cs"
  shows "\<exists>db'. reconcile_children_except P (nd_path p) cs protected now db = Some (Inr db') \<and> tree_wf db' \<and>
    (let lost = dropped db protected P cs \<union> gone db protected P cs in
     (\<forall>j n. node_by_inode db j = Some n \<and> j \<notin> lost \<longrightarrow>
        node_by_inode db' j = Some ((if j = P then loaded_row now else (\<lambda>n. n)) (refreshed protected P cs j n))) \<and>
     (\<forall>j n. node_by_inode db' j = Some n \<longrightarrow>
        (j \<notin> lost \<and> node_by_inode db j \<noteq> None) \<or> (\<exists>c \<in> set cs. inserts db protected P c \<and> n = fresh_row P (nd_path p) c)) \<and>
     (\<forall>c \<in> set cs. \<exists>j n. is_child db' P j n \<and> nd_name n = entry_name c) \<and>
     (\<forall>j. bt_get (db_uploads db') j = (if j \<in> lost then None else bt_get (db_uploads db) j)))"
proof -
  let ?D = "dropped db protected P cs" and ?G = "gone db protected P cs"
  obtain dbk db2 where r: "reconciled db protected P (nd_path p) cs dbk" and w: "without ?G dbk db2"
      and run: "reconcile_children_except P (nd_path p) cs protected now db = Some (Inr (update_row P (loaded_row now) db2))"
      and wf': "tree_wf (update_row P (loaded_row now) db2)"
    by (rule reconcile_run [OF assms])
  let ?db' = "update_row P (loaded_row now) db2"
  note wfk = reconciledD(1) [OF r]
  have P: "P \<notin> ?G" using parent_not_below_child [OF wf] by (auto simp: gone_def)
  have get: "node_by_inode ?db' j = (if j \<in> ?G then None else map_option (if j = P then loaded_row now else (\<lambda>n. n)) (node_by_inode dbk j))" for j
    using w by (auto simp: without_def update_row_get option.map_id0 [unfolded id_def])
  have kept: "node_by_inode ?db' j = Some ((if j = P then loaded_row now else (\<lambda>n. n)) (refreshed protected P cs j n))"
    if "node_by_inode db j = Some n" "j \<notin> ?D \<union> ?G" for j n
    using reconciledD(2) [OF r that(1)] that(2) by (simp add: get)
  have known: "(j \<notin> ?D \<union> ?G \<and> node_by_inode db j \<noteq> None) \<or>
      (\<exists>c \<in> set cs. inserts db protected P c \<and> n = fresh_row P (nd_path p) c)"
    if n: "node_by_inode ?db' j = Some n" for j n
  proof (cases "j = P")
    case True
    with p(1) P parent_not_dropped [OF wf] show ?thesis by simp
  next
    case False
    with n have "node_by_inode dbk j = Some n" "j \<notin> ?G" by (auto simp: get split: if_splits)
    with reconciledD(3) [OF r this(1)] show ?thesis by blast
  qed
  have listed: "\<exists>j n. is_child ?db' P j n \<and> nd_name n = entry_name c" if c: "c \<in> set cs" for c
  proof -
    obtain j n where j: "is_child dbk P j n" "nd_name n = entry_name c" using reconciledD(4) [OF r c] by blast
    have "j \<notin> ?G"
    proof
      assume "j \<in> ?G"
      then obtain i m where i: "is_child db P i m" "nd_name m \<notin> entry_name ` set cs" "j \<in> subtree db i"
        by (auto simp: gone_def)
      have ik: "is_child dbk P i m" using reconciled_child [OF wf r i(2)] i(1) by blast
      have "i \<noteq> j" using ik j i(2) c by (auto simp: is_child_def)
      moreover have "j \<in> subtree dbk i" using reconciled_subtree [OF wf r i(1,2)] i(3) by simp
      ultimately show False using siblings_disjoint [OF wfk ik j(1)] subtree_refl by metis
    qed
    with j show ?thesis by (intro exI [of _ j] exI [of _ n]) (auto simp: is_child_def get)
  qed
  have ups: "bt_get (db_uploads ?db') j = (if j \<in> ?D \<union> ?G then None else bt_get (db_uploads db) j)" for j
    using w reconciledD(5) [OF r, of j] by (simp add: without_def update_row_get(2))
  show ?thesis unfolding Let_def by (intro exI [of _ ?db'] conjI run wf' allI impI ballI ups; (elim conjE)?; (rule kept known listed)?; assumption)
qed


definition sample_entry :: remote_entry where
  "sample_entry =
     \<lparr>rem_path = ''Docs/b.odt'', rem_is_dir = False, rem_size = 5, rem_etag = ''w1'', rem_mtime = 9, rem_file_id = Some 11,
      rem_permissions = ''RGDNVW'', rem_mount_type = '''', rem_is_mount_root = False\<rparr>"


end
