(* ===== verification/Core_State_Steps.thy ===== *)
theory Core_State_Steps
  imports Core_State_Reconcile
begin

text \<open>
  Every operation on the tables as a step, and the invariant of the databases the steps reach
  from a new one: the node table stays a tree whatever order the operations come in.
\<close>

section \<open>The steps\<close>

inductive state_step :: "state_db \<Rightarrow> state_db \<Rightarrow> bool" where
  list_dir: "node_by_inode db P = Some p \<Longrightarrow> nd_is_dir p \<Longrightarrow> listing_ok (nd_path p) cs \<Longrightarrow>
    reconcile_children_except P (nd_path p) cs protected now db = Some (Inr db') \<Longrightarrow> state_step db db'"
| create: "node_by_inode db P = Some p \<Longrightarrow> nd_is_dir p \<Longrightarrow> good_name name \<Longrightarrow>
    insert_local_file P name now db = Some (Inr (db', i, n)) \<Longrightarrow> state_step db db'"
| size: "state_step db (set_size i bytes db)"
| mtime: "state_step db (set_mtime i mtime db)"
| exec: "state_step db (set_exec i exec db)"
| etag_size: "state_step db (set_etag_size i etag bytes db)"
| rename_local: "node_by_inode db i = Some n \<Longrightarrow> \<not> nd_is_dir n \<Longrightarrow> node_by_inode db P = Some p \<Longrightarrow> nd_is_dir p \<Longrightarrow>
    good_name name \<Longrightarrow> rename_node i P name db = Some (Inr db') \<Longrightarrow> state_step db db'"
| move: "node_by_inode db i = Some n \<Longrightarrow> i \<noteq> root_inode \<Longrightarrow> node_by_inode db P = Some p \<Longrightarrow> nd_is_dir p \<Longrightarrow>
    good_name name \<Longrightarrow> move_subtree i P name db = Some (Inr (db', was, became)) \<Longrightarrow> state_step db db'"
| remove: "i \<noteq> root_inode \<Longrightarrow> remove_subtree i db = Some db' \<Longrightarrow> state_step db db'"
| forget: "forget_children i db = Some (db', k) \<Longrightarrow> state_step db db'"
| sweep: "state_step db (remove_unmaterialized_files db)"
| owe: "state_step db (mark_pending_upload i remote_path base_etag mtime db)"
| upload_state: "state_step db (set_upload_state i st last_error db)"
| attempt: "state_step db (bump_upload_attempt i db)"
| upload_path: "state_step db (move_pending_upload i remote_path db)"
| settle: "state_step db (clear_pending_upload i db)"
| sweep_uploads: "state_step db (fst (remove_orphaned_uploads db))"

definition state_reachable :: "state_db \<Rightarrow> bool" where
  "state_reachable db \<longleftrightarrow> state_step\<^sup>*\<^sup>* init_schema db"

section \<open>Each step keeps the tree\<close>

lemma init_schema_wf: "tree_wf init_schema"
  by (rule check_tree_wf) code_simp

lemma tree_uploads: "tree_wf db \<Longrightarrow> bt_wf u \<Longrightarrow> tree_wf (db\<lparr>db_uploads := u\<rparr>)"
  by (simp add: tree_wf_def rooted_def hangs_def names_unique_def)

lemma bt_wf_filter: "bt_wf m \<Longrightarrow> bt_wf (filter Q m)"
  by (induction m) auto

lemma tree_update_upload: "tree_wf db \<Longrightarrow> tree_wf (update_upload i f db)"
  using tree_wfD(2) by (auto simp: update_upload_def intro: tree_uploads split: option.split)

lemma create_keeps_tree:
  assumes wf: "tree_wf db" and p: "node_by_inode db P = Some p" "nd_is_dir p" and name: "good_name name"
    and run: "insert_local_file P name now db = Some (Inr (db', i, n))"
  shows "tree_wf db'"
proof -
  let ?n = "(new_node P name (join_path (nd_path p) name) False)\<lparr>nd_mtime := now\<rparr>"
  have keys: "nd_parent ?n = P" "nd_name ?n = name" "nd_path ?n = join_path (nd_path p) name" by (simp_all add: new_node_def)
  have clear: "\<not> row_conflict db (next_rowid db) ?n" and db': "db' = put_node (next_rowid db) ?n db"
    using run p by (auto simp: insert_local_file_def insert_row_def Let_def and_then_def split: option.splits if_splits)
  have free: "nd_name m \<noteq> nd_name ?n" if "node_by_inode db j = Some m" "nd_parent m = P" for j m
  proof -
    have "j \<noteq> next_rowid db" using next_rowid_fresh [OF tree_wfD(1) [OF wf] that(1)] by simp
    with clear that keys(1) show ?thesis unfolding row_conflict_iff [OF tree_wfD(1) [OF wf]] by metis
  qed
  show ?thesis unfolding db' using tree_put_new(3) [OF wf p keys(1) _ _ free] name keys by simp
qed

lemma file_has_no_kids: "tree_wf db \<Longrightarrow> node_by_inode db i = Some n \<Longrightarrow> \<not> nd_is_dir n \<Longrightarrow> kids db i = []"
proof -
  assume a: "tree_wf db" "node_by_inode db i = Some n" "\<not> nd_is_dir n"
  have "k \<notin> set (kids db i)" for k using kid_parent [OF a(1), of k i] a(2,3) by auto
  then show ?thesis by (cases "kids db i") auto
qed

lemma no_kids_subtree: "kids db i = [] \<Longrightarrow> subtree db i = {i}"
proof -
  assume k: "kids db i = []"
  have "j = i" if "j \<in> subtree db i" for j using that by (induction rule: subtree_induct) (use k in auto)
  then show ?thesis by auto
qed

lemma rename_keeps_tree:
  assumes wf: "tree_wf db" and n: "node_by_inode db i = Some n" "\<not> nd_is_dir n"
    and p: "node_by_inode db P = Some p" "nd_is_dir p" and name: "good_name name"
    and run: "rename_node i P name db = Some (Inr db')"
  shows "tree_wf db'"
proof -
  let ?path = "join_path (nd_path p) name"
  let ?f = "\<lambda>n :: node. n\<lparr>nd_parent := P, nd_name := name, nd_path := ?path\<rparr>"
  have keys: "nd_parent (?f n) = P" "nd_name (?f n) = name" by simp_all
  have clear: "\<not> row_conflict db i (?f n)" and db': "db' = put_node i (?f n) db"
    using run p n by (auto simp: rename_node_def update_keys_def split: if_splits)
  have kids: "kids db i = []" by (rule file_has_no_kids [OF wf n])
  have root: "i \<noteq> root_inode" using tree_wf_root [OF wf] n by (metis option.inject)
  have "j = i" if "node_by_inode db j = Some m" "nd_parent m = P" "nd_name m = name" for j m
    using clear that keys unfolding row_conflict_iff [OF tree_wfD(1) [OF wf]] by metis
  moreover have "P \<notin> subtree db i" using no_kids_subtree [OF kids] n p by auto
  ultimately have mv: "movable db i n P p name" using wf n p name root by (auto simp: movable_def)
  have "branch_at db i n P name ?path (subtree db i) db'"
    unfolding branch_at_def db' using n wf no_kids_subtree [OF kids]
    by (auto simp: branch_row_def put_node_get tree_wfD(1,2) split: option.split)
  from branch_tree [OF mv refl this] show ?thesis .
qed
lemma remove_keeps_tree:
  assumes "tree_wf db" and "i \<noteq> root_inode" and "delete_subtree i db = Some (db', k)"
  shows "tree_wf db'"
proof -
  obtain db0 where "delete_subtree i db = Some (db0, card (subtree db i))" "without (subtree db i) db db0"
    by (rule delete_subtree_without [OF assms(1)])
  with assms(3) without_tree [OF assms(1) _ closed_below_subtree root_not_below [OF assms(1,2)]] show ?thesis by auto
qed

lemma delete_subtrees_keeps_tree:
  "tree_wf db \<Longrightarrow> root_inode \<notin> set is \<Longrightarrow> delete_subtrees is db = Some (db', k) \<Longrightarrow> tree_wf db'"
proof (induction "is" arbitrary: db k)
  case Nil
  then show ?case by simp
next
  case (Cons i "is")
  then obtain db1 j k' where d: "delete_subtree i db = Some (db1, j)" "delete_subtrees is db1 = Some (db', k')"
    by (auto split: option.splits)
  from remove_keeps_tree [OF Cons.prems(1) _ d(1)] Cons.prems(2) have "tree_wf db1" by simp
  from Cons.IH [OF this _ d(2)] Cons.prems(2) show ?case by simp
qed

lemma forget_keeps_tree:
  assumes "tree_wf db" and "forget_children i db = Some (db', k)"
  shows "tree_wf db'"
proof -
  obtain db1 where d: "delete_subtrees (kids db i) db = Some (db1, k)"
      and db': "db' = update_row i (\<lambda>n. n\<lparr>nd_children_loaded := False, nd_loaded_at := 0\<rparr>) db1"
    using assms(2) by (auto simp: forget_children_def)
  have "root_inode \<notin> set (kids db i)" using kid_not_root [OF assms(1)] by blast
  from delete_subtrees_keeps_tree [OF assms(1) this d] show ?thesis unfolding db' by (rule tree_update_row) simp
qed

lemma sweep_keeps_tree:
  assumes wf: "tree_wf db"
  shows "tree_wf (remove_unmaterialized_files db)"
proof -
  define Q where "Q i n \<longleftrightarrow> nd_file_id n = None \<and> \<not> nd_is_dir n \<and> i \<noteq> root_inode \<and> i \<notin> fst ` set (db_uploads db)" for i and n :: node
  define S where "S = {i. \<exists>n. node_by_inode db i = Some n \<and> Q i n}"
  let ?db' = "remove_unmaterialized_files db"
  have rows: "db_nodes ?db' = filter (\<lambda>(i, n). \<not> Q i n) (db_nodes db)"
    by (simp add: remove_unmaterialized_files_def Q_def)
  have b: "bt_wf (db_nodes ?db')" unfolding rows by (rule bt_wf_filter [OF tree_wfD(1) [OF wf]])
  have get: "node_by_inode ?db' j = (if j \<in> S then None else node_by_inode db j)" for j
  proof (rule option_eq_by_Some)
    fix n
    have "node_by_inode ?db' j = Some n \<longleftrightarrow> node_by_inode db j = Some n \<and> \<not> Q j n"
      using bt_in_set [OF b, of j n] bt_in_set [OF tree_wfD(1) [OF wf], of j n] rows by auto
    then show "node_by_inode ?db' j = Some n \<longleftrightarrow> (if j \<in> S then None else node_by_inode db j) = Some n"
      by (auto simp: S_def)
  qed
  have hang: "hangs ?db' j n" if j: "j \<noteq> root_inode" "node_by_inode ?db' j = Some n" for j n
  proof -
    have n: "node_by_inode db j = Some n" using j(2) by (auto simp: get split: if_splits)
    obtain p where p: "node_by_inode db (nd_parent n) = Some p" "nd_is_dir p" "nd_path n = join_path (nd_path p) (nd_name n)"
        "good_name (nd_name n)"
      using tree_wf_parent [OF wf n j(1)] by blast
    then have "nd_parent n \<notin> S" by (auto simp: S_def Q_def)
    with p show ?thesis by (simp add: hangs_def get)
  qed
  have root: "root_inode \<notin> S" by (simp add: S_def Q_def)
  have sub: "node_by_inode db j = Some n" if "node_by_inode ?db' j = Some n" for j n
    using that by (auto simp: get split: if_splits)
  have "names_unique ?db'" using tree_wfD(4) [OF wf] sub unfolding names_unique_def by meson
  moreover have "rooted ?db'" using tree_wfD(3) [OF wf] root by (simp add: rooted_def get)
  moreover have "bt_wf (db_uploads ?db')" using tree_wfD(2) [OF wf] by (simp add: remove_unmaterialized_files_def)
  ultimately show ?thesis using b hang by (simp add: tree_wf_def)
qed

text \<open>When the occupant is an ancestor of the moved row, the rest of the move finds no row.\<close>

lemma move_keeps_tree:
  assumes wf: "tree_wf db" and n: "node_by_inode db i = Some n" "i \<noteq> root_inode"
    and p: "node_by_inode db P = Some p" "nd_is_dir p" and name: "good_name name"
    and run: "move_subtree i P name db = Some (Inr (db', was, became))"
  shows "tree_wf db'"
proof (cases "i \<in> replaced_rows db i P name")
  case False
  have "\<not> descends_from db P i" using run by (auto simp: move_subtree_def)
  from wf n p name this False show ?thesis by (rule move_run) (use run in auto)
next
  case True
  obtain db0 where rm: "make_room db i P name = Some (Inr db0)" and w: "without (replaced_rows db i P name) db db0"
      and wf0: "tree_wf db0"
    by (rule make_room_without [OF wf name])
  have none: "node_by_inode db0 i = None" using w True by (simp add: without_def)
  have "kids db0 i = []" using kid_parent [OF wf0, of _ i] none by (cases "kids db0 i") force+
  then have rows: "child_rows db0 i = []" by (simp add: kids_def)
  have "update_keys i f db0 = Some (Inr db0)" for f by (simp add: update_keys_def none)
  moreover have "rewrite_paths db0 [(i, path)] = Some (Inr db0)" for path
    by (simp add: rewrite_paths.simps [of _ "[(i, path)]"] rows) (simp add: rewrite_paths.simps)
  moreover have "update_row i f db0 = db0" for f by (simp add: update_row_def none)
  ultimately have "db' = db0"
    using run n p rm [unfolded make_room_def replaced_def]
    by (auto simp: move_subtree_def Let_def split: if_splits option.splits)
  with wf0 show ?thesis by simp
qed

lemma step_keeps_tree: "state_step db db' \<Longrightarrow> tree_wf db \<Longrightarrow> tree_wf db'"
proof (induction rule: state_step.induct)
  case (list_dir db P p cs protected now db')
  from list_dir.prems list_dir.hyps(1-3) show ?case
    by (rule reconcile_run [where protected = protected and now = now]) (use list_dir.hyps(4) in auto)
next
  case create
  then show ?case by (blast intro: create_keeps_tree)
next
  case (size db i bytes)
  then show ?case unfolding set_size_def by (rule tree_update_row) simp
next
  case (mtime db i mtime)
  then show ?case unfolding set_mtime_def by (rule tree_update_row) simp
next
  case (exec db i exec)
  then show ?case unfolding set_exec_def by (rule tree_update_row) simp
next
  case (etag_size db i etag bytes)
  then show ?case unfolding set_etag_size_def by (rule tree_update_row) simp
next
  case rename_local
  then show ?case by (blast intro: rename_keeps_tree)
next
  case move
  then show ?case by (blast intro: move_keeps_tree)
next
  case (remove i db db')
  then show ?case by (auto simp: remove_subtree_def intro: remove_keeps_tree)
next
  case forget
  then show ?case by (blast intro: forget_keeps_tree)
next
  case sweep
  then show ?case by (rule sweep_keeps_tree)
next
  case owe
  then show ?case using tree_wfD(2) by (auto simp: mark_pending_upload_def intro: tree_uploads)
next
  case upload_state
  then show ?case by (simp add: set_upload_state_def tree_update_upload)
next
  case attempt
  then show ?case by (simp add: bump_upload_attempt_def tree_update_upload)
next
  case upload_path
  then show ?case by (simp add: move_pending_upload_def tree_update_upload)
next
  case settle
  then show ?case using tree_wfD(2) by (auto simp: clear_pending_upload_def intro: tree_uploads)
next
  case sweep_uploads
  then show ?case using tree_wfD(2) by (auto simp: remove_orphaned_uploads_def Let_def intro: tree_uploads bt_wf_filter)
qed

section \<open>Every order of operations\<close>

lemma reachable_tree: "state_reachable db \<Longrightarrow> tree_wf db"
  unfolding state_reachable_def
  by (induction rule: rtranclp_induct) (auto intro: init_schema_wf step_keeps_tree)



text \<open>
  The row of an owed upload reads back as it was written: marked, and with a state set on it,
  it is there under its object with the path, etag and time it was marked with, no attempts, and the
  state and error that were set; each state is read back from its text, and a text that is none of
  the three reads as pending.
\<close>

theorem upload_state_round_trip:
  "pending_upload_of (set_upload_state i st err (mark_pending_upload i path etag mtime db)) i =
     Some \<lparr>pend_object = i, pend_remote_path = path, pend_base_etag = etag, pend_mtime = mtime, pend_state = st,
           pend_attempts = 0, pend_last_error = err\<rparr> \<and>
   upload_state_str (upload_state_of s) = (if s = ''uploading'' \<or> s = ''error'' then s else ''pending'')"
  by (cases st) (simp_all add: upload_state_of_def set_upload_state_def mark_pending_upload_def update_upload_def
      pending_upload_of_def pending_from_row_def store_simps)

end
