(* ===== verification/Core_Content.thy ===== *)
theory Core_Content
  imports Core_State Core_Health
begin

text \<open>
  The content store (\<open>crates/wusel-core/src/content.rs\<close>): whole-file copies on disk, keyed by
  the file id of the server and valid for one ETag, behind reads that go to the server. The
  cache directory is a value: blobs, ETag sidecars, pin markers and the temporary files of
  downloads and sequential runs. The source behind the cache is an argument; what a call of it
  answers is part of an event. A read that needs the network is two steps, before and after the
  request, because the code holds no lock across it. Times are nanoseconds; offsets and sizes are
  natural numbers, all below the 64-bit size of the row.
\<close>

type_synonym bytes = "u8 list"

definition fetch_chunk :: nat where "fetch_chunk = 8 * 1024 * 1024"
definition readahead_after :: nat where "readahead_after = 256 * 1024"
definition max_windows :: nat where "max_windows = 256"
definition max_readahead_bytes :: nat where "max_readahead_bytes = 64 * 1024 * 1024"
definition hydrate_floor :: nat where "hydrate_floor = 512 * 1024"
definition max_seen :: nat where "max_seen = 4096"

definition hydrate_trigger :: "nat \<Rightarrow> nat" where
  "hydrate_trigger sz = min hydrate_floor sz"

section \<open>The cache directory\<close>

text \<open>\<open><id>.part\<close>, \<open><id>.dl\<close> and \<open><id>.<seq>.ra\<close>.\<close>

datatype temp_file = PartFile u64 | DlFile u64 | RaFile u64 nat

record blob =
  bl_bytes :: bytes
  bl_mtime :: nat

record cache_dir =
  cd_blobs :: "(u64, blob) hash_map"
  cd_etags :: "(u64, string) hash_map"
  cd_pins :: "u64 list"
  cd_temps :: "(temp_file, blob) hash_map"

text \<open>How the sidecar comes out: written, not made, or made and left empty (a full disk).\<close>

datatype sidecar = Written | NotMade | LeftEmpty

record file_io =
  fi_stage :: bool
  fi_rename :: bool
  fi_sidecar :: sidecar

definition put_blob :: "u64 \<Rightarrow> blob \<Rightarrow> cache_dir \<Rightarrow> cache_dir" where
  "put_blob fid b d = d\<lparr>cd_blobs := hm_insert fid b (cd_blobs d)\<rparr>"

definition drop_sidecar :: "u64 \<Rightarrow> cache_dir \<Rightarrow> cache_dir" where
  "drop_sidecar fid d = d\<lparr>cd_etags := hm_remove fid (cd_etags d)\<rparr>"

definition put_temp :: "temp_file \<Rightarrow> blob \<Rightarrow> cache_dir \<Rightarrow> cache_dir" where
  "put_temp t b d = d\<lparr>cd_temps := hm_insert t b (cd_temps d)\<rparr>"

definition drop_temp :: "temp_file \<Rightarrow> cache_dir \<Rightarrow> cache_dir" where
  "drop_temp t d = d\<lparr>cd_temps := hm_remove t (cd_temps d)\<rparr>"

definition write_sidecar :: "sidecar \<Rightarrow> u64 \<Rightarrow> string \<Rightarrow> cache_dir \<Rightarrow> cache_dir" where
  "write_sidecar how fid etag d =
     (case how of
        Written \<Rightarrow> d\<lparr>cd_etags := hm_insert fid etag (cd_etags d)\<rparr>
      | NotMade \<Rightarrow> d
      | LeftEmpty \<Rightarrow> d\<lparr>cd_etags := hm_insert fid '''' (cd_etags d)\<rparr>)"

definition blob_is_fresh :: "cache_dir \<Rightarrow> u64 \<Rightarrow> string \<Rightarrow> bool" where
  "blob_is_fresh d fid etag \<longleftrightarrow> hm_get (cd_blobs d) fid \<noteq> None \<and> hm_get (cd_etags d) fid = Some etag"

text \<open>\<open>publish_blob\<close>: the sidecar goes, the bytes come, the new sidecar follows.\<close>

definition rename_blob :: "temp_file \<Rightarrow> u64 \<Rightarrow> cache_dir \<Rightarrow> cache_dir" where
  "rename_blob t fid d = (case hm_get (cd_temps d) t of None \<Rightarrow> d | Some b \<Rightarrow> put_blob fid b (drop_temp t d))"

definition publish_blob :: "file_io \<Rightarrow> temp_file \<Rightarrow> u64 \<Rightarrow> string \<Rightarrow> cache_dir \<Rightarrow> cache_dir \<times> bool" where
  "publish_blob io t fid etag d =
     (let d = drop_sidecar fid d in
      if \<not> fi_rename io \<or> hm_get (cd_temps d) t = None then (d, False)
      else (write_sidecar (fi_sidecar io) fid etag (rename_blob t fid d), fi_sidecar io = Written))"

definition evict_blob :: "u64 \<Rightarrow> cache_dir \<Rightarrow> cache_dir" where
  "evict_blob fid d = d\<lparr>cd_blobs := hm_remove fid (cd_blobs d), cd_etags := hm_remove fid (cd_etags d)\<rparr>"

definition touch :: "nat \<Rightarrow> u64 \<Rightarrow> cache_dir \<Rightarrow> cache_dir" where
  "touch now fid d = (case hm_get (cd_blobs d) fid of None \<Rightarrow> d | Some b \<Rightarrow> put_blob fid (b\<lparr>bl_mtime := now\<rparr>) d)"

definition slice :: "nat \<Rightarrow> nat \<Rightarrow> bytes \<Rightarrow> bytes" where
  "slice off len bs = take len (drop off bs)"

definition read_range_from_file :: "cache_dir \<Rightarrow> u64 \<Rightarrow> nat \<Rightarrow> nat \<Rightarrow> bytes option" where
  "read_range_from_file d fid off len = map_option (\<lambda>b. slice off len (bl_bytes b)) (hm_get (cd_blobs d) fid)"

section \<open>Eviction\<close>

definition age_secs :: "nat \<Rightarrow> nat \<Rightarrow> nat" where
  "age_secs now mtime = (now - mtime) div 1000000000"

text \<open>The candidates: file id, size and time of last use of what is not pinned.\<close>

definition candidates :: "cache_dir \<Rightarrow> (u64 \<times> nat \<times> nat) list" where
  "candidates d =
     map (\<lambda>(fid, b). (fid, length (bl_bytes b), bl_mtime b)) (filter (\<lambda>(fid, b). fid \<notin> set (cd_pins d)) (cd_blobs d))"

fun expire :: "nat \<Rightarrow> nat \<Rightarrow> (u64 \<times> nat \<times> nat) list \<Rightarrow> cache_dir \<Rightarrow> cache_dir \<times> (u64 \<times> nat \<times> nat) list \<times> u64 list" where
  "expire now max_age [] d = (d, [], [])"
| "expire now max_age ((fid, sz, mtime) # rest) d =
     (if age_secs now mtime > max_age then
        (case expire now max_age rest (evict_blob fid d) of (d', young, gone) \<Rightarrow> (d', young, fid # gone))
      else
        (case expire now max_age rest d of (d', young, gone) \<Rightarrow> (d', (fid, sz, mtime) # young, gone)))"

fun evict_lru :: "nat \<Rightarrow> nat \<Rightarrow> (u64 \<times> nat \<times> nat) list \<Rightarrow> cache_dir \<Rightarrow> cache_dir \<times> u64 list" where
  "evict_lru mx amount [] d = (d, [])"
| "evict_lru mx amount ((fid, sz, mtime) # rest) d =
     (if amount \<le> mx then (d, [])
      else (case evict_lru mx (amount - sz) rest (evict_blob fid d) of (d', gone) \<Rightarrow> (d', fid # gone)))"

definition sizes :: "(u64 \<times> nat \<times> nat) list \<Rightarrow> nat" where
  "sizes cs = sum_list (map (\<lambda>(fid, sz, mtime). sz) cs)"

definition evict :: "nat \<Rightarrow> nat option \<Rightarrow> nat option \<Rightarrow> cache_dir \<Rightarrow> cache_dir \<times> u64 list" where
  "evict now max_bytes max_age d =
     (if max_bytes = None \<and> max_age = None then (d, [])
      else
        case (case max_age of None \<Rightarrow> (d, candidates d, []) | Some age \<Rightarrow> expire now age (candidates d) d) of
          (d, cs, gone) \<Rightarrow>
            (case max_bytes of
               None \<Rightarrow> (d, gone)
             | Some mx \<Rightarrow>
                 if sizes cs > mx then
                   (case evict_lru mx (sizes cs) (sort_key (\<lambda>(fid, sz, mtime). mtime) cs) d of
                      (d, gone') \<Rightarrow> (d, gone @ gone'))
                 else (d, gone)))"

section \<open>Sequential runs\<close>

record read_window =
  rw_etag :: string
  rw_next :: nat
  rw_run :: nat
  rw_buf_start :: nat
  rw_buf :: bytes
  rw_part :: "(temp_file \<times> nat) option"
  rw_last_use :: nat

definition window_start :: "node \<Rightarrow> nat \<Rightarrow> temp_file \<Rightarrow> nat \<Rightarrow> read_window" where
  "window_start n off t now =
     \<lparr>rw_etag = nd_etag n, rw_next = off, rw_run = 0, rw_buf_start = 0, rw_buf = [],
      rw_part = (if off = 0 then Some (t, 0) else None), rw_last_use = now\<rparr>"

definition buffered :: "read_window \<Rightarrow> nat \<Rightarrow> nat \<Rightarrow> bytes option" where
  "buffered w off len =
     (if rw_buf w = [] \<or> off < rw_buf_start w \<or> off \<ge> rw_buf_start w + length (rw_buf w) then None
      else Some (slice (off - rw_buf_start w) len (rw_buf w)))"

definition drop_part :: "read_window \<Rightarrow> cache_dir \<Rightarrow> read_window \<times> cache_dir" where
  "drop_part w d =
     (case rw_part w of None \<Rightarrow> (w, d) | Some (t, written) \<Rightarrow> (w\<lparr>rw_part := None\<rparr>, drop_temp t d))"

text \<open>The first write makes the spill, later ones need it to be there; \<open>ok\<close>: the write itself.\<close>

definition spill :: "bool \<Rightarrow> nat \<Rightarrow> temp_file \<Rightarrow> nat \<Rightarrow> bytes \<Rightarrow> cache_dir \<Rightarrow> cache_dir option" where
  "spill ok now t written out d =
     (if \<not> ok then None
      else if written = 0 then Some (put_temp t \<lparr>bl_bytes = out, bl_mtime = now\<rparr> d)
      else map_option (\<lambda>b. put_temp t \<lparr>bl_bytes = bl_bytes b @ out, bl_mtime = now\<rparr> d) (hm_get (cd_temps d) t))"

definition window_advance :: "bool \<Rightarrow> nat \<Rightarrow> bytes \<Rightarrow> read_window \<Rightarrow> cache_dir \<Rightarrow> read_window \<times> cache_dir" where
  "window_advance ok now out w d =
     (let w = w\<lparr>rw_last_use := now\<rparr> in
      if out = [] then (w, d)
      else
        let w = w\<lparr>rw_next := rw_next w + length out, rw_run := rw_run w + length out\<rparr> in
        case rw_part w of
          None \<Rightarrow> (w, d)
        | Some (t, written) \<Rightarrow>
            (case spill ok now t written out d of
               Some d' \<Rightarrow> (w\<lparr>rw_part := Some (t, written + length out)\<rparr>, d')
             | None \<Rightarrow> drop_part w d))"

definition window_complete :: "read_window \<Rightarrow> nat \<Rightarrow> bool" where
  "window_complete w sz \<longleftrightarrow> (case rw_part w of None \<Rightarrow> False | Some (t, written) \<Rightarrow> written = sz)"

section \<open>The source\<close>

datatype stale_reason = Unreachable | ByChoice

datatype content_note =
    EntryChanged inode string string
  | BlobGone u64
  | StaleCopyServed string stale_reason

record content_config =
  cc_max_bytes :: "nat option"
  cc_max_age :: "nat option"
  cc_hydrates :: bool

record content =
  co_dir :: cache_dir
  co_windows :: "(u64, read_window) hash_map"
  co_window_seq :: nat
  co_seen :: "(u64, nat) hash_map"
  co_pending :: "u64 list"
  co_queue :: "node list"
  co_announced :: "u64 list"
  co_notes :: "content_note list"

text \<open>\<open>CachingSource::new\<close>: what is left of temporary files from an earlier process is swept.\<close>

definition content_new :: "cache_dir \<Rightarrow> content" where
  "content_new d =
     \<lparr>co_dir = d\<lparr>cd_temps := []\<rparr>, co_windows = [], co_window_seq = 0, co_seen = [], co_pending = [], co_queue = [],
      co_announced = [], co_notes = []\<rparr>"

text \<open>The node a row is, with the inode beside it: the change of an entry names its parent.\<close>

definition say :: "content_note list \<Rightarrow> content \<Rightarrow> content" where
  "say ns st = st\<lparr>co_notes := co_notes st @ ns\<rparr>"

definition announce :: "node \<Rightarrow> content \<Rightarrow> content" where
  "announce n st = say [EntryChanged (nd_parent n) (nd_name n) (nd_path n)] st"

definition set_dir :: "cache_dir \<Rightarrow> content \<Rightarrow> content" where
  "set_dir d st = st\<lparr>co_dir := d\<rparr>"

definition enforce_budget :: "content_config \<Rightarrow> nat \<Rightarrow> content \<Rightarrow> content" where
  "enforce_budget cfg now st =
     (case evict now (cc_max_bytes cfg) (cc_max_age cfg) (co_dir st) of
        (d, gone) \<Rightarrow> say (map BlobGone gone) (set_dir d st))"

definition serve_local_copy :: "node \<Rightarrow> nat \<Rightarrow> nat \<Rightarrow> stale_reason \<Rightarrow> content \<Rightarrow> content \<times> bytes option" where
  "serve_local_copy n off len reason st =
     (case nd_file_id n of
        None \<Rightarrow> (st, None)
      | Some fid \<Rightarrow>
          (case read_range_from_file (co_dir st) fid off len of
             None \<Rightarrow> (st, None)
           | Some bs \<Rightarrow>
               (if fid \<in> set (co_announced st) then st
                else say [StaleCopyServed (nd_path n) reason] (st\<lparr>co_announced := fid # co_announced st\<rparr>), Some bs)))"

definition stale_fallback :: "node \<Rightarrow> nat \<Rightarrow> nat \<Rightarrow> content \<Rightarrow> content \<times> bytes option" where
  "stale_fallback n off len st = serve_local_copy n off len Unreachable st"

definition read_outdated :: "node \<Rightarrow> nat \<Rightarrow> nat \<Rightarrow> content \<Rightarrow> content \<times> bytes option" where
  "read_outdated n off len st = serve_local_copy n off len ByChoice st"

text \<open>The oldest window goes when the map is full; the spill of a window that goes, goes with it.\<close>

definition oldest_window :: "(u64, read_window) hash_map \<Rightarrow> u64 option" where
  "oldest_window ws =
     (case sort_key (\<lambda>(fid, w). rw_last_use w) ws of [] \<Rightarrow> None | (fid, _) # _ \<Rightarrow> Some fid)"

definition remove_window :: "u64 \<Rightarrow> (u64, read_window) hash_map \<times> cache_dir \<Rightarrow> (u64, read_window) hash_map \<times> cache_dir" where
  "remove_window fid = (\<lambda>(ws, d).
     case hm_get ws fid of None \<Rightarrow> (ws, d) | Some w \<Rightarrow> (hm_remove fid ws, snd (drop_part w d)))"

definition buffered_bytes :: "(u64, read_window) hash_map \<Rightarrow> nat" where
  "buffered_bytes ws = sum_list (map (\<lambda>(fid, w). length (rw_buf w)) ws)"

definition drop_buffer :: "u64 \<Rightarrow> (u64, read_window) hash_map \<Rightarrow> (u64, read_window) hash_map" where
  "drop_buffer fid ws =
     (case hm_get ws fid of None \<Rightarrow> ws | Some w \<Rightarrow> hm_insert fid (w\<lparr>rw_buf := [], rw_buf_start := 0\<rparr>) ws)"

fun trim_loop :: "nat \<Rightarrow> u64 list \<Rightarrow> (u64, read_window) hash_map \<Rightarrow> (u64, read_window) hash_map" where
  "trim_loop amount [] ws = ws"
| "trim_loop amount (fid # rest) ws =
     (if amount \<le> max_readahead_bytes then ws
      else
        case hm_get ws fid of
          None \<Rightarrow> trim_loop amount rest ws
        | Some w \<Rightarrow> trim_loop (amount - length (rw_buf w)) rest (drop_buffer fid ws))"

definition trim_readahead :: "(u64, read_window) hash_map \<Rightarrow> (u64, read_window) hash_map" where
  "trim_readahead ws =
     (if buffered_bytes ws \<le> max_readahead_bytes then ws
      else
        trim_loop (buffered_bytes ws)
          (map fst (sort_key (\<lambda>(fid, w). rw_last_use w) (filter (\<lambda>(fid, w). rw_buf w \<noteq> []) ws))) ws)"

definition keep_window :: "u64 \<Rightarrow> read_window \<Rightarrow> (u64, read_window) hash_map \<times> cache_dir \<Rightarrow>
    (u64, read_window) hash_map \<times> cache_dir" where
  "keep_window fid w wd =
     (let wd = (if length (fst wd) \<ge> max_windows then
                  (case oldest_window (fst wd) of None \<Rightarrow> wd | Some old \<Rightarrow> remove_window old wd)
                else wd);
          wd = remove_window fid wd
      in (trim_readahead (hm_insert fid w (fst wd)), snd wd))"

text \<open>\<open>Hydrator::request\<close>; the worker that takes the queue lives as long as the source.\<close>

definition hydrator_request :: "node \<Rightarrow> content \<Rightarrow> content" where
  "hydrator_request n st =
     (case nd_file_id n of
        None \<Rightarrow> st
      | Some fid \<Rightarrow>
          if fid \<in> set (co_pending st) then st
          else st\<lparr>co_pending := fid # co_pending st, co_queue := co_queue st @ [n]\<rparr>)"

text \<open>The read-so-far tally; 64 bits, saturating.\<close>

definition tally :: "content_config \<Rightarrow> node \<Rightarrow> u64 \<Rightarrow> bool \<Rightarrow> bytes \<Rightarrow> content \<Rightarrow> content" where
  "tally cfg n fid spill_active out st =
     (if cc_hydrates cfg \<and> \<not> spill_active \<and> nd_size n > 0 \<and> out \<noteq> [] then
        let amount = min (2 ^ 64 - 1) ((case hm_get (co_seen st) fid of None \<Rightarrow> 0 | Some k \<Rightarrow> k) + length out);
            reached = (amount \<ge> hydrate_trigger (unat (nd_size n)));
            seen = (if reached then hm_remove fid (co_seen st) else hm_insert fid amount (co_seen st));
            seen = (if length seen > max_seen then [] else seen);
            st = st\<lparr>co_seen := seen\<rparr>
        in if reached then hydrator_request n st else st
      else st)"

definition publish_window :: "content_config \<Rightarrow> file_io \<Rightarrow> nat \<Rightarrow> read_window \<Rightarrow> node \<Rightarrow> u64 \<Rightarrow> content \<Rightarrow> content" where
  "publish_window cfg io now w n fid st =
     (case rw_part w of
        None \<Rightarrow> st
      | Some (t, _) \<Rightarrow>
          (case publish_blob io t fid (nd_etag n) (co_dir st) of
             (d, True) \<Rightarrow> enforce_budget cfg now (announce n (set_dir d st))
           | (d, False) \<Rightarrow> set_dir (drop_temp t d) st))"

section \<open>Reads\<close>

text \<open>A read of the source behind the cache, or of all of a file: the bytes, or an error.\<close>

type_synonym answer = "core_error + bytes"

text \<open>\<open>read_windowed\<close> up to the request: the window that carries on, or a new one.\<close>

definition take_window :: "node \<Rightarrow> u64 \<Rightarrow> nat \<Rightarrow> nat \<Rightarrow> content \<Rightarrow> content \<times> read_window" where
  "take_window n fid off now st =
     (let fresh = (\<lambda>st. (st\<lparr>co_window_seq := Suc (co_window_seq st)\<rparr>,
                          window_start n off (RaFile fid (co_window_seq st)) now));
          taken = st\<lparr>co_windows := hm_remove fid (co_windows st)\<rparr>
      in case hm_get (co_windows st) fid of
           None \<Rightarrow> fresh taken
         | Some w \<Rightarrow>
             if rw_etag w = nd_etag n \<and> off = rw_next w then (taken, w)
             else fresh (set_dir (snd (drop_part w (co_dir st))) taken))"

text \<open>What a miss of the buffer asks for.\<close>

definition window_want :: "read_window \<Rightarrow> node \<Rightarrow> nat \<Rightarrow> nat \<Rightarrow> nat" where
  "window_want w n off len =
     (if rw_run w \<ge> readahead_after then min fetch_chunk (unat (nd_size n) - off) else len)"

definition window_fill :: "read_window \<Rightarrow> nat \<Rightarrow> nat \<Rightarrow> bytes \<Rightarrow> read_window \<times> bytes" where
  "window_fill w off len bs =
     (if rw_run w \<ge> readahead_after then
        let w = w\<lparr>rw_buf_start := off, rw_buf := bs\<rparr> in (w, case buffered w off len of None \<Rightarrow> [] | Some out \<Rightarrow> out)
      else (w, bs))"

text \<open>The rest of \<open>read_windowed\<close>, with the bytes that are answered.\<close>

definition settle_window :: "content_config \<Rightarrow> file_io \<Rightarrow> nat \<Rightarrow> node \<Rightarrow> u64 \<Rightarrow> read_window \<Rightarrow> bytes \<Rightarrow> content \<Rightarrow> content" where
  "settle_window cfg io now n fid w out st =
     (case window_advance (fi_stage io) now out w (co_dir st) of
        (w, d) \<Rightarrow>
          (let st = set_dir d st in
           tally cfg n fid (rw_part w \<noteq> None) out
             (if window_complete w (unat (nd_size n)) then publish_window cfg io now w n fid st
              else if out = [] then set_dir (snd (drop_part w (co_dir st))) st
              else
                case keep_window fid w (co_windows st, co_dir st) of
                  (ws, d) \<Rightarrow> st\<lparr>co_windows := ws, co_dir := d\<rparr>)))"

datatype pending_read = Answered "core_error + bytes" | AwaitsRange nat read_window | AwaitsDirect

definition begin_read :: "content_config \<Rightarrow> file_io \<Rightarrow> nat \<Rightarrow> node \<Rightarrow> nat \<Rightarrow> nat \<Rightarrow> content \<Rightarrow> content \<times> pending_read" where
  "begin_read cfg io now n off len st =
     (if len = 0 \<or> off \<ge> unat (nd_size n) then (st, Answered (Inr []))
      else
        case nd_file_id n of
          None \<Rightarrow> (st, AwaitsDirect)
        | Some fid \<Rightarrow>
            let fresh = blob_is_fresh (co_dir st) fid (nd_etag n);
                st = (if fresh then (set_dir (touch now fid (co_dir st)) st)\<lparr>co_seen := hm_remove fid (co_seen st)\<rparr> else st)
            in case (if fresh then read_range_from_file (co_dir st) fid off len else None) of
                 Some bs \<Rightarrow> (st, Answered (Inr bs))
               | None \<Rightarrow>
                   if len < fetch_chunk then
                     case take_window n fid off now st of
                       (st, w) \<Rightarrow>
                         (case buffered w off len of
                            Some bs \<Rightarrow> (settle_window cfg io now n fid w bs st, Answered (Inr bs))
                          | None \<Rightarrow> (st, AwaitsRange (window_want w n off len) w))
                   else (st, AwaitsDirect))"

text \<open>Only a failure of HTTP falls back on a copy that is out of date.\<close>

definition fall_back :: "node \<Rightarrow> nat \<Rightarrow> nat \<Rightarrow> core_error \<Rightarrow> content \<Rightarrow> content \<times> answer" where
  "fall_back n off len e st =
     (if case e of Http _ \<Rightarrow> True | HttpStatus _ _ \<Rightarrow> True | _ \<Rightarrow> False then
        (case stale_fallback n off len st of (st, Some bs) \<Rightarrow> (st, Inr bs) | (st, None) \<Rightarrow> (st, Inl e))
      else (st, Inl e))"

definition finish_read :: "content_config \<Rightarrow> file_io \<Rightarrow> nat \<Rightarrow> node \<Rightarrow> nat \<Rightarrow> nat \<Rightarrow> pending_read \<Rightarrow> answer \<Rightarrow> content \<Rightarrow>
    content \<times> answer" where
  "finish_read cfg io now n off len p got st =
     (case p of
        Answered r \<Rightarrow> (st, r)
      | AwaitsDirect \<Rightarrow> (case got of Inr bs \<Rightarrow> (st, Inr bs) | Inl e \<Rightarrow> fall_back n off len e st)
      | AwaitsRange want w \<Rightarrow>
          (case got of
             Inr bs \<Rightarrow>
               (case window_fill w off len bs of
                  (w, out) \<Rightarrow>
                    ((case nd_file_id n of None \<Rightarrow> st | Some fid \<Rightarrow> settle_window cfg io now n fid w out st), Inr out))
           | Inl e \<Rightarrow> fall_back n off len e (set_dir (snd (drop_part w (co_dir st))) st)))"

definition wanted :: "pending_read \<Rightarrow> nat \<Rightarrow> nat" where
  "wanted p len = (case p of AwaitsRange want _ \<Rightarrow> want | _ \<Rightarrow> len)"

text \<open>One read with nothing in between: \<open>inner\<close> answers the range of the source behind.\<close>

definition content_read :: "(node \<Rightarrow> nat \<Rightarrow> nat \<Rightarrow> answer) \<Rightarrow> content_config \<Rightarrow> file_io \<Rightarrow> nat \<Rightarrow> node \<Rightarrow> nat \<Rightarrow> nat \<Rightarrow> content \<Rightarrow>
    content \<times> answer" where
  "content_read inner cfg io now n off len st =
     (case begin_read cfg io now n off len st of
        (st, p) \<Rightarrow> finish_read cfg io now n off len p (inner n off (wanted p len)) st)"

section \<open>Whole files\<close>

text \<open>\<open>stream_full\<close>: chunk after chunk through a read that may change a state of its own.\<close>

definition short_read :: core_error where "short_read = Other ''short read''"

function stream_full :: "(nat \<Rightarrow> nat \<Rightarrow> 's \<Rightarrow> 's \<times> answer) \<Rightarrow> nat \<Rightarrow> nat \<Rightarrow> bytes \<Rightarrow> 's \<Rightarrow> 's \<times> answer" where
  "stream_full rd sz off acc s =
     (if off < sz then
        (case rd off (min fetch_chunk (sz - off)) s of
           (s, Inl e) \<Rightarrow> (s, Inl e)
         | (s, Inr bs) \<Rightarrow>
             if bs = [] then (s, Inl short_read) else stream_full rd sz (off + length bs) (acc @ bs) s)
      else (s, Inr acc))"
  by pat_completeness auto
termination by (relation "measure (\<lambda>(rd, sz, off, acc, s). sz - off)") (auto intro!: diff_less_mono2)

declare stream_full.simps [simp del]

text \<open>A download through the source behind the cache; \<open>whole\<close> is its answer.\<close>

definition publish_download :: "file_io \<Rightarrow> nat \<Rightarrow> temp_file \<Rightarrow> u64 \<Rightarrow> node \<Rightarrow> answer \<Rightarrow> cache_dir \<Rightarrow>
    cache_dir \<times> (core_error + unit)" where
  "publish_download io now t fid n whole d =
     (if \<not> fi_stage io then (d, Inl (IoError ''create''))
      else
        case whole of
          Inl e \<Rightarrow> (drop_temp t d, Inl e)
        | Inr bs \<Rightarrow>
            (case publish_blob io t fid (nd_etag n) (put_temp t \<lparr>bl_bytes = bs, bl_mtime = now\<rparr> d) of
               (d, True) \<Rightarrow> (d, Inr ())
             | (d, False) \<Rightarrow> (drop_temp t d, Inl (IoError ''publish''))))"

definition fetch_whole :: "file_io \<Rightarrow> nat \<Rightarrow> u64 \<Rightarrow> node \<Rightarrow> answer \<Rightarrow> content \<Rightarrow> content \<times> (core_error + unit)" where
  "fetch_whole io now fid n whole st =
     (case publish_download io now (PartFile fid) fid n whole (co_dir st) of
        (d, Inr _) \<Rightarrow> (announce n (set_dir d st), Inr ())
      | (d, Inl e) \<Rightarrow> (set_dir d st, Inl e))"

definition download_whole :: "file_io \<Rightarrow> nat \<Rightarrow> u64 \<Rightarrow> node \<Rightarrow> answer \<Rightarrow> cache_dir \<Rightarrow> cache_dir \<times> (core_error + unit)" where
  "download_whole io now fid n whole d = publish_download io now (DlFile fid) fid n whole d"

text \<open>One round of the hydrator's loop.\<close>

definition hydrate_next :: "content_config \<Rightarrow> file_io \<Rightarrow> nat \<Rightarrow> answer \<Rightarrow> content \<Rightarrow> content" where
  "hydrate_next cfg io now whole st =
     (case co_queue st of
        [] \<Rightarrow> st
      | n # rest \<Rightarrow>
          (case nd_file_id n of
             None \<Rightarrow> st
           | Some fid \<Rightarrow>
               let st = st\<lparr>co_queue := rest\<rparr>;
                   st = (if blob_is_fresh (co_dir st) fid (nd_etag n) then st
                         else
                           case download_whole io now fid n whole (co_dir st) of
                             (d, Inr _) \<Rightarrow> announce n (enforce_budget cfg now (set_dir d st))
                           | (d, Inl _) \<Rightarrow> set_dir d st)
               in st\<lparr>co_pending := removeAll fid (co_pending st)\<rparr>))"

definition hydrating :: "content \<Rightarrow> u64 list" where
  "hydrating st = sort (co_pending st)"

definition pin_file :: "file_io \<Rightarrow> nat \<Rightarrow> node \<Rightarrow> answer \<Rightarrow> content \<Rightarrow> content \<times> (core_error + unit)" where
  "pin_file io now n whole st =
     (case nd_file_id n of
        None \<Rightarrow> (st, Inr ())
      | Some fid \<Rightarrow>
          (case (if blob_is_fresh (co_dir st) fid (nd_etag n) then (st, Inr ()) else fetch_whole io now fid n whole st) of
             (st, Inl e) \<Rightarrow> (st, Inl e)
           | (st, Inr _) \<Rightarrow>
               (announce n (set_dir ((co_dir st)\<lparr>cd_pins := fid # cd_pins (co_dir st)\<rparr>) st), Inr ())))"

definition unpin_file :: "u64 \<Rightarrow> content \<Rightarrow> content" where
  "unpin_file fid st = set_dir ((co_dir st)\<lparr>cd_pins := removeAll fid (cd_pins (co_dir st))\<rparr>) st"

definition store :: "content_config \<Rightarrow> file_io \<Rightarrow> nat \<Rightarrow> node \<Rightarrow> bytes \<Rightarrow> string \<Rightarrow> content \<Rightarrow> content \<times> (core_error + unit)" where
  "store cfg io now n data etag st =
     (case nd_file_id n of
        None \<Rightarrow> (st, Inr ())
      | Some fid \<Rightarrow>
          (case (if fi_stage io
                 then publish_blob io (PartFile fid) fid etag (put_temp (PartFile fid) \<lparr>bl_bytes = data, bl_mtime = now\<rparr> (co_dir st))
                 else (co_dir st, False)) of
             (d, True) \<Rightarrow> (enforce_budget cfg now (announce n (set_dir d st)), Inr ())
           | (d, False) \<Rightarrow> (set_dir (drop_temp (PartFile fid) d) st, Inl (IoError ''publish''))))"

text \<open>\<open>store_file\<close> copies the file instead of writing bytes it holds; \<open>src\<close>: what the file holds.\<close>

definition store_file :: "content_config \<Rightarrow> file_io \<Rightarrow> nat \<Rightarrow> node \<Rightarrow> bytes \<Rightarrow> string \<Rightarrow> content \<Rightarrow> content \<times> (core_error + unit)" where
  "store_file cfg io now n src etag st = store cfg io now n src etag st"

definition cached_bytes :: "node \<Rightarrow> content \<Rightarrow> bytes option" where
  "cached_bytes n st =
     (case nd_file_id n of
        None \<Rightarrow> None
      | Some fid \<Rightarrow>
          if blob_is_fresh (co_dir st) fid (nd_etag n) then map_option bl_bytes (hm_get (cd_blobs (co_dir st)) fid) else None)"

definition is_stale :: "node \<Rightarrow> content \<Rightarrow> bool" where
  "is_stale n st \<longleftrightarrow>
     (case nd_file_id n of
        None \<Rightarrow> False
      | Some fid \<Rightarrow> hm_get (cd_blobs (co_dir st)) fid \<noteq> None \<and> \<not> blob_is_fresh (co_dir st) fid (nd_etag n))"

definition is_cached :: "node \<Rightarrow> content \<Rightarrow> bool" where
  "is_cached n st \<longleftrightarrow> (case nd_file_id n of None \<Rightarrow> False | Some fid \<Rightarrow> blob_is_fresh (co_dir st) fid (nd_etag n))"

text \<open>\<open>stream_to\<close> of the cache: what goes into the open file, or an error.\<close>

definition stream_to :: "content_config \<Rightarrow> file_io \<Rightarrow> nat \<Rightarrow> node \<Rightarrow> answer \<Rightarrow> content \<Rightarrow> content \<times> answer" where
  "stream_to cfg io now n whole st =
     (case nd_file_id n of
        None \<Rightarrow> (st, whole)
      | Some fid \<Rightarrow>
          if (case cc_max_bytes cfg of None \<Rightarrow> False | Some mx \<Rightarrow> unat (nd_size n) > mx) then (st, whole)
          else
            case (if blob_is_fresh (co_dir st) fid (nd_etag n) then (st, Inr ()) else fetch_whole io now fid n whole st) of
              (st, Inl e) \<Rightarrow> (st, Inl e)
            | (st, Inr _) \<Rightarrow>
                (case hm_get (cd_blobs (co_dir st)) fid of
                   None \<Rightarrow> (st, Inl (IoError ''open''))
                 | Some b \<Rightarrow> (enforce_budget cfg now (set_dir (touch now fid (co_dir st)) st), Inr (bl_bytes b))))"

definition hydrate_to :: "(node \<Rightarrow> nat \<Rightarrow> nat \<Rightarrow> answer) \<Rightarrow> content_config \<Rightarrow> file_io \<Rightarrow> nat \<Rightarrow> node \<Rightarrow> content \<Rightarrow> content \<times> answer" where
  "hydrate_to inner cfg io now n st =
     (case cached_bytes n st of
        Some bs \<Rightarrow> (st, Inr bs)
      | None \<Rightarrow> stream_full (content_read inner cfg io now n) (unat (nd_size n)) 0 [] st)"

section \<open>The live source\<close>

text \<open>\<open>LiveWebDav\<close> over a range request and a whole-file request of the client.\<close>

definition live_read :: "(node \<Rightarrow> nat \<Rightarrow> nat \<Rightarrow> answer) \<Rightarrow> node \<Rightarrow> nat \<Rightarrow> nat \<Rightarrow> answer" where
  "live_read get n off len = (if len = 0 \<or> off \<ge> unat (nd_size n) then Inr [] else get n off len)"

definition live_stream :: "(node \<Rightarrow> answer) \<Rightarrow> node \<Rightarrow> answer" where
  "live_stream get_streaming n =
     (if nd_size n = 0 then Inr []
      else
        case get_streaming n of
          Inl e \<Rightarrow> Inl e
        | Inr bs \<Rightarrow> if length bs < unat (nd_size n) then Inl short_read else Inr bs)"

end
