(* ===== verification/Core_Content_Cache.thy ===== *)
theory Core_Content_Cache
  imports Core_Content
begin

text \<open>
  What the cache directory and the windows hold: every blob is a version of its file, and the one
  its sidecar names; the buffer of a window is a stretch of the version the window reads, its
  spill the beginning of it. Every operation keeps this, and so a read answers bytes of the
  version that was asked for, wherever it takes them from.
\<close>

section \<open>Stretches of a file\<close>

lemma slice_Nil [simp]: "slice off len [] = []" "slice off 0 bs = []"
  by (simp_all add: slice_def)

lemma slice_slice: "off \<le> len' \<Longrightarrow> slice off len (slice off' len' bs) = slice (off' + off) (min len (len' - off)) bs"
  by (simp add: slice_def drop_take take_take add.commute)

lemma length_slice: "length (slice off len bs) = min len (length bs - off)"
  by (simp add: slice_def)

lemma prefix_slice: "prefix xs (slice off len bs) \<longleftrightarrow> xs = slice off (length xs) bs \<and> length xs \<le> len"
proof
  assume p: "prefix xs (slice off len bs)"
  then have len: "length xs \<le> len" using prefix_length_le [OF p] by (simp add: length_slice)
  from p obtain zs where "slice off len bs = xs @ zs" by (auto simp: prefix_def)
  then have "xs = take (length xs) (slice off len bs)" by simp
  also have "\<dots> = slice off (length xs) bs" using len by (simp add: slice_def)
  finally show "xs = slice off (length xs) bs \<and> length xs \<le> len" using len by simp
next
  assume "xs = slice off (length xs) bs \<and> length xs \<le> len"
  then show "prefix xs (slice off len bs)"
    unfolding slice_def by (metis min.absorb1 take_is_prefix take_take)
qed

lemma take_slice: "take k bs @ slice k len bs = take (k + len) bs"
  by (simp add: slice_def take_add)

section \<open>The invariant\<close>

type_synonym versions = "u64 \<Rightarrow> string \<Rightarrow> bytes"

definition blobs_ok :: "versions \<Rightarrow> cache_dir \<Rightarrow> bool" where
  "blobs_ok ver d \<longleftrightarrow>
     (\<forall>fid b. hm_get (cd_blobs d) fid = Some b \<longrightarrow>
        (\<exists>e. bl_bytes b = ver fid e \<and> (\<forall>e'. hm_get (cd_etags d) fid = Some e' \<longrightarrow> e' = e \<or> e' = '''')))"

definition spill_ok :: "bytes \<Rightarrow> nat \<Rightarrow> cache_dir \<Rightarrow> u64 \<Rightarrow> read_window \<Rightarrow> bool" where
  "spill_ok V seq d fid w \<longleftrightarrow>
     (case rw_part w of
        None \<Rightarrow> True
      | Some (t, k) \<Rightarrow>
          (\<exists>s < seq. t = RaFile fid s) \<and> rw_next w = k \<and> k \<le> length V \<and>
          (k > 0 \<longrightarrow> (\<exists>b. hm_get (cd_temps d) t = Some b \<and> bl_bytes b = take k V)))"

definition buffer_ok :: "bytes \<Rightarrow> read_window \<Rightarrow> bool" where
  "buffer_ok V w \<longleftrightarrow> rw_buf w = slice (rw_buf_start w) (length (rw_buf w)) V"

definition window_ok :: "versions \<Rightarrow> nat \<Rightarrow> cache_dir \<Rightarrow> u64 \<times> read_window \<Rightarrow> bool" where
  "window_ok ver seq d = (\<lambda>(fid, w). buffer_ok (ver fid (rw_etag w)) w \<and> spill_ok (ver fid (rw_etag w)) seq d fid w)"

text \<open>The spill files in use, each by one window.\<close>

definition spill_of :: "read_window \<Rightarrow> temp_file multiset" where
  "spill_of w = (case rw_part w of None \<Rightarrow> {#} | Some (t, k) \<Rightarrow> {#t#})"

definition once :: "'a multiset \<Rightarrow> bool" where
  "once M \<longleftrightarrow> (\<forall>x. count M x \<le> 1)"

text \<open>The windows of the map, and those of the reads that wait for the network (\<open>out\<close>).\<close>

definition content_ok :: "versions \<Rightarrow> (u64 \<times> read_window) list \<Rightarrow> content \<Rightarrow> bool" where
  "content_ok ver out st \<longleftrightarrow>
     blobs_ok ver (co_dir st) \<and> hm_wf (co_windows st) \<and>
     (\<forall>x \<in> set (co_windows st) \<union> set out. window_ok ver (co_window_seq st) (co_dir st) x) \<and>
     once (hm_sum spill_of (co_windows st) + hm_sum spill_of out)"

lemma once_add: "once M \<Longrightarrow> x \<notin># M \<Longrightarrow> once (add_mset x M)"
  by (auto simp: once_def not_in_iff)

lemma onceD: "once (A + B) \<Longrightarrow> x \<in># A \<Longrightarrow> x \<notin># B"
  unfolding once_def by (metis add_le_same_cancel1 count_greater_eq_one_iff count_union le_antisym not_one_le_zero one_le_numeral order.trans not_in_iff le_add1 le_zero_eq)

lemma once_sub: "once (A + B) \<Longrightarrow> once A" "once (A + B) \<Longrightarrow> once B"
  unfolding once_def by (metis add_leD1 add_leD2 count_union)+

section \<open>Changes of the directory\<close>

lemma dir_fields [simp]:
  "cd_temps (put_blob fid b d) = cd_temps d" "cd_temps (drop_sidecar fid d) = cd_temps d"
  "cd_temps (evict_blob fid d) = cd_temps d" "cd_temps (touch now fid d) = cd_temps d"
  "cd_temps (write_sidecar how fid etag d) = cd_temps d"
  "cd_blobs (put_temp t b d) = cd_blobs d" "cd_etags (put_temp t b d) = cd_etags d"
  "cd_blobs (drop_temp t d) = cd_blobs d" "cd_etags (drop_temp t d) = cd_etags d"
  "cd_blobs (drop_sidecar fid d) = cd_blobs d" "cd_blobs (write_sidecar how fid etag d) = cd_blobs d"
  "cd_etags (put_blob fid b d) = cd_etags d" "cd_pins (put_blob fid b d) = cd_pins d"
  "cd_pins (evict_blob fid d) = cd_pins d"
  "cd_temps (put_temp t b d) = hm_insert t b (cd_temps d)" "cd_temps (drop_temp t d) = hm_remove t (cd_temps d)"
  by (auto simp: put_blob_def drop_sidecar_def evict_blob_def touch_def write_sidecar_def put_temp_def drop_temp_def
      split: option.split sidecar.split)

lemma expire_induct:
  assumes "expire now age cs d = (d', young, gone)" and "P d" and "\<And>fid d. P d \<Longrightarrow> P (evict_blob fid d)"
  shows "P d'"
  using assms(1,2)
  by (induction now age cs d arbitrary: d' young gone rule: expire.induct) (auto split: if_splits prod.splits dest: assms(3))

lemma evict_lru_induct:
  assumes "evict_lru mx amount cs d = (d', gone)" and "P d" and "\<And>fid d. P d \<Longrightarrow> P (evict_blob fid d)"
  shows "P d'"
  using assms(1,2)
  by (induction mx amount cs d arbitrary: d' gone rule: evict_lru.induct) (auto split: if_splits prod.splits dest: assms(3))

text \<open>What the deletion of any blob keeps, an eviction keeps.\<close>

lemma evict_keeps:
  assumes "P d" and step: "\<And>fid d. P d \<Longrightarrow> P (evict_blob fid d)"
  shows "P (fst (evict now mb ma d))"
proof -
  obtain d1 cs gone where e: "(case ma of None \<Rightarrow> (d, candidates d, []) | Some age \<Rightarrow> expire now age (candidates d) d) = (d1, cs, gone)"
    by (metis prod_cases3)
  then have d1: "P d1" using assms(1) by (auto split: option.splits dest: expire_induct [where P = P, OF _ _ step])
  obtain d2 gone' where l: "evict_lru (the mb) (sizes cs) (sort_key (\<lambda>(fid, sz, mtime). mtime) cs) d1 = (d2, gone')"
    by (metis prod.exhaust)
  then have "P d2" using d1 by (rule evict_lru_induct [where P = P, OF _ _ step])
  with e l d1 assms(1) show ?thesis by (auto simp: evict_def split: option.split)
qed

lemma evict_temps: "cd_temps (fst (evict now mb ma d)) = cd_temps d"
  by (rule evict_keeps [where P = "\<lambda>d'. cd_temps d' = cd_temps d"]) simp_all

lemma publish_temps:
  "cd_temps (fst (publish_blob io t fid etag d)) = cd_temps d \<or> cd_temps (fst (publish_blob io t fid etag d)) = hm_remove t (cd_temps d)"
  by (auto simp: publish_blob_def rename_blob_def Let_def split: option.split)

lemma blobs_ok_same [intro]: "blobs_ok ver d \<Longrightarrow> cd_blobs d' = cd_blobs d \<Longrightarrow> cd_etags d' = cd_etags d \<Longrightarrow> blobs_ok ver d'"
  by (simp add: blobs_ok_def)

lemma blobs_ok_temp [simp]: "blobs_ok ver (put_temp t b d) = blobs_ok ver d" "blobs_ok ver (drop_temp t d) = blobs_ok ver d"
  by (simp_all add: blobs_ok_def)

lemma blobs_ok_evict [intro]: "blobs_ok ver d \<Longrightarrow> blobs_ok ver (evict_blob fid d)"
  by (simp add: blobs_ok_def evict_blob_def store_simps)

lemma blobs_ok_touch [intro]: "blobs_ok ver d \<Longrightarrow> blobs_ok ver (touch now fid d)"
  by (auto simp: blobs_ok_def touch_def put_blob_def store_simps split: option.split)

lemma blobs_ok_evict_all: "blobs_ok ver d \<Longrightarrow> blobs_ok ver (fst (evict now mb ma d))"
  by (rule evict_keeps [where P = "blobs_ok ver"]) blast+

lemma blobs_ok_publish:
  assumes "blobs_ok ver d" and "\<And>b. hm_get (cd_temps d) t = Some b \<Longrightarrow> bl_bytes b = ver fid etag"
  shows "blobs_ok ver (fst (publish_blob io t fid etag d))"
proof -
  have gone: "blobs_ok ver (drop_sidecar fid d)" using assms(1) unfolding blobs_ok_def drop_sidecar_def by (simp add: store_simps) metis
  show ?thesis
  proof (cases "hm_get (cd_temps d) t")
    case None
    with gone show ?thesis by (simp add: publish_blob_def Let_def)
  next
    case (Some b)
    have "blobs_ok ver (write_sidecar how fid etag (put_blob fid b (drop_temp t (drop_sidecar fid d))))" for how
      unfolding blobs_ok_def
    proof (intro allI impI)
      let ?d = "write_sidecar how fid etag (put_blob fid b (drop_temp t (drop_sidecar fid d)))"
      fix j b'
      assume b': "hm_get (cd_blobs ?d) j = Some b'"
      show "\<exists>e. bl_bytes b' = ver j e \<and> (\<forall>e'. hm_get (cd_etags ?d) j = Some e' \<longrightarrow> e' = e \<or> e' = '''')"
      proof (cases "j = fid")
        case True
        with b' assms(2) [OF Some] show ?thesis
          by (intro exI [of _ etag]) (auto simp: write_sidecar_def put_blob_def drop_sidecar_def store_simps split: sidecar.splits)
      next
        case False
        with b' have "hm_get (cd_blobs d) j = Some b'" by (simp add: put_blob_def store_simps)
        moreover have "hm_get (cd_etags ?d) j = hm_get (cd_etags d) j"
          using False by (auto simp: write_sidecar_def drop_sidecar_def store_simps split: sidecar.split)
        ultimately show ?thesis using assms(1) by (simp add: blobs_ok_def)
      qed
    qed
    with gone Some show ?thesis by (auto simp: publish_blob_def Let_def rename_blob_def)
  qed
qed

section \<open>Changes of a window\<close>

lemma window_ok_mono:
  "window_ok ver seq d x \<Longrightarrow> seq \<le> seq' \<Longrightarrow> (\<And>t. t \<in># spill_of (snd x) \<Longrightarrow> hm_get (cd_temps d') t = hm_get (cd_temps d) t) \<Longrightarrow>
    window_ok ver seq' d' x"
  by (cases "rw_part (snd x)") (auto simp: window_ok_def spill_ok_def spill_of_def split: prod.splits option.splits intro: less_le_trans)

lemma spill_in_map: "x \<in> set ws \<Longrightarrow> t \<in># spill_of (snd x) \<Longrightarrow> t \<in># hm_sum spill_of ws"
  by (induction ws) auto

lemma spill_is_ra: "window_ok ver seq d x \<Longrightarrow> t \<in># spill_of (snd x) \<Longrightarrow> \<exists>s < seq. t = RaFile (fst x) s"
  by (auto simp: window_ok_def spill_ok_def spill_of_def split: prod.splits option.splits)

text \<open>What leaves every spill alone leaves the windows alone.\<close>

lemma content_ok_dir:
  assumes "content_ok ver out st" and "blobs_ok ver d"
    and "\<And>t. t \<in># hm_sum spill_of (co_windows st) + hm_sum spill_of out \<Longrightarrow> hm_get (cd_temps d) t = hm_get (cd_temps (co_dir st)) t"
  shows "content_ok ver out (set_dir d st)"
proof -
  have "window_ok ver (co_window_seq st) d x" if "x \<in> set (co_windows st) \<union> set out" for x
  proof (rule window_ok_mono [OF _ order_refl])
    show "window_ok ver (co_window_seq st) (co_dir st) x" using assms(1) that by (simp add: content_ok_def)
    show "hm_get (cd_temps d) t = hm_get (cd_temps (co_dir st)) t" if "t \<in># spill_of (snd x)" for t
      using assms(3) spill_in_map [OF _ that] \<open>x \<in> _\<close> by auto
  qed
  with assms(1,2) show ?thesis by (simp add: content_ok_def set_dir_def)
qed

lemma content_ok_spill:
  assumes "content_ok ver out st" and "t \<in># hm_sum spill_of (co_windows st) + hm_sum spill_of out"
  shows "\<exists>fid s. t = RaFile fid s \<and> s < co_window_seq st"
proof -
  have ra: "\<exists>fid s. t = RaFile fid s \<and> s < co_window_seq st"
    if "t \<in># hm_sum spill_of ws" "set ws \<subseteq> set (co_windows st) \<union> set out" for ws
    using that
  proof (induction ws)
    case (Cons x ws)
    show ?case
    proof (cases "t \<in># spill_of (snd x)")
      case True
      with Cons.prems(2) assms(1) show ?thesis using spill_is_ra [of ver "co_window_seq st" "co_dir st" x t] by (auto simp: content_ok_def)
    next
      case False
      with Cons show ?thesis by (cases x) auto
    qed
  qed simp
  then show ?thesis using assms(2) by auto
qed

lemma content_ok_same:
  "content_ok ver out st \<Longrightarrow> co_dir st' = co_dir st \<Longrightarrow> co_windows st' = co_windows st \<Longrightarrow> co_window_seq st' = co_window_seq st \<Longrightarrow>
    content_ok ver out st'"
  by (simp add: content_ok_def)

section \<open>Windows that come and go\<close>

lemma hm_sum_append [simp]: "hm_sum f (xs @ ys) = hm_sum f xs + hm_sum f ys"
  by (simp add: hm_sum_def)

lemma drop_part_eq: "drop_part w d = (w\<lparr>rw_part := None\<rparr>, case rw_part w of None \<Rightarrow> d | Some (t, k) \<Rightarrow> drop_temp t d)"
  by (cases w) (auto simp: drop_part_def split: option.split)

lemma drop_part_dir [simp]:
  "blobs_ok ver (snd (drop_part w d)) = blobs_ok ver d"
  "hm_get (cd_temps (snd (drop_part w d))) t = (if t \<in># spill_of w then None else hm_get (cd_temps d) t)"
  by (auto simp: drop_part_eq spill_of_def store_simps split: option.split)

lemma hm_remove_subset: "set (hm_remove k m) \<subseteq> set m"
  by (induction m) auto

text \<open>A window leaves the map, with its spill.\<close>

lemma content_ok_forget:
  assumes ok: "content_ok ver out st" and w: "hm_get (co_windows st) fid = Some w"
  shows "content_ok ver ((fid, w) # out) (st\<lparr>co_windows := hm_remove fid (co_windows st)\<rparr>)"
proof -
  have wf: "hm_wf (co_windows st)" using ok by (simp add: content_ok_def)
  have "(fid, w) \<in> set (co_windows st)" using w by (rule map_of_SomeD)
  with ok hm_remove_subset [of fid "co_windows st"] hm_sum_remove [OF wf w, of spill_of] show ?thesis
    by (auto simp: content_ok_def ac_simps)
qed

text \<open>A window outside the map is gone, with its spill.\<close>

lemma content_ok_drop:
  assumes ok: "content_ok ver ((fid, w) # out) st"
  shows "content_ok ver out (set_dir (snd (drop_part w (co_dir st))) st)"
proof -
  have ok': "content_ok ver out st"
    using ok once_sub(2) [of "spill_of w" "hm_sum spill_of (co_windows st) + hm_sum spill_of out"]
    by (auto simp: content_ok_def ac_simps)
  show ?thesis
  proof (rule content_ok_dir [OF ok'])
    show "blobs_ok ver (snd (drop_part w (co_dir st)))" using ok by (simp add: content_ok_def)
    fix t
    assume t: "t \<in># hm_sum spill_of (co_windows st) + hm_sum spill_of out"
    have "once (spill_of w + (hm_sum spill_of (co_windows st) + hm_sum spill_of out))" using ok by (simp add: content_ok_def ac_simps)
    then have "t \<notin># spill_of w" using onceD [of "spill_of w" _ t] t by metis
    then show "hm_get (cd_temps (snd (drop_part w (co_dir st)))) t = hm_get (cd_temps (co_dir st)) t" by simp
  qed
qed

lemma take_window_ok:
  assumes ok: "content_ok ver out st" and tw: "take_window n fid off now st = (st', w)"
  shows "content_ok ver ((fid, w) # out) st'" and "rw_etag w = nd_etag n" and "rw_next w = off"
proof -
  let ?new = "\<lambda>st. window_start n off (RaFile fid (co_window_seq st)) now"
  let ?next = "\<lambda>st. st\<lparr>co_window_seq := Suc (co_window_seq st)\<rparr>"
  have fresh: "content_ok ver ((fid, ?new st1) # out) (?next st1)" if ok1: "content_ok ver out st1" for st1
  proof -
    have "RaFile fid (co_window_seq st1) \<notin># hm_sum spill_of (co_windows st1) + hm_sum spill_of out"
      using content_ok_spill [OF ok1] by fastforce
    then have "once (spill_of (?new st1) + (hm_sum spill_of (co_windows st1) + hm_sum spill_of out))"
      using ok1 once_add [of "hm_sum spill_of (co_windows st1) + hm_sum spill_of out" "RaFile fid (co_window_seq st1)"]
      by (simp add: content_ok_def spill_of_def window_start_def)
    moreover have "window_ok ver (Suc (co_window_seq st1)) (co_dir st1) (fid, ?new st1)"
      by (auto simp: window_ok_def buffer_ok_def spill_ok_def window_start_def)
    moreover have "window_ok ver (Suc (co_window_seq st1)) (co_dir st1) x" if "x \<in> set (co_windows st1) \<union> set out" for x
      by (rule window_ok_mono [of ver "co_window_seq st1" "co_dir st1"]) (use ok1 that in \<open>auto simp: content_ok_def\<close>)
    ultimately show ?thesis using ok1 by (simp add: content_ok_def ac_simps)
  qed
  consider (taken) u where "hm_get (co_windows st) fid = Some u" "rw_etag u = nd_etag n" "off = rw_next u"
      "st' = st\<lparr>co_windows := hm_remove fid (co_windows st)\<rparr>" "w = u"
    | (broken) u st1 where "hm_get (co_windows st) fid = Some u" "w = ?new st1" "st' = ?next st1"
      "st1 = set_dir (snd (drop_part u (co_dir st))) (st\<lparr>co_windows := hm_remove fid (co_windows st)\<rparr>)"
    | (none) "hm_get (co_windows st) fid = None" "w = ?new st" "st' = ?next st"
    using tw by (auto simp: take_window_def Let_def set_dir_def hm_get_None_iff split: option.splits if_splits)
  then have "content_ok ver ((fid, w) # out) st' \<and> rw_etag w = nd_etag n \<and> rw_next w = off"
  proof cases
    case taken
    with content_ok_forget [OF ok taken(1)] show ?thesis by simp
  next
    case broken
    have "content_ok ver out st1" using content_ok_drop [OF content_ok_forget [OF ok broken(1)]] broken(4) by simp
    with fresh broken(2,3) show ?thesis by (simp add: window_start_def)
  next
    case none
    with fresh [OF ok] show ?thesis by (simp add: window_start_def)
  qed
  then show "content_ok ver ((fid, w) # out) st'" and "rw_etag w = nd_etag n" and "rw_next w = off" by simp_all
qed

section \<open>Bytes through a window\<close>

text \<open>Bytes an honest source may answer for a range of a version: the range, or the beginning of it.\<close>

definition serves :: "bytes \<Rightarrow> nat \<Rightarrow> nat \<Rightarrow> bytes \<Rightarrow> bool" where
  "serves V off len bs \<longleftrightarrow> prefix bs (slice off len V)"

lemma serves_iff: "serves V off len bs \<longleftrightarrow> bs = slice off (length bs) V \<and> length bs \<le> len"
  unfolding serves_def by (rule prefix_slice)

lemma serves_Nil [simp]: "serves V off len []"
  by (simp add: serves_def)

lemma buffered_serves:
  assumes "buffer_ok V w" and "buffered w off len = Some bs"
  shows "serves V off len bs"
proof -
  let ?s = "rw_buf_start w" and ?l = "length (rw_buf w)"
  have off: "?s \<le> off" "off < ?s + ?l" and bs: "bs = slice (off - ?s) len (rw_buf w)"
    using assms(2) by (auto simp: buffered_def split: if_splits)
  have "bs = slice (off - ?s) len (slice ?s ?l V)" using bs assms(1) by (simp add: buffer_ok_def)
  also have "\<dots> = slice off (min len (?l - (off - ?s))) V" using off by (simp add: slice_slice)
  also have "\<dots> = take (?l - (off - ?s)) (slice off len V)" by (simp add: slice_def min.commute)
  finally show ?thesis unfolding serves_def using take_is_prefix by metis
qed

lemma window_fill_ok:
  assumes "buffer_ok V w" and got: "serves V off want bs" and want: "want = window_want w n off len"
    and fill: "window_fill w off len bs = (w', got')"
  shows "buffer_ok V w'" and "rw_part w' = rw_part w" and "rw_next w' = rw_next w" and "rw_etag w' = rw_etag w"
    and "serves V off len got'"
proof -
  have b: "buffer_ok V (w\<lparr>rw_buf_start := off, rw_buf := bs\<rparr>)"
    using got by (simp add: buffer_ok_def serves_iff)
  show "buffer_ok V w'" and "rw_part w' = rw_part w" and "rw_next w' = rw_next w" and "rw_etag w' = rw_etag w"
    using fill assms(1) b by (auto simp: window_fill_def Let_def split: if_splits)
  show "serves V off len got'"
    using fill got want buffered_serves [OF b]
    by (auto simp: window_fill_def window_want_def Let_def split: if_splits option.splits)
qed

lemma window_ok_split:
  "window_ok ver seq d (fid, w) \<longleftrightarrow> buffer_ok (ver fid (rw_etag w)) w \<and> spill_ok (ver fid (rw_etag w)) seq d fid w"
  by (simp add: window_ok_def)

text \<open>The window that is outside the map is the head of \<open>out\<close>; it may change as long as its spill does not.\<close>

lemma content_ok_head:
  assumes "content_ok ver ((fid, w) # out) st" and "window_ok ver (co_window_seq st) (co_dir st) (fid, w')"
    and "spill_of w' = spill_of w"
  shows "content_ok ver ((fid, w') # out) st"
  using assms by (simp add: content_ok_def)

lemma window_advance_ok:
  assumes ok: "content_ok ver ((fid, w) # out) st" and bs: "serves (ver fid (rw_etag w)) (rw_next w) len bs"
    and adv: "window_advance good now bs w (co_dir st) = (w', d')"
  shows "content_ok ver ((fid, w') # out) (set_dir d' st)" and "rw_etag w' = rw_etag w"
proof -
  let ?V = "ver fid (rw_etag w)" and ?w = "w\<lparr>rw_last_use := now\<rparr>"
  let ?w1 = "?w\<lparr>rw_next := rw_next w + length bs, rw_run := rw_run w + length bs\<rparr>"
  have wok: "window_ok ver (co_window_seq st) (co_dir st) (fid, w)" using ok by (simp add: content_ok_def)
  have same: "content_ok ver ((fid, v) # out) (set_dir (co_dir st) st)"
    if "rw_part v = rw_part w" "rw_buf v = rw_buf w" "rw_buf_start v = rw_buf_start w" "rw_etag v = rw_etag w"
      "rw_part w = None \<or> rw_next v = rw_next w" for v
  proof -
    have "window_ok ver (co_window_seq st) (co_dir st) (fid, v)"
      using wok that by (auto simp: window_ok_split buffer_ok_def spill_ok_def split: option.splits)
    with content_ok_head [OF ok this] that(1) show ?thesis by (simp add: spill_of_def set_dir_def)
  qed
  have "content_ok ver ((fid, w') # out) (set_dir d' st) \<and> rw_etag w' = rw_etag w"
  proof (cases "bs = [] \<or> rw_part w = None")
    case True
    with adv same [of ?w] same [of ?w1] show ?thesis by (auto simp: window_advance_def Let_def split: if_splits)
  next
    case False
    then obtain t k where part: "rw_part w = Some (t, k)" and ne: "bs \<noteq> []" by auto
    have sp: "\<exists>s < co_window_seq st. t = RaFile fid s" "rw_next w = k" "k \<le> length ?V"
        "k > 0 \<longrightarrow> (\<exists>b. hm_get (cd_temps (co_dir st)) t = Some b \<and> bl_bytes b = take k ?V)"
      using wok part by (auto simp: window_ok_split spill_ok_def)
    show ?thesis
    proof (cases "spill good now t k bs (co_dir st)")
      case None
      with adv part ne have w': "w' = ?w1\<lparr>rw_part := None\<rparr>" "d' = snd (drop_part w (co_dir st))"
        by (auto simp: window_advance_def drop_part_eq)
      have "content_ok ver out (set_dir d' st)" using content_ok_drop [OF ok] w'(2) by simp
      moreover have "window_ok ver (co_window_seq st) d' (fid, w')"
        using wok w' by (auto simp: window_ok_split buffer_ok_def spill_ok_def)
      ultimately show ?thesis using w'(1) by (simp add: content_ok_def spill_of_def set_dir_def)
    next
      case (Some d)
      with adv part ne have w': "w' = ?w1\<lparr>rw_part := Some (t, k + length bs)\<rparr>" and d': "d' = d"
        by (auto simp: window_advance_def)
      have d: "d = put_temp t \<lparr>bl_bytes = take k ?V @ bs, bl_mtime = now\<rparr> (co_dir st)"
        using Some sp(4) by (cases "k = 0") (auto simp: spill_def split: if_splits)
      have len: "length bs \<le> length ?V - k" and cat: "take k ?V @ bs = take (k + length bs) ?V"
        using bs sp(2) by (auto simp: serves_iff take_slice [symmetric] length_slice dest!: arg_cong [of _ _ length])
      have "window_ok ver (co_window_seq st) d (fid, w')"
        using wok w' sp len cat d part by (auto simp: window_ok_split buffer_ok_def spill_ok_def store_simps)
      moreover have "spill_of w' = spill_of w" using w' part by (simp add: spill_of_def)
      moreover have "window_ok ver (co_window_seq st) d x" if x: "x \<in> set (co_windows st) \<union> set out" for x
      proof (rule window_ok_mono [OF _ order_refl])
        show "window_ok ver (co_window_seq st) (co_dir st) x" using ok x by (auto simp: content_ok_def)
        fix u
        assume "u \<in># spill_of (snd x)"
        then have "u \<in># hm_sum spill_of (co_windows st) + hm_sum spill_of out" using spill_in_map [of x _ u] x by auto
        moreover have "once (spill_of w + (hm_sum spill_of (co_windows st) + hm_sum spill_of out))"
          using ok by (simp add: content_ok_def ac_simps)
        ultimately have "u \<notin># spill_of w" by (metis onceD)
        then show "hm_get (cd_temps d) u = hm_get (cd_temps (co_dir st)) u"
          using part d by (simp add: spill_of_def store_simps)
      qed
      ultimately show ?thesis using ok d d' w' by (auto simp: content_ok_def set_dir_def)
    qed
  qed
  then show "content_ok ver ((fid, w') # out) (set_dir d' st)" and "rw_etag w' = rw_etag w" by simp_all
qed

section \<open>What happens to the window afterwards\<close>

lemma say_fields [simp]:
  "co_dir (say ns st) = co_dir st" "co_windows (say ns st) = co_windows st" "co_window_seq (say ns st) = co_window_seq st"
  "co_announced (say ns st) = co_announced st"
  "co_dir (announce n st) = co_dir st" "co_windows (announce n st) = co_windows st" "co_window_seq (announce n st) = co_window_seq st"
  "co_announced (announce n st) = co_announced st"
  "co_dir (set_dir d st) = d" "co_windows (set_dir d st) = co_windows st" "co_window_seq (set_dir d st) = co_window_seq st"
  "co_announced (set_dir d st) = co_announced st"
  by (simp_all add: say_def announce_def set_dir_def)

lemma set_dir_twice [simp]: "set_dir d (set_dir d' st) = set_dir d st"
  by (simp add: set_dir_def)

lemma content_ok_announce: "content_ok ver out st \<Longrightarrow> content_ok ver out (announce n st)"
  by (erule content_ok_same) simp_all

lemma content_ok_budget: "content_ok ver out st \<Longrightarrow> content_ok ver out (enforce_budget cfg now st)"
proof -
  assume ok: "content_ok ver out st"
  obtain d gone where e: "evict now (cc_max_bytes cfg) (cc_max_age cfg) (co_dir st) = (d, gone)" by (metis prod.exhaust)
  have "blobs_ok ver d" "cd_temps d = cd_temps (co_dir st)"
    using blobs_ok_evict_all [of ver "co_dir st" now "cc_max_bytes cfg" "cc_max_age cfg"] e ok
      evict_temps [of now "cc_max_bytes cfg" "cc_max_age cfg" "co_dir st"] by (simp_all add: content_ok_def)
  then have "content_ok ver out (set_dir d st)" by (intro content_ok_dir [OF ok]) simp_all
  then show ?thesis by (rule content_ok_same) (simp_all add: enforce_budget_def e)
qed

lemma publish_window_ok:
  assumes ok: "content_ok ver ((fid, w) # out) st" and full: "window_complete w (unat (nd_size n))"
    and n: "rw_etag w = nd_etag n" "unat (nd_size n) = length (ver fid (nd_etag n))" "nd_size n > 0"
  shows "content_ok ver out (publish_window cfg io now w n fid st)"
proof -
  let ?V = "ver fid (nd_etag n)"
  obtain t where part: "rw_part w = Some (t, length ?V)" using full n(2) by (auto simp: window_complete_def split: option.splits)
  have "length ?V > 0" using n(2,3) by (metis unat_gt_0 word_gt_0)
  then obtain b where b: "hm_get (cd_temps (co_dir st)) t = Some b" "bl_bytes b = ?V"
    using ok part n(1) by (auto simp: content_ok_def window_ok_split spill_ok_def)
  obtain d good where pub: "publish_blob io t fid (nd_etag n) (co_dir st) = (d, good)" by (metis prod.exhaust)
  have blobs: "blobs_ok ver d" using blobs_ok_publish [of ver "co_dir st" t fid "nd_etag n" io] ok b pub by (simp add: content_ok_def)
  have temps: "hm_get (cd_temps d) u = hm_get (cd_temps (co_dir st)) u" if "u \<noteq> t" for u
    using publish_temps [of io t fid "nd_etag n" "co_dir st"] pub that by (auto simp: store_simps)
  have ok': "content_ok ver out st"
    using ok once_sub(2) [of "spill_of w" "hm_sum spill_of (co_windows st) + hm_sum spill_of out"]
    by (auto simp: content_ok_def ac_simps)
  have other: "u \<noteq> t" if "u \<in># hm_sum spill_of (co_windows st) + hm_sum spill_of out" for u
  proof -
    have "once (spill_of w + (hm_sum spill_of (co_windows st) + hm_sum spill_of out))" using ok by (simp add: content_ok_def ac_simps)
    then have "u \<notin># spill_of w" using that by (metis onceD)
    with part show ?thesis by (simp add: spill_of_def)
  qed
  have "content_ok ver out (set_dir d st)" by (rule content_ok_dir [OF ok' blobs]) (use temps other in blast)
  moreover have "content_ok ver out (set_dir (drop_temp t d) st)"
    by (rule content_ok_dir [OF ok']) (use blobs temps other in \<open>auto simp: store_simps\<close>)
  ultimately show ?thesis
    using part pub by (auto simp: publish_window_def intro: content_ok_budget content_ok_announce split: bool.split)
qed

lemma remove_window_ok:
  assumes "content_ok ver out st" and "remove_window fid (co_windows st, co_dir st) = (ws, d)"
  shows "content_ok ver out (st\<lparr>co_windows := ws, co_dir := d\<rparr>)" and "hm_get ws fid = None"
proof -
  have "content_ok ver out (st\<lparr>co_windows := ws, co_dir := d\<rparr>) \<and> hm_get ws fid = None"
  proof (cases "hm_get (co_windows st) fid")
    case None
    with assms show ?thesis by (auto simp: remove_window_def intro: content_ok_same)
  next
    case (Some w)
    then have "ws = hm_remove fid (co_windows st)" "d = snd (drop_part w (co_dir st))"
      using assms(2) by (auto simp: remove_window_def)
    with content_ok_drop [OF content_ok_forget [OF assms(1) Some]] show ?thesis
      by (simp add: set_dir_def store_simps)
  qed
  then show "content_ok ver out (st\<lparr>co_windows := ws, co_dir := d\<rparr>)" and "hm_get ws fid = None" by simp_all
qed

text \<open>Trimming empties buffers, and nothing else.\<close>

definition emptied :: "(u64 \<Rightarrow> bool) \<Rightarrow> (u64, read_window) hash_map \<Rightarrow> (u64, read_window) hash_map" where
  "emptied S ws = map (\<lambda>(fid, w). (fid, if S fid then w\<lparr>rw_buf := [], rw_buf_start := 0\<rparr> else w)) ws"

lemma hm_replace: "hm_wf m \<Longrightarrow> k \<in> fst ` set m \<Longrightarrow> hm_insert k v m = map (\<lambda>(j, u). (j, if j = k then v else u)) m"
proof (induction m)
  case (Cons x m)
  obtain j u where x: "x = (j, u)" by (cases x)
  show ?case
  proof (cases "j = k")
    case True
    with Cons.prems x have "k \<notin> fst ` set m" by auto
    then have "map (\<lambda>(j, u). (j, if j = k then v else u)) m = m" by (intro map_idI) force
    with True x show ?thesis by simp
  next
    case False
    with Cons x show ?thesis by auto
  qed
qed simp

lemma drop_buffer_emptied: "hm_wf ws \<Longrightarrow> \<exists>S. drop_buffer fid ws = emptied S ws"
proof (cases "hm_get ws fid")
  case None
  then show ?thesis by (intro exI [of _ "\<lambda>_. False"]) (simp add: drop_buffer_def emptied_def case_prod_unfold)
next
  case (Some w)
  assume wf: "hm_wf ws"
  have in_ws: "fid \<in> fst ` set ws" using Some by (metis hm_get_None_iff option.distinct(1))
  have "(if j = fid then w\<lparr>rw_buf := [], rw_buf_start := 0\<rparr> else u) = (if j = fid then u\<lparr>rw_buf := [], rw_buf_start := 0\<rparr> else u)"
    if "(j, u) \<in> set ws" for j u
    using that Some hm_get_in_set [OF wf] by auto
  then have "drop_buffer fid ws = emptied (\<lambda>j. j = fid) ws"
    unfolding drop_buffer_def emptied_def Some option.case hm_replace [OF wf in_ws] by (auto intro!: map_cong)
  then show ?thesis by blast
qed

lemma emptied_wf [simp]: "hm_wf (emptied S ws) = hm_wf ws"
  by (simp add: hm_wf_def emptied_def o_def case_prod_unfold)

lemma emptied_emptied: "emptied S (emptied T ws) = emptied (\<lambda>j. S j \<or> T j) ws"
  by (auto simp: emptied_def)

lemma trim_loop_emptied: "hm_wf ws \<Longrightarrow> \<exists>S. trim_loop amount fids ws = emptied S ws"
proof (induction amount fids ws rule: trim_loop.induct)
  case (1 amount ws)
  then show ?case by (intro exI [of _ "\<lambda>_. False"]) (simp add: emptied_def case_prod_unfold)
next
  case (2 amount fid rest ws)
  have none: "\<exists>S. ws = emptied S ws" by (intro exI [of _ "\<lambda>_. False"]) (simp add: emptied_def case_prod_unfold)
  obtain S where S: "drop_buffer fid ws = emptied S ws" using drop_buffer_emptied [OF 2(3)] by blast
  show ?case
  proof (cases "amount \<le> max_readahead_bytes")
    case True
    with none show ?thesis by simp
  next
    case False
    show ?thesis
    proof (cases "hm_get ws fid")
      case None
      with 2 False show ?thesis by simp
    next
      case (Some w)
      obtain T where "trim_loop (amount - length (rw_buf w)) rest (drop_buffer fid ws) = emptied T (drop_buffer fid ws)"
        using 2(2) [OF False Some] 2(3) S by auto
      with False Some S show ?thesis by (auto simp: emptied_emptied)
    qed
  qed
qed

lemma trim_readahead_emptied: "hm_wf ws \<Longrightarrow> \<exists>S. trim_readahead ws = emptied S ws"
proof -
  assume wf: "hm_wf ws"
  have "\<exists>S. ws = emptied S ws" by (intro exI [of _ "\<lambda>_. False"]) (simp add: emptied_def case_prod_unfold)
  with trim_loop_emptied [OF wf] show ?thesis by (simp add: trim_readahead_def)
qed

lemma content_ok_emptied: "content_ok ver out st \<Longrightarrow> content_ok ver out (st\<lparr>co_windows := emptied S (co_windows st)\<rparr>)"
proof -
  assume ok: "content_ok ver out st"
  have "hm_sum spill_of (emptied S ws) = hm_sum spill_of ws" for ws
    by (induction ws) (auto simp: emptied_def spill_of_def)
  moreover have "window_ok ver (co_window_seq st) (co_dir st) x" if x_in: "x \<in> set (emptied S (co_windows st))" for x
  proof -
    obtain y where y: "y \<in> set (co_windows st)" "x = (case y of (fid, w) \<Rightarrow> (fid, if S fid then w\<lparr>rw_buf := [], rw_buf_start := 0\<rparr> else w))"
      using x_in unfolding emptied_def set_map by (rule imageE)
    obtain fid w where "y = (fid, w)" by (cases y)
    with y have w: "(fid, w) \<in> set (co_windows st)" and x: "x = (fid, if S fid then w\<lparr>rw_buf := [], rw_buf_start := 0\<rparr> else w)"
      by simp_all
    have "window_ok ver (co_window_seq st) (co_dir st) (fid, w)" using ok w by (auto simp: content_ok_def)
    with x show ?thesis by (auto simp: window_ok_split buffer_ok_def spill_ok_def split: option.splits)
  qed
  ultimately show ?thesis using ok by (auto simp: content_ok_def)
qed

lemma keep_window_ok:
  assumes ok: "content_ok ver ((fid, w) # out) st" and keep: "keep_window fid w (co_windows st, co_dir st) = (ws, d)"
  shows "content_ok ver out (st\<lparr>co_windows := ws, co_dir := d\<rparr>)"
proof -
  obtain ws1 d1 where s1: "(if length (co_windows st) \<ge> max_windows then
        (case oldest_window (co_windows st) of None \<Rightarrow> (co_windows st, co_dir st) | Some old \<Rightarrow> remove_window old (co_windows st, co_dir st))
      else (co_windows st, co_dir st)) = (ws1, d1)" by (metis prod.exhaust)
  have ok1: "content_ok ver ((fid, w) # out) (st\<lparr>co_windows := ws1, co_dir := d1\<rparr>)"
    using s1 ok by (auto split: if_splits option.splits intro: remove_window_ok(1))
  obtain ws2 d2 where s2: "remove_window fid (ws1, d1) = (ws2, d2)" by (metis prod.exhaust)
  have ok2: "content_ok ver ((fid, w) # out) (st\<lparr>co_windows := ws2, co_dir := d2\<rparr>)" and none: "hm_get ws2 fid = None"
    using remove_window_ok [OF ok1, of fid ws2 d2] s2 by simp_all
  have wf2: "hm_wf ws2" using ok2 by (simp add: content_ok_def)
  have ws: "ws = trim_readahead (hm_insert fid w ws2)" and d: "d = d2"
    using keep by (simp_all only: keep_window_def Let_def fst_conv s1 s2 snd_conv prod.inject)
  have sum: "hm_sum spill_of (hm_insert fid w ws2) = spill_of w + hm_sum spill_of ws2"
    using hm_sum_insert [OF wf2, of spill_of fid w] hm_sum_remove_None [OF none, of spill_of] by simp
  have "set (hm_insert fid w ws2) \<subseteq> insert (fid, w) (set ws2)"
  proof
    fix x
    assume x: "x \<in> set (hm_insert fid w ws2)"
    obtain j u where xj: "x = (j, u)" by (cases x)
    have "hm_get (hm_insert fid w ws2) j = Some u" using x xj hm_get_in_set [OF hm_wf_insert [OF wf2]] by simp
    then show "x \<in> insert (fid, w) (set ws2)"
      using xj hm_get_in_set [OF wf2, of j u] by (simp add: store_simps split: if_splits)
  qed
  then have "content_ok ver out (st\<lparr>co_windows := hm_insert fid w ws2, co_dir := d2\<rparr>)"
    using ok2 sum wf2 by (auto simp: content_ok_def ac_simps)
  note emptied = content_ok_emptied [OF this]
  obtain S where S: "trim_readahead (hm_insert fid w ws2) = emptied S (hm_insert fid w ws2)"
    using trim_readahead_emptied [OF hm_wf_insert [OF wf2]] by blast
  show ?thesis by (rule content_ok_same [OF emptied [of S]]) (simp_all add: ws d S)
qed

lemma tally_ok: "content_ok ver out st \<Longrightarrow> content_ok ver out (tally cfg n fid active bs st)"
  by (erule content_ok_same) (auto simp: tally_def hydrator_request_def Let_def split: option.split)

lemma tally_announced [simp]: "co_announced (tally cfg n fid active bs st) = co_announced st"
  by (auto simp: tally_def hydrator_request_def Let_def split: option.split)

lemma settle_window_ok:
  assumes ok: "content_ok ver ((fid, w) # out) st" and w: "rw_etag w = nd_etag n" "rw_next w = off"
    and n: "unat (nd_size n) = length (ver fid (nd_etag n))" "nd_size n > 0" and bs: "serves (ver fid (nd_etag n)) off len bs"
  shows "content_ok ver out (settle_window cfg io now n fid w bs st)"
proof -
  obtain w' d where adv: "window_advance (fi_stage io) now bs w (co_dir st) = (w', d)" by (metis prod.exhaust)
  have ok1: "content_ok ver ((fid, w') # out) (set_dir d st)" and e: "rw_etag w' = nd_etag n"
    using window_advance_ok [OF ok _ adv, of len] bs w by simp_all
  obtain ws d2 where keep: "keep_window fid w' (co_windows (set_dir d st), co_dir (set_dir d st)) = (ws, d2)" by (metis prod.exhaust)
  have "content_ok ver out (if window_complete w' (unat (nd_size n)) then publish_window cfg io now w' n fid (set_dir d st)
      else if bs = [] then set_dir (snd (drop_part w' (co_dir (set_dir d st)))) (set_dir d st)
      else (set_dir d st)\<lparr>co_windows := ws, co_dir := d2\<rparr>)"
    using publish_window_ok [OF ok1 _ e n(1,2)] content_ok_drop [OF ok1] keep_window_ok [OF ok1 keep] by simp
  then show ?thesis unfolding settle_window_def adv prod.case Let_def keep by (rule tally_ok)
qed

end
