(* ===== verification/Core_Content_Reads.thy ===== *)
theory Core_Content_Reads
  imports Core_Content_Cache
begin

text \<open>
  Runs of the content store: reads that begin and end with anything in between, downloads, pins,
  stores, evictions and restarts, over a server that answers a version it was asked for. Whatever
  is read is of the version that was asked for, or a copy handed out knowingly.
\<close>

section \<open>The parts of a read\<close>

text \<open>The row names a version, and has its size.\<close>

definition listed :: "versions \<Rightarrow> node \<Rightarrow> bool" where
  "listed ver n \<longleftrightarrow> nd_etag n \<noteq> '''' \<and> (\<forall>fid. nd_file_id n = Some fid \<longrightarrow> unat (nd_size n) = length (ver fid (nd_etag n)))"

definition honest :: "versions \<Rightarrow> node \<Rightarrow> nat \<Rightarrow> nat \<Rightarrow> answer \<Rightarrow> bool" where
  "honest ver n off want got \<longleftrightarrow>
     (\<forall>bs fid. got = Inr bs \<and> nd_file_id n = Some fid \<longrightarrow> serves (ver fid (nd_etag n)) off want bs)"

definition honest_whole :: "versions \<Rightarrow> node \<Rightarrow> answer \<Rightarrow> bool" where
  "honest_whole ver n whole \<longleftrightarrow>
     (\<forall>bs fid. whole = Inr bs \<and> nd_file_id n = Some fid \<longrightarrow> bs = ver fid (nd_etag n))"

lemma fresh_blob:
  assumes "blobs_ok ver d" and "blob_is_fresh d fid e" and "e \<noteq> ''''"
  shows "\<exists>b. hm_get (cd_blobs d) fid = Some b \<and> bl_bytes b = ver fid e"
  using assms by (fastforce simp: blobs_ok_def blob_is_fresh_def)

lemma content_ok_touch: "content_ok ver out st \<Longrightarrow> content_ok ver out (set_dir (touch now fid (co_dir st)) st)"
  by (rule content_ok_dir) (auto simp: content_ok_def)

lemma touch_read: "read_range_from_file (touch now fid d) fid off len = read_range_from_file d fid off len"
  by (auto simp: read_range_from_file_def touch_def put_blob_def store_simps split: option.split)

lemma touch_fresh: "blob_is_fresh (touch now fid d) fid' e = blob_is_fresh d fid' e"
  by (auto simp: blob_is_fresh_def touch_def put_blob_def store_simps split: option.split)

text \<open>What a begun read leaves to be done, and what it may count on.\<close>

definition awaiting :: "versions \<Rightarrow> node \<Rightarrow> nat \<Rightarrow> nat \<Rightarrow> pending_read \<Rightarrow> bool" where
  "awaiting ver n off len p \<longleftrightarrow>
     listed ver n \<and>
     (case p of
        AwaitsRange want w \<Rightarrow>
          nd_file_id n \<noteq> None \<and> rw_etag w = nd_etag n \<and> rw_next w = off \<and> want = window_want w n off len \<and> nd_size n > 0
      | AwaitsDirect \<Rightarrow> True
      | Answered _ \<Rightarrow> False)"

definition held :: "node \<times> pending_read \<Rightarrow> (u64 \<times> read_window) list" where
  "held = (\<lambda>(n, p). case (nd_file_id n, p) of (Some fid, AwaitsRange want w) \<Rightarrow> [(fid, w)] | _ \<Rightarrow> [])"

lemma held_simps [simp]:
  "held (n, Answered r) = []" "held (n, AwaitsDirect) = []"
  "held (n, AwaitsRange want w) = (case nd_file_id n of None \<Rightarrow> [] | Some fid \<Rightarrow> [(fid, w)])"
  by (simp_all add: held_def split: option.split)

lemma begin_read_ok:
  assumes ok: "content_ok ver out st" and n: "listed ver n" and run: "begin_read cfg io now n off len st = (st', p)"
  shows "content_ok ver (held (n, p) @ out) st'"
    and "(\<exists>r. p = Answered r) \<or> awaiting ver n off len p"
    and "p = Answered (Inr bs) \<Longrightarrow> nd_file_id n = Some fid \<Longrightarrow> serves (ver fid (nd_etag n)) off len bs"
proof -
  have "content_ok ver (held (n, p) @ out) st' \<and> ((\<exists>r. p = Answered r) \<or> awaiting ver n off len p) \<and>
    (\<forall>bs fid. p = Answered (Inr bs) \<and> nd_file_id n = Some fid \<longrightarrow> serves (ver fid (nd_etag n)) off len bs)"
  proof (cases "len = 0 \<or> off \<ge> unat (nd_size n) \<or> nd_file_id n = None")
    case True
    then have "st' = st \<and> (p = Answered (Inr []) \<or> p = AwaitsDirect)"
      using run by (cases "len = 0 \<or> off \<ge> unat (nd_size n)") (auto simp: begin_read_def)
    with ok n show ?thesis by (auto simp: awaiting_def)
  next
    case False
    then obtain fid where fid: "nd_file_id n = Some fid" and len: "len \<noteq> 0" "\<not> off \<ge> unat (nd_size n)" by auto
    have pos: "nd_size n > 0" using len(2) by (metis not_le unat_0 word_gt_0 zero_le)
    have size: "unat (nd_size n) = length (ver fid (nd_etag n))" using n fid by (simp add: listed_def)
    define fresh where "fresh = blob_is_fresh (co_dir st) fid (nd_etag n)"
    define st1 where "st1 = (if fresh then (set_dir (touch now fid (co_dir st)) st)\<lparr>co_seen := hm_remove fid (co_seen st)\<rparr> else st)"
    have ok1: "content_ok ver out st1"
      using content_ok_touch [OF ok, of now fid] ok by (auto simp: st1_def intro: content_ok_same)
    have fresh_bytes: "serves (ver fid (nd_etag n)) off len bs"
      if "fresh" "read_range_from_file (co_dir st1) fid off len = Some bs" for bs
    proof -
      have "co_dir st1 = touch now fid (co_dir st)" using that(1) by (simp add: st1_def)
      then have rd: "read_range_from_file (co_dir st) fid off len = Some bs" using that(2) by (simp only: touch_read)
      have "blobs_ok ver (co_dir st)" "nd_etag n \<noteq> ''''" using ok n by (simp_all add: content_ok_def listed_def)
      from fresh_blob [OF this(1) that(1) [unfolded fresh_def] this(2)] rd show ?thesis
        by (auto simp: read_range_from_file_def serves_def)
    qed
    have c: "(len = 0 \<or> off \<ge> unat (nd_size n)) = False" using len by simp
    have eq: "(st', p) = (case (if fresh then read_range_from_file (co_dir st1) fid off len else None) of
        Some bs \<Rightarrow> (st1, Answered (Inr bs))
      | None \<Rightarrow>
          if len < fetch_chunk then
            case take_window n fid off now st1 of
              (st, w) \<Rightarrow>
                (case buffered w off len of
                   Some bs \<Rightarrow> (settle_window cfg io now n fid w bs st, Answered (Inr bs))
                 | None \<Rightarrow> (st, AwaitsRange (window_want w n off len) w))
          else (st1, AwaitsDirect))"
      unfolding run [symmetric] begin_read_def c if_False fid option.case Let_def fresh_def st1_def by (rule refl)
    show ?thesis
    proof (cases "if fresh then read_range_from_file (co_dir st1) fid off len else None")
      case (Some bs)
      then have "st' = st1" "p = Answered (Inr bs)" using eq by simp_all
      with Some ok1 fresh_bytes fid show ?thesis by (auto split: if_splits)
    next
      case None
      obtain st2 w where tw: "take_window n fid off now st1 = (st2, w)" by (metis prod.exhaust)
      note w = take_window_ok [OF ok1 tw]
      have rest: "(st', p) = (if len < fetch_chunk then
          (case buffered w off len of
             Some bs \<Rightarrow> (settle_window cfg io now n fid w bs st2, Answered (Inr bs))
           | None \<Rightarrow> (st2, AwaitsRange (window_want w n off len) w))
        else (st1, AwaitsDirect))"
        unfolding eq None option.case tw prod.case by (rule refl)
      show ?thesis
      proof (cases "len < fetch_chunk")
        case False
        with rest ok1 n fid show ?thesis by (simp add: awaiting_def)
      next
        case True
        show ?thesis
        proof (cases "buffered w off len")
          case None
          with rest True w n fid pos show ?thesis by (simp add: awaiting_def)
        next
          case (Some bs)
          have b: "serves (ver fid (nd_etag n)) off len bs"
            using buffered_serves [OF _ Some] w by (auto simp: content_ok_def window_ok_split)
          with settle_window_ok [OF w size pos b] rest True Some fid show ?thesis by simp
        qed
      qed
    qed
  qed
  then show "content_ok ver (held (n, p) @ out) st'" and "(\<exists>r. p = Answered r) \<or> awaiting ver n off len p"
    and "p = Answered (Inr bs) \<Longrightarrow> nd_file_id n = Some fid \<Longrightarrow> serves (ver fid (nd_etag n)) off len bs" by blast+
qed

lemma serve_local_copy_ok:
  assumes ok: "content_ok ver out st" and run: "serve_local_copy n off len why st = (st', r)"
  shows "content_ok ver out st'"
    and "r = Some bs \<Longrightarrow> nd_file_id n = Some fid \<Longrightarrow> \<exists>e. serves (ver fid e) off len bs"
proof -
  show "content_ok ver out st'"
    using run by (auto simp: serve_local_copy_def split: option.splits if_splits intro!: content_ok_same [OF ok])
  assume r: "r = Some bs" "nd_file_id n = Some fid"
  then obtain b where "hm_get (cd_blobs (co_dir st)) fid = Some b" "bs = slice off len (bl_bytes b)"
    using run by (auto simp: serve_local_copy_def read_range_from_file_def split: option.splits)
  with ok show "\<exists>e. serves (ver fid e) off len bs" by (fastforce simp: content_ok_def blobs_ok_def serves_def)
qed

lemma fall_back_ok:
  assumes ok: "content_ok ver out st" and run: "fall_back n off len e st = (st', r)"
  shows "content_ok ver out st'"
    and "r = Inr bs \<Longrightarrow> nd_file_id n = Some fid \<Longrightarrow> \<exists>e. serves (ver fid e) off len bs"
proof -
  obtain st1 c where s: "stale_fallback n off len st = (st1, c)" by (metis prod.exhaust)
  then have s': "serve_local_copy n off len Unreachable st = (st1, c)" by (simp add: stale_fallback_def)
  note copy = serve_local_copy_ok [OF ok s']
  consider "st' = st" "r = Inl e" | "st' = st1" "r = (case c of Some bs \<Rightarrow> Inr bs | None \<Rightarrow> Inl e)"
    using run s by (auto simp: fall_back_def split: if_splits option.splits)
  then have "content_ok ver out st' \<and>
    (r = Inr bs \<and> nd_file_id n = Some fid \<longrightarrow> (\<exists>e. serves (ver fid e) off len bs))"
    using ok copy by cases (auto split: option.splits)
  then show "content_ok ver out st'"
    and "r = Inr bs \<Longrightarrow> nd_file_id n = Some fid \<Longrightarrow> \<exists>e. serves (ver fid e) off len bs" by blast+
qed

lemma fall_back_dir: "fall_back n off len e st = (st', r) \<Longrightarrow> co_dir st' = co_dir st"
  by (auto simp: fall_back_def stale_fallback_def serve_local_copy_def split: if_splits option.splits prod.splits)

lemma finish_read_ok:
  assumes ok: "content_ok ver (held (n, p) @ out) st" and p: "awaiting ver n off len p"
    and got: "honest ver n off (wanted p len) got" and run: "finish_read cfg io now n off len p got st = (st', r)"
  shows "content_ok ver out st'"
    and "r = Inr bs \<Longrightarrow> nd_file_id n = Some fid \<Longrightarrow>
      serves (ver fid (nd_etag n)) off len bs \<or> isl got \<and> (\<exists>e. serves (ver fid e) off len bs)"
proof -
  have "content_ok ver out st' \<and> (\<forall>bs fid. r = Inr bs \<and> nd_file_id n = Some fid \<longrightarrow>
      serves (ver fid (nd_etag n)) off len bs \<or> isl got \<and> (\<exists>e. serves (ver fid e) off len bs))"
  proof (cases p)
    case (Answered r)
    with p show ?thesis by (simp add: awaiting_def)
  next
    case AwaitsDirect
    then have ok': "content_ok ver out st" using ok by simp
    from AwaitsDirect show ?thesis
      using run got ok' fall_back_ok [OF ok'] by (cases got) (auto simp: finish_read_def honest_def wanted_def)
  next
    case (AwaitsRange want w)
    then obtain fid where fid: "nd_file_id n = Some fid" using p by (auto simp: awaiting_def)
    have ok': "content_ok ver ((fid, w) # out) st" using ok AwaitsRange fid by simp
    have w: "rw_etag w = nd_etag n" "rw_next w = off" "want = window_want w n off len" "nd_size n > 0"
      using p AwaitsRange by (simp_all add: awaiting_def)
    have size: "unat (nd_size n) = length (ver fid (nd_etag n))" using p fid by (simp add: awaiting_def listed_def)
    show ?thesis
    proof (cases got)
      case (Inl e)
      have "content_ok ver out (set_dir (snd (drop_part w (co_dir st))) st)" by (rule content_ok_drop [OF ok'])
      with run Inl AwaitsRange fall_back_ok [OF this] show ?thesis by (auto simp: finish_read_def)
    next
      case (Inr bs)
      obtain w' bs' where fill: "window_fill w off len bs = (w', bs')" by (metis prod.exhaust)
      have wok: "window_ok ver (co_window_seq st) (co_dir st) (fid, w)" using ok' by (simp add: content_ok_def)
      then have "buffer_ok (ver fid (nd_etag n)) w" using w(1) by (simp add: window_ok_split)
      moreover have "serves (ver fid (nd_etag n)) off want bs"
        using got Inr fid AwaitsRange by (simp add: honest_def wanted_def)
      ultimately have f: "buffer_ok (ver fid (nd_etag n)) w'" "rw_part w' = rw_part w" "rw_next w' = rw_next w"
          "rw_etag w' = rw_etag w" "serves (ver fid (nd_etag n)) off len bs'"
        using window_fill_ok [OF _ _ w(3) fill, of "ver fid (nd_etag n)"] by simp_all
      have "window_ok ver (co_window_seq st) (co_dir st) (fid, w')"
        using wok f w(1) by (auto simp: window_ok_split spill_ok_def split: option.splits)
      then have "content_ok ver ((fid, w') # out) st" by (rule content_ok_head [OF ok']) (simp add: spill_of_def f(2))
      from settle_window_ok [OF this _ _ size w(4) f(5)] f w
      have "content_ok ver out (settle_window cfg io now n fid w' bs' st)" by simp
      with run Inr AwaitsRange fill fid f(5) show ?thesis by (auto simp: finish_read_def)
    qed
  qed
  then show "content_ok ver out st'"
    and "r = Inr bs \<Longrightarrow> nd_file_id n = Some fid \<Longrightarrow>
      serves (ver fid (nd_etag n)) off len bs \<or> isl got \<and> (\<exists>e. serves (ver fid e) off len bs)" by blast+
qed

section \<open>Whole files\<close>

lemma publish_download_ok:
  assumes ok: "content_ok ver out st" and fid: "nd_file_id n = Some fid" and whole: "honest_whole ver n whole"
    and t: "\<And>f s. t \<noteq> RaFile f s" and run: "publish_download io now t fid n whole (co_dir st) = (d, r)"
  shows "content_ok ver out (set_dir d st)"
proof -
  have keep: "hm_get (cd_temps d') u = hm_get (cd_temps (co_dir st)) u"
    if "u \<in># hm_sum spill_of (co_windows st) + hm_sum spill_of out"
      and "\<And>u. u \<noteq> t \<Longrightarrow> hm_get (cd_temps d') u = hm_get (cd_temps (co_dir st)) u" for d' u
    using that content_ok_spill [OF ok that(1)] t by metis
  have blobs: "blobs_ok ver (co_dir st)" using ok by (simp add: content_ok_def)
  have "blobs_ok ver d \<and> (\<forall>u. u \<noteq> t \<longrightarrow> hm_get (cd_temps d) u = hm_get (cd_temps (co_dir st)) u)"
  proof (cases "\<exists>bs. fi_stage io \<and> whole = Inr bs")
    case False
    with run blobs show ?thesis by (cases whole) (auto simp: publish_download_def store_simps split: if_splits)
  next
    case True
    then obtain bs where bs: "fi_stage io" "whole = Inr bs" by blast
    let ?d = "put_temp t \<lparr>bl_bytes = bs, bl_mtime = now\<rparr> (co_dir st)"
    obtain d1 good where p: "publish_blob io t fid (nd_etag n) ?d = (d1, good)" by (metis prod.exhaust)
    have "bs = ver fid (nd_etag n)" using whole bs fid by (simp add: honest_whole_def)
    then have "blobs_ok ver d1" using blobs_ok_publish [of ver ?d t fid "nd_etag n" io] blobs p by (simp add: store_simps)
    moreover have "hm_get (cd_temps d1) u = hm_get (cd_temps (co_dir st)) u" if "u \<noteq> t" for u
      using publish_temps [of io t fid "nd_etag n" ?d] p that by (auto simp: store_simps)
    moreover have "d = d1 \<or> d = drop_temp t d1" using run bs p by (cases good) (auto simp: publish_download_def)
    ultimately show ?thesis by (auto simp: store_simps)
  qed
  then have b: "blobs_ok ver d" and other: "\<And>u. u \<noteq> t \<Longrightarrow> hm_get (cd_temps d) u = hm_get (cd_temps (co_dir st)) u" by simp_all
  show ?thesis by (rule content_ok_dir [OF ok b], rule keep [OF _ other])
qed

lemma publish_fresh: "publish_blob io t fid e d = (d', True) \<Longrightarrow> blob_is_fresh d' fid e"
proof -
  assume p: "publish_blob io t fid e d = (d', True)"
  then obtain b where b: "hm_get (cd_temps d) t = Some b" "fi_sidecar io = Written"
      and d': "d' = write_sidecar Written fid e (rename_blob t fid (drop_sidecar fid d))"
    by (auto simp: publish_blob_def Let_def split: if_splits)
  have "rename_blob t fid (drop_sidecar fid d) = put_blob fid b (drop_temp t (drop_sidecar fid d))"
    using b(1) by (simp add: rename_blob_def)
  then show ?thesis unfolding d' by (simp add: blob_is_fresh_def write_sidecar_def put_blob_def store_simps)
qed

lemma publish_download_fresh:
  assumes "publish_download io now t fid n whole d = (d', Inr ())"
  shows "blob_is_fresh d' fid (nd_etag n)"
proof -
  obtain bs where "publish_blob io t fid (nd_etag n) (put_temp t \<lparr>bl_bytes = bs, bl_mtime = now\<rparr> d) = (d', True)"
    using assms by (auto simp: publish_download_def split: if_splits sum.splits prod.splits bool.splits)
  then show ?thesis by (rule publish_fresh)
qed

lemma fetch_whole_ok:
  assumes "content_ok ver out st" and "nd_file_id n = Some fid" and "honest_whole ver n whole"
    and "fetch_whole io now fid n whole st = (st', r)"
  shows "content_ok ver out st'"
proof -
  obtain d q where p: "publish_download io now (PartFile fid) fid n whole (co_dir st) = (d, q)" by (metis prod.exhaust)
  have "content_ok ver out (set_dir d st)" by (rule publish_download_ok [OF assms(1-3) _ p]) simp
  with assms(4) p show ?thesis by (cases q) (auto simp: fetch_whole_def intro: content_ok_announce)
qed

lemma pin_file_ok:
  assumes "content_ok ver out st" and "honest_whole ver n whole" and "pin_file io now n whole st = (st', r)"
  shows "content_ok ver out st'"
proof (cases "nd_file_id n")
  case None
  with assms(1,3) show ?thesis by (simp add: pin_file_def)
next
  case (Some fid)
  obtain st1 q where f: "(if blob_is_fresh (co_dir st) fid (nd_etag n) then (st, Inr ()) else fetch_whole io now fid n whole st) = (st1, q)"
    by (metis prod.exhaust)
  have ok1: "content_ok ver out st1"
    using f assms(1) fetch_whole_ok [OF assms(1) Some assms(2)] by (auto split: if_splits)
  have "content_ok ver out (set_dir ((co_dir st1)\<lparr>cd_pins := fid # cd_pins (co_dir st1)\<rparr>) st1)"
    by (rule content_ok_dir [OF ok1]) (use ok1 in \<open>auto simp: content_ok_def intro: blobs_ok_same\<close>)
  with assms(3) Some f ok1 show ?thesis by (cases q) (auto simp: pin_file_def intro: content_ok_announce)
qed

lemma unpin_file_ok: "content_ok ver out st \<Longrightarrow> content_ok ver out (unpin_file fid st)"
  unfolding unpin_file_def by (rule content_ok_dir) (auto simp: content_ok_def intro: blobs_ok_same)

lemma store_ok:
  assumes ok: "content_ok ver out st" and data: "\<And>fid. nd_file_id n = Some fid \<Longrightarrow> data = ver fid etag"
    and run: "store cfg io now n data etag st = (st', r)"
  shows "content_ok ver out st'"
proof (cases "nd_file_id n")
  case None
  with run ok show ?thesis by (simp add: store_def)
next
  case (Some fid)
  let ?n = "n\<lparr>nd_etag := etag\<rparr>"
  have "honest_whole ver ?n (Inr data)" using data Some by (simp add: honest_whole_def)
  obtain d q where p: "publish_download io now (PartFile fid) fid ?n (Inr data) (co_dir st) = (d, q)" by (metis prod.exhaust)
  have ok1: "content_ok ver out (set_dir d st)"
    by (rule publish_download_ok [OF ok _ \<open>honest_whole ver ?n (Inr data)\<close> _ p]) (simp_all add: Some)
  have ok2: "content_ok ver out (set_dir (drop_temp (PartFile fid) (co_dir st)) st)"
    by (rule content_ok_dir [OF ok]) (use ok content_ok_spill [OF ok] in \<open>fastforce simp: content_ok_def store_simps\<close>)+
  have "st' = set_dir d st \<or> st' = enforce_budget cfg now (announce n (set_dir d st)) \<or>
      st' = set_dir (drop_temp (PartFile fid) (co_dir st)) st"
    using run p Some
    by (cases "publish_blob io (PartFile fid) fid etag (put_temp (PartFile fid) \<lparr>bl_bytes = data, bl_mtime = now\<rparr> (co_dir st))")
      (auto simp: store_def publish_download_def split: if_splits bool.splits)
  with ok1 ok2 show ?thesis by (auto intro: content_ok_budget content_ok_announce)
qed

lemma hydrate_next_ok:
  assumes ok: "content_ok ver out st" and whole: "\<And>n rest. co_queue st = n # rest \<Longrightarrow> honest_whole ver n whole"
  shows "content_ok ver out (hydrate_next cfg io now whole st)"
proof (cases "\<exists>n rest fid. co_queue st = n # rest \<and> nd_file_id n = Some fid")
  case False
  with ok show ?thesis by (auto simp: hydrate_next_def split: list.split option.split)
next
  case True
  then obtain n rest fid where q: "co_queue st = n # rest" "nd_file_id n = Some fid" by blast
  let ?st = "st\<lparr>co_queue := rest\<rparr>"
  have ok1: "content_ok ver out ?st" by (rule content_ok_same [OF ok]) simp_all
  obtain d r where p: "publish_download io now (DlFile fid) fid n whole (co_dir ?st) = (d, r)" by (metis prod.exhaust)
  have ok2: "content_ok ver out (set_dir d ?st)"
    by (rule publish_download_ok [OF ok1 q(2) whole [OF q(1)] _ p]) simp
  then have ok3: "content_ok ver out (announce n (enforce_budget cfg now (set_dir d ?st)))"
    by (intro content_ok_announce content_ok_budget)
  have "content_ok ver out (u\<lparr>co_pending := ps\<rparr>)" if "content_ok ver out u" for u ps
    by (rule content_ok_same [OF that]) simp_all
  with ok1 ok2 ok3 q p show ?thesis by (cases r) (auto simp: hydrate_next_def download_whole_def Let_def)
qed

lemma stream_to_ok:
  assumes ok: "content_ok ver out st" and n: "nd_etag n \<noteq> ''''" and whole: "honest_whole ver n whole"
    and run: "stream_to cfg io now n whole st = (st', r)"
  shows "content_ok ver out st'"
    and "r = Inr bs \<Longrightarrow> nd_file_id n = Some fid \<Longrightarrow> bs = ver fid (nd_etag n)"
proof -
  have "content_ok ver out st' \<and> (\<forall>bs fid. r = Inr bs \<and> nd_file_id n = Some fid \<longrightarrow> bs = ver fid (nd_etag n))"
  proof (cases "nd_file_id n = None \<or> (case cc_max_bytes cfg of None \<Rightarrow> False | Some mx \<Rightarrow> unat (nd_size n) > mx)")
    case True
    with run have "st' = st" "r = whole" by (auto simp: stream_to_def split: option.splits)
    with ok whole show ?thesis by (auto simp: honest_whole_def)
  next
    case False
    then obtain fid where fid: "nd_file_id n = Some fid" by auto
    obtain st1 q where f: "(if blob_is_fresh (co_dir st) fid (nd_etag n) then (st, Inr ()) else fetch_whole io now fid n whole st) = (st1, q)"
      by (metis prod.exhaust)
    have ok1: "content_ok ver out st1"
      using f ok fetch_whole_ok [OF ok fid whole] by (auto split: if_splits)
    show ?thesis
    proof (cases "\<exists>b. q = Inr () \<and> hm_get (cd_blobs (co_dir st1)) fid = Some b")
      case False
      with run f fid \<open>\<not> (nd_file_id n = None \<or> _)\<close> have "st' = st1" "\<exists>e. r = Inl e"
        by (cases q; auto simp: stream_to_def split: option.splits)+
      with ok1 show ?thesis by auto
    next
      case True
      then obtain b where b: "q = Inr ()" "hm_get (cd_blobs (co_dir st1)) fid = Some b" by blast
      with run f fid \<open>\<not> (nd_file_id n = None \<or> _)\<close>
      have res: "st' = enforce_budget cfg now (set_dir (touch now fid (co_dir st1)) st1)" "r = Inr (bl_bytes b)"
        by (auto simp: stream_to_def)
      have "blob_is_fresh (co_dir st1) fid (nd_etag n)"
      proof (cases "blob_is_fresh (co_dir st) fid (nd_etag n)")
        case True
        with f show ?thesis by simp
      next
        case False
        with f b(1) obtain d where d: "publish_download io now (PartFile fid) fid n whole (co_dir st) = (d, Inr ())" "co_dir st1 = d"
          by (auto simp: fetch_whole_def split: prod.splits sum.splits)
        then show ?thesis using publish_download_fresh by metis
      qed
      moreover have "blobs_ok ver (co_dir st1)" using ok1 by (simp add: content_ok_def)
      ultimately have "bl_bytes b = ver fid (nd_etag n)" using fresh_blob [OF _ _ n] b(2) by fastforce
      moreover have "content_ok ver out st'" unfolding res by (intro content_ok_budget content_ok_touch ok1)
      ultimately show ?thesis using res(2) fid by simp
    qed
  qed
  then show "content_ok ver out st'" and "r = Inr bs \<Longrightarrow> nd_file_id n = Some fid \<Longrightarrow> bs = ver fid (nd_etag n)" by blast+
qed

section \<open>Runs\<close>

text \<open>A read under way, and one that was answered; \<open>unasked\<close>: without an answer of the server.\<close>

type_synonym flight = "node \<times> nat \<times> nat \<times> pending_read"

record answered =
  an_node :: node
  an_off :: nat
  an_len :: nat
  an_unasked :: bool
  an_result :: answer

definition outside :: "flight list \<Rightarrow> (u64 \<times> read_window) list" where
  "outside fl = concat (map (\<lambda>(n, off, len, p). held (n, p)) fl)"

text \<open>
  The store starts over a directory; a restart keeps the directory and nothing else. The version
  \<open>ver fid e\<close> is what the server holds for the file under an ETag; a store is told the ETag the
  server gave the bytes it uploaded.
\<close>

inductive content_run :: "versions \<Rightarrow> content_config \<Rightarrow> cache_dir \<Rightarrow> content \<Rightarrow> flight list \<Rightarrow> answered list \<Rightarrow> bool"
  for ver :: versions and cfg :: content_config and d0 :: cache_dir where
  start: "content_run ver cfg d0 (content_new d0) [] []"
| restart: "content_run ver cfg d0 st fl h \<Longrightarrow> content_run ver cfg d0 (content_new (co_dir st)) [] h"
| begins: "content_run ver cfg d0 st fl h \<Longrightarrow> listed ver n \<Longrightarrow> begin_read cfg io now n off len st = (st', p) \<Longrightarrow>
    awaiting ver n off len p \<Longrightarrow> content_run ver cfg d0 st' ((n, off, len, p) # fl) h"
| local: "content_run ver cfg d0 st fl h \<Longrightarrow> listed ver n \<Longrightarrow> begin_read cfg io now n off len st = (st', Answered r) \<Longrightarrow>
    content_run ver cfg d0 st' fl (\<lparr>an_node = n, an_off = off, an_len = len, an_unasked = False, an_result = r\<rparr> # h)"
| ends: "content_run ver cfg d0 st (fl1 @ (n, off, len, p) # fl2) h \<Longrightarrow> honest ver n off (wanted p len) got \<Longrightarrow>
    finish_read cfg io now n off len p got st = (st', r) \<Longrightarrow>
    content_run ver cfg d0 st' (fl1 @ fl2)
      (\<lparr>an_node = n, an_off = off, an_len = len, an_unasked = isl got, an_result = r\<rparr> # h)"
| outdated: "content_run ver cfg d0 st fl h \<Longrightarrow> read_outdated n off len st = (st', Some bs) \<Longrightarrow>
    content_run ver cfg d0 st' fl (\<lparr>an_node = n, an_off = off, an_len = len, an_unasked = True, an_result = Inr bs\<rparr> # h)"
| pins: "content_run ver cfg d0 st fl h \<Longrightarrow> honest_whole ver n whole \<Longrightarrow> pin_file io now n whole st = (st', q) \<Longrightarrow>
    content_run ver cfg d0 st' fl h"
| unpins: "content_run ver cfg d0 st fl h \<Longrightarrow> content_run ver cfg d0 (unpin_file fid st) fl h"
| stores: "content_run ver cfg d0 st fl h \<Longrightarrow> (\<And>fid. nd_file_id n = Some fid \<Longrightarrow> data = ver fid etag) \<Longrightarrow>
    store cfg io now n data etag st = (st', q) \<Longrightarrow> content_run ver cfg d0 st' fl h"
| hydrates: "content_run ver cfg d0 st fl h \<Longrightarrow> (\<And>n rest. co_queue st = n # rest \<Longrightarrow> honest_whole ver n whole) \<Longrightarrow>
    content_run ver cfg d0 (hydrate_next cfg io now whole st) fl h"
| streams: "content_run ver cfg d0 st fl h \<Longrightarrow> nd_etag n \<noteq> '''' \<Longrightarrow> honest_whole ver n whole \<Longrightarrow>
    stream_to cfg io now n whole st = (st', q) \<Longrightarrow> content_run ver cfg d0 st' fl h"

definition answer_ok :: "versions \<Rightarrow> answered \<Rightarrow> bool" where
  "answer_ok ver a \<longleftrightarrow>
     (\<forall>bs fid. an_result a = Inr bs \<and> nd_file_id (an_node a) = Some fid \<longrightarrow>
        serves (ver fid (nd_etag (an_node a))) (an_off a) (an_len a) bs \<or>
        an_unasked a \<and> (\<exists>e. serves (ver fid e) (an_off a) (an_len a) bs))"

lemma content_new_ok: "blobs_ok ver d \<Longrightarrow> content_ok ver [] (content_new d)"
  by (simp add: content_ok_def content_new_def blobs_ok_def once_def)

lemma outside_simps [simp]: "outside [] = []" "outside ((n, off, len, p) # fl) = held (n, p) @ outside fl"
  "outside (fl1 @ fl2) = outside fl1 @ outside fl2"
  by (simp_all add: outside_def)

text \<open>The order of the windows outside the map is of no account.\<close>

lemma content_ok_perm: "content_ok ver (xs @ ys @ zs) st = content_ok ver (ys @ xs @ zs) st"
  by (simp add: content_ok_def ac_simps Un_left_commute Un_assoc)

lemma content_run_ok:
  assumes "content_run ver cfg d0 st fl h" and "blobs_ok ver d0"
  shows "content_ok ver (outside fl) st \<and> (\<forall>f \<in> set fl. case f of (n, off, len, p) \<Rightarrow> awaiting ver n off len p) \<and>
    (\<forall>a \<in> set h. answer_ok ver a)"
  using assms
proof (induction rule: content_run.induct)
  case start
  then show ?case by (simp add: content_new_ok)
next
  case (restart st fl h)
  then have "blobs_ok ver (co_dir st)" by (simp add: content_ok_def)
  with restart show ?case by (simp add: content_new_ok)
next
  case (begins st fl h n io now off len st' p)
  then show ?case using begin_read_ok(1) [OF _ begins.hyps(2,3)] by simp
next
  case (local st fl h n io now off len st' r)
  then have "content_ok ver (outside fl) st'" using begin_read_ok(1) [OF _ local.hyps(2,3)] by fastforce
  moreover have "answer_ok ver \<lparr>an_node = n, an_off = off, an_len = len, an_unasked = False, an_result = r\<rparr>"
    using local begin_read_ok(3) [OF _ local.hyps(2,3)] by (fastforce simp: answer_ok_def)
  ultimately show ?case using local by simp
next
  case (ends st fl1 n off len p fl2 h got io now st' r)
  have ok: "content_ok ver (held (n, p) @ outside (fl1 @ fl2)) st"
    using ends content_ok_perm [of ver "outside fl1" "held (n, p)" "outside fl2" st] by simp
  have p: "awaiting ver n off len p" using ends by simp
  note fin = finish_read_ok [OF ok p ends.hyps(2,3)]
  have "answer_ok ver \<lparr>an_node = n, an_off = off, an_len = len, an_unasked = isl got, an_result = r\<rparr>"
    using fin(2) by (simp add: answer_ok_def)
  with fin(1) ends show ?case by simp
next
  case (outdated st fl h n off len st' bs)
  note s = serve_local_copy_ok [OF _ outdated.hyps(2) [unfolded read_outdated_def]]
  have "answer_ok ver \<lparr>an_node = n, an_off = off, an_len = len, an_unasked = True, an_result = Inr bs\<rparr>"
    using s(2) outdated by (fastforce simp: answer_ok_def)
  with s(1) outdated show ?case by simp
next
  case (pins st fl h n whole io now st' q)
  then show ?case using pin_file_ok [OF _ pins.hyps(2,3)] by simp
next
  case unpins
  then show ?case using unpin_file_ok by simp
next
  case (stores st fl h n data etag io now st' q)
  have "content_ok ver (outside fl) st'"
    by (rule store_ok [OF _ _ stores.hyps(3)]) (use stores in blast)+
  with stores show ?case by simp
next
  case (hydrates st fl h whole io now)
  have "content_ok ver (outside fl) (hydrate_next cfg io now whole st)"
    by (rule hydrate_next_ok) (use hydrates in blast)+
  with hydrates show ?case by simp
next
  case (streams st fl h n whole io now st' q)
  then show ?case using stream_to_ok(1) [OF _ streams.hyps(2-4)] by simp
qed



text \<open>A document that is pinned, while the first read of it is still waiting for the network.\<close>

definition sample_file :: node where
  "sample_file = (new_node 1 ''a'' ''a'' False)\<lparr>nd_size := 3, nd_etag := ''v1'', nd_file_id := Some 8\<rparr>"

definition sample_io :: file_io where
  "sample_io = \<lparr>fi_stage = True, fi_rename = True, fi_sidecar = Written\<rparr>"

definition sample_cfg :: content_config where
  "sample_cfg = \<lparr>cc_max_bytes = Some 100, cc_max_age = None, cc_hydrates = True\<rparr>"

definition empty_dir :: cache_dir where
  "empty_dir = \<lparr>cd_blobs = [], cd_etags = [], cd_pins = [], cd_temps = []\<rparr>"

definition sample_versions :: versions where
  "sample_versions fid e = (if fid = 8 \<and> e = ''v1'' then [1, 2, 3] else [])"


end
