(* ===== verification/Core_Content_Budget.thy ===== *)
theory Core_Content_Budget
  imports Core_Content_Reads
begin

text \<open>
  The bounds of the content store: what an eviction takes and leaves, how many windows there are
  and how much they hold, and the loop that streams a whole file.
\<close>

section \<open>Eviction\<close>

definition too_old :: "nat \<Rightarrow> nat option \<Rightarrow> u64 \<times> nat \<times> nat \<Rightarrow> bool" where
  "too_old now max_age c \<longleftrightarrow> (case max_age of None \<Rightarrow> False | Some age \<Rightarrow> age_secs now (snd (snd c)) > age)"

definition by_age :: "(u64 \<times> nat \<times> nat) list \<Rightarrow> (u64 \<times> nat \<times> nat) list" where
  "by_age cs = sort_key (\<lambda>c. snd (snd c)) cs"

lemma expire_eq:
  "expire now age cs d =
     (fold evict_blob (map fst (filter (too_old now (Some age)) cs)) d, filter (\<lambda>c. \<not> too_old now (Some age) c) cs,
      map fst (filter (too_old now (Some age)) cs))"
  by (induction now age cs d rule: expire.induct) (simp_all add: too_old_def)

lemma sizes_simps [simp]: "sizes [] = 0" "sizes (c # cs) = fst (snd c) + sizes cs"
  by (simp_all add: sizes_def case_prod_unfold)

lemma evict_lru_eq:
  "evict_lru mx (sizes cs) cs d = (d', gone) \<Longrightarrow>
    \<exists>k \<le> length cs. gone = map fst (take k cs) \<and> d' = fold evict_blob gone d \<and> sizes (drop k cs) \<le> mx \<and>
      (\<forall>j < k. mx < sizes (drop j cs))"
proof (induction cs arbitrary: d gone)
  case Nil
  then show ?case by simp
next
  case (Cons c cs)
  obtain fid sz mtime where c: "c = (fid, sz, mtime)" by (cases c)
  show ?case
  proof (cases "sizes (c # cs) \<le> mx")
    case True
    with Cons.prems c show ?thesis by (intro exI [of _ 0]) simp
  next
    case False
    obtain gone' where l: "evict_lru mx (sizes cs) cs (evict_blob fid d) = (d', gone')" and g: "gone = fid # gone'"
      using Cons.prems False c by (auto split: prod.splits)
    from Cons.IH [OF l] obtain k where k: "k \<le> length cs" "gone' = map fst (take k cs)" "d' = fold evict_blob gone' (evict_blob fid d)"
        "sizes (drop k cs) \<le> mx" "\<forall>j < k. mx < sizes (drop j cs)" by blast
    have "mx < sizes (drop j (c # cs))" if "j < Suc k" for j
      using that k(5) False by (cases j) auto
    with k g c show ?thesis by (intro exI [of _ "Suc k"]) simp
  qed
qed

lemma evict_blobs_eq:
  "cd_blobs (fold evict_blob fids d) = filter (\<lambda>(f, b). f \<notin> set fids) (cd_blobs d)"
  "hm_get (cd_etags (fold evict_blob fids d)) f = (if f \<in> set fids then None else hm_get (cd_etags d) f)"
  "cd_pins (fold evict_blob fids d) = cd_pins d"
proof (induction fids arbitrary: d)
  case Nil
  case 1 show ?case by (simp add: case_prod_unfold)
  case 2 show ?case by simp
  case 3 show ?case by simp
next
  case (Cons fid fids)
  have rm: "cd_blobs (evict_blob fid d) = filter (\<lambda>(f, b). f \<noteq> fid) (cd_blobs d)" for d
    by (auto simp: evict_blob_def AList.delete_eq case_prod_unfold intro!: filter_cong)
  case 1 show ?case using Cons(1) [of "evict_blob fid d"] by (simp add: rm case_prod_unfold conj_commute)
  case 2 show ?case using Cons(2) [of "evict_blob fid d"] by (simp add: evict_blob_def store_simps)
  case 3 show ?case using Cons(3) [of "evict_blob fid d"] by simp
qed

lemma candidates_evicted:
  "candidates (fold evict_blob fids d) = filter (\<lambda>c. fst c \<notin> set fids) (candidates d)"
  by (simp add: candidates_def evict_blobs_eq filter_map o_def case_prod_unfold conj_commute)

lemma sizes_mset: "mset cs = mset cs' \<Longrightarrow> sizes cs = sizes cs'"
  unfolding sizes_def by (metis mset_map sum_mset_sum_list)

text \<open>Of the candidates, what is neither too old nor among the \<open>k\<close> least recently used is left.\<close>

lemma left_over:
  assumes "distinct (map fst cs)"
  shows "mset (filter (\<lambda>c. fst c \<notin> fst ` set (filter Q cs) \<union> fst ` set (take k (by_age (filter (\<lambda>c. \<not> Q c) cs)))) cs) =
    mset (drop k (by_age (filter (\<lambda>c. \<not> Q c) cs)))" (is "mset (filter ?L cs) = mset (drop k ?s)")
proof -
  have s: "mset ?s = mset (filter (\<lambda>c. \<not> Q c) cs)" by (simp add: by_age_def)
  have dist: "distinct (map fst ?s)"
  proof -
    have "mset (map fst ?s) = mset (map fst (filter (\<lambda>c. \<not> Q c) cs))" using s by (simp only: mset_map)
    then have "distinct (map fst ?s) = distinct (map fst (filter (\<lambda>c. \<not> Q c) cs))" by (rule mset_eq_imp_distinct_iff)
    with assms show ?thesis by (simp add: distinct_map_filter)
  qed
  have "set (filter ?L cs) = set (drop k ?s)"
  proof -
    have ss: "set ?s = {c \<in> set cs. \<not> Q c}" using s by (metis mset_eq_setD set_filter)
    have inj: "c = c'" if "c \<in> set cs" "c' \<in> set cs" "fst c = fst c'" for c c'
      using that assms by (metis distinct_map inj_onD)
    have split: "set ?s = set (take k ?s) \<union> set (drop k ?s)" by (metis append_take_drop_id set_append)
    have disj: "set (take k ?s) \<inter> set (drop k ?s) = {}" using dist by (metis distinct_append distinct_map append_take_drop_id)
    show ?thesis
    proof (intro set_eqI iffI)
      fix c
      assume "c \<in> set (filter ?L cs)"
      then have c: "c \<in> set cs" "fst c \<notin> fst ` set (filter Q cs)" "c \<notin> set (take k ?s)" by auto
      then have "c \<in> set ?s" using ss by auto
      with c(3) split show "c \<in> set (drop k ?s)" by blast
    next
      fix c
      assume c: "c \<in> set (drop k ?s)"
      then have cs: "c \<in> set cs" "\<not> Q c" using split ss by auto
      have "fst c \<notin> fst ` set (filter Q cs)"
      proof
        assume "fst c \<in> fst ` set (filter Q cs)"
        then obtain c' where "c' \<in> set cs" "Q c'" "fst c' = fst c" by auto
        with inj [of c' c] cs show False by blast
      qed
      moreover have "fst c \<notin> fst ` set (take k ?s)"
      proof
        assume "fst c \<in> fst ` set (take k ?s)"
        then obtain c' where "c' \<in> set (take k ?s)" "fst c' = fst c" by auto
        moreover then have "c' \<in> set cs" using split ss by auto
        ultimately show False using inj [OF _ cs(1)] c disj by blast
      qed
      ultimately show "c \<in> set (filter ?L cs)" using cs by simp
    qed
  qed
  moreover have d1: "distinct (filter ?L cs)" using assms by (simp add: distinct_map)
  moreover have d2: "distinct (drop k ?s)" using dist distinct_drop [of ?s k] by (simp add: distinct_map)
  ultimately show ?thesis unfolding set_eq_iff_mset_eq_distinct [OF d1 d2] by blast
qed

lemma evict_run:
  assumes "evict now mb ma d = (d', gone)"
  shows "\<exists>k. gone = map fst (filter (too_old now ma) (candidates d)) @
      map fst (take k (by_age (filter (\<lambda>c. \<not> too_old now ma c) (candidates d)))) \<and>
    d' = fold evict_blob gone d \<and>
    (case mb of
       None \<Rightarrow> k = 0
     | Some mx \<Rightarrow> sizes (drop k (by_age (filter (\<lambda>c. \<not> too_old now ma c) (candidates d)))) \<le> mx \<and>
         (\<forall>j < k. mx < sizes (drop j (by_age (filter (\<lambda>c. \<not> too_old now ma c) (candidates d))))))"
proof -
  let ?young = "filter (\<lambda>c. \<not> too_old now ma c) (candidates d)"
  let ?old = "map fst (filter (too_old now ma) (candidates d))"
  let ?d = "fold evict_blob ?old d"
  have first: "(case ma of None \<Rightarrow> (d, candidates d, []) | Some age \<Rightarrow> expire now age (candidates d) d) = (?d, ?young, ?old)"
    by (cases ma) (simp_all add: expire_eq too_old_def [of now None])
  have same: "sizes (by_age cs) = sizes cs" for cs by (rule sizes_mset) (simp add: by_age_def)
  show ?thesis
  proof (cases mb)
    case None
    with assms first show ?thesis
      by (cases "ma = None") (auto simp: evict_def too_old_def [of now None] split: option.splits intro!: exI [of _ 0])
  next
    case (Some mx)
    show ?thesis
    proof (cases "sizes ?young > mx")
      case False
      with assms first Some have "d' = ?d" "gone = ?old" by (auto simp: evict_def)
      with False Some same [of ?young] show ?thesis by (intro exI [of _ 0]) simp
    next
      case True
      obtain d2 gone' where l': "evict_lru mx (sizes ?young) (sort_key (\<lambda>(fid, sz, mtime). mtime) ?young) ?d = (d2, gone')"
        by (metis prod.exhaust)
      with assms first Some True have "d' = d2" "gone = ?old @ gone'" by (auto simp: evict_def)
      have l: "evict_lru mx (sizes (by_age ?young)) (by_age ?young) ?d = (d2, gone')"
        using l' same [of ?young] by (simp add: by_age_def case_prod_unfold)
      note \<open>d' = d2\<close> \<open>gone = ?old @ gone'\<close>
      moreover from evict_lru_eq [OF l] obtain k where "gone' = map fst (take k (by_age ?young))" "d2 = fold evict_blob gone' ?d"
          "sizes (drop k (by_age ?young)) \<le> mx" "\<forall>j < k. mx < sizes (drop j (by_age ?young))" by blast
      ultimately show ?thesis using Some by (intro exI [of _ k]) simp
    qed
  qed
qed

text \<open>
  C30. An eviction takes what it has to, in the right order, and says what it took. The pinned
  copies stay whatever their age and size. The copies that go are those beyond the age and, of the
  others, the least recently used, none of them while the rest already fits the budget; what is
  left of the copies that are not pinned fits it. The copies that stay keep their bytes and
  their sidecar, those that go lose both, and the answer names exactly those.
\<close>

theorem eviction_is_exact:
  assumes "evict now mb ma d = (d', gone)" and "hm_wf (cd_blobs d)"
  shows "\<exists>k. let young = filter (\<lambda>c. \<not> too_old now ma c) (candidates d); lru = by_age young in
      gone = map fst (filter (too_old now ma) (candidates d)) @ map fst (take k lru) \<and>
      (\<forall>fid. hm_get (cd_blobs d') fid = (if fid \<in> set gone then None else hm_get (cd_blobs d) fid)) \<and>
      (\<forall>fid. hm_get (cd_etags d') fid = (if fid \<in> set gone then None else hm_get (cd_etags d) fid)) \<and>
      set gone \<inter> set (cd_pins d) = {} \<and>
      (case mb of None \<Rightarrow> k = 0 | Some mx \<Rightarrow> sizes (candidates d') \<le> mx \<and> (\<forall>j < k. mx < sizes (drop j lru)))"
proof -
  let ?young = "filter (\<lambda>c. \<not> too_old now ma c) (candidates d)"
  obtain k where gone: "gone = map fst (filter (too_old now ma) (candidates d)) @ map fst (take k (by_age ?young))"
      and d': "d' = fold evict_blob gone d"
      and k: "case mb of None \<Rightarrow> k = 0 | Some mx \<Rightarrow> sizes (drop k (by_age ?young)) \<le> mx \<and> (\<forall>j < k. mx < sizes (drop j (by_age ?young)))"
    using evict_run [OF assms(1)] by blast
  have dist: "distinct (map fst (candidates d))"
    using assms(2) by (simp add: candidates_def hm_wf_def o_def case_prod_unfold distinct_map_filter)
  have "set (take k (by_age ?young)) \<subseteq> set (candidates d)"
    by (rule subset_trans [OF set_take_subset]) (auto simp: by_age_def)
  then have "fst c \<notin> set (cd_pins d)" if "c \<in> set (candidates d)" for c
    using that by (auto simp: candidates_def)
  moreover have "set gone \<subseteq> fst ` set (candidates d)"
    unfolding gone using \<open>set (take k _) \<subseteq> _\<close> by auto
  ultimately have pins: "set gone \<inter> set (cd_pins d) = {}" by blast
  have get: "hm_get (filter (\<lambda>(f, b). f \<notin> S) m) fid = (if fid \<in> S then None else hm_get m fid)"
    for S and m :: "(u64, blob) hash_map" and fid
    by (induction m) auto
  have "mset (candidates d') = mset (drop k (by_age ?young))"
    unfolding d' candidates_evicted gone using left_over [OF dist, of "too_old now ma" k] by (simp add: image_Un)
  then have "sizes (candidates d') = sizes (drop k (by_age ?young))" by (rule sizes_mset)
  with k have "case mb of None \<Rightarrow> k = 0 | Some mx \<Rightarrow> sizes (candidates d') \<le> mx \<and> (\<forall>j < k. mx < sizes (drop j (by_age ?young)))"
    by (simp split: option.splits)
  moreover have "hm_get (cd_blobs d') fid = (if fid \<in> set gone then None else hm_get (cd_blobs d) fid)" for fid
    unfolding d' evict_blobs_eq by (rule get)
  moreover have "hm_get (cd_etags d') fid = (if fid \<in> set gone then None else hm_get (cd_etags d) fid)" for fid
    unfolding d' by (rule evict_blobs_eq)
  ultimately show ?thesis unfolding Let_def using gone pins by blast
qed

text \<open>Of three copies one is pinned; the older of the others goes.\<close>

definition sample_cache :: cache_dir where
  "sample_cache =
     empty_dir\<lparr>cd_blobs := [(7, \<lparr>bl_bytes = [1, 2, 3], bl_mtime = 3\<rparr>), (8, \<lparr>bl_bytes = [4, 5], bl_mtime = 2\<rparr>),
       (9, \<lparr>bl_bytes = [6, 7], bl_mtime = 1\<rparr>)],
     cd_etags := [(7, ''a''), (8, ''b''), (9, ''c'')], cd_pins := [9]\<rparr>"

lemma eviction_is_exact_witness:
  "\<exists>d' k. evict 10 (Some 4) None sample_cache = (d', [8]) \<and> hm_get (cd_blobs d') 8 = None \<and>
     hm_get (cd_blobs d') 7 = hm_get (cd_blobs sample_cache) 7 \<and> sizes (candidates d') \<le> 4 \<and> k = (1 :: nat)"
proof -
  have e: "snd (evict 10 (Some 4) None sample_cache) = [8]"
    by (simp add: evict_def sample_cache_def empty_dir_def candidates_def)
  obtain d' where d': "evict 10 (Some 4) None sample_cache = (d', [8])" using e by (metis prod.collapse)
  have "hm_wf (cd_blobs sample_cache)" by (simp add: sample_cache_def)
  from eviction_is_exact [OF d' this] obtain k where
      "hm_get (cd_blobs d') fid = (if fid \<in> set [8] then None else hm_get (cd_blobs sample_cache) fid)"
      "sizes (candidates d') \<le> 4" for fid
    unfolding Let_def by auto
  with d' show ?thesis by simp
qed

section \<open>Windows and tallies\<close>

definition bounded :: "content \<Rightarrow> bool" where
  "bounded st \<longleftrightarrow>
     hm_wf (co_windows st) \<and> length (co_windows st) \<le> max_windows \<and> buffered_bytes (co_windows st) \<le> max_readahead_bytes \<and>
     length (co_seen st) \<le> max_seen"

lemma buffered_simps [simp]: "buffered_bytes [] = 0" "buffered_bytes ((fid, w) # ws) = length (rw_buf w) + buffered_bytes ws"
  by (simp_all add: buffered_bytes_def)

lemma buffered_insert: "hm_wf ws \<Longrightarrow> hm_get ws fid = Some w \<Longrightarrow>
    buffered_bytes (hm_insert fid v ws) + length (rw_buf w) = length (rw_buf v) + buffered_bytes ws"
  by (induction ws) auto

lemma buffered_remove: "buffered_bytes (hm_remove fid ws) \<le> buffered_bytes ws"
  by (induction ws) auto

lemma length_remove: "length (hm_remove fid ws) \<le> length ws"
  by (induction ws) auto

lemma length_remove_less: "hm_get ws fid \<noteq> None \<Longrightarrow> length (hm_remove fid ws) < length ws"
proof (induction ws)
  case (Cons x ws)
  obtain j w where x: "x = (j, w)" by (cases x)
  show ?case
  proof (cases "j = fid")
    case True
    with x length_remove [of fid ws] show ?thesis by simp
  next
    case False
    with x Cons show ?thesis by simp
  qed
qed simp

lemma length_insert: "length (hm_insert fid w ws) \<le> Suc (length ws)"
  by (induction ws) auto

lemma trim_loop_bound:
  "hm_wf ws \<Longrightarrow> amount = buffered_bytes ws \<Longrightarrow> (\<And>f w. hm_get ws f = Some w \<Longrightarrow> rw_buf w \<noteq> [] \<Longrightarrow> f \<in> set fids) \<Longrightarrow>
    buffered_bytes (trim_loop amount fids ws) \<le> max_readahead_bytes"
proof (induction amount fids ws rule: trim_loop.induct)
  case (1 amount ws)
  have "rw_buf w = []" if "(f, w) \<in> set ws" for f w
    using 1(3) [of f w] that hm_get_in_set [OF 1(1)] by auto
  then have "buffered_bytes ws = 0" by (auto simp: buffered_bytes_def)
  then show ?case by simp
next
  case (2 amount fid rest ws)
  show ?case
  proof (cases "amount \<le> max_readahead_bytes")
    case True
    with 2(4) show ?thesis by simp
  next
    case False
    show ?thesis
    proof (cases "hm_get ws fid")
      case None
      have "f \<in> set rest" if "hm_get ws f = Some w" "rw_buf w \<noteq> []" for f w
        using 2(5) [OF that] that None by auto
      with 2(1) [OF False None 2(3,4)] False None show ?thesis by simp
    next
      case (Some w)
      let ?ws = "drop_buffer fid ws"
      have ws: "?ws = hm_insert fid (w\<lparr>rw_buf := [], rw_buf_start := 0\<rparr>) ws" using Some by (simp add: drop_buffer_def)
      have amount: "amount - length (rw_buf w) = buffered_bytes ?ws"
        using buffered_insert [OF 2(3) Some, of "w\<lparr>rw_buf := [], rw_buf_start := 0\<rparr>"] 2(4) ws by simp
      have rest: "f \<in> set rest" if "hm_get ?ws f = Some u" "rw_buf u \<noteq> []" for f u
      proof -
        have "f \<noteq> fid" using that ws by (auto simp: store_simps)
        with that 2(5) [of f u] ws show ?thesis by (auto simp: store_simps)
      qed
      have "hm_wf ?ws" using 2(3) ws by simp
      from 2(2) [OF False Some this amount rest] False Some show ?thesis by simp
    qed
  qed
qed

lemma trim_readahead_bound: "hm_wf ws \<Longrightarrow> buffered_bytes (trim_readahead ws) \<le> max_readahead_bytes"
proof -
  assume wf: "hm_wf ws"
  let ?fids = "map fst (sort_key (\<lambda>(fid, w). rw_last_use w) (filter (\<lambda>(fid, w). rw_buf w \<noteq> []) ws))"
  have "f \<in> set ?fids" if "hm_get ws f = Some w" "rw_buf w \<noteq> []" for f w
    using map_of_SomeD [OF that(1)] that(2) by force
  from trim_loop_bound [OF wf refl this] show ?thesis by (simp add: trim_readahead_def)
qed

lemma oldest_window_key: "oldest_window ws = Some fid \<Longrightarrow> hm_get ws fid \<noteq> None"
proof -
  assume "oldest_window ws = Some fid"
  then obtain w rest where "sort_key (\<lambda>(fid, w). rw_last_use w) ws = (fid, w) # rest"
    by (auto simp: oldest_window_def split: list.splits)
  then have "(fid, w) \<in> set ws" by (metis list.set_intros(1) set_sort)
  then show ?thesis by (metis fst_conv hm_get_None_iff image_eqI)
qed

lemma remove_window_fst: "fst (remove_window fid (ws, d)) = hm_remove fid ws"
  by (auto simp: remove_window_def hm_get_None_iff split: option.split)

lemma keep_window_bound:
  assumes wf: "hm_wf ws" and len: "length ws \<le> max_windows" and keep: "keep_window fid w (ws, d) = (ws', d')"
  shows "hm_wf ws' \<and> length ws' \<le> max_windows \<and> buffered_bytes ws' \<le> max_readahead_bytes"
proof -
  define wd where "wd = (if length ws \<ge> max_windows then
      (case oldest_window ws of None \<Rightarrow> (ws, d) | Some old \<Rightarrow> remove_window old (ws, d)) else (ws, d))"
  have oldest: "oldest_window ws \<noteq> None" if "length ws \<ge> max_windows"
  proof -
    have "ws \<noteq> []" using that by (auto simp: max_windows_def)
    then have "sort_key (\<lambda>(fid, w). rw_last_use w) ws \<noteq> []" by (metis length_sort length_0_conv)
    then show ?thesis by (auto simp: oldest_window_def split: list.split)
  qed
  have fewer: "length (fst wd) < max_windows \<and> hm_wf (fst wd)"
  proof (cases "length ws \<ge> max_windows")
    case True
    then obtain old where old: "oldest_window ws = Some old" using oldest by blast
    with True len length_remove_less [OF oldest_window_key [OF old]] wf show ?thesis
      by (simp add: wd_def remove_window_fst)
  next
    case False
    with wf show ?thesis by (simp add: wd_def)
  qed
  obtain ws1 d1 where wd1: "wd = (ws1, d1)" by (cases wd)
  let ?ws2 = "hm_insert fid w (hm_remove fid ws1)"
  have ws': "ws' = trim_readahead ?ws2"
    using keep unfolding keep_window_def Let_def fst_conv wd_def [symmetric] wd1 remove_window_fst by simp
  have wf2: "hm_wf ?ws2" using fewer wd1 by simp
  have "length ?ws2 \<le> max_windows"
    using fewer wd1 length_insert [of fid w "hm_remove fid ws1"] length_remove [of fid ws1] by simp
  moreover obtain S where "ws' = emptied S ?ws2" using ws' trim_readahead_emptied [OF wf2] by auto
  moreover then have "length ws' = length ?ws2" by (simp add: emptied_def)
  ultimately show ?thesis using trim_readahead_bound [OF wf2] wf2 ws' by simp
qed

lemma bounded_same:
  "bounded st \<Longrightarrow> co_windows st' = co_windows st \<Longrightarrow> co_seen st' = co_seen st \<Longrightarrow> bounded st'"
  by (simp add: bounded_def)

lemma seen_fields [simp]:
  "co_seen (say ns st) = co_seen st" "co_seen (announce n st) = co_seen st" "co_seen (set_dir d st) = co_seen st"
  by (simp_all add: say_def announce_def set_dir_def)

lemma budget_fields [simp]:
  "co_windows (enforce_budget cfg now st) = co_windows st" "co_seen (enforce_budget cfg now st) = co_seen st"
  by (simp_all add: enforce_budget_def split: prod.split)

lemma publish_window_fields [simp]:
  "co_windows (publish_window cfg io now w n fid st) = co_windows st" "co_seen (publish_window cfg io now w n fid st) = co_seen st"
  by (auto simp: publish_window_def split: option.split prod.split bool.split)

lemma tally_bounded: "bounded st \<Longrightarrow> bounded (tally cfg n fid active out st)"
  by (auto simp: tally_def hydrator_request_def Let_def bounded_def split: option.split)

lemma settle_bounded: "bounded st \<Longrightarrow> bounded (settle_window cfg io now n fid w out st)"
proof -
  assume b: "bounded st"
  obtain w' d where adv: "window_advance (fi_stage io) now out w (co_dir st) = (w', d)" by (metis prod.exhaust)
  obtain ws d2 where keep: "keep_window fid w' (co_windows (set_dir d st), co_dir (set_dir d st)) = (ws, d2)" by (metis prod.exhaust)
  have "bounded ((set_dir d st)\<lparr>co_windows := ws, co_dir := d2\<rparr>)"
    using keep_window_bound [OF _ _ keep] b by (simp add: bounded_def)
  moreover have "bounded (publish_window cfg io now w' n fid (set_dir d st))" by (rule bounded_same [OF b]) simp_all
  moreover have "bounded (set_dir (snd (drop_part w' (co_dir (set_dir d st)))) (set_dir d st))" by (rule bounded_same [OF b]) simp_all
  ultimately show ?thesis unfolding settle_window_def adv prod.case Let_def keep by (auto intro: tally_bounded)
qed

lemma take_window_bounded: "bounded st \<Longrightarrow> bounded (fst (take_window n fid off now st))"
proof -
  assume b: "bounded st"
  have "co_windows (fst (take_window n fid off now st)) = hm_remove fid (co_windows st)"
    "co_seen (fst (take_window n fid off now st)) = co_seen st"
    by (auto simp: take_window_def Let_def hm_get_None_iff split: option.split)
  with b length_remove [of fid "co_windows st"] buffered_remove [of fid "co_windows st"] show ?thesis
    by (simp add: bounded_def)
qed

lemma touched_bounded: "bounded st \<Longrightarrow> bounded ((set_dir d st)\<lparr>co_seen := hm_remove fid (co_seen st)\<rparr>)"
  using length_remove [of fid "co_seen st"] by (simp add: bounded_def)


lemma begin_read_bounded:
  assumes b: "bounded st" and run: "begin_read cfg io now n off len st = (st', p)"
  shows "bounded st'"
proof (cases "len = 0 \<or> off \<ge> unat (nd_size n) \<or> nd_file_id n = None")
  case True
  then have "st' = st" using run by (cases "len = 0 \<or> off \<ge> unat (nd_size n)") (auto simp: begin_read_def)
  with b show ?thesis by simp
next
  case False
  then obtain fid where fid: "nd_file_id n = Some fid" and c: "(len = 0 \<or> off \<ge> unat (nd_size n)) = False" by auto
  define st1 where "st1 = (if blob_is_fresh (co_dir st) fid (nd_etag n)
      then (set_dir (touch now fid (co_dir st)) st)\<lparr>co_seen := hm_remove fid (co_seen st)\<rparr> else st)"
  have b1: "bounded st1" using b touched_bounded [OF b] by (simp add: st1_def)
  obtain st2 w where tw: "take_window n fid off now st1 = (st2, w)" by (metis prod.exhaust)
  have "bounded st2" using take_window_bounded [OF b1, of n fid off now] tw by simp
  moreover have "st' = st1 \<or> st' = st2 \<or> (\<exists>bs. st' = settle_window cfg io now n fid w bs st2)"
    using run unfolding begin_read_def c if_False fid option.case Let_def st1_def [symmetric] tw prod.case
    by (auto split: option.splits if_splits)
  ultimately show ?thesis using b1 settle_bounded by auto
qed

lemma serve_local_bounded: "bounded st \<Longrightarrow> serve_local_copy n off len why st = (st', r) \<Longrightarrow> bounded st'"
  by (auto simp: serve_local_copy_def bounded_def say_def split: option.splits if_splits)

lemma finish_read_bounded:
  assumes b: "bounded st" and run: "finish_read cfg io now n off len p got st = (st', r)"
  shows "bounded st'"
proof -
  have fb: "bounded st'" if "bounded s" "fall_back n off len e s = (st', r)" for s e
    using that serve_local_bounded
    by (auto simp: fall_back_def stale_fallback_def split: if_splits prod.splits option.splits)
  have drop: "bounded (set_dir d st)" for d by (rule bounded_same [OF b]) simp_all
  show ?thesis
    using run b fb drop settle_bounded [OF b]
    by (cases p; cases got) (auto simp: finish_read_def split: prod.splits option.splits)
qed

lemma whole_fields:
  "pin_file io now n whole st = (st', q) \<Longrightarrow> co_windows st' = co_windows st \<and> co_seen st' = co_seen st"
  "store cfg io now n data etag st = (st', q) \<Longrightarrow> co_windows st' = co_windows st \<and> co_seen st' = co_seen st"
  "stream_to cfg io now n whole st = (st', r) \<Longrightarrow> co_windows st' = co_windows st \<and> co_seen st' = co_seen st"
  "co_windows (hydrate_next cfg io now whole st) = co_windows st \<and> co_seen (hydrate_next cfg io now whole st) = co_seen st"
  "co_windows (unpin_file fid st) = co_windows st \<and> co_seen (unpin_file fid st) = co_seen st"
proof -
  have fetch: "co_windows s' = co_windows s \<and> co_seen s' = co_seen s" if "fetch_whole io now fid n whole s = (s', q')" for s s' fid q'
    using that by (auto simp: fetch_whole_def split: prod.splits sum.splits)
  show "pin_file io now n whole st = (st', q) \<Longrightarrow> co_windows st' = co_windows st \<and> co_seen st' = co_seen st"
    by (auto simp: pin_file_def split: option.splits if_splits prod.splits sum.splits dest: fetch)
  show "store cfg io now n data etag st = (st', q) \<Longrightarrow> co_windows st' = co_windows st \<and> co_seen st' = co_seen st"
    by (auto simp: store_def split: option.splits if_splits prod.splits bool.splits)
  show "stream_to cfg io now n whole st = (st', r) \<Longrightarrow> co_windows st' = co_windows st \<and> co_seen st' = co_seen st"
    by (auto simp: stream_to_def split: option.splits if_splits prod.splits sum.splits dest: fetch)
  show "co_windows (hydrate_next cfg io now whole st) = co_windows st \<and> co_seen (hydrate_next cfg io now whole st) = co_seen st"
    by (auto simp: hydrate_next_def Let_def split: option.splits list.splits prod.splits sum.splits)
  show "co_windows (unpin_file fid st) = co_windows st \<and> co_seen (unpin_file fid st) = co_seen st"
    by (simp add: unpin_file_def)
qed

lemma content_run_bounded: "content_run ver cfg d0 st fl h \<Longrightarrow> bounded st"
proof (induction rule: content_run.induct)
  case start
  then show ?case by (simp add: bounded_def content_new_def max_windows_def max_readahead_bytes_def max_seen_def)
next
  case restart
  then show ?case by (simp add: bounded_def content_new_def max_windows_def max_readahead_bytes_def max_seen_def)
next
  case begins
  then show ?case using begin_read_bounded by blast
next
  case local
  then show ?case using begin_read_bounded by blast
next
  case ends
  then show ?case using finish_read_bounded by blast
next
  case outdated
  then show ?case using serve_local_bounded unfolding read_outdated_def by blast
next
  case pins
  then show ?case using bounded_same whole_fields(1) by metis
next
  case unpins
  then show ?case using bounded_same whole_fields(5) by metis
next
  case stores
  then show ?case using bounded_same whole_fields(2) by metis
next
  case hydrates
  then show ?case using bounded_same whole_fields(4) by metis
next
  case streams
  then show ?case using bounded_same whole_fields(3) by metis
qed



section \<open>Whole files, chunk by chunk\<close>

lemma stream_full_outcome:
  "(\<And>off len s s' bs. rd off len s = (s', Inr bs) \<Longrightarrow> serves V off len bs) \<Longrightarrow> sz = length V \<Longrightarrow> off \<le> length V \<Longrightarrow>
    acc = take off V \<Longrightarrow>
    (case snd (stream_full rd sz off acc s) of
       Inr bs \<Rightarrow> bs = V
     | Inl e \<Rightarrow> e = short_read \<or> (\<exists>off s'. off < sz \<and> snd (rd off (min fetch_chunk (sz - off)) s') = Inl e))"
proof (induction rd sz off acc s rule: stream_full.induct)
  case (1 rd sz off acc s)
  show ?case
  proof (cases "off < sz")
    case False
    with 1(3-5) show ?thesis by (simp add: stream_full.simps)
  next
    case True
    obtain s1 got where rd: "rd off (min fetch_chunk (sz - off)) s = (s1, got)" by (metis prod.exhaust)
    show ?thesis
    proof (cases got)
      case (Inl e)
      with rd have "snd (rd off (min fetch_chunk (sz - off)) s) = Inl e" by simp
      with True have "\<exists>off s'. off < sz \<and> snd (rd off (min fetch_chunk (sz - off)) s') = Inl e" by blast
      moreover have "stream_full rd sz off acc s = (s1, Inl e)" using True rd Inl by (simp add: stream_full.simps [of rd sz off])
      ultimately show ?thesis by simp
    next
      case (Inr cs)
      have cs: "cs = slice off (length cs) V" "length cs \<le> min fetch_chunk (sz - off)"
        using 1(2) [OF rd [unfolded Inr]] by (simp_all add: serves_iff)
      show ?thesis
      proof (cases "cs = []")
        case True
        with \<open>off < sz\<close> rd Inr show ?thesis by (simp add: stream_full.simps [of rd sz off])
      next
        case False
        have "acc @ cs = take (off + length cs) V" using cs(1) 1(5) take_slice [of off V "length cs"] by simp
        moreover have "off + length cs \<le> length V" using cs(2) 1(3) True by (auto simp: le_diff_conv2)
        ultimately have "case snd (stream_full rd sz (off + length cs) (acc @ cs) s1) of
            Inr bs \<Rightarrow> bs = V
          | Inl e \<Rightarrow> e = short_read \<or> (\<exists>off s'. off < sz \<and> snd (rd off (min fetch_chunk (sz - off)) s') = Inl e)"
          by (intro 1(1) [OF True rd [symmetric] Inr False _ 1(3)] 1(2)) simp_all
        with True rd Inr False show ?thesis by (simp add: stream_full.simps [of rd sz off])
      qed
    qed
  qed
qed


text \<open>A source that answers a byte at a time, and counts its answers.\<close>

definition byte_source :: "bytes \<Rightarrow> nat \<Rightarrow> nat \<Rightarrow> nat \<Rightarrow> nat \<times> answer" where
  "byte_source V off len k = (Suc k, Inr (slice off (min len 1) V))"


section \<open>What goes wrong\<close>

text \<open>
  Two publications of one file that overlap. A store of the bytes just uploaded (\<open>v2\<close>) and the
  hydrator's download of the version before (\<open>v1\<close>) each drop the sidecar, move their bytes in
  and write their own sidecar; no lock orders the two. In this order the older bytes end up under
  the newer ETag, fresh for every later read.
\<close>

lemma overlapping_publications_mislabel:
  "let d0 = empty_dir\<lparr>cd_temps := [(PartFile 8, \<lparr>bl_bytes = [2, 2], bl_mtime = 5\<rparr>), (DlFile 8, \<lparr>bl_bytes = [1, 1], bl_mtime = 4\<rparr>)]\<rparr>;
       d1 = rename_blob (PartFile 8) 8 (drop_sidecar 8 d0);
       d2 = write_sidecar Written 8 ''v1'' (rename_blob (DlFile 8) 8 (drop_sidecar 8 d1));
       d3 = write_sidecar Written 8 ''v2'' d2
   in blob_is_fresh d3 8 ''v2'' \<and> map_option bl_bytes (hm_get (cd_blobs d3) 8) = Some [1, 1]"
  by (simp add: empty_dir_def rename_blob_def drop_sidecar_def write_sidecar_def put_blob_def drop_temp_def blob_is_fresh_def Let_def)

lemma publish_is_three_steps:
  "fi_rename io \<Longrightarrow> hm_get (cd_temps d) t = Some b \<Longrightarrow>
    fst (publish_blob io t fid etag d) = write_sidecar (fi_sidecar io) fid etag (rename_blob t fid (drop_sidecar fid d))"
  by (simp add: publish_blob_def Let_def)

text \<open>
  A copy to a file reads through the cache, where the answer to a failed request may be an outdated
  copy: a server that stops answering after the first part leaves a file of two versions.
\<close>

lemma copy_mixes_versions:
  "let d0 = empty_dir\<lparr>cd_blobs := [(8, \<lparr>bl_bytes = [1, 1, 1], bl_mtime = 4\<rparr>)], cd_etags := [(8, ''v0'')]\<rparr>;
       inner = (\<lambda>n off len. if off = 0 then Inr [2] else Inl (Http ''gone''))
   in snd (hydrate_to inner sample_cfg sample_io 5 sample_file (content_new d0)) = Inr [2, 1, 1]"
proof -
  have c: "(3 :: nat) < fetch_chunk" "fetch_chunk > 0" "readahead_after \<noteq> 0" "readahead_after > 0" "\<not> readahead_after \<le> 1" "\<not> readahead_after \<le> Suc 0" "hydrate_floor > 3"
    by (simp_all add: fetch_chunk_def readahead_after_def hydrate_floor_def)
  have m: "min fetch_chunk 3 = 3" "min fetch_chunk 2 = 2" "(2 :: nat) < fetch_chunk"
    by (simp_all add: fetch_chunk_def)
  define d0 where "d0 = empty_dir\<lparr>cd_blobs := [(8, \<lparr>bl_bytes = [1, 1, 1], bl_mtime = 4\<rparr>)], cd_etags := [(8, ''v0'')]\<rparr>"
  define inner :: "node \<Rightarrow> nat \<Rightarrow> nat \<Rightarrow> answer" where "inner = (\<lambda>n off len. if off = 0 then Inr [2] else Inl (Http ''gone''))"
  have sz: "unat (nd_size sample_file) = 3" by (simp add: sample_file_def)
  have miss: "cached_bytes sample_file (content_new d0) = None"
    by (simp add: cached_bytes_def sample_file_def content_new_def d0_def empty_dir_def blob_is_fresh_def)
  have stale: "blob_is_fresh d 8 ''v1'' = False" if "cd_etags d = [(8, ''v0'')]" for d
    using that by (simp add: blob_is_fresh_def)
  define w where "w = (window_start sample_file 0 (RaFile 8 0) 5)\<lparr>rw_next := 1, rw_run := 1, rw_part := Some (RaFile 8 0, 1)\<rparr>"
  define st1 where "st1 = (content_new d0)\<lparr>co_window_seq := 1, co_windows := [(8, w)],
    co_dir := put_temp (RaFile 8 0) \<lparr>bl_bytes = [2], bl_mtime = 5\<rparr> (d0\<lparr>cd_temps := []\<rparr>)\<rparr>"
  have one: "content_read inner sample_cfg sample_io 5 sample_file 0 3 (content_new d0) = (st1, Inr [2])"
    by (simp add: c m content_read_def begin_read_def stale content_new_def d0_def empty_dir_def sample_file_def Let_def
        take_window_def window_start_def buffered_def wanted_def window_want_def finish_read_def inner_def
        window_fill_def settle_window_def window_advance_def spill_def sample_io_def put_temp_def set_dir_def window_complete_def tally_def
        keep_window_def max_windows_def remove_window_def trim_readahead_def buffered_bytes_def max_readahead_bytes_def w_def st1_def)
  have two: "snd (content_read inner sample_cfg sample_io 5 sample_file 1 2 st1) = Inr [1, 1]"
    by (simp add: c m content_read_def begin_read_def stale content_new_def d0_def empty_dir_def sample_file_def Let_def
        take_window_def window_start_def buffered_def wanted_def window_want_def finish_read_def inner_def
        drop_part_def drop_temp_def set_dir_def put_temp_def fall_back_def stale_fallback_def serve_local_copy_def read_range_from_file_def
        say_def slice_def w_def st1_def)
  then obtain st2 where two': "content_read inner sample_cfg sample_io 5 sample_file 1 2 st1 = (st2, Inr [1, 1])"
    by (metis prod.collapse)
  show ?thesis
    unfolding Let_def hydrate_to_def d0_def [symmetric] inner_def [symmetric] miss option.case sz
    by (simp add: stream_full.simps [of _ 3 0] stream_full.simps [of _ 3 "Suc 0"] stream_full.simps [of _ 3 "Suc (Suc (Suc 0))"] m one two' [simplified])
qed

end
