(* ===== verification/Core_Webdav_Parse.thy ===== *)
theory Core_Webdav_Parse
  imports Core_Pins Core_State Core_Health
begin

text \<open>
  What \<open>crates/wusel-core/src/webdav.rs\<close> reads out of a server's answers: numbers, dates, entity
  tags, hrefs and multi-status listings. The XML reader is a third-party crate; a document is the
  list of its events, in the order the reader hands them out, ending with the end of the file.
  Strings are byte strings, white space is that of ASCII.
\<close>

section \<open>Pieces of text\<close>

definition is_space :: "char \<Rightarrow> bool" where
  "is_space c \<longleftrightarrow> 9 \<le> byte c \<and> byte c \<le> 13 \<or> byte c = 32"

definition trim_both :: "(char \<Rightarrow> bool) \<Rightarrow> string \<Rightarrow> string" where
  "trim_both p s = rev (dropWhile p (rev (dropWhile p s)))"

function split_whitespace :: "string \<Rightarrow> string list" where
  "split_whitespace s =
     (case dropWhile is_space s of
        [] \<Rightarrow> []
      | c # cs \<Rightarrow> (c # takeWhile (\<lambda>d. \<not> is_space d) cs) # split_whitespace (dropWhile (\<lambda>d. \<not> is_space d) cs))"
  by pat_completeness auto
termination
proof (relation "measure length")
  fix s c and cs :: string
  assume "dropWhile is_space s = c # cs"
  then have "length cs < length s" using length_dropWhile_le [of is_space s] by simp
  with length_dropWhile_le [of "\<lambda>d. \<not> is_space d" cs]
  show "(dropWhile (\<lambda>d. \<not> is_space d) cs, s) \<in> measure length" by simp
qed simp

declare split_whitespace.simps [simp del]

text \<open>\<open>split_once\<close> of a pattern, and \<open>split\<close> at a byte.\<close>

fun split_once :: "string \<Rightarrow> string \<Rightarrow> (string \<times> string) option" where
  "split_once pat s =
     (if prefix pat s then Some ([], drop (length pat) s)
      else case s of [] \<Rightarrow> None | c # cs \<Rightarrow> map_option (\<lambda>(a, b). (c # a, b)) (split_once pat cs))"

declare split_once.simps [simp del]

fun split_char :: "char \<Rightarrow> string \<Rightarrow> string list" where
  "split_char sep [] = [[]]"
| "split_char sep (c # cs) =
     (if c = sep then [] # split_char sep cs
      else case split_char sep cs of [] \<Rightarrow> [[c]] | p # ps \<Rightarrow> (c # p) # ps)"

text \<open>\<open>rsplit_once\<close> of a byte.\<close>

definition rsplit_once :: "char \<Rightarrow> string \<Rightarrow> (string \<times> string) option" where
  "rsplit_once sep s =
     (if sep \<in> set s then
        Some (rev (tl (dropWhile (\<lambda>c. c \<noteq> sep) (rev s))), rev (takeWhile (\<lambda>c. c \<noteq> sep) (rev s)))
      else None)"

section \<open>Numbers\<close>

definition digit_val :: "char \<Rightarrow> nat option" where
  "digit_val c = (if in_range (CHR ''0'') (CHR ''9'') c then Some (byte c - byte (CHR ''0'')) else None)"

fun digits_from :: "nat \<Rightarrow> string \<Rightarrow> nat option" where
  "digits_from acc [] = Some acc"
| "digits_from acc (c # cs) = (case digit_val c of None \<Rightarrow> None | Some v \<Rightarrow> digits_from (10 * acc + v) cs)"

definition parse_digits :: "string \<Rightarrow> nat option" where
  "parse_digits s = (if s = [] then None else digits_from 0 s)"

text \<open>\<open>str::parse\<close> of an unsigned and of a signed 64-bit integer.\<close>

definition parse_u64 :: "string \<Rightarrow> u64 option" where
  "parse_u64 s =
     (case parse_digits (case s of c # cs \<Rightarrow> if c = CHR ''+'' then cs else s | [] \<Rightarrow> s) of
        Some n \<Rightarrow> if n < 2 ^ 64 then Some (of_nat n) else None
      | None \<Rightarrow> None)"

definition parse_i64 :: "string \<Rightarrow> int option" where
  "parse_i64 s =
     (case s of
        [] \<Rightarrow> None
      | c # cs \<Rightarrow>
          if c = CHR ''-'' then
            (case parse_digits cs of Some n \<Rightarrow> if n \<le> 2 ^ 63 then Some (- int n) else None | None \<Rightarrow> None)
          else
            (case parse_digits (if c = CHR ''+'' then cs else s) of
               Some n \<Rightarrow> if n < 2 ^ 63 then Some (int n) else None
             | None \<Rightarrow> None))"

text \<open>A number in decimal, filled up with zeros on the left.\<close>

definition padded :: "nat \<Rightarrow> nat \<Rightarrow> string" where
  "padded width n = replicate (width - length (decimal n)) (CHR ''0'') @ decimal n"

section \<open>Dates\<close>

text \<open>Arithmetic on \<open>i64\<close>: it wraps (a release build), and a division truncates.\<close>

definition wrap64 :: "int \<Rightarrow> int" where
  "wrap64 x = (x + 2 ^ 63) mod 2 ^ 64 - 2 ^ 63"

definition quot :: "int \<Rightarrow> int \<Rightarrow> int" where
  "quot a b = (if a \<ge> 0 then a div b else - ((- a) div b))"

definition month_num :: "string \<Rightarrow> int option" where
  "month_num m =
     map_of [(''Jan'', 1), (''Feb'', 2), (''Mar'', 3), (''Apr'', 4), (''May'', 5), (''Jun'', 6), (''Jul'', 7), (''Aug'', 8),
       (''Sep'', 9), (''Oct'', 10), (''Nov'', 11), (''Dec'', 12)] m"

definition days_from_civil :: "int \<Rightarrow> int \<Rightarrow> int \<Rightarrow> int" where
  "days_from_civil y m d =
     (let y = (if m \<le> 2 then wrap64 (y - 1) else y);
          era = quot (if y \<ge> 0 then y else wrap64 (y - 399)) 400;
          yoe = wrap64 (y - wrap64 (era * 400));
          doy = wrap64 (quot (153 * (if m > 2 then m - 3 else m + 9) + 2) 5 + d - 1);
          doe = wrap64 (yoe * 365 + quot yoe 4 - quot yoe 100 + doy)
      in wrap64 (era * 146097 + doe - 719468))"

definition parse_http_date :: "string \<Rightarrow> int" where
  "parse_http_date s =
     (case split_whitespace s of
        w # d # m # y # t # _ \<Rightarrow>
          (case (parse_i64 d, parse_i64 y, month_num m, split_char (CHR '':'') t) of
             (Some day, Some year, Some month, h # mi # sec # _) \<Rightarrow>
               (case (parse_i64 h, parse_i64 mi, parse_i64 sec) of
                  (Some h, Some mi, Some sec) \<Rightarrow> wrap64 (days_from_civil year month day * 86400 + h * 3600 + mi * 60 + sec)
                | _ \<Rightarrow> 0)
           | _ \<Rightarrow> 0)
      | _ \<Rightarrow> 0)"

section \<open>Entity tags and windows\<close>

definition unquote_etag :: "string \<Rightarrow> string" where
  "unquote_etag value =
     (let v = trim_both is_space value;
          v = (if prefix ''W/'' v \<or> prefix ''w/'' v then drop 2 v else v)
      in trim_both (\<lambda>c. c = CHR 0x22) v)"

definition slice_full_body :: "u8 list \<Rightarrow> u64 \<Rightarrow> u64 \<Rightarrow> u8 list" where
  "slice_full_body body start len =
     (let s = min (unat start) (length body);
          e = min (min (2 ^ 64 - 1) (unat start + unat len)) (length body)
      in take (e - s) (drop s body))"

section \<open>Hrefs\<close>

text \<open>The path of the user root, out of the base address of the client.\<close>

definition base_path_of :: "string \<Rightarrow> string" where
  "base_path_of base =
     (case split_once ''://'' base of
        None \<Rightarrow> []
      | Some (_, rest) \<Rightarrow> (case split_once ''/'' rest of None \<Rightarrow> [] | Some (_, p) \<Rightarrow> ''/'' @ p))"

definition strip_base :: "string \<Rightarrow> string \<Rightarrow> string option" where
  "strip_base href base_path =
     (let path = (case split_once ''://'' href of
                    Some (_, rest) \<Rightarrow> (case dropWhile (\<lambda>c. c \<noteq> CHR ''/'') rest of [] \<Rightarrow> ''/'' | p \<Rightarrow> p)
                  | None \<Rightarrow> href)
      in if \<not> prefix base_path path then None
         else
           let rest = drop (length base_path) path
           in if rest = [] \<or> hd rest = CHR ''/'' then Some rest else None)"

section \<open>Listings\<close>

text \<open>
  An event names its element with its prefix; the text of a text event is \<open>None\<close> when an entity
  in it is unknown; \<open>XBroken\<close> is the reader's error.
\<close>

datatype xml_event = XStart string | XEmpty string | XText "string option" | XEnd string | XOther | XBroken string

definition local_name :: "string \<Rightarrow> string" where
  "local_name name = (case split_once '':'' name of None \<Rightarrow> name | Some (_, l) \<Rightarrow> l)"

datatype field = Href | Size | MTime | ETag | FileId | Permissions | MountType | IsMountRoot

record partial_entry =
  pe_href :: string
  pe_size :: u64
  pe_mtime :: int
  pe_etag :: string
  pe_file_id :: "u64 option"
  pe_permissions :: string
  pe_mount_type :: string
  pe_is_mount_root :: bool
  pe_is_dir :: bool

definition partial_default :: partial_entry where
  "partial_default =
     \<lparr>pe_href = [], pe_size = 0, pe_mtime = 0, pe_etag = [], pe_file_id = None, pe_permissions = [], pe_mount_type = [],
      pe_is_mount_root = False, pe_is_dir = False\<rparr>"

fun partial_set :: "field \<Rightarrow> string \<Rightarrow> partial_entry \<Rightarrow> partial_entry" where
  "partial_set Href v p = p\<lparr>pe_href := v\<rparr>"
| "partial_set Size v p = p\<lparr>pe_size := (case parse_u64 v of None \<Rightarrow> 0 | Some n \<Rightarrow> n)\<rparr>"
| "partial_set MTime v p = p\<lparr>pe_mtime := parse_http_date v\<rparr>"
| "partial_set ETag v p = p\<lparr>pe_etag := unquote_etag v\<rparr>"
| "partial_set FileId v p = p\<lparr>pe_file_id := parse_u64 v\<rparr>"
| "partial_set Permissions v p = p\<lparr>pe_permissions := v\<rparr>"
| "partial_set MountType v p = p\<lparr>pe_mount_type := v\<rparr>"
| "partial_set IsMountRoot v p = p\<lparr>pe_is_mount_root := (v = ''1'' \<or> v = ''true'')\<rparr>"

definition partial_finish :: "string \<Rightarrow> partial_entry \<Rightarrow> remote_entry option" where
  "partial_finish base_path p =
     (case strip_base (percent_decode (pe_href p)) base_path of
        None \<Rightarrow> None
      | Some rel \<Rightarrow>
          let rel = trim_slashes rel
          in if rel = [] then None
             else
               Some \<lparr>rem_path = rel, rem_is_dir = pe_is_dir p, rem_size = pe_size p, rem_etag = pe_etag p,
                 rem_mtime = pe_mtime p, rem_file_id = pe_file_id p, rem_permissions = pe_permissions p,
                 rem_mount_type = pe_mount_type p, rem_is_mount_root = pe_is_mount_root p\<rparr>)"

definition field_of :: "string \<Rightarrow> field option" where
  "field_of l =
     map_of [(''href'', Href), (''getcontentlength'', Size), (''getlastmodified'', MTime), (''getetag'', ETag), (''fileid'', FileId),
       (''permissions'', Permissions), (''mount-type'', MountType), (''is-mount-root'', IsMountRoot)] l"

record reading =
  rd_cur :: partial_entry
  rd_target :: "field option"
  rd_in_response :: bool
  rd_entries :: "remote_entry list"

definition reading_start :: reading where
  "reading_start = \<lparr>rd_cur = partial_default, rd_target = None, rd_in_response = False, rd_entries = []\<rparr>"

text \<open>One turn of the loop of \<open>parse_multistatus\<close>.\<close>

definition on_start :: "string \<Rightarrow> reading \<Rightarrow> reading" where
  "on_start l r =
     (if l = ''response'' then r\<lparr>rd_in_response := True, rd_cur := partial_default\<rparr>
      else if l = ''collection'' then r\<lparr>rd_cur := (rd_cur r)\<lparr>pe_is_dir := True\<rparr>\<rparr>
      else case field_of l of Some f \<Rightarrow> r\<lparr>rd_target := Some f\<rparr> | None \<Rightarrow> r)"

fun multistatus_event :: "string \<Rightarrow> xml_event \<Rightarrow> reading \<Rightarrow> reading" where
  "multistatus_event base_path (XStart name) r = on_start (local_name name) r"
| "multistatus_event base_path (XEmpty name) r =
     (if local_name name = ''collection'' then r\<lparr>rd_cur := (rd_cur r)\<lparr>pe_is_dir := True\<rparr>\<rparr> else r)"
| "multistatus_event base_path (XText t) r =
     (case rd_target r of
        None \<Rightarrow> r
      | Some f \<Rightarrow> r\<lparr>rd_target := None, rd_cur := partial_set f (case t of None \<Rightarrow> [] | Some v \<Rightarrow> v) (rd_cur r)\<rparr>)"
| "multistatus_event base_path (XEnd name) r =
     (let r = r\<lparr>rd_target := None\<rparr> in
      if rd_in_response r \<and> local_name name = ''response'' then
        r\<lparr>rd_in_response := False, rd_cur := partial_default,
          rd_entries := rd_entries r @ (case partial_finish base_path (rd_cur r) of None \<Rightarrow> [] | Some e \<Rightarrow> [e])\<rparr>
      else r)"
| "multistatus_event base_path XOther r = r"
| "multistatus_event base_path (XBroken e) r = r"

fun multistatus_loop :: "string \<Rightarrow> xml_event list \<Rightarrow> reading \<Rightarrow> core_error + reading" where
  "multistatus_loop base_path [] r = Inr r"
| "multistatus_loop base_path (ev # evs) r =
     (case ev of XBroken e \<Rightarrow> Inl (WebDav e) | _ \<Rightarrow> multistatus_loop base_path evs (multistatus_event base_path ev r))"

definition parse_multistatus :: "xml_event list \<Rightarrow> string \<Rightarrow> core_error + remote_entry list" where
  "parse_multistatus evs base = map_sum id rd_entries (multistatus_loop (base_path_of base) evs reading_start)"

record quota =
  qu_used :: u64
  qu_available :: "u64 option"

fun quota_loop :: "xml_event list \<Rightarrow> bool option \<Rightarrow> quota \<Rightarrow> quota" where
  "quota_loop [] target q = q"
| "quota_loop (XBroken e # evs) target q = q"
| "quota_loop (XStart name # evs) target q =
     quota_loop evs
       (if local_name name = ''quota-used-bytes'' then Some True
        else if local_name name = ''quota-available-bytes'' then Some False
        else None) q"
| "quota_loop (XText t # evs) target q =
     quota_loop evs target
       (case target of
          None \<Rightarrow> q
        | Some used \<Rightarrow>
            let parsed = (case t of None \<Rightarrow> None | Some v \<Rightarrow> parse_u64 v)
            in if used then q\<lparr>qu_used := (case parsed of None \<Rightarrow> 0 | Some n \<Rightarrow> n)\<rparr> else q\<lparr>qu_available := parsed\<rparr>)"
| "quota_loop (XEnd name # evs) target q = quota_loop evs None q"
| "quota_loop (XEmpty name # evs) target q = quota_loop evs target q"
| "quota_loop (XOther # evs) target q = quota_loop evs target q"

definition parse_quota :: "xml_event list \<Rightarrow> quota" where
  "parse_quota evs = quota_loop evs None \<lparr>qu_used = 0, qu_available = None\<rparr>"

fun root_etag_loop :: "xml_event list \<Rightarrow> bool \<Rightarrow> string option" where
  "root_etag_loop [] in_etag = None"
| "root_etag_loop (XBroken e # evs) in_etag = None"
| "root_etag_loop (XStart name # evs) in_etag = root_etag_loop evs (local_name name = ''getetag'')"
| "root_etag_loop (XText t # evs) in_etag =
     (if in_etag then
        (case t of None \<Rightarrow> None | Some v \<Rightarrow> if unquote_etag v = [] then None else Some (unquote_etag v))
      else root_etag_loop evs in_etag)"
| "root_etag_loop (XEnd name # evs) in_etag = root_etag_loop evs False"
| "root_etag_loop (XEmpty name # evs) in_etag = root_etag_loop evs in_etag"
| "root_etag_loop (XOther # evs) in_etag = root_etag_loop evs in_etag"

definition parse_root_etag :: "xml_event list \<Rightarrow> string option" where
  "parse_root_etag evs = root_etag_loop evs False"

end
