(* ===== verification/Core_Webdav.thy ===== *)
theory Core_Webdav
  imports Core_Webdav_Parse Core_Content
begin

text \<open>
  The WebDAV client (\<open>crates/wusel-core/src/webdav.rs\<close>): one request after the other against a
  server, with what each answer means to the caller. The server, the network in between and every
  other client of the account are one argument, a state of any type and what a request does to it;
  a request may be answered, or fail without an answer although it took effect. The client keeps
  that state and what it reported to the reachability tracker. The HTTP library and the building of
  addresses are third-party code: a request names its path, and an answer carries its status, its
  entity tag, its body in the pieces it came in, and how the body broke off if it did.
\<close>

section \<open>Requests and answers\<close>

datatype condition = NoCondition | IfNoneMatchAny | IfMatch string

datatype asked = AskListing | AskMeta | AskRootETag | AskQuota

datatype dav_request =
    Propfind string bool nat asked
  | GetFile string "(u64 \<times> u64) option"
  | PutFile string bytes condition "int option"
  | Mkcol string
  | Delete string bool
  | MoveTo string string bool
  | UpMkcol string
  | UpPut string string bytes
  | UpMove string string nat "int option"
  | UpDelete string

record dav_response =
  rs_status :: u16
  rs_etag :: "string option"
  rs_chunks :: "bytes list"
  rs_events :: "xml_event list"
  rs_broken :: "core_error option"
  rs_reason :: string

record send_error =
  se_transient :: bool
  se_error :: core_error

type_synonym 's dav_server = "'s \<Rightarrow> dav_request \<Rightarrow> 's \<times> (send_error + dav_response)"

record 's dav =
  dv_server :: 's
  dv_reports :: "core_error option list"

text \<open>The operator \<open>?\<close>: an error ends the function, a value goes on.\<close>

definition attempt :: "'c \<times> (core_error + 'a) \<Rightarrow> ('a \<Rightarrow> 'c \<Rightarrow> 'c \<times> (core_error + 'b)) \<Rightarrow> 'c \<times> (core_error + 'b)" where
  "attempt m f = (case m of (c, Inl e) \<Rightarrow> (c, Inl e) | (c, Inr a) \<Rightarrow> f a c)"

definition error_for_status :: "dav_response \<Rightarrow> core_error + dav_response" where
  "error_for_status resp =
     (if 400 \<le> rs_status resp \<and> rs_status resp < 600 then Inl (HttpStatus (rs_status resp) (rs_reason resp)) else Inr resp)"

definition is_success :: "dav_response \<Rightarrow> bool" where
  "is_success resp \<longleftrightarrow> 200 \<le> rs_status resp \<and> rs_status resp < 300"

definition all_bytes :: "dav_response \<Rightarrow> core_error + bytes" where
  "all_bytes resp = (case rs_broken resp of None \<Rightarrow> Inr (concat (rs_chunks resp)) | Some e \<Rightarrow> Inl e)"

definition all_events :: "dav_response \<Rightarrow> core_error + xml_event list" where
  "all_events resp = (case rs_broken resp of None \<Rightarrow> Inr (rs_events resp) | Some e \<Rightarrow> Inl e)"

definition etag_from_headers :: "dav_response \<Rightarrow> string option" where
  "etag_from_headers resp = map_option unquote_etag (rs_etag resp)"

section \<open>Sending\<close>

text \<open>The number says how many attempts may follow this one.\<close>

fun send_attempts :: "'s dav_server \<Rightarrow> dav_request \<Rightarrow> nat \<Rightarrow> 's \<Rightarrow> 's \<times> (send_error + dav_response)" where
  "send_attempts srv req 0 s = srv s req"
| "send_attempts srv req (Suc k) s =
     (case srv s req of
        (s, Inr resp) \<Rightarrow> (s, Inr resp)
      | (s, Inl e) \<Rightarrow> if se_transient e then send_attempts srv req k s else (s, Inl e))"

definition max_attempts :: nat where "max_attempts = 3"

definition send_retrying :: "'s dav_server \<Rightarrow> dav_request \<Rightarrow> 's \<Rightarrow> 's \<times> (send_error + dav_response)" where
  "send_retrying srv req s = send_attempts srv req (max_attempts - 1) s"

definition send :: "'s dav_server \<Rightarrow> dav_request \<Rightarrow> 's dav \<Rightarrow> 's dav \<times> (core_error + dav_response)" where
  "send srv req c =
     (case send_retrying srv req (dv_server c) of
        (s, Inr resp) \<Rightarrow>
          (\<lparr>dv_server = s,
            dv_reports = dv_reports c @
              [case error_for_status resp of Inl e \<Rightarrow> (if is_server_fault e then Some e else None) | Inr _ \<Rightarrow> None]\<rparr>,
           Inr resp)
      | (s, Inl e) \<Rightarrow> (\<lparr>dv_server = s, dv_reports = dv_reports c @ [Some (se_error e)]\<rparr>, Inl (se_error e)))"

text \<open>A request whose answer has to be no error.\<close>

definition send_ok :: "'s dav_server \<Rightarrow> dav_request \<Rightarrow> 's dav \<Rightarrow> 's dav \<times> (core_error + dav_response)" where
  "send_ok srv req c = attempt (send srv req c) (\<lambda>resp c. (c, error_for_status resp))"

section \<open>Listing\<close>

definition account_base :: "string \<Rightarrow> string \<Rightarrow> string" where
  "account_base server_url user = trim_end_slashes server_url @ ''/remote.php/dav/files/'' @ user"

definition propfind_dir :: "'s dav_server \<Rightarrow> string \<Rightarrow> string \<Rightarrow> 's dav \<Rightarrow> 's dav \<times> (core_error + remote_entry list)" where
  "propfind_dir srv base path c =
     attempt (send_ok srv (Propfind path True 1 AskListing) c) (\<lambda>resp c.
       case all_events resp of
         Inl e \<Rightarrow> (c, Inl e)
       | Inr evs \<Rightarrow> (c, map_sum id (filter (\<lambda>e. rem_path e \<noteq> trim_slashes path)) (parse_multistatus evs base)))"

definition remote_meta :: "'s dav_server \<Rightarrow> string \<Rightarrow> string \<Rightarrow> 's dav \<Rightarrow> 's dav \<times> (core_error + (u64 \<times> string) option)" where
  "remote_meta srv base path c =
     attempt (send srv (Propfind path False 0 AskMeta) c) (\<lambda>resp c.
       if rs_status resp = 404 then (c, Inr None)
       else attempt (c, error_for_status resp) (\<lambda>resp c.
         case all_events resp of
           Inl e \<Rightarrow> (c, Inl e)
         | Inr evs \<Rightarrow>
             (c, map_sum id (\<lambda>es. case es of [] \<Rightarrow> None | e # _ \<Rightarrow> Some (rem_size e, rem_etag e)) (parse_multistatus evs base))))"

definition etag_of :: "'s dav_server \<Rightarrow> string \<Rightarrow> string \<Rightarrow> 's dav \<Rightarrow> 's dav \<times> (core_error + string option)" where
  "etag_of srv base path c =
     attempt (remote_meta srv base path c) (\<lambda>meta c.
       (c, Inr (case meta of None \<Rightarrow> None | Some (_, etag) \<Rightarrow> if etag = [] then None else Some etag)))"

definition root_etag :: "'s dav_server \<Rightarrow> 's dav \<Rightarrow> 's dav \<times> (core_error + string option)" where
  "root_etag srv c =
     attempt (send_ok srv (Propfind [] True 0 AskRootETag) c) (\<lambda>resp c. (c, map_sum id parse_root_etag (all_events resp)))"

definition quota_of :: "'s dav_server \<Rightarrow> 's dav \<Rightarrow> 's dav \<times> (core_error + quota)" where
  "quota_of srv c =
     attempt (send_ok srv (Propfind [] True 0 AskQuota) c) (\<lambda>resp c. (c, map_sum id parse_quota (all_events resp)))"

section \<open>Reading\<close>

definition missing_or :: "dav_response \<Rightarrow> core_error + dav_response" where
  "missing_or resp = (if rs_status resp = 404 then Inl NotFoundOnServer else error_for_status resp)"

definition get :: "'s dav_server \<Rightarrow> string \<Rightarrow> (u64 \<times> u64) option \<Rightarrow> 's dav \<Rightarrow> 's dav \<times> (core_error + bytes)" where
  "get srv path window c =
     (if (case window of Some (_, len) \<Rightarrow> len = 0 | None \<Rightarrow> False) then (c, Inr [])
      else
        attempt (send srv (GetFile path (map_option (\<lambda>(start, len). (start, start + len - 1)) window)) c) (\<lambda>resp c.
          (c, case missing_or resp of
                Inl e \<Rightarrow> Inl e
              | Inr resp \<Rightarrow>
                  map_sum id (\<lambda>body. case window of
                    Some (start, len) \<Rightarrow> if rs_status resp \<noteq> 206 then slice_full_body body start len else body
                  | None \<Rightarrow> body) (all_bytes resp))))"

definition get_streaming :: "'s dav_server \<Rightarrow> string \<Rightarrow> 's dav \<Rightarrow> 's dav \<times> (core_error + dav_response)" where
  "get_streaming srv path c = attempt (send srv (GetFile path None) c) (\<lambda>resp c. (c, missing_or resp))"

definition get_with_etag :: "'s dav_server \<Rightarrow> string \<Rightarrow> 's dav \<Rightarrow> 's dav \<times> (core_error + (bytes \<times> string option))" where
  "get_with_etag srv path c =
     attempt (get_streaming srv path c) (\<lambda>resp c. (c, map_sum id (\<lambda>body. (body, etag_from_headers resp)) (all_bytes resp)))"

section \<open>Writing\<close>

datatype upload_condition = UploadNew | UploadOver string | UploadAnyway

definition for_upload :: "string \<Rightarrow> bool \<Rightarrow> upload_condition" where
  "for_upload base_etag exists_remotely =
     (if base_etag \<noteq> [] then UploadOver base_etag else if exists_remotely then UploadAnyway else UploadNew)"

fun apply_precondition :: "upload_condition \<Rightarrow> condition" where
  "apply_precondition UploadNew = IfNoneMatchAny"
| "apply_precondition (UploadOver etag) = IfMatch (CHR 0x22 # etag @ [CHR 0x22])"
| "apply_precondition UploadAnyway = NoCondition"

datatype put_result = Uploaded "string option" | Conflict

definition put_plain :: "'s dav_server \<Rightarrow> string \<Rightarrow> bytes \<Rightarrow> 's dav \<Rightarrow> 's dav \<times> (core_error + string option)" where
  "put_plain srv path body c =
     attempt (send_ok srv (PutFile path body NoCondition None) c) (\<lambda>resp c. (c, Inr (etag_from_headers resp)))"

definition put_conditional :: "'s dav_server \<Rightarrow> string \<Rightarrow> bytes \<Rightarrow> upload_condition \<Rightarrow> int option \<Rightarrow> 's dav \<Rightarrow>
    's dav \<times> (core_error + put_result)" where
  "put_conditional srv path body pre mtime c =
     attempt (send srv (PutFile path body (apply_precondition pre) mtime) c) (\<lambda>resp c.
       if rs_status resp = 412 then (c, Inr Conflict)
       else attempt (c, error_for_status resp) (\<lambda>resp c. (c, Inr (Uploaded (etag_from_headers resp)))))"

definition mkcol :: "'s dav_server \<Rightarrow> string \<Rightarrow> 's dav \<Rightarrow> 's dav \<times> (core_error + unit)" where
  "mkcol srv path c =
     attempt (send srv (Mkcol path) c) (\<lambda>resp c.
       if rs_status resp = 405 then (c, Inr ()) else (c, map_sum id (\<lambda>_. ()) (error_for_status resp)))"

definition delete_at :: "'s dav_server \<Rightarrow> string \<Rightarrow> bool \<Rightarrow> 's dav \<Rightarrow> 's dav \<times> (core_error + unit)" where
  "delete_at srv path is_dir c = attempt (send_ok srv (Delete path is_dir) c) (\<lambda>resp c. (c, Inr ()))"

definition move_to :: "'s dav_server \<Rightarrow> string \<Rightarrow> string \<Rightarrow> bool \<Rightarrow> 's dav \<Rightarrow> 's dav \<times> (core_error + unit)" where
  "move_to srv path dest is_dir c = attempt (send_ok srv (MoveTo path dest is_dir) c) (\<lambda>resp c. (c, Inr ()))"

section \<open>Chunked uploads\<close>

definition chunk_size :: nat where "chunk_size = 4 * 1024 * 1024"

text \<open>Step 2: chunk after chunk, named by its offset.\<close>

function upload_chunks :: "'s dav_server \<Rightarrow> string \<Rightarrow> nat \<Rightarrow> bytes \<Rightarrow> 's dav \<Rightarrow> 's dav \<times> (core_error + unit)" where
  "upload_chunks srv uid off rest c =
     (if rest = [] then (c, Inr ())
      else
        case send_ok srv (UpPut uid (padded 16 off) (take chunk_size rest)) c of
          (c, Inl e) \<Rightarrow> (c, Inl e)
        | (c, Inr _) \<Rightarrow> upload_chunks srv uid (off + length (take chunk_size rest)) (drop chunk_size rest) c)"
  by pat_completeness auto
termination by (relation "measure (\<lambda>(srv, uid, off, rest, c). length rest)") (auto simp: chunk_size_def)

declare upload_chunks.simps [simp del]

text \<open>Step 3: the move that assembles them, and what became of it.\<close>

definition assemble :: "'s dav_server \<Rightarrow> string \<Rightarrow> string \<Rightarrow> string \<Rightarrow> nat \<Rightarrow> int option \<Rightarrow> 's dav \<Rightarrow> 's dav \<times> (core_error + put_result)" where
  "assemble srv base uid target amount mtime c =
     (case send srv (UpMove uid target amount mtime) c of
        (c, moved) \<Rightarrow>
          (let settle = (\<lambda>c. case etag_of srv base target c of
                           (c, Inl e) \<Rightarrow> (c, Inr (Uploaded None))
                         | (c, Inr etag) \<Rightarrow> (c, Inr (Uploaded etag)));
               failed = (\<lambda>c. case moved of
                           Inl e \<Rightarrow> (c, Inl e)
                         | Inr resp \<Rightarrow> (case error_for_status resp of Inl e \<Rightarrow> (c, Inl e) | Inr _ \<Rightarrow> settle c))
           in if (case moved of Inr resp \<Rightarrow> is_success resp | Inl _ \<Rightarrow> False) then settle c
              else
                case remote_meta srv base target c of
                  (c, Inr (Some (sz, etag))) \<Rightarrow>
                    if unat sz = amount then (c, Inr (Uploaded (if etag = [] then None else Some etag))) else failed c
                | (c, _) \<Rightarrow> failed c))"

text \<open>\<open>source\<close>: the bytes of the file to send, \<open>None\<close> when it cannot be opened.\<close>

definition upload_chunks_and_assemble :: "'s dav_server \<Rightarrow> string \<Rightarrow> string \<Rightarrow> string \<Rightarrow> bytes option \<Rightarrow> nat \<Rightarrow> int option \<Rightarrow> 's dav \<Rightarrow>
    's dav \<times> (core_error + put_result)" where
  "upload_chunks_and_assemble srv base uid target source amount mtime c =
     (case source of
        None \<Rightarrow> (c, Inl (IoError ''open''))
      | Some bytes \<Rightarrow> attempt (upload_chunks srv uid 0 bytes c) (\<lambda>_ c. assemble srv base uid target amount mtime c))"

text \<open>The check before the upload; true when the upload has to be refused.\<close>

definition preflight :: "'s dav_server \<Rightarrow> string \<Rightarrow> string \<Rightarrow> upload_condition \<Rightarrow> 's dav \<Rightarrow> 's dav \<times> (core_error + bool)" where
  "preflight srv base target pre c =
     (case pre of
        UploadNew \<Rightarrow> attempt (etag_of srv base target c) (\<lambda>etag c. (c, Inr (etag \<noteq> None)))
      | UploadOver expected \<Rightarrow>
          attempt (etag_of srv base target c) (\<lambda>etag c.
            (c, Inr (case etag of Some current \<Rightarrow> current \<noteq> expected | None \<Rightarrow> False)))
      | UploadAnyway \<Rightarrow> (c, Inr False))"

definition put_chunked :: "'s dav_server \<Rightarrow> string \<Rightarrow> string \<Rightarrow> string \<Rightarrow> bytes option \<Rightarrow> nat \<Rightarrow> upload_condition \<Rightarrow> int option \<Rightarrow> 's dav \<Rightarrow>
    's dav \<times> (core_error + put_result)" where
  "put_chunked srv base uid target source amount pre mtime c =
     attempt (preflight srv base target pre c) (\<lambda>refuse c.
       if refuse then (c, Inr Conflict)
       else attempt (send_ok srv (UpMkcol uid) c) (\<lambda>_ c.
         case upload_chunks_and_assemble srv base uid target source amount mtime c of
           (c, Inr (Uploaded etag)) \<Rightarrow> (c, Inr (Uploaded etag))
         | (c, outcome) \<Rightarrow> (fst (send_ok srv (UpDelete uid) c), outcome)))"

text \<open>
  When the move fails, the size of what is at the target decides: also when that is the version the
  upload was meant to replace.
\<close>

lemma failed_move_counts_by_size:
  assumes "send srv (UpMove uid target amount mtime) c = (c1, moved)" "\<not> (\<exists>resp. moved = Inr resp \<and> is_success resp)"
    and "remote_meta srv base target c1 = (c2, Inr (Some (sz, etag)))" "unat sz = amount"
  shows "assemble srv base uid target amount mtime c = (c2, Inr (Uploaded (if etag = [] then None else Some etag)))"
  using assms by (auto simp: assemble_def Let_def split: sum.split)

end
