(* ===== verification/Core_Engine.thy ===== *)
theory Core_Engine
  imports Core_Webdav Core_Activity
begin

text \<open>
  The free functions of the provider (\<open>crates/wusel-core/src/provider.rs\<close>): listings and what
  they invalidate, the walk of the syncer, pinned files that moved on, and the resolution of an
  upload the server refused. The engine is a value: the client of the server, the state tables, the
  content store, what the desktop and the frontend were told, the write epoch and the activity
  report. What is fixed while it runs is a record of its own; it also holds what other threads do to
  the engine while a listing is under way, the third-party text merge, and the clock.
\<close>

section \<open>The engine\<close>

datatype engine_note =
    InvalEntry inode string string
  | InvalContent inode string
  | NoticeConflictCopy string string
  | NoticeOutOfDate nat string
  | NoticeUploadFailed string core_error
  | StatusIdle
  | StatusSyncing
  | StatusError

record 's engine =
  en_dav :: "'s dav"
  en_db :: state_db
  en_content :: content
  en_notes :: "engine_note list"
  en_epoch :: u64
  en_activity :: activity

record 's setting =
  se_server :: "'s dav_server"
  se_base :: string
  se_text_merge :: bool
  se_merge :: "bytes \<Rightarrow> bytes \<Rightarrow> bytes \<Rightarrow> bytes option"
  se_content :: content_config
  se_io :: file_io
  se_now :: nat
  se_upload_id :: string
  se_meanwhile :: "'s engine \<Rightarrow> 's engine"

text \<open>\<open>None\<close>: a loop over the tables that does not return.\<close>

type_synonym ('s, 'a) run = "('s engine \<times> (core_error + 'a)) option"

definition run_bind :: "('s, 'a) run \<Rightarrow> ('a \<Rightarrow> 's engine \<Rightarrow> ('s, 'b) run) \<Rightarrow> ('s, 'b) run" where
  "run_bind m f = (case m of None \<Rightarrow> None | Some (e, Inl x) \<Rightarrow> Some (e, Inl x) | Some (e, Inr a) \<Rightarrow> f a e)"

definition on_dav :: "('s dav \<Rightarrow> 's dav \<times> (core_error + 'a)) \<Rightarrow> 's engine \<Rightarrow> ('s, 'a) run" where
  "on_dav f e = (case f (en_dav e) of (d, r) \<Rightarrow> Some (e\<lparr>en_dav := d\<rparr>, r))"

fun db_core_error :: "db_error \<Rightarrow> core_error" where
  "db_core_error NoSuchRow = Db ''no rows''"
| "db_core_error ConstraintFailed = Db ''constraint failed''"
| "db_core_error (OwnSubtree i) = Other ''cannot move into its own subtree''"
| "db_core_error NodeVanished = Other ''just-inserted node vanished''"

definition on_db :: "(state_db \<Rightarrow> state_db outcome) \<Rightarrow> 's engine \<Rightarrow> ('s, unit) run" where
  "on_db f e =
     (case f (en_db e) of
        None \<Rightarrow> None
      | Some (Inl x) \<Rightarrow> Some (e, Inl (db_core_error x))
      | Some (Inr db) \<Rightarrow> Some (e\<lparr>en_db := db\<rparr>, Inr ()))"

definition tell :: "engine_note list \<Rightarrow> 's engine \<Rightarrow> 's engine" where
  "tell ns e = e\<lparr>en_notes := en_notes e @ ns\<rparr>"

definition bump_epoch :: "'s engine \<Rightarrow> 's engine" where
  "bump_epoch e = e\<lparr>en_epoch := en_epoch e + 1\<rparr>"

section \<open>Paths\<close>

definition child_path :: "string \<Rightarrow> string \<Rightarrow> string" where
  "child_path parent_path name = (if parent_path = [] then name else parent_path @ ''/'' @ name)"

definition is_trash_path :: "string \<Rightarrow> bool" where
  "is_trash_path path =
     (let first = takeWhile (\<lambda>c. c \<noteq> CHR ''/'') path in first = ''.Trash'' \<or> prefix ''.Trash-'' first)"

definition conflict_tag :: "nat \<Rightarrow> nat \<Rightarrow> string" where
  "conflict_tag ts nth_try =
     ''conflicted copy '' @ decimal ts @ (if nth_try = 0 then [] else ''-'' @ decimal nth_try)"

definition conflict_copy_path :: "nat \<Rightarrow> string \<Rightarrow> nat \<Rightarrow> string" where
  "conflict_copy_path ts path nth_try =
     (case rsplit_once (CHR ''.'') path of
        Some (stem, ext) \<Rightarrow>
          if CHR ''/'' \<notin> set ext \<and> (stem = [] \<or> last stem \<noteq> CHR ''/'') \<and> stem \<noteq> []
          then stem @ '' ('' @ conflict_tag ts nth_try @ '').'' @ ext
          else path @ '' ('' @ conflict_tag ts nth_try @ '')''
      | None \<Rightarrow> path @ '' ('' @ conflict_tag ts nth_try @ '')'')"

definition now_secs :: "'s setting \<Rightarrow> nat" where
  "now_secs su = se_now su div 1000000000"

text \<open>\<open>read_range_from_scratch\<close>, of the bytes of a write buffer.\<close>

definition read_range_from_scratch :: "bytes \<Rightarrow> nat \<Rightarrow> nat \<Rightarrow> bytes" where
  "read_range_from_scratch buffer off len = (if len = 0 \<or> off \<ge> length buffer then [] else slice off len buffer)"

section \<open>Listings\<close>

definition list_dir :: "'s setting \<Rightarrow> string \<Rightarrow> 's engine \<Rightarrow> ('s, remote_entry list) run" where
  "list_dir su path e = map_option (\<lambda>(e, r). ((se_meanwhile su e)\<lparr>en_dav := en_dav e\<rparr>, r)) (on_dav (propfind_dir (se_server su) (se_base su) path) e)"

definition activity_id :: "inode \<Rightarrow> u64" where
  "activity_id i = of_nat i"

definition quiet_for :: "activity \<Rightarrow> u64 \<Rightarrow> inode option \<Rightarrow> inode \<Rightarrow> bool" where
  "quiet_for a since holder i \<longleftrightarrow> Some i = holder \<or> quiet_since a (activity_id i) since"

definition reconcile_if_quiet :: "'s setting \<Rightarrow> u64 \<Rightarrow> inode option \<Rightarrow> inode \<Rightarrow> string \<Rightarrow> remote_entry list \<Rightarrow> 's engine \<Rightarrow>
    ('s, bool) run" where
  "reconcile_if_quiet su since holder i path entries e =
     (let quiet = quiet_for (en_activity e) since holder in
      if \<not> quiet i then Some (e, Inr False)
      else
        run_bind (on_db (reconcile_children_except i path entries (\<lambda>c. \<not> quiet c) (int (now_secs su))) e)
          (\<lambda>_ e. Some (e, Inr True)))"

text \<open>What the frontend is told of a listing: children that went, and children that came.\<close>

definition removed_notes :: "inode \<Rightarrow> (inode \<times> node) list \<Rightarrow> remote_entry list \<Rightarrow> engine_note list" where
  "removed_notes i before entries =
     map (\<lambda>(j, n). InvalEntry i (nd_name n) (nd_path n))
       (filter (\<lambda>(j, n). nd_file_id n \<noteq> None \<and> nd_name n \<notin> (basename \<circ> rem_path) ` set entries) before)"

definition added_notes :: "inode \<Rightarrow> string \<Rightarrow> (inode \<times> node) list \<Rightarrow> remote_entry list \<Rightarrow> engine_note list" where
  "added_notes i path before entries =
     map (\<lambda>c. InvalEntry i (basename (rem_path c)) (child_path path (basename (rem_path c))))
       (filter (\<lambda>c. basename (rem_path c) \<notin> (nd_name \<circ> snd) ` set before) entries)"

definition reload_dir :: "'s setting \<Rightarrow> inode \<Rightarrow> inode option \<Rightarrow> 's engine \<Rightarrow> ('s, unit) run" where
  "reload_dir su i holder e =
     (case node_by_inode (en_db e) i of
        None \<Rightarrow> Some (e, Inr ())
      | Some d \<Rightarrow>
          let before = children_of (en_db e) i;
              since = activity_seq (en_activity e)
          in run_bind (list_dir su (nd_path d) e) (\<lambda>entries e.
             run_bind (reconcile_if_quiet su since holder i (nd_path d) entries e) (\<lambda>applied e.
             if \<not> applied then Some (e, Inr ())
             else Some (tell (removed_notes i before entries @ added_notes i (nd_path d) before entries) e, Inr ()))))"

definition run_reload_dir :: "'s setting \<Rightarrow> inode \<Rightarrow> inode \<Rightarrow> 's engine \<Rightarrow> ('s, unit) run" where
  "run_reload_dir su i holder e = reload_dir su i (Some holder) e"

definition run_refresh_beside :: "'s setting \<Rightarrow> inode \<Rightarrow> 's engine \<Rightarrow> ('s, unit) run" where
  "run_refresh_beside su i e = reload_dir su i None e"

section \<open>Refused uploads\<close>

text \<open>\<open>same_bytes\<close>: the rest of our file against the pieces of the server's.\<close>

fun same_chunks :: "bytes \<Rightarrow> bytes list \<Rightarrow> core_error option \<Rightarrow> core_error + bool" where
  "same_chunks mine [] broken = (case broken of Some x \<Rightarrow> Inl x | None \<Rightarrow> Inr (mine = []))"
| "same_chunks mine (theirs # rest) broken =
     (if length mine < length theirs \<or> take (length theirs) mine \<noteq> theirs then Inr False
      else same_chunks (drop (length theirs) mine) rest broken)"

definition same_bytes :: "'s setting \<Rightarrow> string \<Rightarrow> bytes option \<Rightarrow> 's engine \<Rightarrow> ('s, bool) run" where
  "same_bytes su path scratch e =
     (case scratch of
        None \<Rightarrow> Some (e, Inl (IoError ''open''))
      | Some mine \<Rightarrow>
          run_bind (on_dav (get_streaming (se_server su) path) e) (\<lambda>resp e.
            Some (e, same_chunks mine (rs_chunks resp) (rs_broken resp))))"

text \<open>An upload by the size of the buffer: in one request, or in chunks.\<close>

definition put_buffer :: "'s setting \<Rightarrow> string \<Rightarrow> bytes option \<Rightarrow> nat \<Rightarrow> upload_condition \<Rightarrow> int option \<Rightarrow> 's engine \<Rightarrow> ('s, put_result) run" where
  "put_buffer su path scratch sz pre mtime e =
     (if sz > chunk_size then
        on_dav (put_chunked (se_server su) (se_base su) (se_upload_id su) path scratch sz pre mtime) e
      else
        case scratch of
          None \<Rightarrow> Some (e, Inl (IoError ''read''))
        | Some mine \<Rightarrow> on_dav (put_conditional (se_server su) path mine pre mtime) e)"

text \<open>\<open>settle_false_conflict\<close> in its two halves: what settles it, and the bookkeeping.\<close>

definition false_conflict :: "'s setting \<Rightarrow> node \<Rightarrow> bytes option \<Rightarrow> nat \<Rightarrow> 's engine \<Rightarrow> ('s, string option) run" where
  "false_conflict su n scratch sz e =
     run_bind (on_dav (remote_meta (se_server su) (se_base su) (nd_path n)) e) (\<lambda>meta e.
       case meta of
         None \<Rightarrow> Some (e, Inr None)
       | Some (server_size, server_etag) \<Rightarrow>
           run_bind (if unat server_size = sz then same_bytes su (nd_path n) scratch e else Some (e, Inr False)) (\<lambda>same e.
             if same then Some (e, Inr (Some server_etag))
             else if (nd_file_id n = None \<and> nd_etag n = []) \<and> server_size = 0 then
               run_bind (put_buffer su (nd_path n) scratch sz (UploadOver server_etag) None e) (\<lambda>res e.
                 case res of
                   Uploaded etag \<Rightarrow> Some (e, Inr (Some (case etag of None \<Rightarrow> [] | Some t \<Rightarrow> t)))
                 | Conflict \<Rightarrow> Some (e, Inr None))
             else Some (e, Inr None)))"

definition settle_false_conflict :: "'s setting \<Rightarrow> inode \<Rightarrow> node \<Rightarrow> bytes option \<Rightarrow> nat \<Rightarrow> 's engine \<Rightarrow> ('s, bool) run" where
  "settle_false_conflict su i n scratch sz e =
     run_bind (false_conflict su n scratch sz e) (\<lambda>settled e.
       case settled of
         None \<Rightarrow> Some (e, Inr False)
       | Some etag \<Rightarrow>
           map_option (\<lambda>(e, _). (e, Inr True))
             (run_reload_dir su (nd_parent n) i
               (bump_epoch (e\<lparr>en_db := set_etag_size i etag (of_nat sz) (en_db e)\<rparr>))))"

text \<open>\<open>String::from_utf8\<close> succeeds.\<close>

definition cont_byte :: "u8 \<Rightarrow> bool" where
  "cont_byte b \<longleftrightarrow> 0x80 \<le> b \<and> b \<le> 0xBF"

fun utf8_valid :: "bytes \<Rightarrow> bool" where
  "utf8_valid [] = True"
| "utf8_valid (b # bs) =
     (if b < 0x80 then utf8_valid bs
      else
        case bs of
          c # cs \<Rightarrow>
            if 0xC2 \<le> b \<and> b \<le> 0xDF then cont_byte c \<and> utf8_valid cs
            else
              (case cs of
                 d # ds \<Rightarrow>
                   if 0xE0 \<le> b \<and> b \<le> 0xEF then
                     cont_byte c \<and> (b = 0xE0 \<longrightarrow> 0xA0 \<le> c) \<and> (b = 0xED \<longrightarrow> c \<le> 0x9F) \<and> cont_byte d \<and> utf8_valid ds
                   else
                     (case ds of
                        f # fs \<Rightarrow>
                          0xF0 \<le> b \<and> b \<le> 0xF4 \<and> cont_byte c \<and> (b = 0xF0 \<longrightarrow> 0x90 \<le> c) \<and> (b = 0xF4 \<longrightarrow> c \<le> 0x8F) \<and>
                          cont_byte d \<and> cont_byte f \<and> utf8_valid fs
                      | [] \<Rightarrow> False)
               | [] \<Rightarrow> False)
        | [] \<Rightarrow> False)"

definition run_text_merge :: "'s setting \<Rightarrow> node \<Rightarrow> string \<Rightarrow> bytes \<Rightarrow> 's engine \<Rightarrow> ('s, (bytes \<times> upload_condition) option) run" where
  "run_text_merge su n base_etag mine e =
     (if base_etag = [] then Some (e, Inr None)
      else
        case cached_bytes (n\<lparr>nd_etag := base_etag\<rparr>) (en_content e) of
          None \<Rightarrow> Some (e, Inr None)
        | Some base \<Rightarrow>
            run_bind (on_dav (get_with_etag (se_server su) (nd_path n)) e) (\<lambda>(theirs, theirs_etag) e.
              let pre = for_upload (case theirs_etag of None \<Rightarrow> [] | Some t \<Rightarrow> t) True in
              if utf8_valid base \<and> utf8_valid mine \<and> utf8_valid theirs then
                Some (e, Inr (map_option (\<lambda>merged. (merged, pre)) (se_merge su base mine theirs)))
              else Some (e, Inr None)))"

text \<open>A merge that worked: uploaded over the version it was merged with, or overtaken again.\<close>

definition upload_merge :: "'s setting \<Rightarrow> inode \<Rightarrow> node \<Rightarrow> bytes \<Rightarrow> upload_condition \<Rightarrow> 's engine \<Rightarrow> ('s, bool) run" where
  "upload_merge su i n merged pre e =
     run_bind (on_dav (put_conditional (se_server su) (nd_path n) merged pre None) e) (\<lambda>res e.
       case res of
         Conflict \<Rightarrow> Some (e, Inr False)
       | Uploaded etag \<Rightarrow>
           let etag = (case etag of None \<Rightarrow> [] | Some t \<Rightarrow> t);
               sz = (of_nat (length merged) :: u64);
               e = e\<lparr>en_db := set_etag_size i etag sz (en_db e)\<rparr>
           in case store (se_content su) (se_io su) (se_now su) (n\<lparr>nd_etag := etag, nd_size := sz\<rparr>) merged etag (en_content e) of
                (st, Inl x) \<Rightarrow> Some (e\<lparr>en_content := st\<rparr>, Inl x)
              | (st, Inr _) \<Rightarrow> Some (e\<lparr>en_content := st\<rparr>, Inr True))"

definition try_merge :: "'s setting \<Rightarrow> inode \<Rightarrow> node \<Rightarrow> string \<Rightarrow> bytes option \<Rightarrow> 's engine \<Rightarrow> ('s, bool) run" where
  "try_merge su i n base_etag scratch e =
     (if \<not> se_text_merge su then Some (e, Inr False)
      else
        case scratch of
          None \<Rightarrow> Some (e, Inl (IoError ''read''))
        | Some mine \<Rightarrow>
            run_bind (run_text_merge su n base_etag mine e) (\<lambda>merge e.
              case merge of None \<Rightarrow> Some (e, Inr False) | Some (merged, pre) \<Rightarrow> upload_merge su i n merged pre e))"

definition max_copy_attempts :: nat where "max_copy_attempts = 4"

text \<open>The loop over the names of the copy; \<open>k\<close> attempts are left after this one.\<close>

fun upload_copy :: "'s setting \<Rightarrow> node \<Rightarrow> bytes option \<Rightarrow> nat \<Rightarrow> nat \<Rightarrow> nat \<Rightarrow> 's engine \<Rightarrow> ('s, string) run" where
  "upload_copy su n scratch sz nth_try k e =
     (let copy = conflict_copy_path (now_secs su) (nd_path n) nth_try in
      run_bind (put_buffer su copy scratch sz UploadNew None e) (\<lambda>res e.
        case res of
          Uploaded _ \<Rightarrow> Some (e, Inr copy)
        | Conflict \<Rightarrow>
            (case k of
               0 \<Rightarrow> Some (e, Inl (Other ''every candidate name already exists''))
             | Suc k \<Rightarrow> upload_copy su n scratch sz (Suc nth_try) k e)))"

declare upload_copy.simps [simp del]

definition keep_both :: "'s setting \<Rightarrow> inode \<Rightarrow> node \<Rightarrow> bytes option \<Rightarrow> nat \<Rightarrow> 's engine \<Rightarrow> ('s, unit) run" where
  "keep_both su i n scratch sz e =
     run_bind (upload_copy su n scratch sz 0 (max_copy_attempts - 1) e) (\<lambda>copy e.
       run_reload_dir su (nd_parent n) i (bump_epoch (tell [NoticeConflictCopy (nd_path n) copy] e)))"

definition run_conflict_resolution :: "'s setting \<Rightarrow> inode \<Rightarrow> node \<Rightarrow> string \<Rightarrow> bytes option \<Rightarrow> nat \<Rightarrow> 's engine \<Rightarrow> ('s, unit) run" where
  "run_conflict_resolution su i n base_etag scratch sz e =
     run_bind (settle_false_conflict su i n scratch sz e) (\<lambda>settled e.
       if settled then Some (e, Inr ())
       else
         run_bind (try_merge su i n base_etag scratch e) (\<lambda>merged e.
           if merged then Some (e, Inr ()) else keep_both su i n scratch sz e))"

end
