(* ===== verification/Core_Webdav_Facts.thy ===== *)
theory Core_Webdav_Facts
  imports Core_Webdav_Parse
begin

text \<open>
  What is read out of a server's answer is what the server put in: dates agree with counting the
  days of the calendar, a listing gives the properties of every response, an entity tag loses its
  quotes and nothing else, and a window cut out of a full body is the window that was asked for.
\<close>

section \<open>Days\<close>

definition leap :: "int \<Rightarrow> bool" where
  "leap y \<longleftrightarrow> 4 dvd y \<and> (\<not> 100 dvd y \<or> 400 dvd y)"

definition year_length :: "int \<Rightarrow> int" where
  "year_length y = (if leap y then 366 else 365)"

definition month_lengths :: "int \<Rightarrow> int list" where
  "month_lengths y = [31, if leap y then 29 else 28, 31, 30, 31, 30, 31, 31, 30, 31, 30, 31]"

text \<open>Days before the first of January of the year \<open>1970 + n\<close>, year by year.\<close>

fun days_before :: "nat \<Rightarrow> int" where
  "days_before 0 = 0"
| "days_before (Suc n) = days_before n + year_length (1970 + int n)"

text \<open>Days since the first of January 1970, month by month.\<close>

definition civil_days :: "nat \<Rightarrow> nat \<Rightarrow> int \<Rightarrow> int" where
  "civil_days n m d = days_before n + sum_list (take (m - 1) (month_lengths (1970 + int n))) + d - 1"

lemma wrap64_id: "- (2 ^ 63) \<le> x \<Longrightarrow> x < 2 ^ 63 \<Longrightarrow> wrap64 x = x"
  by (simp add: wrap64_def)

text \<open>The days before the first of March of a year, in closed form.\<close>

definition march_days :: "int \<Rightarrow> int" where
  "march_days y = 365 * y + y div 4 - y div 100 + y div 400"

lemma div_step:
  assumes "0 < (k :: int)"
  shows "(y + 1) div k = y div k + (if k dvd y + 1 then 1 else 0)"
proof (cases "k dvd y + 1")
  case True
  then obtain c where "y + 1 = k * c" by (rule dvdE)
  then have c: "y + 1 = k * c" "y = k * (c - 1) + (k - 1)" by (simp_all add: algebra_simps)
  then have "(y + 1) div k = c" using assms by simp
  moreover have "y div k = c - 1" using assms int_div_pos_eq [OF c(2)] by simp
  ultimately show ?thesis using True by simp
next
  case False
  have "y mod k + 1 \<noteq> k"
  proof
    assume "y mod k + 1 = k"
    moreover have "k * (y div k + 1) = k * (y div k) + k" by (simp add: distrib_left)
    ultimately have "y + 1 = k * (y div k + 1)" using mult_div_mod_eq [of k y] by linarith
    with False show False by (metis dvd_triv_left)
  qed
  then have "y mod k + 1 < k" "0 \<le> y mod k + 1" using pos_mod_bound [OF assms, of y] pos_mod_sign [OF assms, of y] by simp_all
  moreover have "y + 1 = k * (y div k) + (y mod k + 1)" using mult_div_mod_eq [of k y] by simp
  ultimately have "(y + 1) div k = y div k" using int_div_pos_eq by blast
  with False show ?thesis by simp
qed

lemma march_days_Suc: "march_days (y + 1) = march_days y + year_length (y + 1)"
proof -
  define z where "z = y + 1"
  have a: "4 dvd z" if "100 dvd z" by (rule dvd_trans [OF _ that]) simp
  have b: "100 dvd z" if "400 dvd z" by (rule dvd_trans [OF _ that]) simp
  have "z div k = y div k + (if k dvd z then 1 else 0)" if "0 < k" for k
    unfolding z_def by (rule div_step [OF that])
  from this [of 4] this [of 100] this [of 400]
  have "march_days z = march_days y + 365 + (if 4 dvd z then 1 else 0) - (if 100 dvd z then 1 else 0) + (if 400 dvd z then 1 else 0)"
    by (simp add: march_days_def z_def)
  moreover have "year_length z = 365 + (if 4 dvd z then 1 else 0) - (if 100 dvd z then 1 else 0) + (if 400 dvd z then 1 else 0)"
    using a b by (cases "4 dvd z"; cases "100 dvd z"; cases "400 dvd z") (simp_all only: year_length_def leap_def, simp_all)
  ultimately show ?thesis unfolding z_def by linarith
qed

lemma days_before_closed: "days_before n = march_days (1969 + int n) - march_days 1969"
proof (induction n)
  case 0
  then show ?case by simp
next
  case (Suc n)
  have "march_days (1969 + int (Suc n)) = march_days (1969 + int n) + year_length (1970 + int n)"
    using march_days_Suc [of "1969 + int n"] by (simp add: algebra_simps)
  with Suc show ?case by simp
qed

text \<open>Without a wrap, the source computes the days since a first of March.\<close>

lemma days_from_civil_march:
  assumes "0 \<le> y" "y \<le> 10 ^ 12" "m \<ge> 1" "m \<le> 12" "0 \<le> d" "d \<le> 10 ^ 12"
  shows "days_from_civil y m d =
    (let y' = (if m \<le> 2 then y - 1 else y)
     in march_days y' + (153 * (if m > 2 then m - 3 else m + 9) + 2) div 5 + d - 1 - 719468)"
proof -
  define y' where "y' = (if m \<le> 2 then y - 1 else y)"
  have y': "- 1 \<le> y'" "y' \<le> 10 ^ 12" using assms by (auto simp: y'_def)
  have y0: "y' = (if m \<le> 2 then wrap64 (y - 1) else y)" using assms by (simp add: y'_def wrap64_id)
  define era where "era = y' div 400"
  have era: "quot (if y' \<ge> 0 then y' else wrap64 (y' - 399)) 400 = era"
    using y' by (auto simp: quot_def wrap64_id era_def)
  have "era * 400 = y' - y' mod 400" unfolding era_def by (simp add: minus_mod_eq_div_mult)
  moreover have "0 \<le> y' mod 400" "y' mod 400 < 400" by simp_all
  ultimately have yoe: "wrap64 (y' - wrap64 (era * 400)) = y' mod 400"
    using y' by (simp add: wrap64_id)
  define yoe where "yoe = y' mod 400"
  have split: "y' = yoe + 4 * (100 * era)" "y' = yoe + 100 * (4 * era)" "y' = yoe + 400 * era"
    unfolding yoe_def era_def by simp_all
  have "y' div 4 = yoe div 4 + 100 * era" unfolding split(1) by simp
  moreover have "y' div 100 = yoe div 100 + 4 * era" unfolding split(2) by simp
  ultimately have march: "march_days y' = era * 146097 + (yoe * 365 + yoe div 4 - yoe div 100)"
    unfolding march_days_def era_def [symmetric] using split(3) by simp
  have range: "0 \<le> yoe" "yoe < 400" "- 1 \<le> era" "era \<le> 10 ^ 12" using y' by (auto simp: yoe_def era_def)
  define mp where "mp = (153 * (if m > 2 then m - 3 else m + 9) + 2) div 5"
  have mp: "quot (153 * (if m > 2 then m - 3 else m + 9) + 2) 5 = mp" "0 \<le> mp" "mp \<le> 400"
    using assms by (auto simp: mp_def quot_def)
  have small: "0 \<le> yoe div 4" "yoe div 4 \<le> yoe" "0 \<le> yoe div 100" "yoe div 100 \<le> yoe" using range by auto
  have num: "(2 :: int) ^ 63 = 9223372036854775808" "(10 :: int) ^ 12 = 1000000000000" by simp_all
  have q: "quot yoe 4 = yoe div 4" "quot yoe 100 = yoe div 100" using range by (simp_all add: quot_def)
  have doy: "wrap64 (mp + d - 1) = mp + d - 1" using mp assms(5,6) [unfolded num] by (intro wrap64_id; unfold num; linarith)
  have doe: "wrap64 (yoe * 365 + yoe div 4 - yoe div 100 + (mp + d - 1)) = yoe * 365 + yoe div 4 - yoe div 100 + (mp + d - 1)"
    using range [unfolded num] small mp assms(5,6) [unfolded num] by (intro wrap64_id; unfold num; linarith)
  have sum: "wrap64 (era * 146097 + (yoe * 365 + yoe div 4 - yoe div 100 + (mp + d - 1)) - 719468) =
      era * 146097 + (yoe * 365 + yoe div 4 - yoe div 100 + (mp + d - 1)) - 719468"
    using range [unfolded num] small mp assms(5,6) [unfolded num] by (intro wrap64_id; unfold num; linarith)
  have "days_from_civil y m d = era * 146097 + (yoe * 365 + yoe div 4 - yoe div 100 + (mp + d - 1)) - 719468"
    unfolding days_from_civil_def Let_def y0 [symmetric] era yoe yoe_def [symmetric] mp(1) q doy doe sum by (rule refl)
  then show ?thesis unfolding Let_def y'_def [symmetric] mp_def [symmetric] march by simp
qed


lemma months: "1 \<le> m \<Longrightarrow> m \<le> 12 \<Longrightarrow> m \<in> {1, 2, 3, 4, 5, 6, 7, 8, 9, 10, 11, 12 :: nat}"
  by (simp only: insert_iff empty_iff) presburger

lemma days_from_civil_counts:
  assumes "n \<le> 10 ^ 6" "1 \<le> m" "m \<le> 12" "0 \<le> d" "d \<le> 10 ^ 12"
  shows "days_from_civil (1970 + int n) (int m) d = civil_days n m d"
proof -
  define y where "y = 1970 + int n"
  have y: "0 \<le> y" "y \<le> 10 ^ 12" using assms(1) by (auto simp: y_def)
  have first: "days_before n = march_days (y - 1) - 719162" "march_days y = march_days (y - 1) + year_length y"
    using days_before_closed [of n] march_days_Suc [of "y - 1"] by (simp_all add: y_def march_days_def)
  note closed = days_from_civil_march [OF y, of "int m" d]
  from months [OF assms(2,3)] show ?thesis
    unfolding y_def [symmetric] civil_days_def month_lengths_def
    using closed assms(4,5) first by (auto simp: year_length_def)
qed

lemma days_before_bound: "0 \<le> days_before n \<and> days_before n \<le> 366 * int n"
  by (induction n) (auto simp: year_length_def)

lemma civil_days_bound:
  assumes "n \<le> 10 ^ 6" "1 \<le> m" "m \<le> 12" "d \<le> 31"
  shows "- 1 \<le> civil_days n m (int d) \<and> civil_days n m (int d) \<le> 400000000"
proof -
  have "int n \<le> 1000000" "int d \<le> 31" using assms(1,4) by simp_all
  with months [OF assms(2,3)] days_before_bound [of n] show ?thesis
    by (auto simp: civil_days_def month_lengths_def)
qed

section \<open>Printed numbers\<close>

lemma digits_from_append: "digits_from acc (xs @ ys) = (case digits_from acc xs of None \<Rightarrow> None | Some v \<Rightarrow> digits_from v ys)"
  by (induction acc xs rule: digits_from.induct) (auto split: option.split)

lemma digit_val_digit: "v < 10 \<Longrightarrow> digit_val (char_of (byte (CHR ''0'') + v)) = Some v"
  by (simp add: digit_val_def in_range_def)

declare decimal.simps [simp del]

lemma digits_from_decimal: "digits_from acc (decimal n) = Some (acc * 10 ^ length (decimal n) + n)"
proof (induction n arbitrary: acc rule: decimal.induct)
  case (1 n)
  show ?case
  proof (cases "n < 10")
    case True
    then show ?thesis using digit_val_digit [OF True] by (simp add: decimal.simps [of n])
  next
    case False
    then have "digits_from acc (decimal n) =
        (case Some (acc * 10 ^ length (decimal (n div 10)) + n div 10) of
           None \<Rightarrow> None
         | Some v \<Rightarrow> digits_from v [char_of (byte (CHR ''0'') + n mod 10)])"
      using "1" [OF False, of acc] by (simp only: decimal.simps [of n] if_False digits_from_append)
    also have "\<dots> = Some (10 * (acc * 10 ^ length (decimal (n div 10)) + n div 10) + n mod 10)"
      using digit_val_digit [of "n mod 10"] by simp
    also have "\<dots> = Some (acc * 10 ^ length (decimal n) + n)"
      using False by (simp add: decimal.simps [of n] algebra_simps)
    finally show ?thesis .
  qed
qed

lemma decimal_digits: "c \<in> set (decimal n) \<Longrightarrow> digit_val c \<noteq> None"
proof (induction n arbitrary: c rule: decimal.induct)
  case (1 n)
  then show ?case
    using digit_val_digit [of n] digit_val_digit [of "n mod 10"] by (auto simp: decimal.simps [of n] split: if_splits)
qed

lemma decimal_Nil [simp]: "decimal n \<noteq> []"
  by (subst decimal.simps) simp

lemma padded_digits: "c \<in> set (padded k n) \<Longrightarrow> digit_val c \<noteq> None"
proof -
  have zero: "digit_val (CHR ''0'') = Some 0" by (simp add: digit_val_def in_range_def)
  show "c \<in> set (padded k n) \<Longrightarrow> digit_val c \<noteq> None"
    using decimal_digits [of c n] zero by (auto simp: padded_def simp del: not_None_eq)
qed

lemma digits_from_padded: "digits_from 0 (padded k n) = Some n"
proof -
  have "digits_from 0 (replicate j (CHR ''0'') @ s) = digits_from 0 s" for j s
    by (induction j) (simp_all add: digit_val_def in_range_def)
  then show ?thesis by (simp add: padded_def digits_from_decimal)
qed

lemma padded_Nil [simp]: "padded k n \<noteq> []"
  by (simp add: padded_def)

lemma parse_i64_padded: "n < 2 ^ 63 \<Longrightarrow> parse_i64 (padded k n) = Some (int n)"
proof -
  assume n: "n < 2 ^ 63"
  obtain c cs where s: "padded k n = c # cs" by (meson neq_Nil_conv padded_Nil)
  have "digit_val c \<noteq> None" using padded_digits [of c k n] s by simp
  then have "c \<noteq> CHR ''-''" "c \<noteq> CHR ''+''" by (auto simp: digit_val_def in_range_def)
  with s n digits_from_padded [of k n] show ?thesis by (simp add: parse_i64_def parse_digits_def)
qed

section \<open>Printed dates\<close>

lemma split_whitespace_word:
  assumes "w \<noteq> []" "\<forall>c\<in>set w. \<not> is_space c"
  shows "split_whitespace (w @ CHR '' '' # s) = w # split_whitespace s" and "split_whitespace w = [w]"
proof -
  obtain c cs where w: "w = c # cs" using assms(1) by (cases w) auto
  have sp: "is_space (CHR '' '')" by (simp add: is_space_def)
  have drop: "dropWhile is_space (w @ t) = w @ t" for t using w assms(2) by simp
  have take: "takeWhile (\<lambda>d. \<not> is_space d) (cs @ CHR '' '' # s) = cs" "dropWhile (\<lambda>d. \<not> is_space d) (cs @ CHR '' '' # s) = CHR '' '' # s"
    using w assms(2) sp by (simp_all add: takeWhile_append dropWhile_append)
  have "split_whitespace (CHR '' '' # s) = split_whitespace s"
    using sp by (subst (1 2) split_whitespace.simps) simp
  with drop [of "CHR '' '' # s"] take show "split_whitespace (w @ CHR '' '' # s) = w # split_whitespace s"
    by (subst split_whitespace.simps) (simp add: w)
  have rest: "takeWhile (\<lambda>d. \<not> is_space d) cs = cs" "dropWhile (\<lambda>d. \<not> is_space d) cs = []" "dropWhile is_space w = c # cs"
    using w assms(2) by simp_all
  have "split_whitespace [] = []" by (simp add: split_whitespace.simps)
  then show "split_whitespace w = [w]" unfolding split_whitespace.simps [of w] rest list.case by (simp only: w)
qed

lemma split_char_word: "sep \<notin> set w \<Longrightarrow> split_char sep (w @ sep # s) = w # split_char sep s"
  by (induction w) (auto split: list.splits)

lemma split_char_last: "sep \<notin> set w \<Longrightarrow> split_char sep w = [w]"
  by (induction w) auto

definition month_names :: "string list" where
  "month_names = [''Jan'', ''Feb'', ''Mar'', ''Apr'', ''May'', ''Jun'', ''Jul'', ''Aug'', ''Sep'', ''Oct'', ''Nov'', ''Dec'']"

text \<open>A date as RFC 1123 prints it.\<close>

definition imf_date :: "string \<Rightarrow> nat \<Rightarrow> nat \<Rightarrow> nat \<Rightarrow> nat \<Rightarrow> nat \<Rightarrow> nat \<Rightarrow> string" where
  "imf_date wday y m d h mi s =
     wday @ '' '' @ padded 2 d @ '' '' @ month_names ! (m - 1) @ '' '' @ padded 4 y @ '' '' @
     (padded 2 h @ '':'' @ padded 2 mi @ '':'' @ padded 2 s) @ '' GMT''"

lemma month_name: "1 \<le> m \<Longrightarrow> m \<le> 12 \<Longrightarrow> month_num (month_names ! (m - 1)) = Some (int m) \<and>
    month_names ! (m - 1) \<noteq> [] \<and> (\<forall>c\<in>set (month_names ! (m - 1)). \<not> is_space c)"
  by (drule (1) months) (auto simp: month_names_def month_num_def is_space_def)

lemma digit_plain: "digit_val c \<noteq> None \<Longrightarrow> \<not> is_space c \<and> c \<noteq> CHR '':''"
  by (auto simp: digit_val_def in_range_def is_space_def split: if_splits)

lemma padded_plain: "\<forall>c\<in>set (padded k n). \<not> is_space c" "CHR '':'' \<notin> set (padded k n)"
  using padded_digits [of _ k n] digit_plain by blast+

text \<open>
  The time of a listing is the time the server printed. For every date RFC 1123 can print from
  1970 on, the parser gives the seconds since the epoch that counting the days of the calendar
  year by year and month by month gives, leap years included, and no step of its arithmetic
  overflows.
\<close>

theorem printed_dates_are_read:
  assumes "wday \<noteq> []" "\<forall>c\<in>set wday. \<not> is_space c" and "n \<le> 10 ^ 6" "1 \<le> m" "m \<le> 12" "d \<le> 31" "h \<le> 23" "mi \<le> 59" "s \<le> 60"
  shows "parse_http_date (imf_date wday (1970 + n) m d h mi s) =
    civil_days n m (int d) * 86400 + int h * 3600 + int mi * 60 + int s"
proof -
  have colon: "is_space (CHR '':'') = False" by (simp add: is_space_def)
  define t where "t = padded 2 h @ '':'' @ padded 2 mi @ '':'' @ padded 2 s"
  have t: "t \<noteq> []" "\<forall>c\<in>set t. \<not> is_space c" using padded_plain(1) by (auto simp: t_def colon)
  have gmt: "split_whitespace ''GMT'' = [''GMT'']" by (rule split_whitespace_word) (simp_all add: is_space_def)
  have words: "split_whitespace (imf_date wday (1970 + n) m d h mi s) =
    [wday, padded 2 d, month_names ! (m - 1), padded 4 (1970 + n), t, ''GMT'']"
    unfolding imf_date_def t_def [symmetric]
    using assms(1,2) month_name [OF assms(4,5)] t by (simp add: split_whitespace_word padded_plain gmt)
  have time: "split_char (CHR '':'') t = [padded 2 h, padded 2 mi, padded 2 s]"
    by (simp add: t_def split_char_word split_char_last padded_plain)
  have num: "(2 :: int) ^ 63 = 9223372036854775808" by simp
  have "int h \<le> 23" "int mi \<le> 59" "int s \<le> 60" using assms(7-9) by simp_all
  then have "wrap64 (civil_days n m (int d) * 86400 + int h * 3600 + int mi * 60 + int s) =
      civil_days n m (int d) * 86400 + int h * 3600 + int mi * 60 + int s"
    using civil_days_bound [OF assms(3-6)] by (intro wrap64_id; unfold num; linarith)
  moreover have "month_num (month_names ! (m - 1)) = Some (int m)" using month_name [OF assms(4,5)] by blast
  moreover have "days_from_civil (1970 + int n) (int m) (int d) = civil_days n m (int d)"
    using assms by (intro days_from_civil_counts) simp_all
  ultimately show ?thesis
    using assms by (simp add: parse_http_date_def words time parse_i64_padded)
qed


lemma printed_dates_are_read_witness:
  "parse_http_date (imf_date ''Tue,'' (1970 + 54) 2 29 18 30 5) = civil_days 54 2 29 * 86400 + 18 * 3600 + 30 * 60 + 5"
  using printed_dates_are_read [of "''Tue,''" 54 2 29 18 30 5] by (simp add: is_space_def)

section \<open>Entity tags and windows\<close>

lemma trim_both_id: "(\<And>c. s \<noteq> [] \<Longrightarrow> \<not> p (hd s)) \<Longrightarrow> (s \<noteq> [] \<Longrightarrow> \<not> p (last s)) \<Longrightarrow> trim_both p s = s"
proof (cases s rule: rev_cases)
  case Nil
  then show ?thesis by (simp add: trim_both_def)
next
  case (snoc ys y)
  assume "\<And>c. s \<noteq> [] \<Longrightarrow> \<not> p (hd s)" "s \<noteq> [] \<Longrightarrow> \<not> p (last s)"
  with snoc have "\<not> p (hd s)" "\<not> p y" by auto
  then have "dropWhile p s = s" by (cases s) simp_all
  with snoc \<open>\<not> p y\<close> show ?thesis by (simp add: trim_both_def)
qed

text \<open>A tag that has no quote and no white space at an end.\<close>

definition bare_tag :: "string \<Rightarrow> bool" where
  "bare_tag e \<longleftrightarrow> e \<noteq> [] \<and> hd e \<noteq> CHR 0x22 \<and> last e \<noteq> CHR 0x22"

definition quoted :: "string \<Rightarrow> string" where
  "quoted e = CHR 0x22 # e @ [CHR 0x22]"

lemma unquote_quoted: "bare_tag e \<Longrightarrow> unquote_etag (quoted e) = e" "bare_tag e \<Longrightarrow> unquote_etag (''W/'' @ quoted e) = e"
proof -
  assume e: "bare_tag e"
  have sp: "is_space (CHR 0x22) = False" "is_space (CHR ''W'') = False" by (simp_all add: is_space_def)
  have "trim_both is_space (quoted e) = quoted e" "trim_both is_space (''W/'' @ quoted e) = ''W/'' @ quoted e"
    by (rule trim_both_id; simp add: quoted_def sp)+
  moreover have "trim_both (\<lambda>c. c = CHR 0x22) (quoted e) = e"
  proof -
    obtain c cs where c: "e = c # cs" using e by (cases e) (auto simp: bare_tag_def)
    have "dropWhile (\<lambda>c. c = CHR 0x22) (quoted e) = e @ [CHR 0x22]" using e c by (simp add: quoted_def bare_tag_def)
    moreover have "dropWhile (\<lambda>c. c = CHR 0x22) (rev (e @ [CHR 0x22])) = rev e"
      using e by (cases e rule: rev_cases) (auto simp: bare_tag_def)
    ultimately show ?thesis by (simp add: trim_both_def)
  qed
  ultimately show "unquote_etag (quoted e) = e" "unquote_etag (''W/'' @ quoted e) = e"
    by (simp_all add: unquote_etag_def Let_def) (simp_all add: quoted_def)
qed

lemma slice_full_body_window:
  "length body < 2 ^ 64 \<Longrightarrow> slice_full_body body start len = take (unat len) (drop (unat start) body)"
proof -
  assume body: "length body < 2 ^ 64"
  have "min (min (2 ^ 64 - 1) (unat start + unat len)) (length body) = min (unat start + unat len) (length body)"
    using body by simp
  then have "slice_full_body body start len =
      take (min (unat start + unat len) (length body) - min (unat start) (length body)) (drop (min (unat start) (length body)) body)"
    by (simp add: slice_full_body_def Let_def)
  also have "\<dots> = take (unat len) (drop (unat start) body)"
    by (cases "unat start \<le> length body") (auto simp: min_def)
  finally show ?thesis .
qed

section \<open>Listings\<close>

lemma split_once_Some: "split_once pat s = Some (a, b) \<Longrightarrow> s = a @ pat @ b"
proof (induction pat s arbitrary: a b rule: split_once.induct)
  case (1 pat s)
  show ?case
  proof (cases "prefix pat s")
    case True
    with 1(2) show ?thesis by (auto simp: split_once.simps [of pat s] prefix_def)
  next
    case False
    have "s \<noteq> []" using 1(2) False by (auto simp: split_once.simps [of pat "[]"])
    then obtain c cs where s: "s = c # cs" by (cases s) auto
    with 1(2) False obtain a' where "split_once pat cs = Some (a', b)" "a = c # a'"
      by (auto simp: split_once.simps [of pat "c # cs"])
    with 1(1) [OF False s] s show ?thesis by simp
  qed
qed

text \<open>An element with its text, and a response of a listing, as the reader hands them out.\<close>

definition prop_events :: "string \<times> string option \<Rightarrow> xml_event list" where
  "prop_events = (\<lambda>(name, text). XStart name # (case text of None \<Rightarrow> [] | Some v \<Rightarrow> [XText (Some v)]) @ [XEnd name])"

definition response_events :: "string \<Rightarrow> bool \<Rightarrow> (string \<times> string option) list \<Rightarrow> xml_event list" where
  "response_events href dir props =
     [XStart ''d:response''] @ prop_events (''d:href'', Some href) @ [XStart ''d:propstat'', XStart ''d:prop''] @
     (if dir then [XStart ''d:resourcetype'', XEmpty ''d:collection'', XEnd ''d:resourcetype''] else [XEmpty ''d:resourcetype'']) @
     concat (map prop_events props) @
     [XEnd ''d:prop''] @ prop_events (''d:status'', Some ''HTTP/1.1 200 OK'') @ [XEnd ''d:propstat'', XEnd ''d:response'']"

definition prop_set :: "string \<times> string option \<Rightarrow> partial_entry \<Rightarrow> partial_entry" where
  "prop_set = (\<lambda>(name, text) p. case (field_of (local_name name), text) of (Some f, Some v) \<Rightarrow> partial_set f v p | _ \<Rightarrow> p)"

definition plain_prop :: "string \<times> string option \<Rightarrow> bool" where
  "plain_prop = (\<lambda>(name, text). local_name name \<noteq> ''response'' \<and> local_name name \<noteq> ''collection'')"

lemma local_names:
  "local_name ''d:response'' = ''response''" "local_name ''d:href'' = ''href''" "local_name ''d:propstat'' = ''propstat''"
  "local_name ''d:prop'' = ''prop''" "local_name ''d:resourcetype'' = ''resourcetype''" "local_name ''d:collection'' = ''collection''"
  "local_name ''d:status'' = ''status''" "local_name ''d:getetag'' = ''getetag''" "local_name ''d:getcontentlength'' = ''getcontentlength''"
  "local_name ''d:getlastmodified'' = ''getlastmodified''" "local_name ''oc:fileid'' = ''fileid''" "local_name ''oc:permissions'' = ''permissions''"
  "local_name ''nc:mount-type'' = ''mount-type''" "local_name ''nc:is-mount-root'' = ''is-mount-root''"
  by (simp_all add: local_name_def split_once.simps)

text \<open>Going through the events of a document.\<close>

definition whole :: "xml_event list \<Rightarrow> bool" where
  "whole evs \<longleftrightarrow> (\<forall>e. XBroken e \<notin> set evs)"

lemma multistatus_loop_whole: "whole evs \<Longrightarrow> multistatus_loop base evs r = Inr (fold (multistatus_event base) evs r)"
  by (induction evs arbitrary: r) (auto simp: whole_def split: xml_event.split)

lemma prop_events_fold:
  "plain_prop pr \<Longrightarrow> rd_target r = None \<Longrightarrow>
    fold (multistatus_event base) (prop_events pr) r = r\<lparr>rd_cur := prop_set pr (rd_cur r)\<rparr>"
  by (cases pr; cases "snd pr"; cases "field_of (local_name (fst pr))")
    (auto simp: prop_events_def prop_set_def plain_prop_def on_start_def Let_def)

lemma props_events_fold:
  "list_all plain_prop props \<Longrightarrow> rd_target r = None \<Longrightarrow>
    fold (multistatus_event base) (concat (map prop_events props)) r = r\<lparr>rd_cur := fold prop_set props (rd_cur r)\<rparr>"
  by (induction props arbitrary: r) (simp_all add: prop_events_fold)

lemma response_events_fold:
  assumes "list_all plain_prop props" "rd_target r = None"
  shows "fold (multistatus_event base) (response_events href dir props) r =
    r\<lparr>rd_cur := partial_default, rd_in_response := False,
      rd_entries := rd_entries r @ (case partial_finish base (fold prop_set props (partial_default\<lparr>pe_href := href, pe_is_dir := dir\<rparr>)) of
         None \<Rightarrow> [] | Some e \<Rightarrow> [e])\<rparr>"
proof -
  have nf: "field_of ''propstat'' = None" "field_of ''prop'' = None" "field_of ''resourcetype'' = None" "field_of ''status'' = None"
    by (simp_all add: field_of_def)
  have href: "field_of ''href'' = Some Href" by (simp add: field_of_def)
  define p where "p = partial_default\<lparr>pe_href := href, pe_is_dir := dir\<rparr>"
  define r1 where "r1 = r\<lparr>rd_cur := p, rd_in_response := True\<rparr>"
  have "fold (multistatus_event base) ([XStart ''d:response''] @ prop_events (''d:href'', Some href) @ [XStart ''d:propstat'', XStart ''d:prop''] @
     (if dir then [XStart ''d:resourcetype'', XEmpty ''d:collection'', XEnd ''d:resourcetype''] else [XEmpty ''d:resourcetype''])) r = r1"
    using assms(2) by (cases dir) (simp_all add: prop_events_def local_names on_start_def nf href Let_def r1_def p_def partial_default_def)
  moreover have "fold (multistatus_event base) (concat (map prop_events props)) r1 = r1\<lparr>rd_cur := fold prop_set props p\<rparr>"
    using props_events_fold [OF assms(1), of r1 base] assms(2) by (simp add: r1_def)
  moreover have "fold (multistatus_event base)
      ([XEnd ''d:prop''] @ prop_events (''d:status'', Some ''HTTP/1.1 200 OK'') @ [XEnd ''d:propstat'', XEnd ''d:response'']) (r1\<lparr>rd_cur := q\<rparr>) =
    r\<lparr>rd_cur := partial_default, rd_in_response := False, rd_entries := rd_entries r @ (case partial_finish base q of None \<Rightarrow> [] | Some e \<Rightarrow> [e])\<rparr>" for q
    using assms(2) by (simp add: prop_events_def local_names on_start_def nf Let_def r1_def)
  ultimately show ?thesis unfolding response_events_def p_def [symmetric] by (simp only: fold_append o_apply append_assoc [symmetric])
qed


text \<open>What a server prints of an entry: its properties, in this order or with others in between.\<close>

definition entry_props :: "(u64 \<Rightarrow> string) \<Rightarrow> string \<Rightarrow> remote_entry \<Rightarrow> (string \<times> string option) list" where
  "entry_props print date e =
     [(''d:getcontentlength'', Some (print (rem_size e))), (''d:getlastmodified'', Some date),
      (''d:getetag'', if rem_etag e = [] then None else Some (quoted (rem_etag e))),
      (''oc:fileid'', map_option print (rem_file_id e)),
      (''oc:permissions'', if rem_permissions e = [] then None else Some (rem_permissions e)),
      (''nc:mount-type'', if rem_mount_type e = [] then None else Some (rem_mount_type e)),
      (''nc:is-mount-root'', Some (if rem_is_mount_root e then ''true'' else ''false''))]"

definition print_u64 :: "u64 \<Rightarrow> string" where
  "print_u64 n = decimal (unat n)"

lemma parse_print_u64: "parse_u64 (print_u64 n) = Some n"
proof -
  obtain c cs where s: "decimal (unat n) = c # cs" by (meson decimal_Nil neq_Nil_conv)
  have "digit_val c \<noteq> None" using decimal_digits [of c "unat n"] s by simp
  then have "c \<noteq> CHR ''+''" by (auto simp: digit_val_def in_range_def)
  with s digits_from_decimal [of 0 "unat n"] unsigned_less [of n] show ?thesis
    by (simp add: parse_u64_def print_u64_def parse_digits_def)
qed

definition entry_events :: "string \<Rightarrow> (remote_entry \<times> string) \<Rightarrow> xml_event list" where
  "entry_events base_path = (\<lambda>(e, date).
     response_events (base_path @ ''/'' @ encode_dir (rem_path e) @ (if rem_is_dir e then ''/'' else [])) (rem_is_dir e)
       (entry_props print_u64 date e))"

text \<open>
  An entry a listing can name: a path of components joined by single separators, an entity tag
  that is bare, and a date that stands for the time of the entry.
\<close>

definition listable :: "string \<Rightarrow> remote_entry \<times> string \<Rightarrow> bool" where
  "listable base_path = (\<lambda>(e, date).
     rem_path e \<noteq> [] \<and> hd (rem_path e) \<noteq> CHR ''/'' \<and> last (rem_path e) \<noteq> CHR ''/'' \<and>
     \<not> sublist ''//'' (base_path @ ''/'' @ rem_path e @ ''/'') \<and>
     (rem_etag e = [] \<or> bare_tag (rem_etag e)) \<and> parse_http_date date = rem_mtime e)"

lemma percent_decode_append: "CHR ''%'' \<notin> set p \<Longrightarrow> percent_decode (p @ s) = p @ percent_decode s"
proof (induction p)
  case (Cons c p)
  then have "c \<noteq> CHR ''%''" by auto
  with Cons show ?case using percent_decode_plain [of c "p @ s"] by (simp del: percent_decode.simps)
qed simp

lemma decode_href:
  assumes "CHR ''%'' \<notin> set bp"
  shows "percent_decode (bp @ ''/'' @ encode_dir path @ (if dir then ''/'' else [])) = bp @ ''/'' @ path @ (if dir then ''/'' else [])"
proof -
  have "encode_dir path @ (if dir then ''/'' else []) = encode_dir (path @ (if dir then ''/'' else []))"
    by (simp add: encode_dir_def encode_byte_def kept_def)
  then show ?thesis
    using percent_decode_append [OF assms, of "''/'' @ encode_dir (path @ (if dir then ''/'' else []))"] decode_encode
      percent_decode_append [of "''/''"] by simp
qed

lemma trim_slashes_plain: "s \<noteq> [] \<Longrightarrow> hd s \<noteq> CHR ''/'' \<Longrightarrow> last s \<noteq> CHR ''/'' \<Longrightarrow>
    trim_slashes (CHR ''/'' # s) = s \<and> trim_slashes (CHR ''/'' # s @ ''/'') = s"
proof -
  assume s: "s \<noteq> []" "hd s \<noteq> CHR ''/''" "last s \<noteq> CHR ''/''"
  then have "dropWhile (\<lambda>c. c = CHR ''/'') (s @ t) = s @ t" for t by (cases s) simp_all
  from this [of "[]"] this [of "''/''"] have f: "dropWhile (\<lambda>c. c = CHR ''/'') s = s" "dropWhile (\<lambda>c. c = CHR ''/'') (s @ ''/'') = s @ ''/''"
    by simp_all
  have "dropWhile (\<lambda>c. c = CHR ''/'') (rev s) = rev s" using s(1,3) by (cases s rule: rev_cases) simp_all
  with f show ?thesis by (simp add: trim_slashes_def)
qed

lemma strip_below:
  assumes "\<not> sublist ''//'' (bp @ CHR ''/'' # rest)"
  shows "strip_base (bp @ CHR ''/'' # rest) bp = Some (CHR ''/'' # rest)"
proof -
  have "split_once ''://'' (bp @ CHR ''/'' # rest) = None"
  proof (rule ccontr)
    assume "split_once ''://'' (bp @ CHR ''/'' # rest) \<noteq> None"
    then obtain a b where "bp @ CHR ''/'' # rest = a @ ''://'' @ b" using split_once_Some by fastforce
    then have "bp @ CHR ''/'' # rest = (a @ '':'') @ ''//'' @ b" by simp
    then have "sublist ''//'' (bp @ CHR ''/'' # rest)" unfolding sublist_def by blast
    with assms show False by blast
  qed
  then show ?thesis by (simp add: strip_base_def)
qed

lemma field_names:
  "field_of ''getcontentlength'' = Some Size" "field_of ''getlastmodified'' = Some MTime" "field_of ''getetag'' = Some ETag"
  "field_of ''fileid'' = Some FileId" "field_of ''permissions'' = Some Permissions" "field_of ''mount-type'' = Some MountType"
  "field_of ''is-mount-root'' = Some IsMountRoot"
  by (simp_all add: field_of_def)

lemma entry_props_set:
  assumes "rem_etag e = [] \<or> bare_tag (rem_etag e)" "parse_http_date date = rem_mtime e"
  shows "fold prop_set (entry_props print_u64 date e) (partial_default\<lparr>pe_href := href, pe_is_dir := dir\<rparr>) =
    \<lparr>pe_href = href, pe_size = rem_size e, pe_mtime = rem_mtime e, pe_etag = rem_etag e, pe_file_id = rem_file_id e,
     pe_permissions = rem_permissions e, pe_mount_type = rem_mount_type e, pe_is_mount_root = rem_is_mount_root e, pe_is_dir = dir\<rparr>"
  using assms
  by (cases "rem_file_id e")
    (auto simp: entry_props_def prop_set_def local_names field_names parse_print_u64 unquote_quoted partial_default_def)

lemma entry_finish:
  assumes "CHR ''%'' \<notin> set bp" "listable bp (e, date)"
  shows "partial_finish bp (fold prop_set (entry_props print_u64 date e)
      (partial_default\<lparr>pe_href := bp @ ''/'' @ encode_dir (rem_path e) @ (if rem_is_dir e then ''/'' else []), pe_is_dir := rem_is_dir e\<rparr>)) = Some e"
proof -
  have e: "rem_path e \<noteq> []" "hd (rem_path e) \<noteq> CHR ''/''" "last (rem_path e) \<noteq> CHR ''/''"
    "\<not> sublist ''//'' (bp @ ''/'' @ rem_path e @ ''/'')" "rem_etag e = [] \<or> bare_tag (rem_etag e)" "parse_http_date date = rem_mtime e"
    using assms(2) by (simp_all add: listable_def)
  have part: "\<not> sublist ''//'' (bp @ CHR ''/'' # rem_path e @ (if rem_is_dir e then ''/'' else []))"
  proof
    assume "sublist ''//'' (bp @ CHR ''/'' # rem_path e @ (if rem_is_dir e then ''/'' else []))"
    moreover have "prefix (bp @ CHR ''/'' # rem_path e @ (if rem_is_dir e then ''/'' else [])) (bp @ ''/'' @ rem_path e @ ''/'')" by simp
    ultimately show False using e(4) by (meson prefix_imp_sublist sublist_order.order_trans)
  qed
  from trim_slashes_plain [OF e(1-3)]
  have "trim_slashes (CHR ''/'' # rem_path e @ (if rem_is_dir e then ''/'' else [])) = rem_path e" by simp
  with strip_below [OF part] e(1) show ?thesis
    unfolding entry_props_set [OF e(5,6)] partial_finish_def
    using decode_href [OF assms(1), of "rem_path e" "rem_is_dir e"] by simp
qed

lemma whole_append [simp]: "whole (xs @ ys) \<longleftrightarrow> whole xs \<and> whole ys" "whole []" "whole (x # xs) \<longleftrightarrow> (\<forall>e. x \<noteq> XBroken e) \<and> whole xs"
  by (auto simp: whole_def)

lemma whole_props: "whole (prop_events pr)" "whole (concat (map prop_events props))"
proof -
  show one: "whole (prop_events pr)" for pr by (cases pr) (auto simp: prop_events_def split: option.split)
  show "whole (concat (map prop_events props))" by (induction props) (simp_all add: one)
qed

lemma entry_events_whole: "whole (entry_events bp ed)"
  by (cases ed) (simp add: entry_events_def response_events_def whole_props)

lemma entry_events_fold:
  assumes "CHR ''%'' \<notin> set bp" "listable bp ed" "rd_target r = None"
  shows "fold (multistatus_event bp) (entry_events bp ed) r =
    r\<lparr>rd_cur := partial_default, rd_in_response := False, rd_entries := rd_entries r @ [fst ed]\<rparr>"
proof -
  obtain e date where ed: "ed = (e, date)" by (cases ed)
  have "list_all plain_prop (entry_props print_u64 date e)" by (simp add: entry_props_def plain_prop_def local_names)
  note response_events_fold [OF this assms(3)]
  with entry_finish [of bp e date] assms(1,2) show ?thesis by (simp add: entry_events_def ed)
qed


definition sample_entry :: remote_entry where
  "sample_entry = \<lparr>rem_path = ''Docs/50% off'', rem_is_dir = True, rem_size = 7, rem_etag = ''abc'', rem_mtime = 0, rem_file_id = Some 12,
     rem_permissions = ''RGDNVCK'', rem_mount_type = [], rem_is_mount_root = False\<rparr>"


end
