(* ===== verification/Core_Dav_Laws.thy ===== *)
theory Core_Dav_Laws
  imports Core_Webdav Core_Webdav_Facts
begin

text \<open>
  What a server promises its clients, and what of it a client sees while other clients are at work.
  A server is watched: before each request of ours the others may do anything, and every request
  leaves a record of what the server held before and after it. The promises are those of HTTP and
  WebDAV on conditional requests, reads and the metadata of a file.
\<close>

section \<open>Watching a server\<close>

record 's exchange =
  ex_before :: 's
  ex_request :: dav_request
  ex_after :: 's
  ex_answer :: "send_error + dav_response"

definition watched :: "(nat \<Rightarrow> 's \<Rightarrow> 's) \<Rightarrow> 's dav_server \<Rightarrow> ('s \<times> 's exchange list) dav_server" where
  "watched others srv = (\<lambda>(s, log) req.
     let s = others (length log) s in
     case srv s req of
       (s', r) \<Rightarrow> ((s', log @ [\<lparr>ex_before = s, ex_request = req, ex_after = s', ex_answer = r\<rparr>]), r))"

definition genuine :: "'s dav_server \<Rightarrow> 's exchange \<Rightarrow> bool" where
  "genuine srv x \<longleftrightarrow> srv (ex_before x) (ex_request x) = (ex_after x, ex_answer x)"

type_synonym 's wdav = "('s \<times> 's exchange list) dav"

abbreviation log_of :: "'s wdav \<Rightarrow> 's exchange list" where
  "log_of c \<equiv> snd (dv_server c)"

text \<open>What was asked from one state of the client to another.\<close>

definition asks :: "'s dav_server \<Rightarrow> ('s exchange \<Rightarrow> bool) \<Rightarrow> 's wdav \<Rightarrow> 's wdav \<Rightarrow> 's exchange list \<Rightarrow> bool" where
  "asks srv A c c' new \<longleftrightarrow> log_of c' = log_of c @ new \<and> (\<forall>x\<in>set new. genuine srv x \<and> A x)"

lemma asks_refl [intro]: "asks srv A c c []"
  by (simp add: asks_def)

lemma asks_trans: "asks srv A c1 c2 l1 \<Longrightarrow> asks srv A c2 c3 l2 \<Longrightarrow> asks srv A c1 c3 (l1 @ l2)"
  by (auto simp: asks_def)

lemma asks_mono: "asks srv A c c' new \<Longrightarrow> (\<And>x. x \<in> set new \<Longrightarrow> A x \<Longrightarrow> B x) \<Longrightarrow> asks srv B c c' new"
  by (auto simp: asks_def)

definition is_read :: "dav_request \<Rightarrow> bool" where
  "is_read req = (case req of Propfind p d n a \<Rightarrow> True | GetFile p w \<Rightarrow> True | _ \<Rightarrow> False)"

lemma is_read_simps [simp]: "is_read (Propfind p d n a)" "is_read (GetFile p w)" "\<not> is_read (PutFile p b cond m)"
  by (simp_all add: is_read_def)

section \<open>What each call asks\<close>

lemma send_attempts_asks:
  assumes "send_attempts (watched others srv) req k (s, log) = ((s', log'), r)"
  shows "\<exists>new. log' = log @ new \<and> (\<forall>x\<in>set new. genuine srv x \<and> ex_request x = req) \<and> (\<exists>x\<in>set new. ex_answer x = r)"
  using assms
proof (induction k arbitrary: s log)
  case 0
  then show ?case by (auto simp: watched_def genuine_def Let_def split: prod.splits)
next
  case (Suc k)
  define s1 where "s1 = others (length log) s"
  obtain s2 r1 where step: "srv s1 req = (s2, r1)" by (cases "srv s1 req")
  define x where "x = \<lparr>ex_before = s1, ex_request = req, ex_after = s2, ex_answer = r1\<rparr>"
  have w: "watched others srv (s, log) req = ((s2, log @ [x]), r1)"
    by (simp add: watched_def s1_def [symmetric] step x_def)
  have x: "genuine srv x" "ex_request x = req" "ex_answer x = r1" by (simp_all add: genuine_def x_def step)
  show ?case
  proof (cases "\<exists>e. r1 = Inl e \<and> se_transient e")
    case True
    with Suc.prems have "send_attempts (watched others srv) req k (s2, log @ [x]) = ((s', log'), r)" by (auto simp: w)
    from Suc.IH [OF this] obtain new where "log' = (log @ [x]) @ new" "\<forall>x\<in>set new. genuine srv x \<and> ex_request x = req"
      "\<exists>x\<in>set new. ex_answer x = r" by blast
    with x show ?thesis by (intro exI [of _ "x # new"]) auto
  next
    case False
    with Suc.prems have "log' = log @ [x]" "r = r1" by (auto simp: w split: sum.splits)
    with x show ?thesis by (intro exI [of _ "[x]"]) auto
  qed
qed

lemma send_asks:
  assumes "send (watched others srv) req c = (c', r)"
  shows "\<exists>new. asks srv (\<lambda>x. ex_request x = req) c c' new \<and> (\<forall>resp. r = Inr resp \<longrightarrow> (\<exists>x\<in>set new. ex_answer x = Inr resp))"
proof -
  obtain s log where c: "dv_server c = (s, log)" by (cases "dv_server c")
  obtain s' log' r' where st: "send_retrying (watched others srv) req (s, log) = ((s', log'), r')"
    by (metis prod.exhaust)
  from send_attempts_asks [OF st [unfolded send_retrying_def]] obtain new where
    new: "log' = log @ new" "\<forall>x\<in>set new. genuine srv x \<and> ex_request x = req" "\<exists>x\<in>set new. ex_answer x = r'" by blast
  have "dv_server c' = (s', log')" "\<forall>resp. r = Inr resp \<longrightarrow> r' = Inr resp"
    using assms by (auto simp: send_def c st split: sum.splits)
  with new c show ?thesis by (intro exI [of _ new]) (auto simp: asks_def)
qed

lemma error_for_status_Inr [simp]: "error_for_status resp = Inr resp' \<longleftrightarrow> resp' = resp \<and> \<not> (400 \<le> rs_status resp \<and> rs_status resp < 600)"
  by (auto simp: error_for_status_def)

definition fine :: "dav_response \<Rightarrow> bool" where
  "fine resp \<longleftrightarrow> \<not> (400 \<le> rs_status resp \<and> rs_status resp < 600)"

lemma error_for_status_cases: "fine resp \<and> error_for_status resp = Inr resp \<or> \<not> fine resp \<and> (\<exists>e. error_for_status resp = Inl e)"
  by (auto simp: fine_def error_for_status_def)

text \<open>An answer that tells the size and the entity tag of what was asked for.\<close>

definition tells :: "string \<Rightarrow> 's exchange \<Rightarrow> u64 \<Rightarrow> string \<Rightarrow> bool" where
  "tells base x sz t \<longleftrightarrow> (\<exists>resp e es. ex_answer x = Inr resp \<and> fine resp \<and>
     parse_multistatus (rs_events resp) base = Inr (e # es) \<and> sz = rem_size e \<and> t = rem_etag e)"

definition serves :: "'s exchange \<Rightarrow> bytes \<Rightarrow> string option \<Rightarrow> bool" where
  "serves x b t \<longleftrightarrow> (\<exists>resp. ex_answer x = Inr resp \<and> fine resp \<and> rs_broken resp = None \<and> b = concat (rs_chunks resp) \<and>
     t = etag_from_headers resp)"

definition accepts :: "'s exchange \<Rightarrow> bool" where
  "accepts x \<longleftrightarrow> (\<exists>resp. ex_answer x = Inr resp \<and> fine resp)"

lemma propfind_dir_asks:
  "propfind_dir (watched others srv) base p c = (c', r) \<Longrightarrow> \<exists>new. asks srv (\<lambda>x. is_read (ex_request x)) c c' new"
  using send_asks [of others srv "Propfind p True 1 AskListing" c]
  by (cases "send (watched others srv) (Propfind p True 1 AskListing) c")
    (fastforce simp: propfind_dir_def send_ok_def attempt_def elim!: asks_mono split: sum.splits)

lemma remote_meta_asks:
  assumes "remote_meta (watched others srv) base p c = (c', r)"
  shows "\<exists>new. asks srv (\<lambda>x. is_read (ex_request x)) c c' new \<and>
    (\<forall>sz t. r = Inr (Some (sz, t)) \<longrightarrow> (\<exists>x\<in>set new. ex_request x = Propfind p False 0 AskMeta \<and> tells base x sz t))"
proof -
  obtain c1 r1 where s: "send (watched others srv) (Propfind p False 0 AskMeta) c = (c1, r1)" by fastforce
  from send_asks [OF s] obtain new where new: "asks srv (\<lambda>x. ex_request x = Propfind p False 0 AskMeta) c c1 new"
    "\<forall>resp. r1 = Inr resp \<longrightarrow> (\<exists>x\<in>set new. ex_answer x = Inr resp)" by blast
  have c': "c' = c1"
    using assms by (auto simp: remote_meta_def s attempt_def split: sum.splits if_splits)
  have "\<exists>x\<in>set new. ex_request x = Propfind p False 0 AskMeta \<and> tells base x sz t" if r: "r = Inr (Some (sz, t))" for sz t
  proof -
    from r assms obtain resp where resp: "r1 = Inr resp" by (cases r1) (simp_all add: remote_meta_def s attempt_def)
    with r assms obtain e es where "fine resp" "parse_multistatus (rs_events resp) base = Inr (e # es)" "sz = rem_size e" "t = rem_etag e"
      by (cases "parse_multistatus (rs_events resp) base")
        (auto simp: remote_meta_def s attempt_def all_events_def fine_def split: sum.splits if_splits option.splits list.splits)
    with new resp show ?thesis by (force simp: tells_def asks_def)
  qed
  with new(1) c' show ?thesis by (intro exI [of _ new]) (auto elim!: asks_mono)
qed

lemma get_streaming_asks:
  assumes "get_streaming (watched others srv) p c = (c', r)"
  shows "\<exists>new. asks srv (\<lambda>x. is_read (ex_request x)) c c' new \<and>
    (\<forall>resp. r = Inr resp \<longrightarrow> (\<exists>x\<in>set new. ex_request x = GetFile p None \<and> ex_answer x = Inr resp \<and> fine resp))"
proof -
  obtain c1 r1 where s: "send (watched others srv) (GetFile p None) c = (c1, r1)" by fastforce
  from send_asks [OF s] obtain new where new: "asks srv (\<lambda>x. ex_request x = GetFile p None) c c1 new"
    "\<forall>resp. r1 = Inr resp \<longrightarrow> (\<exists>x\<in>set new. ex_answer x = Inr resp)" by blast
  have c': "c' = c1" and r: "\<And>resp. r = Inr resp \<Longrightarrow> r1 = Inr resp \<and> fine resp"
    using assms by (auto simp: get_streaming_def s attempt_def missing_or_def fine_def split: sum.splits if_splits)
  have "asks srv (\<lambda>x. is_read (ex_request x)) c c' new" unfolding c' by (rule asks_mono [OF new(1)]) simp
  moreover have "ex_request x = GetFile p None" if "x \<in> set new" for x using new(1) that by (simp add: asks_def)
  moreover have "\<exists>x\<in>set new. ex_answer x = Inr resp \<and> fine resp" if "r = Inr resp" for resp
    using new(2) r [OF that] by simp
  ultimately show ?thesis by (intro exI [of _ new]) auto
qed

lemma get_with_etag_asks:
  assumes "get_with_etag (watched others srv) p c = (c', r)"
  shows "\<exists>new. asks srv (\<lambda>x. is_read (ex_request x)) c c' new \<and>
    (\<forall>b t. r = Inr (b, t) \<longrightarrow> (\<exists>x\<in>set new. ex_request x = GetFile p None \<and> serves x b t))"
proof -
  obtain c1 r1 where s: "get_streaming (watched others srv) p c = (c1, r1)" by fastforce
  from get_streaming_asks [OF s] obtain new where new: "asks srv (\<lambda>x. is_read (ex_request x)) c c1 new"
    "\<forall>resp. r1 = Inr resp \<longrightarrow> (\<exists>x\<in>set new. ex_request x = GetFile p None \<and> ex_answer x = Inr resp \<and> fine resp)" by blast
  have c': "c' = c1" and r: "\<And>b t. r = Inr (b, t) \<Longrightarrow>
      \<exists>resp. r1 = Inr resp \<and> rs_broken resp = None \<and> b = concat (rs_chunks resp) \<and> t = etag_from_headers resp"
    using assms by (auto simp: get_with_etag_def s attempt_def all_bytes_def split: sum.splits option.splits)
  have "\<exists>x\<in>set new. ex_request x = GetFile p None \<and> serves x b t" if b: "r = Inr (b, t)" for b t
  proof -
    from r [OF b] obtain resp where resp: "r1 = Inr resp" "rs_broken resp = None" "b = concat (rs_chunks resp)" "t = etag_from_headers resp"
      by blast
    with new(2) obtain x where "x \<in> set new" "ex_request x = GetFile p None" "ex_answer x = Inr resp" "fine resp" by blast
    with resp show ?thesis unfolding serves_def by blast
  qed
  with new(1) c' show ?thesis by blast
qed

lemma put_conditional_asks:
  assumes "put_conditional (watched others srv) p body pre mtime c = (c', r)"
  shows "\<exists>new. asks srv (\<lambda>x. ex_request x = PutFile p body (apply_precondition pre) mtime) c c' new \<and>
    (\<forall>t. r = Inr (Uploaded t) \<longrightarrow> (\<exists>x\<in>set new. accepts x))"
proof -
  obtain c1 r1 where s: "send (watched others srv) (PutFile p body (apply_precondition pre) mtime) c = (c1, r1)" by fastforce
  from send_asks [OF s] obtain new where new: "asks srv (\<lambda>x. ex_request x = PutFile p body (apply_precondition pre) mtime) c c1 new"
    "\<forall>resp. r1 = Inr resp \<longrightarrow> (\<exists>x\<in>set new. ex_answer x = Inr resp)" by blast
  have c': "c' = c1" and r: "\<And>t. r = Inr (Uploaded t) \<Longrightarrow> \<exists>resp. r1 = Inr resp \<and> fine resp"
    using assms by (auto simp: put_conditional_def s attempt_def fine_def split: sum.splits if_splits)
  have "\<exists>x\<in>set new. accepts x" if t: "r = Inr (Uploaded t)" for t
  proof -
    from r [OF t] obtain resp where resp: "r1 = Inr resp" "fine resp" by blast
    with new(2) obtain x where "x \<in> set new" "ex_answer x = Inr resp" by blast
    with resp(2) show ?thesis unfolding accepts_def by blast
  qed
  with new(1) c' show ?thesis by (intro exI [of _ new]) simp
qed

section \<open>The promises\<close>

fun condition_met :: "(bytes \<times> string) option \<Rightarrow> condition \<Rightarrow> bool" where
  "condition_met f NoCondition = True"
| "condition_met f IfNoneMatchAny = (f = None)"
| "condition_met f (IfMatch q) = (case f of None \<Rightarrow> False | Some (b, t) \<Rightarrow> q = ''*'' \<or> q = quoted t)"

text \<open>
  \<open>place\<close> says where a path leads, \<open>held s l\<close> which file the server holds there, with its
  entity tag.
\<close>

locale dav_laws =
  fixes srv :: "'s dav_server"
    and base :: string
    and place :: "string \<Rightarrow> 'l"
    and held :: "'s \<Rightarrow> 'l \<Rightarrow> (bytes \<times> string) option"
  assumes reads_keep: "srv s req = (s', r) \<Longrightarrow> is_read req \<Longrightarrow> held s' l = held s l"
    and put_elsewhere: "srv s (PutFile p b cond m) = (s', r) \<Longrightarrow> l \<noteq> place p \<Longrightarrow> held s' l = held s l"
    and put_guarded: "srv s (PutFile p b cond m) = (s', r) \<Longrightarrow> held s' (place p) \<noteq> held s (place p) \<Longrightarrow>
      condition_met (held s (place p)) cond \<and> (\<exists>t. held s' (place p) = Some (b, t))"
    and put_lands: "srv s (PutFile p b cond m) = (s', Inr resp) \<Longrightarrow> fine resp \<Longrightarrow> \<exists>t. held s' (place p) = Some (b, t)"
    and get_serves: "srv s (GetFile p None) = (s', Inr resp) \<Longrightarrow> fine resp \<Longrightarrow> rs_broken resp = None \<Longrightarrow>
      \<exists>t. held s (place p) = Some (concat (rs_chunks resp), t) \<and> etag_from_headers resp \<in> {None, Some t}"
    and meta_tells: "srv s (Propfind p False 0 AskMeta) = (s', Inr resp) \<Longrightarrow> fine resp \<Longrightarrow>
      parse_multistatus (rs_events resp) base = Inr (e # es) \<Longrightarrow> held s (place p) = Some (b, t) \<Longrightarrow>
      rem_size e = of_nat (length b) \<and> rem_etag e = t"
begin

lemma read_exchange: "genuine srv x \<Longrightarrow> is_read (ex_request x) \<Longrightarrow> held (ex_after x) l = held (ex_before x) l"
  using reads_keep by (simp add: genuine_def)

lemma put_exchange:
  assumes "genuine srv x" "ex_request x = PutFile p b cond m" "held (ex_after x) l \<noteq> held (ex_before x) l"
  shows "l = place p" "condition_met (held (ex_before x) l) cond" "\<exists>t. held (ex_after x) l = Some (b, t)"
proof -
  have g: "srv (ex_before x) (PutFile p b cond m) = (ex_after x, ex_answer x)" using assms(1,2) by (simp add: genuine_def)
  show l: "l = place p" using put_elsewhere [OF g] assms(3) by metis
  from put_guarded [OF g] assms(3) l show "condition_met (held (ex_before x) l) cond" "\<exists>t. held (ex_after x) l = Some (b, t)" by simp_all
qed

lemma accepted_put:
  "genuine srv x \<Longrightarrow> ex_request x = PutFile p b cond m \<Longrightarrow> accepts x \<Longrightarrow> \<exists>t. held (ex_after x) (place p) = Some (b, t)"
  using put_lands by (fastforce simp: genuine_def accepts_def)

lemma served:
  "genuine srv x \<Longrightarrow> ex_request x = GetFile p None \<Longrightarrow> serves x b t \<Longrightarrow>
    \<exists>t'. held (ex_before x) (place p) = Some (b, t') \<and> t \<in> {None, Some t'}"
  using get_serves by (fastforce simp: genuine_def serves_def)

lemma told:
  "genuine srv x \<Longrightarrow> ex_request x = Propfind p False 0 AskMeta \<Longrightarrow> tells base x sz t \<Longrightarrow>
    held (ex_before x) (place p) = Some (b, t') \<Longrightarrow> sz = of_nat (length b) \<and> t = t'"
  using meta_tells by (fastforce simp: genuine_def tells_def)

end

end
