(* ===== verification/Core_Conflicts.thy ===== *)
theory Core_Conflicts
  imports Core_Engine Core_Dav_Laws
begin

text \<open>
  Refused uploads, against a server that keeps its promises and that others use at the same time:
  the resolution replaces no version it has not looked at, and it ends well only once the edit of
  this side is on the server. The promises bear on files that go up in one request; the move that
  assembles a chunked upload carries no condition.
\<close>

section \<open>Runs of the engine\<close>

lemma run_bind_cases:
  assumes "run_bind m f = Some (e', r)"
  obtains x where "m = Some (e', Inl x)" "r = Inl x" | e1 a where "m = Some (e1, Inr a)" "f a e1 = Some (e', r)"
  using assms by (auto simp: run_bind_def split: option.splits prod.splits sum.splits)

lemma on_dav_cases:
  assumes "on_dav f e = Some (e', r)"
  obtains d where "f (en_dav e) = (d, r)" "e' = e\<lparr>en_dav := d\<rparr>"
  using assms by (auto simp: on_dav_def split: prod.splits)

section \<open>Requests, each in the light of the earlier ones\<close>

fun stepwise :: "('x set \<Rightarrow> 'x \<Rightarrow> bool) \<Rightarrow> 'x set \<Rightarrow> 'x list \<Rightarrow> bool" where
  "stepwise G Y [] = True"
| "stepwise G Y (x # xs) = (G Y x \<and> stepwise G (insert x Y) xs)"

lemma stepwise_append [simp]: "stepwise G Y (xs @ ys) \<longleftrightarrow> stepwise G Y xs \<and> stepwise G (Y \<union> set xs) ys"
  by (induction xs arbitrary: Y) auto

definition grows :: "('x set \<Rightarrow> 'x \<Rightarrow> bool) \<Rightarrow> bool" where
  "grows G \<longleftrightarrow> (\<forall>Y Z x. Y \<subseteq> Z \<longrightarrow> G Y x \<longrightarrow> G Z x)"

lemma stepwise_mono: "grows G \<Longrightarrow> stepwise G Y xs \<Longrightarrow> Y \<subseteq> Z \<Longrightarrow> stepwise G Z xs"
proof (induction xs arbitrary: Y Z)
  case (Cons x xs)
  have "insert x Y \<subseteq> insert x Z" using Cons.prems(3) by blast
  with Cons.IH [of "insert x Y" "insert x Z"] Cons.prems show ?case by (auto simp: grows_def)
qed simp

lemma stepwise_all: "grows G \<Longrightarrow> \<forall>x\<in>set xs. G Y x \<Longrightarrow> stepwise G Y xs"
proof (induction xs arbitrary: Y)
  case (Cons x xs)
  have "\<forall>z\<in>set xs. G (insert x Y) z" using Cons.prems unfolding grows_def by (meson list.set_intros(2) subset_insertI)
  with Cons show ?case by simp
qed simp

text \<open>
  A request of the resolution: it reads; it creates what is not there; it replaces the empty file an
  earlier attempt left; it replaces the version a merge was made with, or any version when the server
  would not name the one it served.
\<close>

definition creates :: "'s exchange \<Rightarrow> bool" where
  "creates x \<longleftrightarrow> (\<exists>p b m. ex_request x = PutFile p b IfNoneMatchAny m)"

definition replaces_empty :: "'t setting \<Rightarrow> bytes option \<Rightarrow> 's exchange \<Rightarrow> 's exchange \<Rightarrow> bool" where
  "replaces_empty su scratch y x \<longleftrightarrow> (\<exists>p b m t. ex_request x = PutFile p b (IfMatch (quoted t)) m \<and> scratch = Some b \<and>
     ex_request y = Propfind p False 0 AskMeta \<and> tells (se_base su) y 0 t)"

definition replaces_merged :: "'t setting \<Rightarrow> bytes option \<Rightarrow> 's exchange \<Rightarrow> 's exchange \<Rightarrow> bool" where
  "replaces_merged su scratch y x \<longleftrightarrow> (\<exists>p b m c base mine theirs t. ex_request x = PutFile p b c m \<and> scratch = Some mine \<and>
     se_merge su base mine theirs = Some b \<and> ex_request y = GetFile p None \<and> serves y theirs t \<and>
     c = (case t of None \<Rightarrow> NoCondition | Some t \<Rightarrow> if t = [] then NoCondition else IfMatch (quoted t)))"

definition careful :: "'t setting \<Rightarrow> bytes option \<Rightarrow> 's exchange set \<Rightarrow> 's exchange \<Rightarrow> bool" where
  "careful su scratch Y x \<longleftrightarrow>
     is_read (ex_request x) \<or> creates x \<or> (\<exists>y\<in>Y. replaces_empty su scratch y x \<or> replaces_merged su scratch y x)"

lemma careful_grows: "grows (careful su scratch)"
  by (auto simp: grows_def careful_def)

text \<open>The edit is on the server: read back from there, or accepted, as it is or merged.\<close>

definition safe_at :: "'t setting \<Rightarrow> bytes \<Rightarrow> 's exchange \<Rightarrow> bool" where
  "safe_at su mine x \<longleftrightarrow>
     (\<exists>p t. ex_request x = GetFile p None \<and> serves x mine t) \<or>
     (\<exists>p b c m. ex_request x = PutFile p b c m \<and> accepts x \<and> (b = mine \<or> (\<exists>base theirs. se_merge su base mine theirs = Some b)))"

definition up_there :: "'t setting \<Rightarrow> bytes option \<Rightarrow> 's exchange set \<Rightarrow> bool" where
  "up_there su scratch Y \<longleftrightarrow> (\<exists>x\<in>Y. \<exists>mine. scratch = Some mine \<and> safe_at su mine x)"

lemma up_there_put:
  "x \<in> Y \<Longrightarrow> scratch = Some mine \<Longrightarrow> ex_request x = PutFile p b c m \<Longrightarrow> accepts x \<Longrightarrow>
    b = mine \<or> (\<exists>base theirs. se_merge su base mine theirs = Some b) \<Longrightarrow> up_there su scratch Y"
  unfolding up_there_def safe_at_def by (rule bexI [of _ x], rule exI [of _ mine], rule conjI, assumption, rule disjI2, fast, assumption)

lemma up_there_mono: "up_there su scratch Y \<Longrightarrow> Y \<subseteq> Z \<Longrightarrow> up_there su scratch Z"
  by (auto simp: up_there_def)

text \<open>How far the resolution is: what it asked since it began, and whether it settled the matter.\<close>

definition seen :: "'s wdav \<Rightarrow> 's wdav \<Rightarrow> 's exchange set" where
  "seen c0 c = set (drop (length (log_of c0)) (log_of c))"

definition stage :: "'s dav_server \<Rightarrow> 't setting \<Rightarrow> bytes option \<Rightarrow> 's wdav \<Rightarrow> bool \<Rightarrow> 's wdav \<Rightarrow> bool" where
  "stage srv su scratch c0 settled c \<longleftrightarrow>
     (\<exists>new. log_of c = log_of c0 @ new \<and> (\<forall>x\<in>set new. genuine srv x) \<and> stepwise (careful su scratch) {} new \<and>
        (settled \<longrightarrow> up_there su scratch (set new)))"

lemma stage_start: "stage srv su scratch c False c"
  by (simp add: stage_def)

lemma stage_weaken: "stage srv su scratch c0 s c \<Longrightarrow> (t \<Longrightarrow> s) \<Longrightarrow> stage srv su scratch c0 t c"
  unfolding stage_def by blast

lemma stage_asks:
  assumes st: "stage srv su scratch c0 s c" and asks: "asks srv A c c' l"
    and A: "\<And>x. A x \<Longrightarrow> careful su scratch (seen c0 c) x" and t: "t \<Longrightarrow> s \<or> up_there su scratch (set l)"
  shows "stage srv su scratch c0 t c'" "set l \<subseteq> seen c0 c'" "seen c0 c \<subseteq> seen c0 c'"
proof -
  obtain new where new: "log_of c = log_of c0 @ new" "\<forall>x\<in>set new. genuine srv x" "stepwise (careful su scratch) {} new"
    "s \<longrightarrow> up_there su scratch (set new)" using st unfolding stage_def by blast
  have l: "log_of c' = log_of c0 @ new @ l" "\<forall>x\<in>set l. genuine srv x \<and> A x" using asks new(1) by (auto simp: asks_def)
  have seen: "seen c0 c = set new" "seen c0 c' = set new \<union> set l" by (simp_all add: seen_def new(1) l(1))
  have "\<forall>x\<in>set l. careful su scratch (set new) x" using l(2) A by (simp add: seen)
  then have "stepwise (careful su scratch) (set new) l" by (rule stepwise_all [OF careful_grows])
  moreover have "t \<longrightarrow> up_there su scratch (set new \<union> set l)" using t new(4) up_there_mono by blast
  ultimately show "stage srv su scratch c0 t c'"
    unfolding stage_def using l new(2,3) by (intro exI [of _ "new @ l"]) auto
  show "set l \<subseteq> seen c0 c'" "seen c0 c \<subseteq> seen c0 c'" by (simp_all add: seen)
qed

lemma stage_reads:
  assumes "stage srv su scratch c0 s c" "asks srv (\<lambda>x. is_read (ex_request x)) c c' l" "t \<Longrightarrow> s \<or> up_there su scratch (set l)"
  shows "stage srv su scratch c0 t c'" "set l \<subseteq> seen c0 c'" "seen c0 c \<subseteq> seen c0 c'"
  using stage_asks [OF assms(1,2) _ assms(3)] by (simp_all add: careful_def)

section \<open>The parts of the resolution\<close>

lemma on_db_dav: "on_db f e = Some (e', r) \<Longrightarrow> en_dav e' = en_dav e"
  by (auto simp: on_db_def split: option.splits sum.splits)

lemma reconcile_if_quiet_dav: "reconcile_if_quiet su since h i p es e = Some (e', r) \<Longrightarrow> en_dav e' = en_dav e"
  by (auto simp: reconcile_if_quiet_def Let_def split: if_splits elim!: run_bind_cases dest!: on_db_dav)

lemma en_dav_more [simp]: "en_dav (tell ns e) = en_dav e" "en_dav (bump_epoch e) = en_dav e"
  by (simp_all add: tell_def bump_epoch_def)

lemma list_dir_stage:
  assumes "se_server su = watched others srv" "stage srv su scratch c0 s (en_dav e)" "list_dir su p e = Some (e', r)"
  shows "stage srv su scratch c0 s (en_dav e')"
proof -
  obtain d where d: "propfind_dir (watched others srv) (se_base su) p (en_dav e) = (d, r)" "en_dav e' = d"
    using assms(1,3) by (auto simp: list_dir_def on_dav_def split: prod.splits)
  from propfind_dir_asks [OF d(1)] stage_reads(1) [OF assms(2)] d(2) show ?thesis by blast
qed

lemma reload_dir_stage:
  assumes "se_server su = watched others srv" "stage srv su scratch c0 s (en_dav e)" "reload_dir su i h e = Some (e', r)"
  shows "stage srv su scratch c0 s (en_dav e')"
proof (cases "node_by_inode (en_db e) i")
  case None
  with assms show ?thesis by (simp add: reload_dir_def)
next
  case (Some d)
  with assms(3) show ?thesis
    using list_dir_stage [OF assms(1,2)]
    by (auto simp: reload_dir_def Let_def elim!: run_bind_cases dest!: reconcile_if_quiet_dav split: if_splits)
qed

lemma same_chunks_True: "same_chunks mine cs broken = Inr True \<Longrightarrow> broken = None \<and> concat cs = mine"
  by (induction mine cs broken rule: same_chunks.induct)
    (auto split: option.splits if_splits, metis append_take_drop_id)

lemma put_buffer_stage:
  assumes srv: "se_server su = watched others srv" and st: "stage srv su scratch c0 s (en_dav e)"
    and small: "sz \<le> chunk_size" and put: "put_buffer su p scratch sz pre m e = Some (e', r)"
    and ok: "\<And>x b. scratch = Some b \<Longrightarrow> ex_request x = PutFile p b (apply_precondition pre) m \<Longrightarrow> careful su scratch (seen c0 (en_dav e)) x"
  shows "stage srv su scratch c0 (s \<or> (\<exists>t. r = Inr (Uploaded t))) (en_dav e')"
proof (cases scratch)
  case None
  with put small st show ?thesis by (auto simp: put_buffer_def)
next
  case (Some b)
  with put small obtain d where d: "put_conditional (watched others srv) p b pre m (en_dav e) = (d, r)" "e' = e\<lparr>en_dav := d\<rparr>"
    by (auto simp: put_buffer_def srv elim!: on_dav_cases)
  from put_conditional_asks [OF d(1)] obtain l where
    l: "asks srv (\<lambda>x. ex_request x = PutFile p b (apply_precondition pre) m) (en_dav e) d l"
    "\<forall>t. r = Inr (Uploaded t) \<longrightarrow> (\<exists>x\<in>set l. accepts x)" by blast
  have "up_there su scratch (set l)" if "\<exists>t. r = Inr (Uploaded t)"
  proof -
    from that l(2) obtain x where x: "x \<in> set l" "accepts x" by blast
    with l(1) have "ex_request x = PutFile p b (apply_precondition pre) m" by (simp add: asks_def)
    from up_there_put [OF x(1) Some this x(2)] show ?thesis by simp
  qed
  with stage_asks(1) [OF st l(1), of "s \<or> (\<exists>t. r = Inr (Uploaded t))"] ok [OF Some] d(2) show ?thesis by auto
qed

lemma same_bytes_stage:
  assumes srv: "se_server su = watched others srv" and st: "stage srv su scratch c0 s (en_dav e)"
    and run: "same_bytes su p scratch e = Some (e', r)"
  shows "stage srv su scratch c0 (s \<or> r = Inr True) (en_dav e')" "seen c0 (en_dav e) \<subseteq> seen c0 (en_dav e')"
proof -
  have "stage srv su scratch c0 (s \<or> r = Inr True) (en_dav e') \<and> seen c0 (en_dav e) \<subseteq> seen c0 (en_dav e')"
  proof (cases scratch)
    case None
    with run st show ?thesis by (auto simp: same_bytes_def)
  next
    case (Some mine)
    obtain d r1 where d: "get_streaming (watched others srv) p (en_dav e) = (d, r1)" by fastforce
    from get_streaming_asks [OF d] obtain l where l: "asks srv (\<lambda>x. is_read (ex_request x)) (en_dav e) d l"
      "\<forall>resp. r1 = Inr resp \<longrightarrow> (\<exists>x\<in>set l. ex_request x = GetFile p None \<and> ex_answer x = Inr resp \<and> fine resp)" by blast
    have e': "en_dav e' = d"
      using run by (auto simp: same_bytes_def Some srv on_dav_def d run_bind_def split: sum.splits)
    have "up_there su scratch (set l)" if "r = Inr True"
    proof -
      from run that obtain resp where resp: "r1 = Inr resp" "same_chunks mine (rs_chunks resp) (rs_broken resp) = Inr True"
        by (auto simp: same_bytes_def Some srv on_dav_def d run_bind_def split: sum.splits)
      from l(2) resp(1) obtain x where x: "x \<in> set l" "ex_request x = GetFile p None" "ex_answer x = Inr resp" "fine resp" by blast
      with same_chunks_True [OF resp(2)] have "serves x mine (etag_from_headers resp)" by (auto simp: serves_def)
      with x Some show ?thesis unfolding up_there_def safe_at_def by blast
    qed
    with stage_reads [OF st l(1), of "s \<or> r = Inr True"] e' show ?thesis by auto
  qed
  then show "stage srv su scratch c0 (s \<or> r = Inr True) (en_dav e')" "seen c0 (en_dav e) \<subseteq> seen c0 (en_dav e')" by simp_all
qed

lemma false_conflict_stage:
  assumes srv: "se_server su = watched others srv" and st: "stage srv su scratch c0 False (en_dav e)"
    and small: "sz \<le> chunk_size" and run: "false_conflict su n scratch sz e = Some (e', r)"
  shows "stage srv su scratch c0 (\<exists>t. r = Inr (Some t)) (en_dav e')"
  using run unfolding false_conflict_def
proof (rule run_bind_cases)
  fix x
  assume a: "on_dav (remote_meta (se_server su) (se_base su) (nd_path n)) e = Some (e', Inl x)" "r = Inl x"
  then obtain d where d: "remote_meta (watched others srv) (se_base su) (nd_path n) (en_dav e) = (d, Inl x)" "en_dav e' = d"
    by (auto simp: srv elim!: on_dav_cases)
  from remote_meta_asks [OF d(1)] stage_reads(1) [OF st] d(2) a(2) show ?thesis by fastforce
next
  fix e1 meta
  assume a: "on_dav (remote_meta (se_server su) (se_base su) (nd_path n)) e = Some (e1, Inr meta)"
    and b: "(case meta of None \<Rightarrow> Some (e1, Inr None)
       | Some (server_size, server_etag) \<Rightarrow>
           run_bind (if unat server_size = sz then same_bytes su (nd_path n) scratch e1 else Some (e1, Inr False)) (\<lambda>same e.
             if same then Some (e, Inr (Some server_etag))
             else if (nd_file_id n = None \<and> nd_etag n = []) \<and> server_size = 0 then
               run_bind (put_buffer su (nd_path n) scratch sz (UploadOver server_etag) None e) (\<lambda>res e.
                 case res of
                   Uploaded etag \<Rightarrow> Some (e, Inr (Some (case etag of None \<Rightarrow> [] | Some t \<Rightarrow> t)))
                 | Conflict \<Rightarrow> Some (e, Inr None))
             else Some (e, Inr None))) = Some (e', r)"
  from a obtain d where d: "remote_meta (watched others srv) (se_base su) (nd_path n) (en_dav e) = (d, Inr meta)" "en_dav e1 = d"
    by (auto simp: srv elim!: on_dav_cases)
  from remote_meta_asks [OF d(1)] obtain l where l: "asks srv (\<lambda>x. is_read (ex_request x)) (en_dav e) d l"
    "\<forall>sz t. meta = Some (sz, t) \<longrightarrow> (\<exists>x\<in>set l. ex_request x = Propfind (nd_path n) False 0 AskMeta \<and> tells (se_base su) x sz t)"
    by auto
  have st1: "stage srv su scratch c0 False (en_dav e1)" and in1: "set l \<subseteq> seen c0 (en_dav e1)"
    using stage_reads(1,2) [OF st l(1), of False] d(2) by simp_all
  show ?thesis
  proof (cases meta)
    case None
    with b st1 show ?thesis by auto
  next
    case (Some m)
    obtain ssz stag where m: "m = (ssz, stag)" by (cases m)
    from l(2) Some m in1 obtain y where y: "y \<in> seen c0 (en_dav e1)" "ex_request y = Propfind (nd_path n) False 0 AskMeta"
      "tells (se_base su) y ssz stag" by blast
    from b [unfolded Some m option.case prod.case] show ?thesis
    proof (rule run_bind_cases)
      fix x
      assume "(if unat ssz = sz then same_bytes su (nd_path n) scratch e1 else Some (e1, Inr False)) = Some (e', Inl x)" "r = Inl x"
      with same_bytes_stage(1) [OF srv st1] show ?thesis by (fastforce split: if_splits)
    next
      fix e2 same
      assume c: "(if unat ssz = sz then same_bytes su (nd_path n) scratch e1 else Some (e1, Inr False)) = Some (e2, Inr same)"
        and f: "(if same then Some (e2, Inr (Some stag))
             else if (nd_file_id n = None \<and> nd_etag n = []) \<and> ssz = 0 then
               run_bind (put_buffer su (nd_path n) scratch sz (UploadOver stag) None e2) (\<lambda>res e.
                 case res of
                   Uploaded etag \<Rightarrow> Some (e, Inr (Some (case etag of None \<Rightarrow> [] | Some t \<Rightarrow> t)))
                 | Conflict \<Rightarrow> Some (e, Inr None))
             else Some (e2, Inr None)) = Some (e', r)"
      have st2: "stage srv su scratch c0 same (en_dav e2)" and y2: "y \<in> seen c0 (en_dav e2)"
        using c same_bytes_stage [OF srv st1, of "nd_path n" e2 "Inr same"] st1 y(1) by (cases "unat ssz = sz"; force)+
      have careful: "careful su scratch (seen c0 (en_dav e2)) x"
        if "scratch = Some b" "ex_request x = PutFile (nd_path n) b (apply_precondition (UploadOver stag)) None" "ssz = 0" for x b
        using that y(2,3) y2 unfolding careful_def replaces_empty_def by (auto simp: quoted_def)
      show ?thesis
      proof (cases "\<not> same \<and> (nd_file_id n = None \<and> nd_etag n = []) \<and> ssz = 0")
        case True
        with f have "run_bind (put_buffer su (nd_path n) scratch sz (UploadOver stag) None e2) (\<lambda>res e.
                 case res of
                   Uploaded etag \<Rightarrow> Some (e, Inr (Some (case etag of None \<Rightarrow> [] | Some t \<Rightarrow> t)))
                 | Conflict \<Rightarrow> Some (e, Inr None)) = Some (e', r)" by auto
        then show ?thesis
        proof (rule run_bind_cases)
          fix x
          assume "put_buffer su (nd_path n) scratch sz (UploadOver stag) None e2 = Some (e', Inl x)" "r = Inl x"
          from put_buffer_stage [OF srv st2 small this(1) careful] True this(2) show ?thesis
            by (simp add: stage_weaken)
        next
          fix e3 res
          assume p: "put_buffer su (nd_path n) scratch sz (UploadOver stag) None e2 = Some (e3, Inr res)"
            and q: "(case res of
                   Uploaded etag \<Rightarrow> Some (e3, Inr (Some (case etag of None \<Rightarrow> [] | Some t \<Rightarrow> t)))
                 | Conflict \<Rightarrow> Some (e3, Inr None)) = Some (e', r)"
          from put_buffer_stage [OF srv st2 small p careful] True
          have "stage srv su scratch c0 (\<exists>t. res = Uploaded t) (en_dav e3)" by simp
          with q show ?thesis by (cases res) (auto elim: stage_weaken)
        qed
      next
        case False
        with f have "e' = e2" "(\<exists>t. r = Inr (Some t)) \<longrightarrow> same" by (auto split: if_splits)
        with st2 show ?thesis by (auto elim: stage_weaken)
      qed
    qed
  qed
qed

lemma settle_false_conflict_stage:
  assumes srv: "se_server su = watched others srv" and st: "stage srv su scratch c0 False (en_dav e)"
    and small: "sz \<le> chunk_size" and run: "settle_false_conflict su i n scratch sz e = Some (e', r)"
  shows "stage srv su scratch c0 (r = Inr True) (en_dav e')"
  using run unfolding settle_false_conflict_def
proof (rule run_bind_cases)
  fix x
  assume "false_conflict su n scratch sz e = Some (e', Inl x)" "r = Inl x"
  with false_conflict_stage [OF srv st small] show ?thesis by fastforce
next
  fix e1 settled
  assume a: "false_conflict su n scratch sz e = Some (e1, Inr settled)"
    and b: "(case settled of None \<Rightarrow> Some (e1, Inr False)
       | Some etag \<Rightarrow>
           map_option (\<lambda>(e, _). (e, Inr True))
             (run_reload_dir su (nd_parent n) i
               (bump_epoch (e1\<lparr>en_db := set_etag_size i etag (of_nat sz) (en_db e1)\<rparr>)))) = Some (e', r)"
  from false_conflict_stage [OF srv st small a] have st1: "stage srv su scratch c0 (settled \<noteq> None) (en_dav e1)" by auto
  show ?thesis
  proof (cases settled)
    case None
    with b st1 show ?thesis by auto
  next
    case (Some etag)
    with b obtain r1 where "reload_dir su (nd_parent n) (Some i)
        (bump_epoch (e1\<lparr>en_db := set_etag_size i etag (of_nat sz) (en_db e1)\<rparr>)) = Some (e', r1)" "r = Inr True"
      by (auto simp: run_reload_dir_def)
    with reload_dir_stage [OF srv _ this(1)] st1 Some show ?thesis by simp
  qed
qed

lemma try_merge_stage:
  assumes srv: "se_server su = watched others srv" and st: "stage srv su scratch c0 False (en_dav e)"
    and run: "try_merge su i n base_etag scratch e = Some (e', r)"
  shows "stage srv su scratch c0 (r = Inr True) (en_dav e')"
proof (cases "se_text_merge su \<and> scratch \<noteq> None")
  case False
  with run st show ?thesis by (auto simp: try_merge_def split: if_splits option.splits)
next
  case True
  then obtain mine where mine: "scratch = Some mine" by blast
  from run True have "run_bind (run_text_merge su n base_etag mine e) (\<lambda>merge e.
      case merge of None \<Rightarrow> Some (e, Inr False) | Some (merged, pre) \<Rightarrow> upload_merge su i n merged pre e) = Some (e', r)"
    by (simp add: try_merge_def mine)
  then have merge: "\<exists>e1 m. run_text_merge su n base_etag mine e = Some (e1, m) \<and> (case m of Inl x \<Rightarrow> e' = e1 \<and> r = Inl x
      | Inr None \<Rightarrow> e' = e1 \<and> r = Inr False | Inr (Some (merged, pre)) \<Rightarrow> upload_merge su i n merged pre e1 = Some (e', r))"
    by (rule run_bind_cases) (auto split: option.splits)
  then obtain e1 m where m: "run_text_merge su n base_etag mine e = Some (e1, m)" "case m of Inl x \<Rightarrow> e' = e1 \<and> r = Inl x
      | Inr None \<Rightarrow> e' = e1 \<and> r = Inr False | Inr (Some (merged, pre)) \<Rightarrow> upload_merge su i n merged pre e1 = Some (e', r)" by blast
  have st1: "stage srv su scratch c0 False (en_dav e1) \<and> (\<forall>merged pre. m = Inr (Some (merged, pre)) \<longrightarrow>
      (\<exists>y\<in>seen c0 (en_dav e1). \<exists>base theirs t. ex_request y = GetFile (nd_path n) None \<and> serves y theirs t \<and>
         se_merge su base mine theirs = Some merged \<and> pre = for_upload (case t of None \<Rightarrow> [] | Some t \<Rightarrow> t) True))"
  proof (cases "base_etag = [] \<or> cached_bytes (n\<lparr>nd_etag := base_etag\<rparr>) (en_content e) = None")
    case True
    with m(1) have "e1 = e" "m = Inr None" by (auto simp: run_text_merge_def split: if_splits)
    with st show ?thesis by simp
  next
    case False
    then obtain base where base: "base_etag \<noteq> []" "cached_bytes (n\<lparr>nd_etag := base_etag\<rparr>) (en_content e) = Some base" by auto
    obtain d g where d: "get_with_etag (watched others srv) (nd_path n) (en_dav e) = (d, g)" by fastforce
    from get_with_etag_asks [OF d] obtain l where l: "asks srv (\<lambda>x. is_read (ex_request x)) (en_dav e) d l"
      "\<forall>b t. g = Inr (b, t) \<longrightarrow> (\<exists>x\<in>set l. ex_request x = GetFile (nd_path n) None \<and> serves x b t)" by blast
    have e1: "en_dav e1 = d" and g: "m = Inr (Some (merged, pre)) \<Longrightarrow> \<exists>theirs t. g = Inr (theirs, t) \<and>
        se_merge su base mine theirs = Some merged \<and> pre = for_upload (case t of None \<Rightarrow> [] | Some t \<Rightarrow> t) True" for merged pre
      using m(1) base by (auto simp: run_text_merge_def on_dav_def srv d run_bind_def Let_def split: sum.splits if_splits)
    have "\<exists>y\<in>seen c0 d. \<exists>base theirs t. ex_request y = GetFile (nd_path n) None \<and> serves y theirs t \<and>
         se_merge su base mine theirs = Some merged \<and> pre = for_upload (case t of None \<Rightarrow> [] | Some t \<Rightarrow> t) True"
      if mp: "m = Inr (Some (merged, pre))" for merged pre
    proof -
      from g [OF mp] obtain theirs t where t: "g = Inr (theirs, t)" "se_merge su base mine theirs = Some merged"
        "pre = for_upload (case t of None \<Rightarrow> [] | Some t \<Rightarrow> t) True" by blast
      from l(2) t(1) obtain x where "x \<in> set l" "ex_request x = GetFile (nd_path n) None" "serves x theirs t" by blast
      with t stage_reads(2) [OF st l(1), of False] show ?thesis by blast
    qed
    with stage_reads(1) [OF st l(1), of False] e1 show ?thesis by simp
  qed
  show ?thesis
  proof (cases "\<exists>merged pre. m = Inr (Some (merged, pre))")
    case False
    then have "e' = e1 \<and> r \<noteq> Inr True" using m(2) by (auto split: sum.splits option.splits)
    with st1 show ?thesis by (auto elim: stage_weaken)
  next
    case True
    then obtain merged pre where mp: "m = Inr (Some (merged, pre))" by blast
    from st1 mp obtain y base theirs t where y: "y \<in> seen c0 (en_dav e1)" "ex_request y = GetFile (nd_path n) None" "serves y theirs t"
      "se_merge su base mine theirs = Some merged" "pre = for_upload (case t of None \<Rightarrow> [] | Some t \<Rightarrow> t) True" by blast
    obtain d res where d: "put_conditional (watched others srv) (nd_path n) merged pre None (en_dav e1) = (d, res)" by fastforce
    from put_conditional_asks [OF d] obtain l where
      l: "asks srv (\<lambda>x. ex_request x = PutFile (nd_path n) merged (apply_precondition pre) None) (en_dav e1) d l"
      "\<forall>t. res = Inr (Uploaded t) \<longrightarrow> (\<exists>x\<in>set l. accepts x)" by blast
    have careful: "careful su scratch (seen c0 (en_dav e1)) x"
      if x: "ex_request x = PutFile (nd_path n) merged (apply_precondition pre) None" for x
    proof -
      have "apply_precondition pre = (case t of None \<Rightarrow> NoCondition | Some t \<Rightarrow> if t = [] then NoCondition else IfMatch (quoted t))"
        using y(5) by (cases t) (simp_all add: for_upload_def quoted_def)
      with x y(1-4) mine have "replaces_merged su scratch y x" unfolding replaces_merged_def by blast
      with y(1) show ?thesis unfolding careful_def by blast
    qed
    have up: "upload_merge su i n merged pre e1 = Some (e', r)" using m(2) mp by simp
    have e': "en_dav e' = d" and ok: "r = Inr True \<Longrightarrow> \<exists>t. res = Inr (Uploaded t)"
      using up by (auto simp: upload_merge_def on_dav_def srv d run_bind_def Let_def split: sum.splits put_result.splits prod.splits)
    have "up_there su scratch (set l)" if "r = Inr True"
    proof -
      from ok [OF that] l(2) obtain x where x: "x \<in> set l" "accepts x" by blast
      with l(1) have "ex_request x = PutFile (nd_path n) merged (apply_precondition pre) None" by (simp add: asks_def)
      from up_there_put [OF x(1) mine this x(2)] y(4) show ?thesis by blast
    qed
    with stage_asks(1) [OF conjunct1 [OF st1] l(1) careful, of "r = Inr True"] e' show ?thesis by simp
  qed
qed

lemma copy_put_stage:
  assumes "se_server su = watched others srv" "sz \<le> chunk_size" "stage srv su scratch c0 False (en_dav e)"
    "put_buffer su p scratch sz UploadNew None e = Some (e', r)"
  shows "stage srv su scratch c0 (\<exists>t. r = Inr (Uploaded t)) (en_dav e')"
  using put_buffer_stage [OF assms(1,3,2,4)] by (simp add: careful_def creates_def)

lemma upload_copy_stage:
  assumes srv: "se_server su = watched others srv" and small: "sz \<le> chunk_size"
  shows "stage srv su scratch c0 False (en_dav e) \<Longrightarrow> upload_copy su n scratch sz j k e = Some (e', r) \<Longrightarrow>
    stage srv su scratch c0 (\<exists>copy. r = Inr copy) (en_dav e')"
proof (induction k arbitrary: j e)
  case 0
  note put = copy_put_stage [OF srv small 0(1)]
  from 0(2) show ?case unfolding upload_copy.simps [of su n scratch sz j 0 e] Let_def
    by (rule run_bind_cases) (auto dest!: put split: put_result.splits)
next
  case (Suc k)
  note put = copy_put_stage [OF srv small Suc(2)]
  from Suc(3) show ?case unfolding upload_copy.simps [of su n scratch sz j "Suc k" e] Let_def
    by (rule run_bind_cases) (auto dest!: put intro: Suc.IH split: put_result.splits)
qed

lemma run_conflict_resolution_stage:
  assumes srv: "se_server su = watched others srv" and small: "sz \<le> chunk_size"
    and run: "run_conflict_resolution su i n base_etag scratch sz e = Some (e', r)"
  shows "stage srv su scratch (en_dav e) (r = Inr ()) (en_dav e')"
  using run unfolding run_conflict_resolution_def
proof (rule run_bind_cases)
  fix x
  assume "settle_false_conflict su i n scratch sz e = Some (e', Inl x)" "r = Inl x"
  with settle_false_conflict_stage [OF srv stage_start small] show ?thesis by fastforce
next
  fix e1 settled
  assume a: "settle_false_conflict su i n scratch sz e = Some (e1, Inr settled)"
    and b: "(if settled then Some (e1, Inr ()) else run_bind (try_merge su i n base_etag scratch e1)
       (\<lambda>merged e. if merged then Some (e, Inr ()) else keep_both su i n scratch sz e)) = Some (e', r)"
  from settle_false_conflict_stage [OF srv stage_start small a]
  have st1: "stage srv su scratch (en_dav e) settled (en_dav e1)" by simp
  show ?thesis
  proof (cases settled)
    case True
    with b st1 show ?thesis by auto
  next
    case False
    with st1 have st1: "stage srv su scratch (en_dav e) False (en_dav e1)" by simp
    from b False have "run_bind (try_merge su i n base_etag scratch e1)
       (\<lambda>merged e. if merged then Some (e, Inr ()) else keep_both su i n scratch sz e) = Some (e', r)" by simp
    then show ?thesis
    proof (rule run_bind_cases)
      fix x
      assume "try_merge su i n base_etag scratch e1 = Some (e', Inl x)" "r = Inl x"
      with try_merge_stage [OF srv st1] show ?thesis by fastforce
    next
      fix e2 merged
      assume c: "try_merge su i n base_etag scratch e1 = Some (e2, Inr merged)"
        and d: "(if merged then Some (e2, Inr ()) else keep_both su i n scratch sz e2) = Some (e', r)"
      from try_merge_stage [OF srv st1 c] have st2: "stage srv su scratch (en_dav e) merged (en_dav e2)" by simp
      show ?thesis
      proof (cases merged)
        case True
        with d st2 show ?thesis by auto
      next
        case False
        with st2 have st2: "stage srv su scratch (en_dav e) False (en_dav e2)" by simp
        from d False have "keep_both su i n scratch sz e2 = Some (e', r)" by simp
        then show ?thesis unfolding keep_both_def
        proof (rule run_bind_cases)
          fix x
          assume "upload_copy su n scratch sz 0 (max_copy_attempts - 1) e2 = Some (e', Inl x)" "r = Inl x"
          with upload_copy_stage [OF srv small st2] show ?thesis by fastforce
        next
          fix e3 copy
          assume u: "upload_copy su n scratch sz 0 (max_copy_attempts - 1) e2 = Some (e3, Inr copy)"
            and l: "run_reload_dir su (nd_parent n) i (bump_epoch (tell [NoticeConflictCopy (nd_path n) copy] e3)) = Some (e', r)"
          from upload_copy_stage [OF srv small st2 u] have "stage srv su scratch (en_dav e) True (en_dav e3)" by simp
          with reload_dir_stage [OF srv _ l [unfolded run_reload_dir_def]]
          have "stage srv su scratch (en_dav e) True (en_dav e')" by simp
          then show ?thesis by (rule stage_weaken) simp
        qed
      qed
    qed
  qed
qed

section \<open>What it comes to\<close>

definition nameless :: "'s exchange \<Rightarrow> bool" where
  "nameless y \<longleftrightarrow> (\<exists>resp. ex_answer y = Inr resp \<and> etag_from_headers resp \<in> {None, Some []})"

text \<open>
  A change of the file at \<open>l\<close> by a request, in the light of the earlier ones: nothing was there;
  or our bytes replace a version the server had told to be empty; or a merge replaces the version it
  was made with. A server that serves a file without naming its version waives the last.
\<close>

definition fair_overwrite :: "'t setting \<Rightarrow> bytes option \<Rightarrow> ('s \<Rightarrow> 'l \<Rightarrow> (bytes \<times> string) option) \<Rightarrow> 's exchange set \<Rightarrow>
    's exchange \<Rightarrow> 'l \<Rightarrow> bool" where
  "fair_overwrite su scratch held Y x l \<longleftrightarrow>
     held (ex_before x) l = None \<or>
     (\<exists>y\<in>Y. \<exists>old new. held (ex_before x) l = Some old \<and> held (ex_after x) l = Some new \<and>
        (tells (se_base su) y 0 (snd old) \<and> (\<forall>b t. held (ex_before y) l = Some (b, t) \<and> length b < 2 ^ 64 \<longrightarrow> b = [] \<and> t = snd old) \<and>
           scratch = Some (fst new) \<or>
         (\<exists>base mine theirs t. held (ex_before y) l = Some (theirs, t) \<and> (snd old = t \<or> nameless y) \<and>
            scratch = Some mine \<and> se_merge su base mine theirs = Some (fst new))))"

text \<open>The edit, as it is or merged, was the content of a file of the server after a request.\<close>

definition on_server :: "'t setting \<Rightarrow> bytes option \<Rightarrow> ('s \<Rightarrow> 'l \<Rightarrow> (bytes \<times> string) option) \<Rightarrow> 's exchange \<Rightarrow> 'l \<Rightarrow> bool" where
  "on_server su scratch held x l \<longleftrightarrow>
     (\<exists>mine b t. scratch = Some mine \<and> held (ex_after x) l = Some (b, t) \<and>
        (b = mine \<or> (\<exists>base theirs. se_merge su base mine theirs = Some b)))"

lemma quoted_inj [simp]: "quoted s = quoted t \<longleftrightarrow> s = t" "quoted s \<noteq> ''*''"
  by (simp_all add: quoted_def)

context dav_laws
begin

lemma fair_request:
  assumes gen: "genuine srv x" "\<forall>y\<in>Y. genuine srv y" and careful: "careful su scratch Y x" and base: "se_base su = base"
    and changed: "held (ex_after x) l \<noteq> held (ex_before x) l"
  shows "fair_overwrite su scratch held Y x l"
proof -
  have "\<not> is_read (ex_request x)" using read_exchange [OF gen(1)] changed by blast
  with careful consider (new) "creates x" | (empty) y where "y \<in> Y" "replaces_empty su scratch y x"
    | (merged) y where "y \<in> Y" "replaces_merged su scratch y x"
    unfolding careful_def by blast
  then show ?thesis
  proof cases
    case new
    then obtain p b m where "ex_request x = PutFile p b IfNoneMatchAny m" unfolding creates_def by blast
    from put_exchange(2) [OF gen(1) this changed] show ?thesis by (simp add: fair_overwrite_def)
  next
    case empty
    then obtain p b m t where e: "ex_request x = PutFile p b (IfMatch (quoted t)) m" "scratch = Some b"
      "ex_request y = Propfind p False 0 AskMeta" "tells base y 0 t"
      unfolding replaces_empty_def base by blast
    from put_exchange [OF gen(1) e(1) changed] obtain old t' where x: "l = place p" "held (ex_before x) l = Some (old, t)"
      "held (ex_after x) l = Some (b, t')" by (auto split: option.splits)
    have "b' = [] \<and> t'' = t" if h: "held (ex_before y) l = Some (b', t'')" "length b' < 2 ^ 64" for b' t''
    proof -
      from told [OF _ e(3,4) h(1) [unfolded x(1)]] gen(2) empty(1) have "(of_nat (length b') :: u64) = 0" "t'' = t" by simp_all
      moreover from this(1) h(2) have "length b' = 0" by (auto simp: word_of_nat_eq_0_iff dest: nat_dvd_not_less)
      ultimately show ?thesis by simp
    qed
    with x e(2,4) empty(1) show ?thesis unfolding fair_overwrite_def base
      by (intro disjI2 bexI [of _ y] exI [of _ "(old, t)"] exI [of _ "(b, t')"]) simp_all
  next
    case merged
    then obtain p b m c mbase mine theirs t where e: "ex_request x = PutFile p b c m" "scratch = Some mine"
      "se_merge su mbase mine theirs = Some b" "ex_request y = GetFile p None" "serves y theirs t"
      "c = (case t of None \<Rightarrow> NoCondition | Some t \<Rightarrow> if t = [] then NoCondition else IfMatch (quoted t))"
      unfolding replaces_merged_def by blast
    from put_exchange [OF gen(1) e(1) changed] obtain t' where x: "l = place p" "condition_met (held (ex_before x) l) c"
      "held (ex_after x) l = Some (b, t')" by blast
    from served [OF _ e(4,5)] gen(2) merged(1) obtain s where s: "held (ex_before y) l = Some (theirs, s)" "t \<in> {None, Some s}"
      unfolding x(1) by blast
    show ?thesis
    proof (cases "held (ex_before x) l")
      case None
      then show ?thesis by (simp add: fair_overwrite_def)
    next
      case (Some old)
      have "snd old = s \<or> nameless y"
      proof (cases "t \<in> {None, Some []}")
        case True
        with e(5) show ?thesis unfolding serves_def nameless_def by blast
      next
        case False
        with s(2) e(6) have "c = IfMatch (quoted s)" by (cases "s = []") auto
        with x(2) Some show ?thesis by (auto split: prod.splits)
      qed
      with Some s(1) x(3) e(2,3) merged(1) show ?thesis unfolding fair_overwrite_def
        by (intro disjI2 bexI [of _ y] exI [of _ old] exI [of _ "(b, t')"]) auto
    qed
  qed
qed

lemma there:
  assumes "\<forall>x\<in>Y. genuine srv x" "up_there su scratch Y"
  shows "\<exists>x\<in>Y. \<exists>l. on_server su scratch held x l"
proof -
  from assms(2) obtain x mine where x: "x \<in> Y" "scratch = Some mine" "safe_at su mine x" unfolding up_there_def by blast
  with assms(1) have gen: "genuine srv x" by blast
  from x(3) consider (get) p t where "ex_request x = GetFile p None" "serves x mine t"
    | (put) p b c m where "ex_request x = PutFile p b c m" "accepts x" "b = mine \<or> (\<exists>base theirs. se_merge su base mine theirs = Some b)"
    unfolding safe_at_def by blast
  then show ?thesis
  proof cases
    case get
    from served [OF gen get] read_exchange [OF gen] get(1) obtain t' where "held (ex_after x) (place p) = Some (mine, t')" by auto
    with x(1,2) show ?thesis unfolding on_server_def by blast
  next
    case put
    from accepted_put [OF gen put(1,2)] obtain t where "held (ex_after x) (place p) = Some (b, t)" by blast
    with x(1,2) put(3) show ?thesis unfolding on_server_def by blast
  qed
qed

lemma resolution_is_fair:
  assumes "se_server su = watched others srv" "se_base su = base" "sz \<le> chunk_size"
    and "run_conflict_resolution su i n base_etag scratch sz e = Some (e', r)"
    and "log_of (en_dav e) = []" "log_of (en_dav e') = pre @ x # post"
    and "held (ex_after x) l \<noteq> held (ex_before x) l"
  shows "fair_overwrite su scratch held (set pre) x l"
proof -
  from run_conflict_resolution_stage [OF assms(1,3,4)] assms(5,6)
  have g: "\<forall>y\<in>set (pre @ x # post). genuine srv y" and s: "stepwise (careful su scratch) {} (pre @ x # post)"
    unfolding stage_def by auto
  from s have "careful su scratch (set pre) x" by simp
  with g show ?thesis by (intro fair_request [OF _ _ _ assms(2,7)]) simp_all
qed

lemma resolution_keeps_edit:
  assumes "se_server su = watched others srv" "sz \<le> chunk_size"
    and "run_conflict_resolution su i n base_etag scratch sz e = Some (e', Inr ())" "log_of (en_dav e) = []"
  shows "\<exists>x\<in>set (log_of (en_dav e')). \<exists>l. on_server su scratch held x l"
proof -
  from run_conflict_resolution_stage [OF assms(1,2,3)] assms(4) show ?thesis
    unfolding stage_def by (intro there) auto
qed

end

end
