(* ===== verification/Mock_Disk.thy ===== *)
theory Mock_Disk
  imports Core_Content
begin

text \<open>
  The part of \<open>std::fs\<close> the mock server works with, over one directory of a disk: files with
  their bytes and their time of modification, and directories, by the names on the way to them. The
  directory itself has the empty way. There are no links, no limits and no permissions; an error is
  either \<open>NotFound\<close> or one of the others, which is all the server tells apart.
\<close>

type_synonym place = "string list"

datatype disk_entry = DiskFile bytes int | DiskDir

type_synonym disk = "(place \<times> disk_entry) list"

datatype disk_error = DiskMissing | DiskRefused

section \<open>Looking\<close>

definition disk_is_dir :: "disk \<Rightarrow> place \<Rightarrow> bool" where
  "disk_is_dir d p \<longleftrightarrow> map_of d p = Some DiskDir"

fun is_disk_file :: "disk_entry option \<Rightarrow> bool" where
  "is_disk_file (Some (DiskFile b t)) = True"
| "is_disk_file _ = False"

text \<open>A place that is not there: because something on the way is a file, or for lack of it.\<close>

definition disk_absent :: "disk \<Rightarrow> place \<Rightarrow> disk_error" where
  "disk_absent d p = (if \<exists>q\<in>set (prefixes p). is_disk_file (map_of d q) then DiskRefused else DiskMissing)"

definition disk_read :: "disk \<Rightarrow> place \<Rightarrow> disk_error + bytes" where
  "disk_read d p =
     (case map_of d p of
        Some (DiskFile b t) \<Rightarrow> Inr b
      | Some DiskDir \<Rightarrow> Inl DiskRefused
      | None \<Rightarrow> Inl (disk_absent d p))"

text \<open>\<open>read_dir\<close>: what is directly inside, in the order of the disk.\<close>

definition disk_children :: "disk \<Rightarrow> place \<Rightarrow> disk" where
  "disk_children d p = filter (\<lambda>(q, e). q \<noteq> [] \<and> butlast q = p) d"

section \<open>Changing\<close>

definition disk_put :: "place \<Rightarrow> disk_entry \<Rightarrow> disk \<Rightarrow> disk" where
  "disk_put p e d = filter (\<lambda>(q, _). q \<noteq> p) d @ [(p, e)]"

definition create_dir_all :: "place \<Rightarrow> disk \<Rightarrow> disk_error + disk" where
  "create_dir_all p d =
     (if \<exists>q\<in>set (prefixes p). is_disk_file (map_of d q) then Inl DiskRefused
      else Inr (d @ map (\<lambda>q. (q, DiskDir)) (filter (\<lambda>q. map_of d q = None) (prefixes p))))"

text \<open>The parent of a place; that of the whole directory is outside and there.\<close>

definition create_parent :: "place \<Rightarrow> disk \<Rightarrow> disk_error + disk" where
  "create_parent p d = (if p = [] then Inr d else create_dir_all (butlast p) d)"

definition has_parent :: "disk \<Rightarrow> place \<Rightarrow> bool" where
  "has_parent d p \<longleftrightarrow> p = [] \<or> disk_is_dir d (butlast p)"

definition disk_write :: "int \<Rightarrow> place \<Rightarrow> bytes \<Rightarrow> disk \<Rightarrow> disk_error + disk" where
  "disk_write now p b d =
     (if disk_is_dir d p then Inl DiskRefused
      else if \<not> has_parent d p then Inl (disk_absent d p)
      else Inr (disk_put p (DiskFile b now) d))"

definition remove_file :: "place \<Rightarrow> disk \<Rightarrow> disk_error + disk" where
  "remove_file p d =
     (case map_of d p of
        Some (DiskFile b t) \<Rightarrow> Inr (filter (\<lambda>(q, _). q \<noteq> p) d)
      | Some DiskDir \<Rightarrow> Inl DiskRefused
      | None \<Rightarrow> Inl (disk_absent d p))"

definition remove_dir_all :: "place \<Rightarrow> disk \<Rightarrow> disk" where
  "remove_dir_all p d = filter (\<lambda>(q, _). \<not> prefix p q) d"

text \<open>
  \<open>rename\<close>: a file may replace a file, a directory an empty directory; everything below moves
  along, and a directory cannot move into itself.
\<close>

definition disk_rename :: "place \<Rightarrow> place \<Rightarrow> disk \<Rightarrow> disk_error + disk" where
  "disk_rename p dest d =
     (case map_of d p of
        None \<Rightarrow> Inl (disk_absent d p)
      | Some (DiskFile b t) \<Rightarrow>
          if disk_is_dir d dest then Inl DiskRefused
          else if \<not> has_parent d dest then Inl (disk_absent d dest)
          else if dest = p then Inr d
          else Inr (disk_put dest (DiskFile b t) (filter (\<lambda>(q, _). q \<noteq> p) d))
      | Some DiskDir \<Rightarrow>
          if dest = p then Inr d
          else if is_disk_file (map_of d dest) \<or> disk_children d dest \<noteq> [] \<or> prefix p dest then Inl DiskRefused
          else if \<not> has_parent d dest then Inl (disk_absent d dest)
          else
            Inr (map (\<lambda>(q, e). (if prefix p q then dest @ drop (length p) q else q, e)) (filter (\<lambda>(q, _). q \<noteq> dest) d)))"

definition disk_stamp :: "place \<Rightarrow> int option \<Rightarrow> disk \<Rightarrow> disk" where
  "disk_stamp p mtime d =
     (case (mtime, map_of d p) of
        (Some secs, Some (DiskFile b t)) \<Rightarrow> disk_put p (DiskFile b (secs * 1000000000)) d
      | _ \<Rightarrow> d)"

section \<open>What a change leaves alone\<close>

lemma map_of_disk_put [simp]: "map_of (disk_put p e d) q = (if q = p then Some e else map_of d q)"
proof -
  have "map_of (filter (\<lambda>(q, _). q \<noteq> p) d) q = (if q = p then None else map_of d q)" by (induction d) auto
  then show ?thesis by (simp add: disk_put_def map_add_def split: option.split)
qed

lemma map_of_without: "map_of (filter (\<lambda>(q, _). P q) d) q = (if P q then map_of d q else None)"
  by (induction d) auto

lemma create_dir_all_keeps:
  assumes "create_dir_all p d = Inr d'"
  shows "map_of d' q = map_of d q \<or> map_of d q = None \<and> map_of d' q = Some DiskDir"
proof -
  define new where "new = map (\<lambda>q. (q, DiskDir)) (filter (\<lambda>q. map_of d q = None) (prefixes p))"
  have d': "d' = d @ new" using assms by (auto simp: create_dir_all_def new_def split: if_splits)
  have "map_of new q = Some e \<Longrightarrow> e = DiskDir" for e by (drule map_of_SomeD) (auto simp: new_def)
  then show ?thesis by (cases "map_of new q") (auto simp: d' map_add_def split: option.split)
qed

lemma create_parent_keeps:
  "create_parent p d = Inr d' \<Longrightarrow> map_of d' q = map_of d q \<or> map_of d q = None \<and> map_of d' q = Some DiskDir"
  using create_dir_all_keeps by (auto simp: create_parent_def split: if_splits)


end
