(* ===== verification/Mock_Server.thy ===== *)
theory Mock_Server
  imports Mock_Disk Core_Webdav Core_Webdav_Facts
begin

text \<open>
  The mock of a WebDAV server (\<open>crates/wusel-mock/src/lib.rs\<close>): what it answers to a request
  and what it does to the directory it serves and to its staging area, faults injected by names of
  files included. Its hash is that of the standard library, which promises no particular one, and
  the size and the time of a directory are whatever the file system says: both are arguments.
  Reading a request off a connection and writing the answer to it are not modelled: a request
  is what \<open>read_request\<close> makes of the request of the client, with the paths its addresses
  stand for.
\<close>

section \<open>Configuration, state, requests\<close>

datatype hashed = HashNat nat | HashStr string

record mock_config =
  mc_prefix :: string
  mc_group_folders :: "string list"
  mc_hash :: "hashed list \<Rightarrow> u64"
  mc_dir_meta :: "disk \<Rightarrow> place \<Rightarrow> nat \<times> int"

record mock =
  mk_root :: disk
  mk_uploads :: disk
  mk_failed_once :: "string set"
  mk_lost_once :: "string set"
  mk_relist_armed :: "string set"
  mk_relist_spent :: "string set"
  mk_root_listings :: nat
  mk_etag_probes :: nat
  mk_now :: int

record mock_request =
  rq_method :: string
  rq_rel :: string
  rq_depth :: string
  rq_range :: "(u64 \<times> u64 option) option"
  rq_body :: bytes
  rq_asks_etag :: bool
  rq_destination :: "string option"
  rq_if_match :: "string option"
  rq_if_none_match :: "string option"
  rq_upload_rel :: "string option"
  rq_oc_mtime :: "int option"

definition parse_range :: "string \<Rightarrow> (u64 \<times> u64 option) option" where
  "parse_range value =
     (let spec = trim_both is_space value in
      if \<not> prefix ''bytes='' spec then None
      else
        case split_once ''-'' (drop 6 spec) of
          None \<Rightarrow> None
        | Some (start, upto_byte) \<Rightarrow>
            (case parse_u64 (trim_both is_space start) of
               None \<Rightarrow> None
             | Some start \<Rightarrow>
                 let upto_byte = trim_both is_space upto_byte in
                 if upto_byte = [] then Some (start, None)
                 else (case parse_u64 upto_byte of None \<Rightarrow> None | Some upto_byte \<Rightarrow> Some (start, Some upto_byte))))"

text \<open>\<open>Path::components\<close> of a relative path.\<close>

definition components :: "string \<Rightarrow> place" where
  "components rel = filter (\<lambda>c. c \<noteq> [] \<and> c \<noteq> ''.'') (split_char (CHR ''/'') rel)"

definition rel_is_unsafe :: "string \<Rightarrow> bool" where
  "rel_is_unsafe rel \<longleftrightarrow> prefix ''/'' rel \<or> ''..'' \<in> set (split_char (CHR ''/'') rel)"

section \<open>Entity tags and ids\<close>

definition hex_low :: "nat \<Rightarrow> char" where
  "hex_low v = ''0123456789abcdef'' ! v"

fun hex_digits :: "nat \<Rightarrow> nat \<Rightarrow> string" where
  "hex_digits 0 n = []"
| "hex_digits (Suc k) n = hex_digits k (n div 16) @ [hex_low (n mod 16)]"

text \<open>\<open>{:016x}\<close> of 64 bits.\<close>

definition hex16 :: "u64 \<Rightarrow> string" where
  "hex16 h = hex_digits 16 (unat h)"

definition etag_for :: "mock_config \<Rightarrow> nat \<Rightarrow> int \<Rightarrow> string" where
  "etag_for cfg len mtime = hex16 (mc_hash cfg [HashNat len, HashNat (nat mtime)])"

function dir_etag :: "mock_config \<Rightarrow> disk \<Rightarrow> place \<Rightarrow> string" where
  "dir_etag cfg d p =
     hex16 (mc_hash cfg (concat (map (\<lambda>(n, t). [HashStr n, HashStr t])
       (sort_key fst (map (\<lambda>(q, e). (last q, case e of
                              DiskDir \<Rightarrow> dir_etag cfg d q
                            | DiskFile b mtime \<Rightarrow> etag_for cfg (length b) mtime)) (disk_children d p))))))"
  by pat_completeness auto

definition entries_below :: "disk \<Rightarrow> place \<Rightarrow> disk" where
  "entries_below d p = filter (\<lambda>(q, _). strict_prefix p q) d"

lemma entries_below_child:
  assumes "(q, e) \<in> set (disk_children d p)"
  shows "length (entries_below d q) < length (entries_below d p)"
proof -
  have q: "(q, e) \<in> set d" "q \<noteq> []" "butlast q = p" using assms by (auto simp: disk_children_def)
  then have pq: "strict_prefix p q" by (metis append_butlast_last_id prefix_order.less_le prefixI self_append_conv not_Cons_self2)
  have "entries_below d q = filter (\<lambda>(r, _). strict_prefix q r) (entries_below d p)"
    using pq by (auto simp: entries_below_def intro!: filter_cong dest: prefix_order.less_trans)
  moreover have "(q, e) \<in> set (entries_below d p)" using q pq by (simp add: entries_below_def)
  moreover have "\<not> (case (q, e) of (r, _) \<Rightarrow> strict_prefix q r)" by simp
  ultimately show ?thesis by (metis length_filter_less)
qed

termination dir_etag
  by (relation "measure (\<lambda>(cfg, d, p). length (entries_below d p))") (auto simp: entries_below_child)

declare dir_etag.simps [simp del]

function dir_size :: "disk \<Rightarrow> place \<Rightarrow> u64" where
  "dir_size d p =
     sum_list (map (\<lambda>(q, e). case e of DiskDir \<Rightarrow> dir_size d q | DiskFile b mtime \<Rightarrow> of_nat (length b)) (disk_children d p))"
  by pat_completeness auto

termination dir_size
  by (relation "measure (\<lambda>(d, p). length (entries_below d p))") (auto simp: entries_below_child)

declare dir_size.simps [simp del]

definition stable_id :: "mock_config \<Rightarrow> string \<Rightarrow> u64" where
  "stable_id cfg rel = (if rel = [] then 1 else max (drop_bit 1 (mc_hash cfg [HashStr rel])) 2)"

text \<open>The entity tag \<open>metadata\<close> gives rise to, of a file or of a directory itself.\<close>

definition meta_etag :: "mock_config \<Rightarrow> disk \<Rightarrow> place \<Rightarrow> string option" where
  "meta_etag cfg d p =
     (case map_of d p of
        None \<Rightarrow> None
      | Some (DiskFile b mtime) \<Rightarrow> Some (etag_for cfg (length b) mtime)
      | Some DiskDir \<Rightarrow> (case mc_dir_meta cfg d p of (len, mtime) \<Rightarrow> Some (etag_for cfg len mtime)))"

section \<open>Answers\<close>

definition answer :: "u16 \<Rightarrow> string \<Rightarrow> dav_response" where
  "answer status reason =
     \<lparr>rs_status = status, rs_etag = None, rs_chunks = [], rs_events = [], rs_broken = None, rs_reason = reason\<rparr>"

definition created :: dav_response where "created = answer 201 ''Created''"
definition forbidden :: dav_response where "forbidden = answer 403 ''Forbidden''"
definition bad_request :: dav_response where "bad_request = answer 400 ''Bad Request''"
definition not_allowed :: dav_response where "not_allowed = answer 405 ''Method Not Allowed''"
definition precondition_failed :: dav_response where "precondition_failed = answer 412 ''Precondition Failed''"
definition respond_io_error :: dav_response where "respond_io_error = answer 500 ''Internal Server Error''"

fun respond_missing_or_io_error :: "disk_error \<Rightarrow> dav_response" where
  "respond_missing_or_io_error DiskMissing = answer 404 ''Not Found''"
| "respond_missing_or_io_error DiskRefused = respond_io_error"

definition precondition_ok :: "mock_config \<Rightarrow> mock_request \<Rightarrow> disk \<Rightarrow> place \<Rightarrow> bool" where
  "precondition_ok cfg rq d p =
     (let current = map_option quoted (meta_etag cfg d p) in
      (case rq_if_match rq of
         None \<Rightarrow> True
       | Some expected \<Rightarrow> if expected = ''*'' then current \<noteq> None else current = Some expected) \<and>
      (case rq_if_none_match rq of
         None \<Rightarrow> True
       | Some expected \<Rightarrow> if expected = ''*'' then current = None else current \<noteq> Some expected))"

definition etag_headers :: "mock_config \<Rightarrow> disk \<Rightarrow> place \<Rightarrow> string \<Rightarrow> string option" where
  "etag_headers cfg d p rel =
     (if sublist ''.no-etag'' rel then None
      else Some (quoted (case meta_etag cfg d p of None \<Rightarrow> [] | Some etag \<Rightarrow> etag)))"

section \<open>Chunked uploads\<close>

text \<open>The chunks of a staging directory, by name; false when one of them is a directory.\<close>

fun concat_chunks :: "disk \<Rightarrow> bytes \<times> bool" where
  "concat_chunks [] = ([], True)"
| "concat_chunks ((q, DiskFile b t) # es) = (case concat_chunks es of (rest, ok) \<Rightarrow> (b @ rest, ok))"
| "concat_chunks ((q, DiskDir) # es) = ([], False)"

definition strip_suffix :: "string \<Rightarrow> string \<Rightarrow> string option" where
  "strip_suffix suf s = (if suffix suf s then Some (take (length s - length suf) s) else None)"

definition assemble_upload :: "mock_config \<Rightarrow> mock_request \<Rightarrow> string \<Rightarrow> mock \<Rightarrow> mock \<times> dav_response" where
  "assemble_upload cfg rq upload_rel m =
     (case (case strip_suffix ''/.file'' upload_rel of None \<Rightarrow> strip_suffix ''.file'' upload_rel | Some uid \<Rightarrow> Some uid) of
        None \<Rightarrow> (m, bad_request)
      | Some uid \<Rightarrow>
          (case rq_destination rq of
             None \<Rightarrow> (m, bad_request)
           | Some rel \<Rightarrow>
               if rel_is_unsafe rel then (m, forbidden)
               else if \<not> precondition_ok cfg rq (mk_root m) (components rel) then (m, precondition_failed)
               else if \<not> disk_is_dir (mk_uploads m) (components uid) then (m, respond_io_error)
               else
                 let dest = components rel;
                     chunks = sort_key (last \<circ> fst)
                       (filter (\<lambda>(q, _). last q \<noteq> ''.file'') (disk_children (mk_uploads m) (components uid)))
                 in case create_parent dest (mk_root m) of
                      Inl e \<Rightarrow> (m, respond_io_error)
                    | Inr d \<Rightarrow>
                        (case concat_chunks chunks of
                           (body, complete) \<Rightarrow>
                             (case disk_write (mk_now m) dest body d of
                                Inl e \<Rightarrow> (m\<lparr>mk_root := d\<rparr>, respond_io_error)
                              | Inr d \<Rightarrow>
                                  if \<not> complete then (m\<lparr>mk_root := d\<rparr>, respond_io_error)
                                  else
                                    let d = disk_stamp dest (rq_oc_mtime rq) d;
                                        m = m\<lparr>mk_root := d, mk_uploads := remove_dir_all (components uid) (mk_uploads m)\<rparr>
                                    in if sublist ''.proxy-403'' rel then (m, forbidden)
                                       else (m, created\<lparr>rs_etag := etag_headers cfg d dest rel\<rparr>)))))"

definition handle_upload :: "mock_config \<Rightarrow> mock_request \<Rightarrow> string \<Rightarrow> mock \<Rightarrow> mock \<times> dav_response" where
  "handle_upload cfg rq upload_rel m =
     (let staged = components upload_rel in
      if rq_method rq = ''MKCOL'' then
        (case create_dir_all staged (mk_uploads m) of
           Inl e \<Rightarrow> (m, answer 409 ''Conflict'')
         | Inr d \<Rightarrow> (m\<lparr>mk_uploads := d\<rparr>, created))
      else if rq_method rq = ''PUT'' then
        (case create_parent staged (mk_uploads m) of
           Inl e \<Rightarrow> (m, respond_io_error)
         | Inr d \<Rightarrow>
             (case disk_write (mk_now m) staged (rq_body rq) d of
                Inl e \<Rightarrow> (m\<lparr>mk_uploads := d\<rparr>, respond_io_error)
              | Inr d \<Rightarrow> (m\<lparr>mk_uploads := d\<rparr>, created)))
      else if rq_method rq = ''MOVE'' then assemble_upload cfg rq upload_rel m
      else (m, not_allowed))"

section \<open>Files and directories\<close>

definition mock_put :: "mock_config \<Rightarrow> mock_request \<Rightarrow> mock \<Rightarrow> mock \<times> dav_response" where
  "mock_put cfg rq m =
     (let rel = rq_rel rq; p = components rel in
      if suffix ''.fail-once'' rel \<and> rel \<notin> mk_failed_once m then
        (m\<lparr>mk_failed_once := insert rel (mk_failed_once m)\<rparr>, respond_io_error)
      else if suffix ''.fail-perm'' rel then (m, forbidden)
      else if \<not> precondition_ok cfg rq (mk_root m) p then (m, precondition_failed)
      else
        case create_parent p (mk_root m) of
          Inl e \<Rightarrow> (m, respond_io_error)
        | Inr d \<Rightarrow>
            (case disk_write (mk_now m) p (rq_body rq) d of
               Inl e \<Rightarrow> (m\<lparr>mk_root := d\<rparr>, respond_io_error)
             | Inr d \<Rightarrow>
                 let d = disk_stamp p (rq_oc_mtime rq) d;
                     arm = (case rsplit_once (CHR ''/'') rel of
                              Some (dir, _) \<Rightarrow> if suffix ''.relist-fails'' dir \<and> dir \<notin> mk_relist_spent m then {dir} else {}
                            | None \<Rightarrow> {});
                     m = m\<lparr>mk_root := d, mk_relist_armed := arm \<union> mk_relist_armed m\<rparr>
                 in if sublist ''.lost-once.'' rel \<and> rel \<notin> mk_lost_once m then
                      (m\<lparr>mk_lost_once := insert rel (mk_lost_once m)\<rparr>, answer 504 ''Gateway Timeout'')
                    else (m, created\<lparr>rs_etag := etag_headers cfg d p rel\<rparr>)))"

definition mock_mkcol :: "mock_request \<Rightarrow> mock \<Rightarrow> mock \<times> dav_response" where
  "mock_mkcol rq m =
     (let p = components (rq_rel rq) in
      if disk_is_dir (mk_root m) p then (m, not_allowed)
      else
        case create_dir_all p (mk_root m) of
          Inl e \<Rightarrow> (m, answer 409 ''Conflict'')
        | Inr d \<Rightarrow> (m\<lparr>mk_root := d\<rparr>, created))"

definition mock_delete :: "mock_request \<Rightarrow> mock \<Rightarrow> mock \<times> dav_response" where
  "mock_delete rq m =
     (let p = components (rq_rel rq) in
      case (if disk_is_dir (mk_root m) p then Inr (remove_dir_all p (mk_root m)) else remove_file p (mk_root m)) of
        Inl e \<Rightarrow> (m, respond_missing_or_io_error e)
      | Inr d \<Rightarrow> (m\<lparr>mk_root := d\<rparr>, answer 204 ''No Content''))"

definition mock_move :: "mock_request \<Rightarrow> mock \<Rightarrow> mock \<times> dav_response" where
  "mock_move rq m =
     (case rq_destination rq of
        None \<Rightarrow> (m, bad_request)
      | Some rel \<Rightarrow>
          if rel_is_unsafe rel then (m, forbidden)
          else
            case create_parent (components rel) (mk_root m) of
              Inl e \<Rightarrow> (m, respond_io_error)
            | Inr d \<Rightarrow>
                (case disk_rename (components (rq_rel rq)) (components rel) d of
                   Inl e \<Rightarrow> (m\<lparr>mk_root := d\<rparr>, respond_missing_or_io_error e)
                 | Inr d \<Rightarrow> (m\<lparr>mk_root := d\<rparr>, created)))"

definition mock_get :: "mock_config \<Rightarrow> mock_request \<Rightarrow> mock \<Rightarrow> mock \<times> dav_response" where
  "mock_get cfg rq m =
     (let p = components (rq_rel rq) in
      case disk_read (mk_root m) p of
        Inl e \<Rightarrow> (m, respond_missing_or_io_error e)
      | Inr data \<Rightarrow>
          let total = (of_nat (length data) :: u64);
              tagged = (\<lambda>status reason body. (answer status reason)\<lparr>rs_etag := etag_headers cfg (mk_root m) p (rq_rel rq),
                 rs_chunks := if rq_method rq = ''GET'' \<and> body \<noteq> [] then [body] else []\<rparr>)
          in case rq_range rq of
               None \<Rightarrow> (m, tagged 200 ''OK'' data)
             | Some (start, upto_byte) \<Rightarrow>
                 let cap = (if total = 0 then 0 else total - 1);
                     upto_byte = min (case upto_byte of None \<Rightarrow> cap | Some l \<Rightarrow> l) cap
                 in if start \<ge> total \<or> start > upto_byte then (m, tagged 416 ''Range Not Satisfiable'' [])
                    else (m, tagged 206 ''Partial Content'' (take (unat upto_byte + 1 - unat start) (drop (unat start) data))))"

section \<open>Listings\<close>

text \<open>\<open>Some True\<close> for the root of a mount, \<open>Some False\<close> below it.\<close>

fun mount_membership :: "string list \<Rightarrow> string \<Rightarrow> bool option" where
  "mount_membership [] rel = None"
| "mount_membership (gf # gfs) rel =
     (if rel = gf then Some True
      else if prefix gf rel \<and> prefix ''/'' (drop (length gf) rel) then Some False
      else mount_membership gfs rel)"

definition encode_segment :: "string \<Rightarrow> string" where
  "encode_segment seg = concat (map (\<lambda>b.
     if in_range (CHR ''a'') (CHR ''z'') b \<or> in_range (CHR ''A'') (CHR ''Z'') b \<or> in_range (CHR ''0'') (CHR ''9'') b \<or>
        b \<in> {CHR ''-'', CHR ''_'', CHR ''.'', CHR ''~''}
     then [b] else [CHR ''%'', hex_digit (byte b div 16), hex_digit (byte b mod 16)]) seg)"

definition href_for :: "mock_config \<Rightarrow> string \<Rightarrow> bool \<Rightarrow> string" where
  "href_for cfg rel is_dir =
     (let href = mc_prefix cfg @
            concat (map (\<lambda>seg. CHR ''/'' # encode_segment seg) (filter (\<lambda>s. s \<noteq> []) (split_char (CHR ''/'') rel)))
      in if is_dir \<or> href = mc_prefix cfg then href @ ''/'' else href)"

text \<open>
  \<open>entry_xml\<close>, as the events a reader of the document sees; white space between elements is
  not among them.
\<close>

definition xml_props :: "mock_config \<Rightarrow> disk \<Rightarrow> string \<Rightarrow> disk_entry \<Rightarrow> (string \<times> string option) list" where
  "xml_props cfg d rel e =
     (case e of DiskFile b t \<Rightarrow> [(''d:getcontentlength'', Some (print_u64 (of_nat (length b))))] | DiskDir \<Rightarrow> []) @
     [(''d:getlastmodified'', Some ''Mon, 01 Jan 2024 00:00:00 GMT''),
      (''d:getetag'', Some (quoted (case e of
         DiskFile b t \<Rightarrow> etag_for cfg (length b) t | DiskDir \<Rightarrow> dir_etag cfg d (components rel)))),
      (''oc:fileid'', Some (print_u64 (stable_id cfg rel)))] @
     (if e = DiskDir \<and> rel = [] then
        [(''d:quota-used-bytes'', Some (print_u64 (dir_size d []))), (''d:quota-available-bytes'', Some ''1000000000'')]
      else []) @
     (case mount_membership (mc_group_folders cfg) rel of
        None \<Rightarrow> []
      | Some is_root \<Rightarrow> [(''nc:mount-type'', Some ''group''), (''nc:is-mount-root'', Some (if is_root then ''true'' else ''false''))])"

definition entry_xml :: "mock_config \<Rightarrow> disk \<Rightarrow> string \<Rightarrow> disk_entry \<Rightarrow> xml_event list" where
  "entry_xml cfg d rel e = response_events (href_for cfg rel (e = DiskDir)) (e = DiskDir) (xml_props cfg d rel e)"

definition mock_propfind :: "mock_config \<Rightarrow> mock_request \<Rightarrow> mock \<Rightarrow> mock \<times> dav_response" where
  "mock_propfind cfg rq m =
     (let rel = rq_rel rq; p = components rel; deep = (rq_depth rq \<noteq> ''0'') in
      if deep \<and> rel \<in> mk_relist_armed m then
        (m\<lparr>mk_relist_armed := mk_relist_armed m - {rel}, mk_relist_spent := insert rel (mk_relist_spent m)\<rparr>,
         answer 503 ''Service Unavailable'')
      else
        case map_of (mk_root m) p of
          None \<Rightarrow> (m, answer 404 ''Not Found'')
        | Some e \<Rightarrow>
            let m = (if rel \<noteq> [] then m
                     else if deep then m\<lparr>mk_root_listings := mk_root_listings m + 1\<rparr>
                     else if rq_asks_etag rq then m\<lparr>mk_etag_probes := mk_etag_probes m + 1\<rparr>
                     else m);
                inner = (if e = DiskDir \<and> deep then
                           concat (map (\<lambda>(q, c). entry_xml cfg (mk_root m) (if rel = [] then last q else rel @ ''/'' @ last q) c)
                             (disk_children (mk_root m) p))
                         else [])
            in (m, (answer 207 ''Multi-Status'')\<lparr>rs_events :=
                  XStart ''d:multistatus'' # entry_xml cfg (mk_root m) rel e @ inner @ [XEnd ''d:multistatus'']\<rparr>))"

section \<open>The server\<close>

definition handle_conn :: "mock_config \<Rightarrow> mock_request \<Rightarrow> mock \<Rightarrow> mock \<times> dav_response" where
  "handle_conn cfg rq m =
     (case rq_upload_rel rq of
        Some upload_rel \<Rightarrow> if rel_is_unsafe upload_rel then (m, forbidden) else handle_upload cfg rq upload_rel m
      | None \<Rightarrow>
          if rel_is_unsafe (rq_rel rq) then (m, forbidden)
          else if rq_method rq = ''OPTIONS'' then (m, answer 200 ''OK'')
          else if rq_method rq = ''PROPFIND'' then mock_propfind cfg rq m
          else if rq_method rq = ''GET'' \<or> rq_method rq = ''HEAD'' then mock_get cfg rq m
          else if rq_method rq = ''PUT'' then mock_put cfg rq m
          else if rq_method rq = ''MKCOL'' then mock_mkcol rq m
          else if rq_method rq = ''DELETE'' then mock_delete rq m
          else if rq_method rq = ''MOVE'' then mock_move rq m
          else (m, not_allowed))"

text \<open>What the mock reads of a request of the client.\<close>

definition plain_request :: "string \<Rightarrow> string \<Rightarrow> mock_request" where
  "plain_request verb rel =
     \<lparr>rq_method = verb, rq_rel = trim_slashes rel, rq_depth = ''1'', rq_range = None, rq_body = [], rq_asks_etag = False,
      rq_destination = None, rq_if_match = None, rq_if_none_match = None, rq_upload_rel = None, rq_oc_mtime = None\<rparr>"

fun with_condition :: "condition \<Rightarrow> mock_request \<Rightarrow> mock_request" where
  "with_condition NoCondition rq = rq"
| "with_condition IfNoneMatchAny rq = rq\<lparr>rq_if_none_match := Some ''*''\<rparr>"
| "with_condition (IfMatch t) rq = rq\<lparr>rq_if_match := Some t\<rparr>"

fun mock_reads :: "dav_request \<Rightarrow> mock_request" where
  "mock_reads (Propfind path as_dir depth asked) =
     (plain_request ''PROPFIND'' path)\<lparr>rq_depth := decimal depth, rq_asks_etag := (asked \<noteq> AskQuota)\<rparr>"
| "mock_reads (GetFile path window) =
     (plain_request ''GET'' path)\<lparr>rq_range := (case window of
        None \<Rightarrow> None
      | Some (start, upto_byte) \<Rightarrow> parse_range (''bytes='' @ print_u64 start @ ''-'' @ print_u64 upto_byte))\<rparr>"
| "mock_reads (PutFile path body cond mtime) = with_condition cond ((plain_request ''PUT'' path)\<lparr>rq_body := body, rq_oc_mtime := mtime\<rparr>)"
| "mock_reads (Mkcol path) = plain_request ''MKCOL'' path"
| "mock_reads (Delete path is_dir) = plain_request ''DELETE'' path"
| "mock_reads (MoveTo path dest is_dir) = (plain_request ''MOVE'' path)\<lparr>rq_destination := Some (trim_slashes dest)\<rparr>"
| "mock_reads (UpMkcol uid) = (plain_request ''MKCOL'' [])\<lparr>rq_upload_rel := Some uid\<rparr>"
| "mock_reads (UpPut uid name body) = (plain_request ''PUT'' [])\<lparr>rq_upload_rel := Some (uid @ ''/'' @ name), rq_body := body\<rparr>"
| "mock_reads (UpMove uid target amount mtime) =
     (plain_request ''MOVE'' [])\<lparr>rq_upload_rel := Some (uid @ ''/.file''), rq_destination := Some (trim_slashes target), rq_oc_mtime := mtime\<rparr>"
| "mock_reads (UpDelete uid) = (plain_request ''DELETE'' [])\<lparr>rq_upload_rel := Some uid\<rparr>"

definition mock_server :: "mock_config \<Rightarrow> mock dav_server" where
  "mock_server cfg m req = (case handle_conn cfg (mock_reads req) m of (m, resp) \<Rightarrow> (m, Inr resp))"

end
