(* ===== verification/Mock_Laws.thy ===== *)
theory Mock_Laws
  imports Mock_Server Core_Dav_Laws
begin

text \<open>
  The mock keeps the promises a client relies on: the laws of the locale, discharged on its model for
  every hash and every size and time a file system may give its directories.
\<close>

definition mock_place :: "string \<Rightarrow> place" where
  "mock_place p = components (trim_slashes p)"

definition file_held :: "mock_config \<Rightarrow> disk_entry option \<Rightarrow> (bytes \<times> string) option" where
  "file_held cfg e = (case e of Some (DiskFile b t) \<Rightarrow> Some (b, etag_for cfg (length b) t) | _ \<Rightarrow> None)"

definition mock_held :: "mock_config \<Rightarrow> mock \<Rightarrow> place \<Rightarrow> (bytes \<times> string) option" where
  "mock_held cfg m l = file_held cfg (map_of (mk_root m) l)"

lemma file_held_simps [simp]: "file_held cfg None = None" "file_held cfg (Some DiskDir) = None"
  "file_held cfg (Some (DiskFile b t)) = Some (b, etag_for cfg (length b) t)"
  by (simp_all add: file_held_def)

section \<open>Entity tags are plain\<close>

lemma hex_low_plain: "v < 16 \<Longrightarrow> \<not> is_space (hex_low v) \<and> hex_low v \<noteq> CHR 0x22 \<and> hex_low v \<noteq> CHR ''W'' \<and> hex_low v \<noteq> CHR ''w''"
  using sixteen [of v] by (auto simp: hex_low_def is_space_def)

lemma hex_digits_plain: "c \<in> set (hex_digits k n) \<Longrightarrow> \<not> is_space c \<and> c \<noteq> CHR 0x22 \<and> c \<noteq> CHR ''W'' \<and> c \<noteq> CHR ''w''"
  by (induction k arbitrary: n) (auto simp: hex_low_plain)

lemma length_hex_digits [simp]: "length (hex_digits k n) = k"
  by (induction k arbitrary: n) simp_all

lemma hex16_bare: "bare_tag (hex16 h)"
proof -
  have "hex16 h \<noteq> []" using length_hex_digits [of 16 "unat h"] unfolding hex16_def by fastforce
  then show ?thesis using hex_digits_plain [of _ 16 "unat h"] by (auto simp: bare_tag_def hex16_def)
qed

lemma etag_for_plain [simp]: "unquote_etag (quoted (etag_for cfg n t)) = etag_for cfg n t"
  by (simp add: etag_for_def unquote_quoted hex16_bare)

section \<open>Putting a file\<close>

lemma disk_stamp_other: "q \<noteq> p \<Longrightarrow> map_of (disk_stamp p mtime d) q = map_of d q"
  by (auto simp: disk_stamp_def split: option.split disk_entry.split)

lemma disk_stamp_file: "map_of d p = Some (DiskFile b t) \<Longrightarrow> \<exists>t'. map_of (disk_stamp p mtime d) p = Some (DiskFile b t')"
  by (auto simp: disk_stamp_def split: option.split)

lemma create_parent_held: "create_parent p d = Inr d' \<Longrightarrow> file_held cfg (map_of d' q) = file_held cfg (map_of d q)"
  using create_parent_keeps [of p d d' q] by auto

lemma disk_write_cases:
  "disk_write now p b d = Inr d' \<Longrightarrow> map_of d' q = (if q = p then Some (DiskFile b now) else map_of d q)"
  by (auto simp: disk_write_def split: if_splits)

lemma mock_put_cases:
  assumes "mock_put cfg rq m = (m', resp)"
  obtains "\<And>l. mock_held cfg m' l = mock_held cfg m l" "\<not> fine resp"
  | t where "precondition_ok cfg rq (mk_root m) (components (rq_rel rq))" "\<not> disk_is_dir (mk_root m) (components (rq_rel rq))"
      "\<And>l. mock_held cfg m' l = (if l = components (rq_rel rq) then Some (rq_body rq, t) else mock_held cfg m l)"
proof -
  define p where "p = components (rq_rel rq)"
  show ?thesis
  proof (cases "(suffix ''.fail-once'' (rq_rel rq) \<and> rq_rel rq \<notin> mk_failed_once m) \<or> suffix ''.fail-perm'' (rq_rel rq) \<or>
      \<not> precondition_ok cfg rq (mk_root m) p")
    case True
    then have "(\<forall>l. mock_held cfg m' l = mock_held cfg m l) \<and> \<not> fine resp"
      using assms by (auto simp: mock_put_def Let_def mock_held_def p_def [symmetric] fine_def respond_io_error_def forbidden_def
        precondition_failed_def answer_def split: if_splits)
    then show ?thesis using that(1) by blast
  next
    case False
    note go = assms [unfolded mock_put_def Let_def p_def [symmetric]]
    show ?thesis
    proof (cases "create_parent p (mk_root m)")
      case (Inl e)
      with go False have "m' = m" "resp = respond_io_error" by auto
      then show ?thesis using that(1) by (simp add: fine_def respond_io_error_def answer_def)
    next
      case (Inr d)
      show ?thesis
      proof (cases "disk_write (mk_now m) p (rq_body rq) d")
        case (Inl e)
        with go False Inr have "m' = m\<lparr>mk_root := d\<rparr>" "resp = respond_io_error" by auto
        then show ?thesis using that(1) create_parent_held [OF Inr] by (simp add: mock_held_def fine_def respond_io_error_def answer_def)
      next
        case w: (Inr d2)
        have root: "mk_root m' = disk_stamp p (rq_oc_mtime rq) d2"
          using go False Inr w by (auto split: if_splits)
        obtain t where t: "map_of (disk_stamp p (rq_oc_mtime rq) d2) p = Some (DiskFile (rq_body rq) t)"
          using disk_stamp_file disk_write_cases [OF w, of p] by fastforce
        have "mock_held cfg m' l = (if l = p then Some (rq_body rq, etag_for cfg (length (rq_body rq)) t) else mock_held cfg m l)" for l
          using t disk_stamp_other [of l p] disk_write_cases [OF w, of l] create_parent_held [OF Inr, of cfg l]
          by (simp add: mock_held_def root)
        moreover have "\<not> disk_is_dir (mk_root m) p"
          using w create_parent_keeps [OF Inr, of p] by (auto simp: disk_write_def disk_is_dir_def split: if_splits)
        ultimately show ?thesis using that(2) False by (auto simp: p_def)
      qed
    qed
  qed
qed

lemma with_condition_simps [simp]:
  "rq_method (with_condition cond rq) = rq_method rq" "rq_rel (with_condition cond rq) = rq_rel rq"
  "rq_body (with_condition cond rq) = rq_body rq" "rq_upload_rel (with_condition cond rq) = rq_upload_rel rq"
  by (cases cond; simp)+

lemma precondition_met:
  assumes "precondition_ok cfg (with_condition cond ((plain_request verb p)\<lparr>rq_body := b, rq_oc_mtime := mtime\<rparr>)) d l"
    and "\<not> disk_is_dir d l"
  shows "condition_met (file_held cfg (map_of d l)) cond"
proof (cases "map_of d l")
  case None
  with assms(1) show ?thesis
    by (cases cond) (auto simp: precondition_ok_def meta_etag_def plain_request_def split: if_splits)
next
  case (Some e)
  with assms(2) obtain c t where "map_of d l = Some (DiskFile c t)" by (cases e) (auto simp: disk_is_dir_def)
  with assms(1) show ?thesis
    by (cases cond) (auto simp: precondition_ok_def meta_etag_def plain_request_def split: if_splits)
qed

lemma mock_server_put:
  assumes "mock_server cfg m (PutFile p b cond mtime) = (m', r)"
  obtains resp where "r = Inr resp" "\<And>l. mock_held cfg m' l = mock_held cfg m l" "\<not> fine resp"
  | t where "condition_met (mock_held cfg m (mock_place p)) cond"
      "\<And>l. mock_held cfg m' l = (if l = mock_place p then Some (b, t) else mock_held cfg m l)"
proof -
  define rq where "rq = with_condition cond ((plain_request ''PUT'' p)\<lparr>rq_body := b, rq_oc_mtime := mtime\<rparr>)"
  have rq: "rq_method rq = ''PUT''" "rq_rel rq = trim_slashes p" "rq_body rq = b" "rq_upload_rel rq = None"
    by (simp_all add: rq_def plain_request_def)
  show ?thesis
  proof (cases "rel_is_unsafe (rq_rel rq)")
    case True
    with assms rq have "m' = m" "r = Inr forbidden" by (auto simp: mock_server_def handle_conn_def rq_def [symmetric])
    then show ?thesis using that(1) by (simp add: fine_def forbidden_def answer_def)
  next
    case False
    with assms rq obtain resp where resp: "mock_put cfg rq m = (m', resp)" "r = Inr resp"
      by (auto simp: mock_server_def handle_conn_def rq_def [symmetric] split: prod.splits)
    from resp(1) show ?thesis
    proof (cases rule: mock_put_cases)
      case 1
      with that(1) [OF resp(2)] show ?thesis by blast
    next
      case (2 t)
      have "condition_met (mock_held cfg m (mock_place p)) cond"
        using precondition_met [OF 2(1) [unfolded rq_def] 2(2) [unfolded rq_def]] rq(2)
        by (simp add: mock_held_def mock_place_def rq_def)
      moreover have "mock_held cfg m' l = (if l = mock_place p then Some (b, t) else mock_held cfg m l)" for l
        using 2(3) [of l] unfolding rq(2,3) mock_place_def by simp
      ultimately show ?thesis by (rule that(2))
    qed
  qed
qed

section \<open>Reading\<close>

lemma mock_get_root: "mock_get cfg rq m = (m', resp) \<Longrightarrow> m' = m"
  by (auto simp: mock_get_def Let_def split: sum.splits option.splits prod.splits if_splits)

lemma mock_propfind_root: "mock_propfind cfg rq m = (m', resp) \<Longrightarrow> mk_root m' = mk_root m"
  by (auto simp: mock_propfind_def Let_def split: if_splits option.splits)

lemma handle_conn_read:
  assumes "rq_method rq = ''PROPFIND'' \<or> rq_method rq = ''GET''" "rq_upload_rel rq = None" "handle_conn cfg rq m = (m', resp)"
  shows "mk_root m' = mk_root m"
  using assms mock_get_root [of cfg rq m m' resp] mock_propfind_root [of cfg rq m m' resp]
  by (auto simp: handle_conn_def split: if_splits)

lemma mock_server_read:
  assumes "mock_server cfg m req = (m', r)" "is_read req"
  shows "mk_root m' = mk_root m"
proof -
  obtain resp where "handle_conn cfg (mock_reads req) m = (m', resp)"
    using assms(1) by (auto simp: mock_server_def split: prod.splits)
  moreover have "rq_method (mock_reads req) = ''PROPFIND'' \<or> rq_method (mock_reads req) = ''GET''" "rq_upload_rel (mock_reads req) = None"
    using assms(2) by (cases req; simp add: is_read_def plain_request_def)+
  ultimately show ?thesis by (intro handle_conn_read)
qed

lemma mock_server_get:
  assumes "mock_server cfg m (GetFile p None) = (m', Inr resp)" "fine resp"
  shows "\<exists>t. mock_held cfg m (mock_place p) = Some (concat (rs_chunks resp), t) \<and> etag_from_headers resp \<in> {None, Some t}"
proof -
  define rq where "rq = (plain_request ''GET'' p)\<lparr>rq_range := None\<rparr>"
  have safe: "\<not> rel_is_unsafe (trim_slashes p)"
    using assms by (auto simp: mock_server_def handle_conn_def plain_request_def fine_def forbidden_def answer_def)
  with assms(1) have get: "mock_get cfg rq m = (m', resp)"
    by (auto simp: mock_server_def handle_conn_def rq_def plain_request_def split: prod.splits)
  have rq: "rq_rel rq = trim_slashes p" "rq_method rq = ''GET''" "rq_range rq = None" by (simp_all add: rq_def plain_request_def)
  show ?thesis
  proof (cases "disk_read (mk_root m) (mock_place p)")
    case (Inl e)
    with get assms(2) show ?thesis
      by (cases e) (auto simp: mock_get_def rq mock_place_def fine_def answer_def respond_io_error_def)
  next
    case (Inr data)
    then obtain t where t: "map_of (mk_root m) (mock_place p) = Some (DiskFile data t)"
      by (auto simp: disk_read_def split: option.splits disk_entry.splits)
    from get Inr rq have "rs_chunks resp = (if data = [] then [] else [data])"
      "rs_etag resp = etag_headers cfg (mk_root m) (mock_place p) (trim_slashes p)"
      by (auto simp: mock_get_def mock_place_def)
    with t show ?thesis
      by (auto simp: mock_held_def etag_from_headers_def etag_headers_def meta_etag_def)
  qed
qed

section \<open>Asking for metadata\<close>

lemma partial_finish_kept: "partial_finish base_path p = Some e \<Longrightarrow> rem_size e = pe_size p \<and> rem_etag e = pe_etag p"
  by (auto simp: partial_finish_def Let_def split: option.splits if_splits)

lemma quota_names:
  "local_name ''d:quota-used-bytes'' = ''quota-used-bytes''" "local_name ''d:quota-available-bytes'' = ''quota-available-bytes''"
  "field_of ''quota-used-bytes'' = None" "field_of ''quota-available-bytes'' = None"
  by (simp_all add: local_name_def split_once.simps field_of_def)

lemma xml_props_plain: "list_all plain_prop (xml_props cfg d rel e)"
  by (auto simp: xml_props_def plain_prop_def local_names quota_names split: disk_entry.split option.split)

lemma xml_props_set:
  "fold prop_set (xml_props cfg d rel (DiskFile b t)) (partial_default\<lparr>pe_href := href, pe_is_dir := dir\<rparr>) = p \<Longrightarrow>
    pe_size p = of_nat (length b) \<and> pe_etag p = etag_for cfg (length b) t"
  by (auto simp: xml_props_def prop_set_def local_names quota_names field_names parse_print_u64 split: option.split)

lemma mock_server_meta:
  assumes "mock_server cfg m (Propfind p False 0 AskMeta) = (m', Inr resp)" "fine resp"
    and "parse_multistatus (rs_events resp) base = Inr (e # es)" "mock_held cfg m (mock_place p) = Some (b, t)"
  shows "rem_size e = of_nat (length b) \<and> rem_etag e = t"
proof -
  define rel where "rel = trim_slashes p"
  obtain mt where f: "map_of (mk_root m) (components rel) = Some (DiskFile b mt)" "t = etag_for cfg (length b) mt"
    using assms(4) by (auto simp: mock_held_def mock_place_def rel_def file_held_def split: option.splits disk_entry.splits)
  have dec: "decimal 0 = ''0''" by code_simp
  have "rs_events resp = XStart ''d:multistatus'' # entry_xml cfg (mk_root m) rel (DiskFile b mt) @ [XEnd ''d:multistatus'']"
    using assms(1,2) f(1)
    by (auto simp: mock_server_def handle_conn_def plain_request_def mock_propfind_def Let_def rel_def [symmetric] dec fine_def forbidden_def
      answer_def split: if_splits)
  moreover define ev where "ev = entry_xml cfg (mk_root m) rel (DiskFile b mt)"
  ultimately have evs: "rs_events resp = XStart ''d:multistatus'' # ev @ [XEnd ''d:multistatus'']" by simp
  have lm: "local_name ''d:multistatus'' = ''multistatus''" "field_of ''multistatus'' = None"
    by (simp_all add: local_name_def split_once.simps field_of_def)
  define bp where "bp = base_path_of base"
  have w: "whole (rs_events resp)" by (simp add: evs ev_def entry_xml_def response_events_def whole_props)
  have start: "multistatus_event bp (XStart ''d:multistatus'') reading_start = reading_start" by (simp add: lm on_start_def)
  have keep: "rd_entries (multistatus_event bp (XEnd ''d:multistatus'') r) = rd_entries r" for r by (simp add: lm Let_def)
  define q where "q = fold prop_set (xml_props cfg (mk_root m) rel (DiskFile b mt)) (partial_default\<lparr>pe_href := href_for cfg rel False, pe_is_dir := False\<rparr>)"
  have "rd_target reading_start = None" by (simp add: reading_start_def)
  from response_events_fold [OF xml_props_plain this]
  have "rd_entries (fold (multistatus_event bp) ev reading_start) = (case partial_finish bp q of None \<Rightarrow> [] | Some e \<Rightarrow> [e])"
    by (simp add: ev_def entry_xml_def q_def reading_start_def)
  then have "rd_entries (fold (multistatus_event bp) (rs_events resp) reading_start) = (case partial_finish bp q of None \<Rightarrow> [] | Some e \<Rightarrow> [e])"
    using keep start by (simp add: evs del: multistatus_event.simps)
  with assms(3) have "partial_finish bp q = Some e"
    unfolding parse_multistatus_def bp_def [symmetric] multistatus_loop_whole [OF w] by (auto split: option.splits)
  with partial_finish_kept xml_props_set [of cfg "mk_root m" rel b mt, OF q_def [symmetric]] f(2) show ?thesis by simp
qed

section \<open>The interpretation\<close>

interpretation mock: dav_laws "mock_server cfg" base mock_place "mock_held cfg" for cfg base
proof
  fix s s' :: mock and req r and l :: place
  assume "mock_server cfg s req = (s', r)" "is_read req"
  from mock_server_read [OF this] show "mock_held cfg s' l = mock_held cfg s l" by (simp add: mock_held_def)
next
  fix s s' :: mock and p b cond m r and l :: place
  assume "mock_server cfg s (PutFile p b cond m) = (s', r)" "l \<noteq> mock_place p"
  then show "mock_held cfg s' l = mock_held cfg s l" by (elim mock_server_put) simp_all
next
  fix s s' :: mock and p b cond m r
  assume "mock_server cfg s (PutFile p b cond m) = (s', r)" "mock_held cfg s' (mock_place p) \<noteq> mock_held cfg s (mock_place p)"
  then show "condition_met (mock_held cfg s (mock_place p)) cond \<and> (\<exists>t. mock_held cfg s' (mock_place p) = Some (b, t))"
    by (elim mock_server_put) simp_all
next
  fix s s' :: mock and p b cond m resp
  assume "mock_server cfg s (PutFile p b cond m) = (s', Inr resp)" "fine resp"
  then show "\<exists>t. mock_held cfg s' (mock_place p) = Some (b, t)" by (elim mock_server_put) simp_all
next
  fix s s' :: mock and p resp
  assume "mock_server cfg s (GetFile p None) = (s', Inr resp)" "fine resp" "rs_broken resp = None"
  then show "\<exists>t. mock_held cfg s (mock_place p) = Some (concat (rs_chunks resp), t) \<and> etag_from_headers resp \<in> {None, Some t}"
    by (intro mock_server_get)
next
  fix s s' :: mock and p resp e es b t
  assume a: "mock_server cfg s (Propfind p False 0 AskMeta) = (s', Inr resp)" "fine resp"
    "parse_multistatus (rs_events resp) base = Inr (e # es)" "mock_held cfg s (mock_place p) = Some (b, t)"
  from mock_server_meta [OF this] show "rem_size e = of_nat (length b) \<and> rem_etag e = t" .
qed

section \<open>A mock to try things on\<close>

definition sample_mock :: mock_config where
  "sample_mock =
     \<lparr>mc_prefix = ''/dav/al'', mc_group_folders = [],
      mc_hash = (\<lambda>ws. of_nat (sum_list (map (\<lambda>w. case w of HashNat n \<Rightarrow> n | HashStr s \<Rightarrow> length s) ws))),
      mc_dir_meta = (\<lambda>d p. (0, 0))\<rparr>"

definition holding :: "bytes \<Rightarrow> mock" where
  "holding b =
     \<lparr>mk_root = [([], DiskDir), ([''a.txt''], DiskFile b 7)], mk_uploads = [([], DiskDir)], mk_failed_once = {}, mk_lost_once = {},
      mk_relist_armed = {}, mk_relist_spent = {}, mk_root_listings = 0, mk_etag_probes = 0, mk_now = 9\<rparr>"

end
