(* ===== verification/Mock_Uploads.thy ===== *)
theory Mock_Uploads
  imports Mock_Laws
begin

text \<open>
  Chunked uploads, from the client's loop to the file the mock assembles: the chunks are named by
  their offsets, the mock sorts the names as text, and what it puts together is the file.
\<close>

section \<open>Padded numbers are ordered as text\<close>

definition digit_char :: "nat \<Rightarrow> char" where
  "digit_char v = char_of (byte (CHR ''0'') + v)"

lemma digit_char_less: "v < w \<Longrightarrow> w < 10 \<Longrightarrow> digit_char v < digit_char w"
  by (simp add: digit_char_def less_char_def)

lemma decimal_split: "10 \<le> n \<Longrightarrow> decimal n = decimal (n div 10) @ [digit_char (n mod 10)]"
  by (subst decimal.simps) (simp add: digit_char_def del: decimal.simps)

lemma decimal_digit: "n < 10 \<Longrightarrow> decimal n = [digit_char n]"
  by (subst decimal.simps) (simp add: digit_char_def del: decimal.simps)

lemma length_decimal: "1 \<le> k \<Longrightarrow> n < 10 ^ k \<Longrightarrow> length (decimal n) \<le> k"
proof (induction k arbitrary: n rule: nat_induct_at_least)
  case base
  then show ?case by (simp add: decimal_digit del: decimal.simps)
next
  case (Suc k)
  show ?case
  proof (cases "n < 10")
    case True
    then show ?thesis by (simp add: decimal_digit del: decimal.simps)
  next
    case False
    have "n div 10 < 10 ^ k" using Suc.prems by (simp add: less_mult_imp_div_less mult.commute)
    from Suc.IH [OF this] False show ?thesis by (simp add: decimal_split del: decimal.simps)
  qed
qed

lemma padded_step:
  assumes "1 \<le> k" "n < 10 ^ Suc k"
  shows "padded (Suc k) n = padded k (n div 10) @ [digit_char (n mod 10)]"
proof (cases "n < 10")
  case True
  have "replicate (k - 1) (CHR ''0'') @ [CHR ''0''] = replicate k (CHR ''0'')"
    using assms(1) by (metis Suc_diff_1 Suc_le_eq One_nat_def replicate_append_same replicate_Suc)
  moreover have "digit_char 0 = CHR ''0''" by code_simp
  ultimately show ?thesis using True by (simp add: padded_def decimal_digit del: decimal.simps)
next
  case False
  have "n div 10 < 10 ^ k" using assms(2) by (simp add: less_mult_imp_div_less mult.commute)
  with length_decimal [OF assms(1)] False show ?thesis by (simp add: padded_def decimal_split del: decimal.simps)
qed

lemma length_padded: "1 \<le> k \<Longrightarrow> n < 10 ^ k \<Longrightarrow> length (padded k n) = k"
  using length_decimal [of k n] by (simp add: padded_def del: decimal.simps)

lemma padded_less: "1 \<le> k \<Longrightarrow> a < b \<Longrightarrow> b < 10 ^ k \<Longrightarrow> padded k a < padded k b"
proof (induction k arbitrary: a b rule: nat_induct_at_least)
  case base
  then have "padded 1 a = [digit_char a]" "padded 1 b = [digit_char b]" by (simp_all add: padded_def decimal_digit del: decimal.simps)
  moreover have "digit_char a < digit_char b" using base by (simp add: digit_char_less)
  ultimately show ?case by (simp only: list_less_def) simp
next
  case (Suc k)
  have small: "a div 10 < 10 ^ k" "b div 10 < 10 ^ k" using Suc.prems by (simp_all add: less_mult_imp_div_less mult.commute)
  have split: "padded (Suc k) a = padded k (a div 10) @ [digit_char (a mod 10)]"
    "padded (Suc k) b = padded k (b div 10) @ [digit_char (b mod 10)]"
    using Suc.prems Suc.hyps by (simp_all add: padded_step)
  show ?case
  proof (cases "a div 10 = b div 10")
    case True
    with Suc.prems have "a mod 10 < b mod 10" by (metis div_mult_mod_eq nat_add_left_cancel_less)
    then show ?thesis unfolding split True by (simp add: list_less_def lexord_append_leftI digit_char_less)
  next
    case False
    then have "a div 10 < b div 10" using Suc.prems by (meson div_le_mono le_neq_implies_less less_imp_le)
    from Suc.IH [OF this small(2)] have "(padded k (a div 10), padded k (b div 10)) \<in> lexord {(u, v). u < v}"
      by (simp add: list_less_def)
    then show ?thesis unfolding split list_less_def
      by (rule lexord_sufI) (simp add: length_padded [OF Suc.hyps small(1)] length_padded [OF Suc.hyps small(2)])
  qed
qed

section \<open>The chunks of a file\<close>

function chunks_of :: "nat \<Rightarrow> bytes \<Rightarrow> (nat \<times> bytes) list" where
  "chunks_of off rest =
     (if rest = [] then []
      else (off, take chunk_size rest) # chunks_of (off + length (take chunk_size rest)) (drop chunk_size rest))"
  by pat_completeness auto
termination by (relation "measure (\<lambda>(off, rest). length rest)") (auto simp: chunk_size_def)

declare chunks_of.simps [simp del]

lemma chunk_size_pos: "0 < chunk_size"
  by (simp add: chunk_size_def)

lemma chunks_of_bytes: "concat (map snd (chunks_of off rest)) = rest"
proof (induction off rest rule: chunks_of.induct)
  case (1 off rest)
  then show ?case by (cases "rest = []") (simp_all add: chunks_of.simps [of off rest] chunks_of.simps [of _ "[]"])
qed

lemma chunks_of_offsets:
  "c \<in> set (chunks_of off rest) \<Longrightarrow> off \<le> fst c \<and> fst c < off + length rest"
proof (induction off rest rule: chunks_of.induct)
  case (1 off rest)
  show ?case
  proof (cases "rest = []")
    case True
    with 1(2) show ?thesis by (simp add: chunks_of.simps)
  next
    case False
    define off2 where "off2 = off + length (take chunk_size rest)"
    define rest2 where "rest2 = drop chunk_size rest"
    have len: "off2 + length rest2 = off + length rest" "off < off2"
      using False chunk_size_pos by (simp_all add: off2_def rest2_def)
    have "chunks_of off rest = (off, take chunk_size rest) # chunks_of off2 rest2"
      by (simp add: chunks_of.simps [of off rest] False off2_def rest2_def)
    with 1(2) consider "c = (off, take chunk_size rest)" | "c \<in> set (chunks_of off2 rest2)" by auto
    then show ?thesis
    proof cases
      case 1
      with False show ?thesis by simp
    next
      case 2
      with "1.IH" [OF False] have "off2 \<le> fst c \<and> fst c < off2 + length rest2" by (simp only: off2_def rest2_def)
      with len show ?thesis by simp
    qed
  qed
qed

lemma chunks_of_sorted: "sorted_wrt (<) (map fst (chunks_of off rest))"
proof (induction off rest rule: chunks_of.induct)
  case (1 off rest)
  show ?case
  proof (cases "rest = []")
    case True
    then show ?thesis by (simp add: chunks_of.simps)
  next
    case False
    then have "0 < length (take chunk_size rest)" using chunk_size_pos by simp
    then have "\<forall>c\<in>set (chunks_of (off + length (take chunk_size rest)) (drop chunk_size rest)). off < fst c"
      using chunks_of_offsets by fastforce
    with 1(1) [OF False] show ?thesis by (subst chunks_of.simps) (simp add: False del: length_take)
  qed
qed

definition chunk_name :: "nat \<times> bytes \<Rightarrow> string" where
  "chunk_name c = padded 16 (fst c)"

lemma chunk_names_sorted:
  assumes "length bytes \<le> 10 ^ 16"
  shows "sorted_wrt (<) (map chunk_name (chunks_of 0 bytes))"
proof -
  have "\<forall>c\<in>set (chunks_of 0 bytes). fst c < 10 ^ 16" using chunks_of_offsets [of _ 0 bytes] assms by fastforce
  then have "x \<in> set (chunks_of 0 bytes) \<Longrightarrow> y \<in> set (chunks_of 0 bytes) \<Longrightarrow> fst x < fst y \<Longrightarrow> chunk_name x < chunk_name y" for x y
    unfolding chunk_name_def by (intro padded_less) simp_all
  with chunks_of_sorted [of 0 bytes] show ?thesis
    unfolding sorted_wrt_map by (rule sorted_wrt_mono_rel [rotated])
qed

section \<open>Staging\<close>

definition plain_name :: "string \<Rightarrow> bool" where
  "plain_name n \<longleftrightarrow> n \<noteq> [] \<and> CHR ''/'' \<notin> set n \<and> n \<noteq> ''.'' \<and> n \<noteq> ''..''"

lemma split_char_names: "CHR ''/'' \<notin> set a \<Longrightarrow> CHR ''/'' \<notin> set b \<Longrightarrow> split_char (CHR ''/'') (a @ CHR ''/'' # b) = [a, b]"
  by (simp add: split_char_word split_char_last)

lemma components_name: "plain_name a \<Longrightarrow> components a = [a] \<and> \<not> rel_is_unsafe a"
  by (cases a) (auto simp: plain_name_def components_def rel_is_unsafe_def split_char_last)

lemma components_names: "plain_name a \<Longrightarrow> plain_name b \<Longrightarrow> components (a @ CHR ''/'' # b) = [a, b] \<and> \<not> rel_is_unsafe (a @ CHR ''/'' # b)"
  by (cases a) (auto simp: plain_name_def components_def rel_is_unsafe_def split_char_names)

lemma plain_chunk_name: "plain_name (chunk_name c)"
proof -
  have "digit_val x \<noteq> None" if "x \<in> set (chunk_name c)" for x using padded_digits that by (simp add: chunk_name_def)
  moreover have "digit_val (CHR ''/'') = None" "digit_val (CHR ''.'') = None" by (simp_all add: digit_val_def in_range_def)
  moreover have "chunk_name c \<noteq> []" by (simp add: chunk_name_def)
  ultimately show ?thesis by (fastforce simp: plain_name_def)
qed

text \<open>The staging directory of an upload: there, and holding these chunks in the order they came.\<close>

definition file_bytes :: "disk_entry \<Rightarrow> bytes option" where
  "file_bytes e = (case e of DiskFile b t \<Rightarrow> Some b | DiskDir \<Rightarrow> None)"

definition staged :: "string \<Rightarrow> (nat \<times> bytes) list \<Rightarrow> disk \<Rightarrow> bool" where
  "staged uid cs d \<longleftrightarrow> disk_is_dir d [] \<and> disk_is_dir d [uid] \<and>
     map (\<lambda>(q, e). (q, file_bytes e)) (disk_children d [uid]) = map (\<lambda>c. ([uid, chunk_name c], Some (snd c))) cs"

lemma send_mock:
  assumes "handle_conn cfg (mock_reads req) (dv_server c) = (m', resp)" "fine resp"
  shows "\<exists>rep. send (mock_server cfg) req c = (\<lparr>dv_server = m', dv_reports = rep\<rparr>, Inr resp)"
    "\<exists>rep. send_ok (mock_server cfg) req c = (\<lparr>dv_server = m', dv_reports = rep\<rparr>, Inr resp)"
proof -
  have "send_attempts (mock_server cfg) req k (dv_server c) = (m', Inr resp)" for k
    using assms(1) by (cases k) (simp_all add: mock_server_def)
  then show "\<exists>rep. send (mock_server cfg) req c = (\<lparr>dv_server = m', dv_reports = rep\<rparr>, Inr resp)"
    by (simp add: send_def send_retrying_def)
  then show "\<exists>rep. send_ok (mock_server cfg) req c = (\<lparr>dv_server = m', dv_reports = rep\<rparr>, Inr resp)"
    using assms(2) by (auto simp: send_ok_def attempt_def fine_def)
qed

lemma staged_put:
  assumes "staged uid cs d" "chunk_name c \<notin> chunk_name ` set cs"
  shows "create_parent [uid, chunk_name c] d = Inr d"
    and "\<exists>d'. disk_write now [uid, chunk_name c] (snd c) d = Inr d' \<and> staged uid (cs @ [c]) d'"
proof -
  have dirs: "map_of d [] = Some DiskDir" "map_of d [uid] = Some DiskDir" using assms(1) by (simp_all add: staged_def disk_is_dir_def)
  then show "create_parent [uid, chunk_name c] d = Inr d"
    by (simp add: create_parent_def create_dir_all_def)
  have ch: "map (\<lambda>(q, e). (q, file_bytes e)) (disk_children d [uid]) = map (\<lambda>c. ([uid, chunk_name c], Some (snd c))) cs"
    using assms(1) by (simp add: staged_def)
  then have "fst ` set (map (\<lambda>(q, e). (q, file_bytes e)) (disk_children d [uid])) = (\<lambda>c. [uid, chunk_name c]) ` set cs"
    by (simp only:) force
  then have names: "fst ` set (disk_children d [uid]) = (\<lambda>c. [uid, chunk_name c]) ` set cs" by (simp add: image_image case_prod_unfold)
  have new: "[uid, chunk_name c] \<notin> fst ` set d"
  proof
    assume "[uid, chunk_name c] \<in> fst ` set d"
    then have "[uid, chunk_name c] \<in> fst ` set (disk_children d [uid])" by (force simp: disk_children_def)
    with names assms(2) show False by auto
  qed
  define d' where "d' = d @ [([uid, chunk_name c], DiskFile (snd c) now)]"
  have "filter (\<lambda>(q, _). q \<noteq> [uid, chunk_name c]) d = d" using new by (intro filter_True) force
  then have "disk_write now [uid, chunk_name c] (snd c) d = Inr d'"
    using dirs new map_of_SomeD [of d "[uid, chunk_name c]" DiskDir]
    by (force simp: disk_write_def disk_is_dir_def has_parent_def disk_put_def d'_def)
  moreover have "staged uid (cs @ [c]) d'"
    using dirs ch by (simp add: staged_def d'_def disk_is_dir_def map_add_def disk_children_def file_bytes_def)
  ultimately show "\<exists>d'. disk_write now [uid, chunk_name c] (snd c) d = Inr d' \<and> staged uid (cs @ [c]) d'" by blast
qed

lemma put_chunk:
  assumes uid: "plain_name uid" and st: "staged uid cs (mk_uploads (dv_server c))" and new: "chunk_name ch \<notin> chunk_name ` set cs"
  shows "\<exists>rep d'. send_ok (mock_server cfg) (UpPut uid (chunk_name ch) (snd ch)) c =
      (\<lparr>dv_server = (dv_server c)\<lparr>mk_uploads := d'\<rparr>, dv_reports = rep\<rparr>, Inr created) \<and> staged uid (cs @ [ch]) d'"
proof -
  define m where "m = dv_server c"
  obtain d' where d': "disk_write (mk_now m) [uid, chunk_name ch] (snd ch) (mk_uploads m) = Inr d'" "staged uid (cs @ [ch]) d'"
    using staged_put(2) [OF st new] m_def by blast
  have "handle_conn cfg (mock_reads (UpPut uid (chunk_name ch) (snd ch))) m = (m\<lparr>mk_uploads := d'\<rparr>, created)"
    using components_names [OF uid plain_chunk_name, of ch] staged_put(1) [OF st new] d'(1)
    by (simp add: handle_conn_def plain_request_def handle_upload_def m_def)
  from send_mock(2) [OF this [unfolded m_def]] d'(2) show ?thesis by (auto simp: created_def answer_def fine_def m_def)
qed

lemma upload_chunks_staged:
  assumes uid: "plain_name uid" and st: "staged uid cs (mk_uploads (dv_server c))"
    and names: "distinct (map chunk_name (cs @ chunks_of off rest))"
  shows "\<exists>rep d'. upload_chunks (mock_server cfg) uid off rest c =
      (\<lparr>dv_server = (dv_server c)\<lparr>mk_uploads := d'\<rparr>, dv_reports = rep\<rparr>, Inr ()) \<and> staged uid (cs @ chunks_of off rest) d'"
  using st names
proof (induction off rest arbitrary: cs c rule: chunks_of.induct)
  case (1 off rest)
  show ?case
  proof (cases "rest = []")
    case True
    with 1(2) show ?thesis
      by (intro exI [of _ "dv_reports c"] exI [of _ "mk_uploads (dv_server c)"])
        (simp add: True upload_chunks.simps [of _ uid off "[]"] chunks_of.simps [of off "[]"])
  next
    case False
    define ch where "ch = (off, take chunk_size rest)"
    define off2 where "off2 = off + length (take chunk_size rest)"
    define rest2 where "rest2 = drop chunk_size rest"
    have split: "chunks_of off rest = ch # chunks_of off2 rest2"
      by (simp add: chunks_of.simps [of off rest] False ch_def off2_def rest2_def)
    have "chunk_name ch \<notin> chunk_name ` set cs" using 1(3) by (auto simp: split)
    from put_chunk [OF uid 1(2) this] obtain rep d' where put: "send_ok (mock_server cfg) (UpPut uid (chunk_name ch) (snd ch)) c =
        (\<lparr>dv_server = (dv_server c)\<lparr>mk_uploads := d'\<rparr>, dv_reports = rep\<rparr>, Inr created)" "staged uid (cs @ [ch]) d'" by blast
    have IH: "staged uid (cs @ [ch]) (mk_uploads (dv_server c2)) \<Longrightarrow> distinct (map chunk_name ((cs @ [ch]) @ chunks_of off2 rest2)) \<Longrightarrow>
      \<exists>rep d'. upload_chunks (mock_server cfg) uid off2 rest2 c2 = (\<lparr>dv_server = (dv_server c2)\<lparr>mk_uploads := d'\<rparr>, dv_reports = rep\<rparr>, Inr ()) \<and>
        staged uid ((cs @ [ch]) @ chunks_of off2 rest2) d'" for c2
      using 1(1) [OF False] unfolding off2_def rest2_def .
    from IH [of "\<lparr>dv_server = (dv_server c)\<lparr>mk_uploads := d'\<rparr>, dv_reports = rep\<rparr>"] put(2) 1(3)
    obtain rep2 d2 where rec: "upload_chunks (mock_server cfg) uid off2 rest2 \<lparr>dv_server = (dv_server c)\<lparr>mk_uploads := d'\<rparr>, dv_reports = rep\<rparr> =
        (\<lparr>dv_server = (dv_server c)\<lparr>mk_uploads := d2\<rparr>, dv_reports = rep2\<rparr>, Inr ())" "staged uid (cs @ chunks_of off rest) d2"
      by (auto simp: split)
    have "upload_chunks (mock_server cfg) uid off rest c =
        upload_chunks (mock_server cfg) uid off2 rest2 \<lparr>dv_server = (dv_server c)\<lparr>mk_uploads := d'\<rparr>, dv_reports = rep\<rparr>"
      using put(1) by (subst upload_chunks.simps) (simp add: False ch_def chunk_name_def off2_def rest2_def)
    with rec show ?thesis by auto
  qed
qed

section \<open>Assembling\<close>

lemma concat_files:
  "map (\<lambda>(q, e). (q, file_bytes e)) es = map (\<lambda>c. (f c, Some (g c))) cs \<Longrightarrow> concat_chunks es = (concat (map g cs), True)"
proof (induction cs arbitrary: es)
  case (Cons c cs)
  then obtain q e es' where es: "es = (q, e) # es'" "file_bytes e = Some (g c)"
    "map (\<lambda>(q, e). (q, file_bytes e)) es' = map (\<lambda>c. (f c, Some (g c))) cs" by auto
  from es(2) obtain t where "e = DiskFile (g c) t" by (cases e) (auto simp: file_bytes_def)
  with Cons.IH [OF es(3)] es(1) show ?case by simp
qed simp

lemma staged_assembles:
  assumes st: "staged uid cs d" and sorted: "sorted_wrt (<) (map chunk_name cs)"
  shows "concat_chunks (sort_key (last \<circ> fst) (filter (\<lambda>(q, _). last q \<noteq> ''.file'') (disk_children d [uid]))) = (concat (map snd cs), True)"
proof -
  have ch: "map (\<lambda>(q, e). (q, file_bytes e)) (disk_children d [uid]) = map (\<lambda>c. ([uid, chunk_name c], Some (snd c))) cs"
    using st by (simp add: staged_def)
  have "map (last \<circ> fst) (disk_children d [uid]) = map (last \<circ> fst) (map (\<lambda>(q, e). (q, file_bytes e)) (disk_children d [uid]))"
    by (simp add: case_prod_unfold)
  also have "\<dots> = map chunk_name cs" unfolding ch by simp
  finally have names: "map (last \<circ> fst) (disk_children d [uid]) = map chunk_name cs" .
  have not_marker: "chunk_name c \<noteq> ''.file''" for c
  proof
    assume "chunk_name c = ''.file''"
    then have "CHR ''.'' \<in> set (chunk_name c)" by simp
    then show False using padded_digits [of "CHR ''.''" 16 "fst c"] by (simp add: chunk_name_def digit_val_def in_range_def)
  qed
  have "last q \<noteq> ''.file''" if "(q, e) \<in> set (disk_children d [uid])" for q e
  proof -
    have "(last \<circ> fst) (q, e) \<in> set (map (last \<circ> fst) (disk_children d [uid]))" using that by force
    then have "last q \<in> set (map chunk_name cs)" unfolding names by simp
    then obtain c where "last q = chunk_name c" by (auto simp: image_iff)
    with not_marker show ?thesis by metis
  qed
  then have all: "filter (\<lambda>(q, _). last q \<noteq> ''.file'') (disk_children d [uid]) = disk_children d [uid]"
    by (intro filter_True) auto
  have "sorted (map (last \<circ> fst) (disk_children d [uid]))"
    unfolding names using sorted by (rule sorted_wrt_mono_rel [rotated]) simp
  then have "sort_key (last \<circ> fst) (disk_children d [uid]) = disk_children d [uid]" by (rule sort_key_id_if_sorted)
  with all concat_files [OF ch] show ?thesis by simp
qed

text \<open>An upload may begin: nothing is staged under its id.\<close>

definition unstaged :: "string \<Rightarrow> disk \<Rightarrow> bool" where
  "unstaged uid d \<longleftrightarrow> disk_is_dir d [] \<and> (\<forall>q\<in>fst ` set d. \<not> prefix [uid] q)"

lemma stage_directory:
  assumes "unstaged uid d"
  shows "create_dir_all [uid] d = Inr (d @ [([uid], DiskDir)])" "staged uid [] (d @ [([uid], DiskDir)])"
proof -
  have root: "map_of d [] = Some DiskDir" using assms by (simp add: unstaged_def disk_is_dir_def)
  have none: "map_of d [uid] = None" unfolding map_of_eq_None_iff using assms by (auto simp: unstaged_def)
  show "create_dir_all [uid] d = Inr (d @ [([uid], DiskDir)])" by (simp add: create_dir_all_def root none)
  have "disk_children d [uid] = []"
  proof -
    have "\<not> (q \<noteq> [] \<and> butlast q = [uid])" if "(q, e) \<in> set d" for q e
    proof
      assume q: "q \<noteq> [] \<and> butlast q = [uid]"
      then have "prefix [uid] q" by (metis append_butlast_last_id prefixI)
      with assms that show False by (force simp: unstaged_def)
    qed
    then show ?thesis by (auto simp: disk_children_def filter_empty_conv)
  qed
  then show "staged uid [] (d @ [([uid], DiskDir)])"
    using root none by (simp add: staged_def disk_is_dir_def map_add_def disk_children_def)
qed

lemma missing_target:
  assumes "\<not> rel_is_unsafe (trim_slashes target)" "map_of (mk_root (dv_server c)) (mock_place target) = None"
  shows "\<exists>rep. etag_of (mock_server cfg) base target c = (\<lparr>dv_server = dv_server c, dv_reports = rep\<rparr>, Inr None)"
proof -
  have dec: "decimal 0 = ''0''" by code_simp
  have "handle_conn cfg (mock_reads (Propfind target False 0 AskMeta)) (dv_server c) = (dv_server c, answer 404 ''Not Found'')"
    using assms by (simp add: handle_conn_def plain_request_def mock_propfind_def dec mock_place_def Let_def del: decimal.simps)
  then have "send_attempts (mock_server cfg) (Propfind target False 0 AskMeta) k (dv_server c) = (dv_server c, Inr (answer 404 ''Not Found''))" for k
    by (cases k) (simp_all add: mock_server_def)
  then show ?thesis by (simp add: etag_of_def remote_meta_def send_def send_retrying_def attempt_def answer_def)
qed

lemma create_parent_makes:
  assumes "create_parent p d = Inr d'" "p \<noteq> []"
  shows "disk_is_dir d' (butlast p)" "map_of d' p = map_of d p"
proof -
  define new where "new = map (\<lambda>q. (q, DiskDir)) (filter (\<lambda>q. map_of d q = None) (prefixes (butlast p)))"
  have d': "d' = d @ new" and files: "\<forall>q\<in>set (prefixes (butlast p)). \<not> is_disk_file (map_of d q)"
    using assms by (auto simp: create_parent_def create_dir_all_def new_def split: if_splits)
  have look: "map_of new q = (if map_of d q = None \<and> prefix q (butlast p) then Some DiskDir else None)" for q
    unfolding new_def by (simp add: map_of_map_restrict o_def)
  have "\<not> prefix p (butlast p)" using assms(2) by (metis append_butlast_last_id length_append_singleton lessI linorder_not_le prefix_length_le)
  then show "map_of d' p = map_of d p" by (simp add: d' map_add_def look split: option.split)
  have "is_disk_file (map_of d (butlast p)) = False" using files by simp
  then have "map_of d (butlast p) \<noteq> None \<Longrightarrow> map_of d (butlast p) = Some DiskDir"
    by (metis disk_entry.exhaust is_disk_file.simps(1) not_None_eq)
  then show "disk_is_dir d' (butlast p)" by (cases "map_of d (butlast p)") (simp_all add: disk_is_dir_def d' map_add_def look)
qed

lemma etag_of_mock: "etag_of (mock_server cfg) base p c = (c', r) \<Longrightarrow> mk_root (dv_server c') = mk_root (dv_server c)"
proof -
  define req where "req = Propfind p False 0 AskMeta"
  assume etag: "etag_of (mock_server cfg) base p c = (c', r)"
  obtain m' resp where step: "mock_server cfg (dv_server c) req = (m', Inr resp)"
    by (cases "handle_conn cfg (mock_reads req) (dv_server c)") (simp add: mock_server_def)
  have "send_attempts (mock_server cfg) req k (dv_server c) = (m', Inr resp)" for k by (cases k) (simp_all add: step)
  then have "dv_server c' = m'"
    using etag by (auto simp: etag_of_def remote_meta_def send_def send_retrying_def attempt_def req_def split: if_splits sum.splits prod.splits)
  with mock_server_read [OF step] show ?thesis by (simp add: req_def)
qed

lemma strip_marker: "strip_suffix ''/.file'' (uid @ ''/.file'') = Some uid"
  by (simp add: strip_suffix_def suffix_def)

text \<open>Where a new file can be put.\<close>

definition open_target :: "string \<Rightarrow> mock \<Rightarrow> bool" where
  "open_target target m \<longleftrightarrow> \<not> rel_is_unsafe (trim_slashes target) \<and> mock_place target \<noteq> [] \<and>
     map_of (mk_root m) (mock_place target) = None \<and> (\<exists>d. create_parent (mock_place target) (mk_root m) = Inr d)"

lemma assemble_mock:
  assumes uid: "plain_name uid" and st: "staged uid cs (mk_uploads (dv_server c))" and sorted: "sorted_wrt (<) (map chunk_name cs)"
    and target: "open_target target (dv_server c)" "\<not> sublist ''.proxy-403'' (trim_slashes target)"
  shows "\<exists>c' tag t. assemble (mock_server cfg) base uid target amount mtime c = (c', Inr (Uploaded tag)) \<and>
    mock_held cfg (dv_server c') (mock_place target) = Some (concat (map snd cs), t)"
proof -
  define m where "m = dv_server c"
  define dest where "dest = mock_place target"
  obtain d where d: "create_parent dest (mk_root m) = Inr d" "dest \<noteq> []" "map_of (mk_root m) dest = None" "\<not> rel_is_unsafe (trim_slashes target)"
    using target(1) by (auto simp: open_target_def dest_def m_def)
  note made = create_parent_makes [OF d(1,2)]
  obtain d2 where d2: "disk_write (mk_now m) dest (concat (map snd cs)) d = Inr d2"
    using made d(3) by (auto simp: disk_write_def disk_is_dir_def has_parent_def)
  define d3 where "d3 = disk_stamp dest mtime d2"
  obtain t where t: "map_of d3 dest = Some (DiskFile (concat (map snd cs)) t)"
    using disk_stamp_file disk_write_cases [OF d2, of dest] unfolding d3_def by fastforce
  define m' where "m' = m\<lparr>mk_root := d3, mk_uploads := remove_dir_all [uid] (mk_uploads m)\<rparr>"
  define resp where "resp = created\<lparr>rs_etag := etag_headers cfg d3 dest (trim_slashes target)\<rparr>"
  have dot: "plain_name ''.file''" by (simp add: plain_name_def)
  have fresh: "disk_is_dir (mk_uploads m) [uid]" using st by (simp add: staged_def m_def)
  have "handle_conn cfg (mock_reads (UpMove uid target amount mtime)) m = (m', resp)"
    using components_name [OF uid] components_names [OF uid dot] strip_marker [of uid] d(1,4) d2 fresh
      staged_assembles [OF st sorted] target(2)
    by (simp add: handle_conn_def plain_request_def handle_upload_def assemble_upload_def dest_def [unfolded mock_place_def, symmetric]
      precondition_ok_def m_def [symmetric] m'_def resp_def d3_def Let_def)
  then have "mock_server cfg m (UpMove uid target amount mtime) = (m', Inr resp)" by (simp add: mock_server_def)
  then have sent: "send_attempts (mock_server cfg) (UpMove uid target amount mtime) k m = (m', Inr resp)" for k
    by (cases k) simp_all
  have good: "is_success resp" by (simp add: is_success_def resp_def created_def answer_def)
  obtain c1 where c1: "send (mock_server cfg) (UpMove uid target amount mtime) c = (c1, Inr resp)" "dv_server c1 = m'"
    using sent by (simp add: send_def send_retrying_def m_def)
  obtain c2 r where c2: "etag_of (mock_server cfg) base target c1 = (c2, r)" by fastforce
  have "\<exists>tag. assemble (mock_server cfg) base uid target amount mtime c = (c2, Inr (Uploaded tag))"
    using c1(1) c2 good by (cases r) (simp_all add: assemble_def)
  moreover have "mock_held cfg (dv_server c2) dest = Some (concat (map snd cs), etag_for cfg (length (concat (map snd cs))) t)"
    using etag_of_mock [OF c2] c1(2) t by (simp add: mock_held_def m'_def)
  ultimately show ?thesis unfolding dest_def by blast
qed

text \<open>
  C9. A chunked upload arrives whole. Uploading a new file in chunks to the mock ends well, and the
  mock then holds exactly its bytes: chunks are named by their offsets in 16 digits, sorting the
  names as text is sorting the offsets, and assembling them gives back the file, however many chunks
  it takes and however short the last one is, up to ten petabytes.
\<close>

theorem chunked_upload_arrives_whole:
  assumes "plain_name uid" "unstaged uid (mk_uploads (dv_server c))" "open_target target (dv_server c)"
    and "\<not> sublist ''.proxy-403'' (trim_slashes target)" "length body \<le> 10 ^ 16"
  shows "\<exists>c' tag t. put_chunked (mock_server cfg) base uid target (Some body) (length body) UploadNew mtime c =
      (c', Inr (Uploaded tag)) \<and> mock_held cfg (dv_server c') (mock_place target) = Some (body, t)"
proof -
  define m where "m = dv_server c"
  obtain rep1 where c1: "etag_of (mock_server cfg) base target c = (\<lparr>dv_server = m, dv_reports = rep1\<rparr>, Inr None)"
    using missing_target assms(3) unfolding open_target_def m_def by blast
  define up where "up = mk_uploads m @ [([uid], DiskDir)]"
  have dir: "create_dir_all [uid] (mk_uploads m) = Inr up" and st: "staged uid [] up"
    using stage_directory [of uid "mk_uploads m"] assms(2) by (simp_all add: m_def up_def)
  have "handle_conn cfg (mock_reads (UpMkcol uid)) m = (m\<lparr>mk_uploads := up\<rparr>, created)"
    using components_name [OF assms(1)] dir by (simp add: handle_conn_def plain_request_def handle_upload_def)
  then obtain rep2 where c2: "send_ok (mock_server cfg) (UpMkcol uid) \<lparr>dv_server = m, dv_reports = rep1\<rparr> =
      (\<lparr>dv_server = m\<lparr>mk_uploads := up\<rparr>, dv_reports = rep2\<rparr>, Inr created)"
    using send_mock(2) [of cfg "UpMkcol uid" "\<lparr>dv_server = m, dv_reports = rep1\<rparr>" "m\<lparr>mk_uploads := up\<rparr>" created]
    by (auto simp: fine_def created_def answer_def)
  have sorted: "sorted_wrt (<) (map chunk_name (chunks_of 0 body))" by (rule chunk_names_sorted [OF assms(5)])
  then have "distinct (map chunk_name ([] @ chunks_of 0 body))" by (simp add: strict_sorted_iff)
  from upload_chunks_staged [OF assms(1) _ this, of "\<lparr>dv_server = m\<lparr>mk_uploads := up\<rparr>, dv_reports = rep2\<rparr>" cfg] st
  obtain rep3 d' where c3: "upload_chunks (mock_server cfg) uid 0 body \<lparr>dv_server = m\<lparr>mk_uploads := up\<rparr>, dv_reports = rep2\<rparr> =
      (\<lparr>dv_server = m\<lparr>mk_uploads := d'\<rparr>, dv_reports = rep3\<rparr>, Inr ())" "staged uid (chunks_of 0 body) d'" by auto
  define c4 where "c4 = \<lparr>dv_server = m\<lparr>mk_uploads := d'\<rparr>, dv_reports = rep3\<rparr>"
  have "open_target target (dv_server c4)" using assms(3) by (simp add: open_target_def m_def c4_def)
  from assemble_mock [OF assms(1) _ sorted this assms(4), of cfg base "length body" mtime] c3(2)
  obtain c' tag t where end_: "assemble (mock_server cfg) base uid target (length body) mtime c4 = (c', Inr (Uploaded tag))"
    "mock_held cfg (dv_server c') (mock_place target) = Some (body, t)"
    by (auto simp: c4_def chunks_of_bytes)
  have "put_chunked (mock_server cfg) base uid target (Some body) (length body) UploadNew mtime c = (c', Inr (Uploaded tag))"
    using c1 c2 c3(1) end_(1)
    by (simp add: put_chunked_def preflight_def attempt_def upload_chunks_and_assemble_def c4_def)
  with end_(2) show ?thesis by blast
qed

lemma chunked_upload_arrives_whole_witness:
  "\<exists>c' tag t. put_chunked (mock_server sample_mock) ''https://h/dav/al'' ''u1'' ''b.bin'' (Some [1, 2, 3]) 3 UploadNew None
       \<lparr>dv_server = holding [], dv_reports = []\<rparr> = (c', Inr (Uploaded tag)) \<and>
     mock_held sample_mock (dv_server c') [''b.bin''] = Some ([1, 2, 3], t)"
proof -
  have name: "plain_name ''u1''" by (simp add: plain_name_def)
  have none: "unstaged ''u1'' (mk_uploads (holding []))" by (simp add: unstaged_def holding_def disk_is_dir_def)
  have paths: "trim_slashes ''b.bin'' = ''b.bin''" "rel_is_unsafe ''b.bin'' = False" "components ''b.bin'' = [''b.bin'']"
    "sublist ''.proxy-403'' ''b.bin'' = False" by code_simp+
  then have "open_target ''b.bin'' (holding [])"
    by (simp add: open_target_def mock_place_def holding_def create_parent_def create_dir_all_def)
  with chunked_upload_arrives_whole [of "''u1''" "\<lparr>dv_server = holding [], dv_reports = []\<rparr>" "''b.bin''" "[1, 2, 3]" sample_mock
      "''https://h/dav/al''" None] name none paths
  show ?thesis by (simp add: mock_place_def numeral_3_eq_3)
qed

end
