(* ===== verification/Mock_Reads.thy ===== *)
theory Mock_Reads
  imports Mock_Laws
begin

text \<open>
  Reading a window of a file: the range the client asks for, the text of its header, and the slice
  the mock serves.
\<close>

lemma split_once_char: "x \<notin> set w \<Longrightarrow> split_once [x] (w @ x # s) = Some (w, s)"
  by (induction w) (auto simp: split_once.simps [of _ "_ # _"])

lemma print_u64_plain: "c \<in> set (print_u64 n) \<Longrightarrow> digit_val c \<noteq> None" "print_u64 n \<noteq> []"
  using decimal_digits [of c "unat n"] by (simp_all add: print_u64_def del: decimal.simps)

lemma trim_digits [simp]: "trim_both is_space (print_u64 n) = print_u64 n"
  by (rule trim_both_id) (meson digit_plain hd_in_set last_in_set print_u64_plain(1))+

lemma parse_range_printed: "parse_range (''bytes='' @ print_u64 a @ ''-'' @ print_u64 b) = Some (a, Some b)"
proof -
  define s where "s = ''bytes='' @ print_u64 a @ ''-'' @ print_u64 b"
  have ends: "s \<noteq> []" "hd s = CHR ''b''" "last s = last (print_u64 b)"
    using print_u64_plain(2) [of b] by (simp_all add: s_def)
  have "\<not> is_space (last (print_u64 b))" using digit_plain print_u64_plain by (meson last_in_set)
  with ends have "trim_both is_space s = s" by (intro trim_both_id) (simp_all add: is_space_def)
  moreover have "CHR ''-'' \<notin> set (print_u64 a)"
  proof
    assume "CHR ''-'' \<in> set (print_u64 a)"
    from print_u64_plain(1) [OF this] show False by (simp add: digit_val_def in_range_def)
  qed
  then have "split_once ''-'' (print_u64 a @ ''-'' @ print_u64 b) = Some (print_u64 a, print_u64 b)"
    using split_once_char by simp
  ultimately show ?thesis
    using print_u64_plain(2) [of b] by (simp add: parse_range_def s_def [symmetric] Let_def) (simp add: s_def parse_print_u64)
qed

text \<open>
  C33. A range read is exact. Reading a window that begins inside a file gives exactly the bytes of
  the window, cut at the end of the file: the last byte asked for is inclusive on the wire and
  nothing is off by one, at either end, for any window that does not pass the end of the numbers.
\<close>

theorem range_reads_are_exact:
  assumes "mock_held cfg (dv_server c) (mock_place p) = Some (body, t)" "\<not> rel_is_unsafe (trim_slashes p)" "length body < 2 ^ 64"
    and "unat start < length body" "len \<noteq> 0" "unat start + unat len \<le> 2 ^ 64"
  shows "\<exists>c'. get (mock_server cfg) p (Some (start, len)) c = (c', Inr (take (unat len) (drop (unat start) body)))"
proof -
  define m where "m = dv_server c"
  define lst where "lst = start + len - 1"
  have len: "0 < unat len" using assms(5) by (simp add: unat_gt_0)
  have lst: "unat lst = unat start + unat len - 1"
  proof -
    have "unat (start + (len - 1)) = unat start + unat (len - 1)"
    proof (rule unat_add_lem [THEN iffD1])
      have "unat (len - 1) = unat len - 1" using assms(5) by (simp add: unat_minus_one)
      with assms(6) len show "unat start + unat (len - 1) < 2 ^ LENGTH(64)" by simp
    qed
    moreover have "unat (len - 1) = unat len - 1" using assms(5) by (simp add: unat_minus_one)
    moreover have "lst = start + (len - 1)" by (simp add: lst_def)
    ultimately show ?thesis using len by simp
  qed
  obtain mt where f: "map_of (mk_root m) (mock_place p) = Some (DiskFile body mt)"
    using assms(1) by (auto simp: mock_held_def m_def file_held_def split: option.splits disk_entry.splits)
  define total where "total = (of_nat (length body) :: u64)"
  have total: "unat total = length body" using assms(3) by (simp add: total_def unat_of_nat)
  have nz: "total \<noteq> 0" using total assms(4) by (metis not_less_zero unat_0)
  have cap: "unat (total - 1) = length body - 1" using nz total by (simp add: unat_minus_one)
  define until where "until = min lst (total - 1)"
  have until: "unat until = min (unat start + unat len - 1) (length body - 1)"
    using lst cap by (simp add: until_def min_def word_le_nat_alt)
  have inside: "\<not> total \<le> start" "\<not> until < start"
    using assms(4) total until len by (simp_all add: word_le_nat_alt word_less_nat_alt)
  define slice where "slice = take (Suc (unat until) - unat start) (drop (unat start) body)"
  have slice: "slice = take (unat len) (drop (unat start) body)"
    unfolding slice_def until using assms(4) len by (auto simp: min_def intro!: take_all_iff [THEN iffD2] simp: take_all)
  have some: "\<not> Suc (unat until) \<le> unat start" "\<not> length body \<le> unat start" using until assms(4) len by simp_all
  then have "slice \<noteq> []" by (simp add: slice_def)
  note some = some this
  define resp where "resp = (answer 206 ''Partial Content'')\<lparr>rs_etag := etag_headers cfg (mk_root m) (mock_place p) (trim_slashes p), rs_chunks := [slice]\<rparr>"
  have "handle_conn cfg (mock_reads (GetFile p (Some (start, lst)))) m = (m, resp)"
    using assms(2) f nz inside some
    by (simp add: handle_conn_def plain_request_def parse_range_printed [simplified] mock_get_def Let_def disk_read_def
      mock_place_def [symmetric] total_def [symmetric] until_def [symmetric] slice_def [symmetric] resp_def)
  then have "send_attempts (mock_server cfg) (GetFile p (Some (start, lst))) k m = (m, Inr resp)" for k
    by (cases k) (simp_all add: mock_server_def)
  then obtain c' where "send (mock_server cfg) (GetFile p (Some (start, lst))) c = (c', Inr resp)"
    by (simp add: send_def send_retrying_def m_def)
  then show ?thesis
    using assms(5) slice by (simp add: get_def attempt_def lst_def [symmetric] missing_or_def error_for_status_def resp_def answer_def all_bytes_def)
qed

lemma range_reads_are_exact_witness:
  "\<exists>c'. get (mock_server sample_mock) ''a.txt'' (Some (1, 5)) \<lparr>dv_server = holding [7, 8, 9], dv_reports = []\<rparr> = (c', Inr [8, 9])"
proof -
  have "mock_held sample_mock (holding [7, 8, 9]) (mock_place ''a.txt'') = Some ([7, 8, 9], etag_for sample_mock 3 7)"
  proof -
    have "mock_place ''a.txt'' = [''a.txt'']" by code_simp
    then show ?thesis by (simp add: mock_held_def holding_def numeral_3_eq_3)
  qed
  moreover have "\<not> rel_is_unsafe (trim_slashes ''a.txt'')" by code_simp
  ultimately show ?thesis
    using range_reads_are_exact [of sample_mock "\<lparr>dv_server = holding [7, 8, 9], dv_reports = []\<rparr>" "''a.txt''" "[7, 8, 9]"
        "etag_for sample_mock 3 7" 1 5] by simp
qed

end
