(* ===== verification/Core_Decider.thy ===== *)
theory Core_Decider
  imports Fsm_Runs Fsm_Snapshot Core_Activity Core_Content
begin

text \<open>
  The deciding thread and the queues it feeds (\<open>crates/wusel-core/src/runtime.rs\<close>): the messages
  that reach it, the two-tier queue of the network pool, the queues of the other pools, and one
  turn of the loop for each message. A channel is the list of what was sent on it, in order. The
  locks of the source guard single operations and are left out.
\<close>

section \<open>Payloads and messages\<close>

datatype file_state =
    FileOnlineOnly | FileCached | FilePinned | FilePinnedPending | FilePinnedStale | FileModified
  | FileUploading | FileSyncError

datatype payload =
    NoPayload
  | PayloadBytes bytes
  | PayloadNode inode node
  | PayloadEntries "(inode \<times> node) list"
  | PayloadWritten u32
  | PayloadState "file_state option" bool

datatype deliver = ToFlow | Detached | Beside request_id

record dispatched =
  di_object :: object_id
  di_job :: job
  di_deliver :: deliver

record answered_message =
  an_requests :: "request_id list"
  an_outcome :: Fsm_Machine.outcome
  an_payload :: payload

datatype message =
    RequestMessage request
  | AbandonMessage request_id
  | Completed object_id completion payload
  | Refreshed object_id
  | CompletedBeside request_id completion payload
  | ResumeUpload object_id string "i64 option"
  | DiagMessage
  | StopMessage

text \<open>What a worker reports of a job it has run: the tail of its loop in \<open>spawn_worker\<close>.\<close>

definition report :: "dispatched \<Rightarrow> completion \<Rightarrow> payload \<Rightarrow> message" where
  "report d c p =
     (case di_deliver d of
        Detached \<Rightarrow> Refreshed (di_object d)
      | Beside t \<Rightarrow> CompletedBeside t c p
      | ToFlow \<Rightarrow> Completed (di_object d) c p)"

section \<open>The queue of the network pool\<close>

record net_queue =
  nq_interactive :: "dispatched list"
  nq_background :: "dispatched list"
  nq_closed :: bool

definition net_queue_new :: net_queue where
  "net_queue_new = \<lparr>nq_interactive = [], nq_background = [], nq_closed = False\<rparr>"

text \<open>One look of \<open>pop\<close> at the queue: it takes a job, sees the end, or waits to be woken.\<close>

datatype popped = Took dispatched | EndOfStream | Waits

definition net_pop :: "net_queue \<Rightarrow> net_queue \<times> popped" where
  "net_pop q =
     (case nq_interactive q of
        d # rest \<Rightarrow> (q\<lparr>nq_interactive := rest\<rparr>, Took d)
      | [] \<Rightarrow>
          (case nq_background q of
             d # rest \<Rightarrow> (q\<lparr>nq_background := rest\<rparr>, Took d)
           | [] \<Rightarrow> (q, if nq_closed q then EndOfStream else Waits)))"

definition background_len :: "net_queue \<Rightarrow> nat" where
  "background_len q = length (nq_background q)"

text \<open>\<open>None\<close>: the queue is closed.\<close>

definition net_send :: "dispatched \<Rightarrow> net_queue \<Rightarrow> net_queue option" where
  "net_send d q =
     (if nq_closed q then None
      else if di_deliver d = Detached then Some (q\<lparr>nq_background := nq_background q @ [d]\<rparr>)
      else Some (q\<lparr>nq_interactive := nq_interactive q @ [d]\<rparr>))"

definition net_drop :: "net_queue \<Rightarrow> net_queue" where
  "net_drop q = q\<lparr>nq_interactive := [], nq_background := [], nq_closed := True\<rparr>"

section \<open>The queues of all pools\<close>

text \<open>\<open>qu_gone\<close>: the pools whose workers have all ended, so that a send on their channel fails.\<close>

record queues =
  qu_db_read :: "dispatched list"
  qu_db_write :: "dispatched list"
  qu_file :: "dispatched list"
  qu_net :: net_queue
  qu_gone :: "executor list"

definition queues_new :: queues where
  "queues_new = \<lparr>qu_db_read = [], qu_db_write = [], qu_file = [], qu_net = net_queue_new, qu_gone = []\<rparr>"

definition queues_send :: "object_id \<Rightarrow> job \<Rightarrow> deliver \<Rightarrow> queues \<Rightarrow> queues option" where
  "queues_send obj job how qs =
     (let d = \<lparr>di_object = obj, di_job = job, di_deliver = how\<rparr> in
      if job_executor job = Net then map_option (\<lambda>q. qs\<lparr>qu_net := q\<rparr>) (net_send d (qu_net qs))
      else if job_executor job \<in> set (qu_gone qs) then None
      else
        Some (case job_executor job of
                DbRead \<Rightarrow> qs\<lparr>qu_db_read := qu_db_read qs @ [d]\<rparr>
              | DbWrite \<Rightarrow> qs\<lparr>qu_db_write := qu_db_write qs @ [d]\<rparr>
              | _ \<Rightarrow> qs\<lparr>qu_file := qu_file qs @ [d]\<rparr>))"

section \<open>The deciding thread\<close>

definition max_refresh_backlog :: nat where
  "max_refresh_backlog = 64"

text \<open>
  \<open>de_scheduled\<close> is what the thread has sent to itself, \<open>de_diags\<close> what it answered to those who
  asked for a picture; \<open>de_activity\<close> is \<open>None\<close> where the substrate runs without a network.
\<close>

record decider =
  de_machine :: machine
  de_payloads :: "(object_id, payload) hash_map"
  de_refreshing :: "object_id list"
  de_queues :: queues
  de_answers :: "answered_message list"
  de_scheduled :: "request list"
  de_activity :: "activity option"
  de_diags :: "(machine_snapshot \<times> nat) list"

definition decider_new :: "bool \<Rightarrow> activity option \<Rightarrow> decider" where
  "decider_new async_upload act =
     \<lparr>de_machine = set_async_upload machine_new async_upload, de_payloads = [], de_refreshing = [],
      de_queues = queues_new, de_answers = [], de_scheduled = [], de_activity = act, de_diags = []\<rparr>"

definition no_ticket :: request_id where
  "no_ticket = RequestId 0"

definition say_answer :: "answered_message \<Rightarrow> decider \<Rightarrow> decider" where
  "say_answer a d = d\<lparr>de_answers := de_answers d @ [a]\<rparr>"

definition take_payload :: "object_id \<Rightarrow> decider \<Rightarrow> payload" where
  "take_payload obj d = (case hm_get (de_payloads d) obj of Some p \<Rightarrow> p | None \<Rightarrow> NoPayload)"

definition dispatch :: "object_id \<Rightarrow> job \<Rightarrow> deliver \<Rightarrow> decider \<Rightarrow> decider option" where
  "dispatch obj job how d = map_option (\<lambda>qs. d\<lparr>de_queues := qs\<rparr>) (queues_send obj job how (de_queues d))"

text \<open>The arms of the loop over the actions; \<open>None\<close>: a pool is gone and the thread returns.\<close>

definition perform :: "action \<Rightarrow> decider \<Rightarrow> decider option" where
  "perform a d =
     (case a of
        Dispatch obj job \<Rightarrow> dispatch obj job ToFlow d
      | ReadBeside obj job t \<Rightarrow> dispatch obj job (Beside t) d
      | RefreshBeside obj \<Rightarrow>
          (if obj \<in> set (de_refreshing d) \<or> is_busy (de_machine d) obj then Some d
           else if background_len (qu_net (de_queues d)) \<ge> max_refresh_backlog then Some d
           else dispatch obj (ListRemote obj) Detached (d\<lparr>de_refreshing := obj # de_refreshing d\<rparr>))
      | Schedule obj i \<Rightarrow>
          Some (d\<lparr>de_scheduled := de_scheduled d @ [\<lparr>rq_id = no_ticket, rq_object = obj, rq_intent = i\<rparr>]\<rparr>)
      | Answer obj ts out \<Rightarrow>
          Some (say_answer \<lparr>an_requests = ts, an_outcome = out, an_payload = take_payload obj d\<rparr>
                  (d\<lparr>de_payloads := hm_remove obj (de_payloads d)\<rparr>)))"

fun perform_all :: "action list \<Rightarrow> decider \<Rightarrow> decider option" where
  "perform_all [] d = Some d"
| "perform_all (a # as) d = (case perform a d of None \<Rightarrow> None | Some d \<Rightarrow> perform_all as d)"

definition machine_says :: "machine \<times> action list \<Rightarrow> decider \<Rightarrow> decider \<times> action list" where
  "machine_says x d = (case x of (m, acts) \<Rightarrow> (d\<lparr>de_machine := m\<rparr>, acts))"

definition resume_upload :: "object_id \<Rightarrow> string \<Rightarrow> i64 option \<Rightarrow> decider \<Rightarrow> decider \<times> action list" where
  "resume_upload obj base_etag mtime d =
     (let m = de_machine d in
      if is_busy m obj then (d, [])
      else
        let m = (if fa_buffer_open (registry_facts (mc_registry m) obj) then m
                 else m\<lparr>mc_registry := registry_open (mc_registry m) obj
                          \<lparr>bf_dirty = True, bf_base_etag = base_etag, bf_pending_mtime = mtime,
                           bf_ignored = False\<rparr>\<rparr>)
        in machine_says (on_request m \<lparr>rq_id = no_ticket, rq_object = obj, rq_intent = Publish\<rparr>) d)"

text \<open>The match on the message: what is left to do, and whose completion it was.\<close>

definition receive :: "message \<Rightarrow> decider \<Rightarrow> decider \<times> action list \<times> object_id option" where
  "receive msg d =
     (case msg of
        RequestMessage r \<Rightarrow> (case machine_says (on_request (de_machine d) r) d of (d, acts) \<Rightarrow> (d, acts, None))
      | AbandonMessage t \<Rightarrow> (case machine_says (abandon (de_machine d) t) d of (d, acts) \<Rightarrow> (d, acts, None))
      | Completed obj c p \<Rightarrow>
          (let d = (if p = NoPayload then d else d\<lparr>de_payloads := hm_insert obj p (de_payloads d)\<rparr>)
           in case machine_says (on_completion (de_machine d) obj c) d of (d, acts) \<Rightarrow> (d, acts, Some obj))
      | Refreshed obj \<Rightarrow> (d\<lparr>de_refreshing := removeAll obj (de_refreshing d)\<rparr>, [], None)
      | CompletedBeside t c p \<Rightarrow>
          (case on_beside (de_machine d) t c of
             (m, out) \<Rightarrow>
               (say_answer \<lparr>an_requests = [t], an_outcome = out, an_payload = p\<rparr> (d\<lparr>de_machine := m\<rparr>), [], None))
      | ResumeUpload obj base_etag mtime \<Rightarrow>
          (case resume_upload obj base_etag mtime d of (d, acts) \<Rightarrow> (d, acts, None))
      | DiagMessage \<Rightarrow>
          (d\<lparr>de_diags := de_diags d @ [(snapshot (de_machine d), length (de_refreshing d))]\<rparr>, [], None)
      | StopMessage \<Rightarrow> (d, [], None))"

definition report_activity :: "decider \<Rightarrow> decider" where
  "report_activity d =
     d\<lparr>de_activity := map_option (\<lambda>a. set_busy a (map object_raw (changing_objects (de_machine d)))) (de_activity d)\<rparr>"

definition drop_leftover :: "object_id option \<Rightarrow> decider \<Rightarrow> decider" where
  "drop_leftover completed d =
     (case completed of
        None \<Rightarrow> d
      | Some obj \<Rightarrow>
          if is_busy (de_machine d) obj then d else d\<lparr>de_payloads := hm_remove obj (de_payloads d)\<rparr>)"

text \<open>One turn of the loop. \<open>None\<close>: the thread has returned, and with it went its end of the queues.\<close>

definition turn :: "message \<Rightarrow> decider \<Rightarrow> decider option" where
  "turn msg d =
     (if msg = StopMessage then None
      else
        case receive msg d of
          (d, acts, completed) \<Rightarrow> map_option (drop_leftover completed) (perform_all acts (report_activity d)))"

section \<open>What a worker may answer\<close>

text \<open>
  The kind of completion each job has, and the payload that goes with it. A failed job carries
  nothing. Every worker answers like this (see the theory of the workers).
\<close>

definition answer_fits :: "job \<Rightarrow> completion \<Rightarrow> payload \<Rightarrow> bool" where
  "answer_fits job c p \<longleftrightarrow>
     (case c of
        JobFailed f \<Rightarrow> p = NoPayload
      | _ \<Rightarrow>
          (case job of
             ReadNode obj \<Rightarrow>
               \<exists>n. c = Node n \<and> (if nf_found n then \<exists>i row. p = PayloadNode i row else p = NoPayload)
           | ReadChild parent name \<Rightarrow>
               \<exists>n. c = Node n \<and> (if nf_found n then \<exists>i row. p = PayloadNode i row else p = NoPayload)
           | ReadState obj open_buffer \<Rightarrow> c = StateKnown \<and> (\<exists>s g. p = PayloadState s g)
           | ReadChildren obj \<Rightarrow> c = Listed \<and> (\<exists>rows. p = PayloadEntries rows)
           | ReadBuffer obj off len \<Rightarrow> c = Bytes \<and> (\<exists>bs. p = PayloadBytes bs)
           | ReadBlob obj off len \<Rightarrow> c = Bytes \<and> (\<exists>bs. p = PayloadBytes bs)
           | FetchRange obj off len \<Rightarrow> c = Bytes \<and> (\<exists>bs. p = PayloadBytes bs)
           | WriteBuffer obj off len \<Rightarrow> c = JobDone \<and> p = PayloadWritten len
           | BufferSize obj \<Rightarrow> (\<exists>n. c = Size n) \<and> p = NoPayload
           | Upload obj sz pre mtime \<Rightarrow> ((\<exists>etag. c = Uploaded etag sz) \<or> c = Rejected) \<and> p = NoPayload
           | ListRemote obj \<Rightarrow> c = Listed \<and> p = NoPayload
           | _ \<Rightarrow> c = JobDone \<and> p = NoPayload))"

end
