(* ===== verification/Core_Answers.thy ===== *)
theory Core_Answers
  imports Core_Decider
begin

text \<open>
  What the answers of the machine owe their callers. A request is answered with a payload of the
  kind its caller can use; the kinds follow the request through joins, queues and hand-overs. Here
  is the part that concerns the machine alone: an event answers nobody who expects a payload,
  except the callers of the one flow that has just ended, and a flow that holds a result for later
  is never the subject of an answer.
\<close>

section \<open>Kinds of answers\<close>

fun delivers :: "intent \<Rightarrow> payload \<Rightarrow> bool" where
  "delivers (Fetch off len) p \<longleftrightarrow> (\<exists>bs. p = PayloadBytes bs)"
| "delivers (Write off len) p \<longleftrightarrow> (\<exists>n. p = PayloadWritten n)"
| "delivers Stat p \<longleftrightarrow> (\<exists>i row. p = PayloadNode i row)"
| "delivers (Lookup name) p \<longleftrightarrow> (\<exists>i row. p = PayloadNode i row)"
| "delivers State p \<longleftrightarrow> (\<exists>s g. p = PayloadState s g)"
| "delivers (SetAttr sz mtime exec) p \<longleftrightarrow> (\<exists>i row. p = PayloadNode i row)"
| "delivers Enumerate p \<longleftrightarrow> (\<exists>rows. p = PayloadEntries rows)"
| "delivers (Materialise name dir exec) p \<longleftrightarrow> (\<exists>i row. p = PayloadNode i row)"
| "delivers i p \<longleftrightarrow> True"

definition owes_nothing :: "intent \<Rightarrow> bool" where
  "owes_nothing i \<longleftrightarrow> delivers i = (\<lambda>p. True)"

text \<open>Two requests may share an answer if the same payloads satisfy both.\<close>

definition same_kind :: "intent \<Rightarrow> intent \<Rightarrow> bool" where
  "same_kind i j \<longleftrightarrow> delivers i = delivers j"

lemma same_kind_refl [simp]: "same_kind i i"
  by (simp add: same_kind_def)

lemma owes_nothing_simps [simp]:
  "owes_nothing Publish" "owes_nothing Refresh" "owes_nothing Relist" "owes_nothing (Remove n)"
  "owes_nothing (Move n to nm)" "owes_nothing (Delete p)" "owes_nothing (Relocate p to nm)"
  by (auto simp: owes_nothing_def)

lemma owes_nothing_kind: "same_kind i j \<Longrightarrow> owes_nothing j \<Longrightarrow> owes_nothing i"
  by (simp add: same_kind_def owes_nothing_def)

lemma same_as_publish: "same_kind i Publish \<Longrightarrow> owes_nothing i"
  by (erule owes_nothing_kind) simp

lemma owes_nothing_both: "owes_nothing i \<Longrightarrow> owes_nothing j \<Longrightarrow> same_kind i j"
  by (simp add: same_kind_def owes_nothing_def)

text \<open>The steps of a flow whose answer has been found while there is still something to do.\<close>

definition holds_result :: "flow \<Rightarrow> bool" where
  "holds_result flow \<longleftrightarrow> fl_step flow \<in> {MatBuffer, AttrPrepare, AttrTruncate, AttrMtime, AttrExec, AttrFinal}"

lemma holds_result_frame [simp]:
  "holds_result (flow\<lparr>fl_waiters := ws\<rparr>) = holds_result flow"
  "holds_result (flow\<lparr>fl_abort := ab\<rparr>) = holds_result flow"
  by (simp_all add: holds_result_def)

section \<open>The invariant of the machine\<close>

definition flow_kind :: "(request_id \<Rightarrow> intent) \<Rightarrow> flow \<Rightarrow> bool" where
  "flow_kind asked flow \<longleftrightarrow>
     (\<forall>t \<in> set (fl_waiters flow). same_kind (asked t) (fl_intent flow)) \<and>
     (fl_step flow = Handover \<longrightarrow> owes_nothing (fl_intent flow))"

definition queue_kind :: "(request_id \<Rightarrow> intent) \<Rightarrow> request list \<Rightarrow> bool" where
  "queue_kind asked q \<longleftrightarrow> (\<forall>r \<in> set q. same_kind (asked (rq_id r)) (rq_intent r))"

text \<open>A metadata read beside a busy object: which of the two it is follows from its ticket.\<close>

definition beside_flow :: "(request_id \<Rightarrow> intent) \<Rightarrow> request_id \<Rightarrow> flow \<Rightarrow> bool" where
  "beside_flow asked t flow \<longleftrightarrow> \<not> fl_abort flow \<and>
     (same_kind (asked t) Stat \<and> fl_step flow = StatNode \<or> same_kind (asked t) State \<and> fl_step flow = StateRead)"

definition kinds :: "(request_id \<Rightarrow> intent) \<Rightarrow> machine \<Rightarrow> bool" where
  "kinds asked m \<longleftrightarrow>
     (\<forall>k b. hm_get (mc_busy m) k = Some b \<longrightarrow> flow_kind asked (bz_flow b) \<and> queue_kind asked (bz_queue b)) \<and>
     (\<forall>t f. hm_get (mc_beside m) t = Some f \<longrightarrow> beside_flow asked t f)"

lemma queue_kind_simps [simp]:
  "queue_kind asked []"
  "queue_kind asked (r # q) \<longleftrightarrow> same_kind (asked (rq_id r)) (rq_intent r) \<and> queue_kind asked q"
  "queue_kind asked (q @ q') \<longleftrightarrow> queue_kind asked q \<and> queue_kind asked q'"
  by (auto simp: queue_kind_def)

lemma kinds_frame [simp]:
  "kinds asked (m\<lparr>mc_registry := reg\<rparr>) = kinds asked m"
  "kinds asked (m\<lparr>mc_releases := rs\<rparr>) = kinds asked m"
  "kinds asked (end_release m flow) = kinds asked m"
  by (simp_all add: kinds_def end_release_def split: option.split)

lemma kinds_put: "kinds asked m \<Longrightarrow> flow_kind asked flow \<Longrightarrow> queue_kind asked q \<Longrightarrow> kinds asked (put_busy m obj flow out q)"
  by (auto simp: kinds_def put_busy_def store_simps)

lemma kinds_take: "kinds asked m \<Longrightarrow> kinds asked (m\<lparr>mc_busy := hm_remove obj (mc_busy m)\<rparr>)"
  by (auto simp: kinds_def store_simps)

lemma kinds_busy:
  "kinds asked m \<Longrightarrow> hm_get (mc_busy m) k = Some b \<Longrightarrow> flow_kind asked (bz_flow b) \<and> queue_kind asked (bz_queue b)"
  by (simp add: kinds_def)

section \<open>What an operation leaves behind\<close>

definition quiet_answers :: "(request_id \<Rightarrow> intent) \<Rightarrow> action list \<Rightarrow> bool" where
  "quiet_answers asked acts \<longleftrightarrow> (\<forall>obj ts. Answer obj ts Ok \<in> set acts \<longrightarrow> (\<forall>t \<in> set ts. owes_nothing (asked t)))"

definition spares_holders :: "machine \<Rightarrow> action list \<Rightarrow> bool" where
  "spares_holders m acts \<longleftrightarrow>
     (\<forall>obj ts out b. Answer obj ts out \<in> set acts \<longrightarrow> hm_get (mc_busy m) obj = Some b \<longrightarrow> \<not> holds_result (bz_flow b))"

definition no_new_holders :: "machine \<Rightarrow> machine \<Rightarrow> bool" where
  "no_new_holders m m' \<longleftrightarrow>
     (\<forall>k b'. hm_get (mc_busy m') k = Some b' \<longrightarrow> holds_result (bz_flow b') \<longrightarrow>
        (\<exists>b. hm_get (mc_busy m) k = Some b \<and> holds_result (bz_flow b)))"

text \<open>Only uploads are scheduled by the machine itself, and only metadata is read beside a flow.\<close>

definition beside_job :: "(request_id \<Rightarrow> intent) \<Rightarrow> request_id \<Rightarrow> job \<Rightarrow> bool" where
  "beside_job asked t j \<longleftrightarrow>
     same_kind (asked t) Stat \<and> awaits StatNode j \<or>
     same_kind (asked t) State \<and> (case j of ReadState x open_buffer \<Rightarrow> True | _ \<Rightarrow> False)"

definition side_actions :: "(request_id \<Rightarrow> intent) \<Rightarrow> action list \<Rightarrow> bool" where
  "side_actions asked acts \<longleftrightarrow>
     (\<forall>obj i. Schedule obj i \<in> set acts \<longrightarrow> i = Publish) \<and>
     (\<forall>obj j t. ReadBeside obj j t \<in> set acts \<longrightarrow> beside_job asked t j)"

definition answers_nobody :: "(request_id \<Rightarrow> intent) \<Rightarrow> machine \<Rightarrow> machine \<Rightarrow> action list \<Rightarrow> bool" where
  "answers_nobody asked m m' acts \<longleftrightarrow>
     kinds asked m' \<and> quiet_answers asked acts \<and> spares_holders m' acts \<and> no_new_holders m m' \<and> side_actions asked acts"

lemma quiet_simps [simp]:
  "quiet_answers asked []"
  "quiet_answers asked (acts @ acts') \<longleftrightarrow> quiet_answers asked acts \<and> quiet_answers asked acts'"
  "side_actions asked []"
  "side_actions asked (acts @ acts') \<longleftrightarrow> side_actions asked acts \<and> side_actions asked acts'"
  by (auto simp: quiet_answers_def side_actions_def)

lemma spares_simps [simp]:
  "spares_holders m []"
  "spares_holders m (acts @ acts') \<longleftrightarrow> spares_holders m acts \<and> spares_holders m acts'"
  unfolding spares_holders_def set_append Un_iff by (simp, blast)

lemma spares_holders_later: "spares_holders m acts \<Longrightarrow> no_new_holders m m' \<Longrightarrow> spares_holders m' acts"
  unfolding spares_holders_def no_new_holders_def by blast

lemma no_new_holders_trans: "no_new_holders m m' \<Longrightarrow> no_new_holders m' m'' \<Longrightarrow> no_new_holders m m''"
  unfolding no_new_holders_def by blast

lemma answers_nobody_refl: "kinds asked m \<Longrightarrow> answers_nobody asked m m []"
  by (simp add: answers_nobody_def no_new_holders_def)

lemma answers_nobody_trans:
  assumes "answers_nobody asked m m' acts" and "answers_nobody asked m' m'' acts'"
  shows "answers_nobody asked m m'' (acts @ acts')"
  using assms spares_holders_later [of m' acts m''] no_new_holders_trans [of m m' m'']
  by (simp add: answers_nobody_def)


section \<open>Starting and ending flows\<close>

lemma start_kind:
  assumes "start obj i w facts = (f, n)" and "same_kind (asked w) i"
  shows "flow_kind asked f" and "\<not> holds_result f" and "n = Done \<Longrightarrow> owes_nothing (fl_intent f)"
  using assms
  by (cases i; auto simp: start_def start_step_def publish_start_def flow_kind_def holds_result_def split: if_splits)+

definition lead_answer :: "object_id \<Rightarrow> flow \<Rightarrow> flow_next \<Rightarrow> action list" where
  "lead_answer obj flow nxt = (if nxt = Done \<and> fl_waiters flow \<noteq> [] then [Answer obj (fl_waiters flow) Ok] else [])"

text \<open>
  The end of a step of a flow whose object is idle: at most one answer is owed a payload, the one
  to the callers of the flow itself, and it comes first.
\<close>

definition settles :: "(request_id \<Rightarrow> intent) \<Rightarrow> machine \<Rightarrow> object_id \<Rightarrow> flow \<Rightarrow> flow_next \<Rightarrow> machine \<Rightarrow> action list \<Rightarrow> bool" where
  "settles asked m obj flow nxt m' acts \<longleftrightarrow>
     kinds asked m' \<and>
     (\<exists>rest. acts = lead_answer obj flow nxt @ rest \<and> quiet_answers asked rest) \<and>
     spares_holders m' acts \<and> side_actions asked acts \<and>
     (\<forall>k b'. hm_get (mc_busy m') k = Some b' \<longrightarrow> holds_result (bz_flow b') \<longrightarrow>
        (if k = obj then holds_result flow \<and> (\<exists>j. nxt = Do j \<or> nxt = AnswerThen j)
         else \<exists>b. hm_get (mc_busy m) k = Some b \<and> holds_result (bz_flow b)))"

lemma holds_put [simp]: "hm_get (mc_busy (put_busy m obj flow out q)) k =
    (if k = obj then Some \<lparr>bz_flow = flow, bz_outstanding = out, bz_queue = q\<rparr> else hm_get (mc_busy m) k)"
  by (simp add: put_busy_def store_simps)

lemma end_release_busy [simp]: "mc_busy (end_release m flow) = mc_busy m"
  by (simp add: end_release_def split: option.split)

lemma end_actions_kind:
  assumes "\<not> is_handoff nxt" and "ending nxt = Some out" and "flow_kind asked flow"
  shows "\<exists>rest. end_actions obj flow out = lead_answer obj flow nxt @ rest \<and> quiet_answers asked rest"
    and "side_actions asked (end_actions obj flow out)"
    and "Answer o' ts out' \<in> set (end_actions obj flow out) \<Longrightarrow> o' = obj"
  using assms
  by (cases nxt;
      auto simp: end_actions_def lead_answer_def ending_def quiet_answers_def side_actions_def
        split: intent.splits if_splits)+

lemma settle_going_on:
  assumes "\<not> is_handoff nxt" and "ending nxt = None" and "hm_get (mc_busy m) obj = None" and "kinds asked m"
    and "flow_kind asked flow" and "queue_kind asked q"
    and "\<And>j. nxt = AnswerThen j \<Longrightarrow> fl_intent flow = Publish \<and> \<not> holds_result flow"
    and "settle m obj flow nxt q = (m', acts)"
  shows "settles asked m obj flow nxt m' acts"
  using assms
  by (cases nxt)
    (auto simp: settles_def settle.simps ending_def lead_answer_def quiet_answers_def spares_holders_def
      side_actions_def Let_def flow_kind_def kinds_put dest: same_as_publish split: if_splits)

lemma settle_kinds:
  assumes "\<not> is_handoff nxt" and "hm_get (mc_busy m) obj = None" and "kinds asked m"
    and "flow_kind asked flow" and "queue_kind asked q"
    and "\<And>j. nxt = AnswerThen j \<Longrightarrow> fl_intent flow = Publish \<and> \<not> holds_result flow"
    and "settle m obj flow nxt q = (m', acts)"
  shows "settles asked m obj flow nxt m' acts"
  using assms
proof (induction q arbitrary: m flow nxt m' acts)
  case Nil
  show ?case
  proof (cases "ending nxt")
    case None
    from settle_going_on [OF Nil(1) this Nil(2-7)] show ?thesis .
  next
    case (Some out)
    then have m': "m' = end_release m flow" and acts: "acts = end_actions obj flow out"
      using Nil by (cases nxt; auto simp: settle.simps ending_def Let_def)+
    have "spares_holders m' acts"
      using end_actions_kind(3) [OF Nil.prems(1) Some Nil.prems(4), where obj = obj] Nil.prems(2)
      unfolding spares_holders_def m' acts by fastforce
    then show ?thesis
      using end_actions_kind(1,2) [OF Nil.prems(1) Some Nil.prems(4), where obj = obj] Nil.prems(2,3)
      unfolding settles_def m' acts by auto
  qed
next
  case (Cons r q)
  show ?case
  proof (cases "ending nxt")
    case None
    from settle_going_on [OF Cons.prems(1) this Cons.prems(2-7)] show ?thesis .
  next
    case (Some out)
    let ?m = "end_release m flow"
    obtain f n where st: "start obj (rq_intent r) (rq_id r) (registry_facts (mc_registry ?m) obj) = (f, n)"
      by fastforce
    obtain m2 a2 where se: "settle ?m obj f n q = (m2, a2)" by fastforce
    have kr: "same_kind (asked (rq_id r)) (rq_intent r)" using Cons.prems(5) by simp
    have out: "m' = m2" "acts = end_actions obj flow out @ a2"
      using Cons.prems(1,7) Some st se by (cases nxt; auto simp: settle.simps ending_def Let_def)+
    have n: "n \<noteq> AnswerThen j" for j using start_not_handoff [OF st, where job = j] by blast
    have IH: "settles asked ?m obj f n m2 a2"
      using Cons.IH [OF start_no_handoff [OF st [symmetric]] _ _ start_kind(1) [of obj _ _ _ f n asked, OF st kr] _ _ se]
        Cons.prems n by simp
    have "quiet_answers asked (lead_answer obj f n)"
      using start_kind(1,3) [of obj _ _ _ f n asked, OF st kr] 
      by (auto simp: lead_answer_def quiet_answers_def flow_kind_def dest: owes_nothing_kind)
    with IH have rest: "quiet_answers asked a2" by (auto simp: settles_def)
    have nh: "\<not> holds_result f" by (rule start_kind(2) [of obj _ _ _ f n asked, OF st kr])
    obtain rest where lead: "end_actions obj flow out = lead_answer obj flow nxt @ rest" "quiet_answers asked rest"
      using end_actions_kind(1) [OF Cons.prems(1) Some Cons.prems(4)] by blast
    have sp: "spares_holders m2 (end_actions obj flow out)"
      using end_actions_kind(3) [OF Cons.prems(1) Some Cons.prems(4), where obj = obj] IH nh
      unfolding spares_holders_def settles_def by metis
    show ?thesis
      using IH lead sp rest nh end_actions_kind(2) [OF Cons.prems(1) Some Cons.prems(4), of obj]
      unfolding settles_def out by (auto simp: split: if_splits)
  qed
qed

section \<open>Requests\<close>

lemma settles_nobody:
  assumes "settles asked m obj flow nxt m' acts" and "flow_kind asked flow"
    and "nxt = Done \<Longrightarrow> owes_nothing (fl_intent flow)" and "\<not> holds_result flow"
  shows "answers_nobody asked m m' acts"
proof -
  have "quiet_answers asked (lead_answer obj flow nxt)"
    using assms(2,3) by (auto simp: lead_answer_def quiet_answers_def flow_kind_def dest: owes_nothing_kind)
  with assms(1,4) show ?thesis
    unfolding settles_def answers_nobody_def no_new_holders_def by (auto split: if_splits)
qed

text \<open>A caller is told at once, and nothing else happens.\<close>

definition not_skipped :: "machine \<Rightarrow> request \<Rightarrow> bool" where
  "not_skipped m r \<longleftrightarrow>
     (\<forall>b. hm_get (mc_busy m) (rq_object r) = Some b \<longrightarrow> holds_result (bz_flow b) \<longrightarrow>
        collision (bz_flow b) (rq_intent r) (registry_facts (mc_registry m) (rq_object r)) \<noteq> Skip)"

lemma collision_Join_kind: "collision flow i facts = Join \<Longrightarrow> i = fl_intent flow"
  by (auto simp: collision_Join_iff)

lemma collision_Skip_quiet: "collision flow i facts = Skip \<Longrightarrow> owes_nothing i"
  by (auto simp: collision_def split: if_splits intent.splits)

lemma request_nobody:
  assumes rq: "machine_request m r = (m', acts)" and k: "kinds asked m"
    and r: "same_kind (asked (rq_id r)) (rq_intent r)" and "not_skipped m r"
  shows "answers_nobody asked m m' acts"
proof (cases "hm_get (mc_busy m) (rq_object r)")
  case None
  obtain f n where st: "start (rq_object r) (rq_intent r) (rq_id r)
      (registry_facts (mc_registry m) (rq_object r)) = (f, n)"
    by fastforce
  note f = start_kind [of "rq_object r" _ _ _ f n asked, OF st r]
  have "settle m (rq_object r) f n [] = (m', acts)"
    using rq None st by (simp add: machine_request.simps begin_flow.simps Let_def)
  then have "settles asked m (rq_object r) f n m' acts"
    using settle_kinds [OF start_no_handoff [OF st [symmetric]] None k f(1), of "[]"] start_not_handoff [OF st]
    by auto
  from settles_nobody [OF this f(1,3,2)] show ?thesis by blast
next
  case (Some b)
  note fk = kinds_busy [OF k Some]
  show ?thesis
  proof (cases "metadata_read (rq_intent r)")
    case True
    then have "begin_beside m r = (m', acts)"
      using rq Some by (simp add: machine_request.simps metadata_read_def)
    moreover obtain f j where "start (rq_object r) (rq_intent r) (rq_id r)
        (registry_facts (mc_registry m) (rq_object r)) = (f, Do j)"
      using start_metadata [of "rq_intent r"] True unfolding metadata_read_def by metis
    ultimately have m': "m' = m\<lparr>mc_beside := hm_insert (rq_id r) f (mc_beside m)\<rparr>"
      and acts: "acts = [ReadBeside (rq_object r) j (rq_id r)]"
      and st: "start (rq_object r) (rq_intent r) (rq_id r) (registry_facts (mc_registry m) (rq_object r)) = (f, Do j)"
      by (auto simp: begin_beside.simps Let_def)
    have "beside_flow asked (rq_id r) f \<and> beside_job asked (rq_id r) j"
      using st True r by (auto simp: metadata_read_def start_def start_step_def beside_flow_def beside_job_def)
    with k show ?thesis
      by (auto simp: answers_nobody_def quiet_answers_def spares_holders_def no_new_holders_def side_actions_def
          kinds_def m' acts store_simps)
  next
    case False
    let ?facts = "registry_facts (mc_registry m) (rq_object r)"
    have skip: "collision (bz_flow b) (rq_intent r) ?facts = Skip \<Longrightarrow> \<not> holds_result (bz_flow b)"
      using assms(4) Some by (auto simp: not_skipped_def)
    have put: "answers_nobody asked m (put_busy m (rq_object r) (bz_flow b\<lparr>fl_waiters := ws, fl_abort := ab\<rparr>) out q) []"
      if "\<forall>t \<in> set ws. same_kind (asked t) (fl_intent (bz_flow b))" "queue_kind asked q" for ws ab out q
      using kinds_put [OF k, of "bz_flow b\<lparr>fl_waiters := ws, fl_abort := ab\<rparr>" q "rq_object r" out] that fk Some
      by (auto simp: answers_nobody_def no_new_holders_def flow_kind_def)
    have same: "bz_flow b = bz_flow b\<lparr>fl_waiters := fl_waiters (bz_flow b), fl_abort := fl_abort (bz_flow b)\<rparr>" by simp
    have queued: "answers_nobody asked m (put_busy m (rq_object r) (bz_flow b) (bz_outstanding b) (bz_queue b @ [r])) []"
      using put [of "fl_waiters (bz_flow b)" "bz_queue b @ [r]" "fl_abort (bz_flow b)" "bz_outstanding b"] fk r by (simp add: flow_kind_def)
    show ?thesis
    proof (cases "collision (bz_flow b) (rq_intent r) ?facts")
      case Queue
      with queued rq Some False show ?thesis
        by (simp add: machine_request.simps metadata_read_def Let_def)
    next
      case Join
      with put [of "fl_waiters (bz_flow b) @ [rq_id r]" "bz_queue b" "fl_abort (bz_flow b)" "bz_outstanding b"]
        queued rq Some False fk r collision_Join_kind [OF Join]
      show ?thesis
        by (auto simp: machine_request.simps metadata_read_def Let_def flow_kind_def split: if_splits)
    next
      case Abort
      with put [of "fl_waiters (bz_flow b)" "bz_queue b @ [r]" True "bz_outstanding b"] rq Some False fk r
      show ?thesis
        by (auto simp: machine_request.simps metadata_read_def Let_def flow_kind_def)
    next
      case Skip
      then have "owes_nothing (asked (rq_id r))" using r collision_Skip_quiet owes_nothing_kind by blast
      moreover have "m' = m" "acts = [Answer (rq_object r) [rq_id r] Ok]"
        using Skip rq Some False by (auto simp: machine_request.simps metadata_read_def Let_def)
      ultimately show ?thesis
        using k skip [OF Skip] Some
        by (auto simp: answers_nobody_def quiet_answers_def spares_holders_def no_new_holders_def side_actions_def)
    qed
  qed
qed

section \<open>Hand-overs, completions and releases\<close>

lemma handed_over_kind:
  assumes "handed_over_from i \<noteq> None"
  shows "owes_nothing i" and "collision flow i facts \<noteq> Skip"
  using assms by (auto simp: handed_over_from_def collision_def split: intent.splits)

lemma hand_over_nobody:
  assumes "hand_over m to i ws = (m', acts)" and "kinds asked m" and "handed_over_from i \<noteq> None"
    and "\<forall>w \<in> set ws. owes_nothing (asked w)"
  shows "answers_nobody asked m m' acts"
  using assms
proof (induction ws arbitrary: m m' acts)
  case Nil
  then show ?case by (simp add: settle.simps answers_nobody_refl)
next
  case (Cons w ws)
  let ?r = "\<lparr>rq_id = w, rq_object = to, rq_intent = i\<rparr>"
  obtain m1 a1 where rq: "machine_request m ?r = (m1, a1)" by fastforce
  obtain m2 a2 where ho: "hand_over m1 to i ws = (m2, a2)" by fastforce
  have "same_kind (asked w) i"
    using Cons.prems(4) handed_over_kind(1) [OF Cons.prems(3)] by (simp add: owes_nothing_both)
  then have 1: "answers_nobody asked m m1 a1"
    using request_nobody [OF rq Cons.prems(2)] handed_over_kind(2) [OF Cons.prems(3)]
    by (simp add: not_skipped_def)
  moreover have "answers_nobody asked m1 m2 a2"
    using Cons.IH [OF ho] 1 Cons.prems(3,4) by (simp add: answers_nobody_def)
  ultimately have "answers_nobody asked m m2 (a1 @ a2)" by (rule answers_nobody_trans)
  with Cons.prems(1) rq ho show ?case by (simp add: settle.simps)
qed

lemma handoff_nobody:
  assumes "settle m obj flow (Handoff to i) q = (m', acts)" and "hm_get (mc_busy m) obj = None"
    and "kinds asked m" and "flow_kind asked flow" and "queue_kind asked q"
    and "on_script flow" and "next_ok flow (Handoff to i)" and "flow_waits flow" and "\<not> fl_abort flow"
  shows "answers_nobody asked m m' acts"
proof -
  let ?m = "put_busy m obj (flow\<lparr>fl_waiters := []\<rparr>) None q"
  have st: "fl_step flow = Handover" using assms(7) by simp
  have pop: "parent_op (fl_intent flow)" by (rule handover_step_parent_op [OF assms(6) st])
  have i: "handed_over_from i \<noteq> None"
    using assms(7) by (auto simp: handed_over_from_def split: intent.splits)
  have on: "owes_nothing (fl_intent flow)" using assms(4) st by (simp add: flow_kind_def)
  have ws: "fl_waiters flow \<noteq> []"
    using assms(8,9) pop by (auto simp: flow_waits_def parent_op_def)
  have 1: "answers_nobody asked m ?m []"
    using assms(2,3) kinds_put [of asked m "flow\<lparr>fl_waiters := []\<rparr>" q obj None] assms(4,5) st
    by (auto simp: answers_nobody_def no_new_holders_def holds_result_def flow_kind_def)
  have "hand_over ?m to i (fl_waiters flow) = (m', acts)"
    using assms(1) ws by (simp add: settle.simps Let_def)
  from hand_over_nobody [OF this _ i, of asked] 1 assms(4) on
  have "answers_nobody asked ?m m' acts"
    by (auto simp: answers_nobody_def flow_kind_def dest: owes_nothing_kind)
  from answers_nobody_trans [OF 1 this] show ?thesis by simp
qed

lemma release_parked_nobody:
  assumes "release_parked m p = (m', acts)" and "kinds asked m"
  shows "answers_nobody asked m m' acts"
proof (cases "\<exists>b. hm_get (mc_busy m) p = Some b \<and> parked b")
  case False
  with assms release_parked_idle [of m p] answers_nobody_refl show ?thesis by auto
next
  case True
  then obtain b where b: "hm_get (mc_busy m) p = Some b" "parked b" by blast
  let ?m = "m\<lparr>mc_busy := hm_remove p (mc_busy m)\<rparr>"
  have se: "settle ?m p (bz_flow b) Done (bz_queue b) = (m', acts)"
    using assms(1) b by (simp add: release_parked_def)
  note fk = kinds_busy [OF assms(2) b(1)]
  have "settles asked ?m p (bz_flow b) Done m' acts"
    by (rule settle_kinds [OF _ _ kinds_take [OF assms(2)] _ _ _ se]) (use fk in \<open>simp_all add: store_simps\<close>)
  then have "answers_nobody asked ?m m' acts"
    using fk b(2) by (intro settles_nobody) (auto simp: flow_kind_def parked_def holds_result_def)
  moreover have "no_new_holders m ?m" by (auto simp: no_new_holders_def store_simps split: if_splits)
  ultimately show ?thesis
    using no_new_holders_trans unfolding answers_nobody_def by blast
qed

lemma release_ended_nobody:
  "release_ended m = (m', acts) \<Longrightarrow> kinds asked m \<Longrightarrow> answers_nobody asked m m' acts"
proof (induction m arbitrary: m' acts rule: release_ended.induct)
  case (1 m)
  show ?case
  proof (cases "mc_releases m")
    case Nil
    with 1 answers_nobody_refl show ?thesis by (simp add: release_ended.simps [of m])
  next
    case (Cons p rest)
    let ?m = "m\<lparr>mc_releases := rest\<rparr>"
    obtain m1 a1 where rp: "release_parked ?m p = (m1, a1)" by fastforce
    obtain m2 a2 where re: "release_ended m1 = (m2, a2)" by fastforce
    have a1: "answers_nobody asked ?m m1 a1" by (rule release_parked_nobody [OF rp]) (simp add: "1.prems"(2))
    then have "kinds asked m1" by (simp add: answers_nobody_def)
    from "1.IH" [OF Cons rp [symmetric] refl re this] have "answers_nobody asked m1 m2 a2" .
    from answers_nobody_trans [OF a1 this] have "answers_nobody asked ?m m2 (a1 @ a2)" .
    then have "answers_nobody asked m m2 (a1 @ a2)" by (simp add: answers_nobody_def no_new_holders_def)
    with "1.prems"(1) Cons rp re show ?thesis by (simp add: release_ended.simps [of m])
  qed
qed

section \<open>The entry points\<close>

lemma on_request_nobody:
  assumes "on_request m r = (m', acts)" and "kinds asked m" and "same_kind (asked (rq_id r)) (rq_intent r)"
    and "not_skipped m r"
  shows "answers_nobody asked m m' acts"
proof -
  obtain m1 a1 where rq: "machine_request m r = (m1, a1)" by fastforce
  obtain m2 a2 where re: "release_ended m1 = (m2, a2)" by fastforce
  have 1: "answers_nobody asked m m1 a1" by (rule request_nobody [OF rq assms(2-4)])
  then have "kinds asked m1" by (simp add: answers_nobody_def)
  from answers_nobody_trans [OF 1 release_ended_nobody [OF re this]] rq re assms(1) show ?thesis
    by (simp add: on_request_def)
qed

text \<open>An abandoned request is told so; whose flow it rode on must not hold a result.\<close>

definition not_robbed :: "machine \<Rightarrow> request_id \<Rightarrow> bool" where
  "not_robbed m t \<longleftrightarrow>
     (\<forall>bs obj rel b. abandon_scan t (mc_busy m) = Some (bs, obj, rel) \<longrightarrow> hm_get (mc_busy m) obj = Some b \<longrightarrow>
        \<not> holds_result (bz_flow b))"

lemma abandon_entry_kind:
  assumes "abandon_entry t b = Some (b', rel)"
  shows "flow_kind asked (bz_flow b) \<Longrightarrow> flow_kind asked (bz_flow b')"
    and "queue_kind asked (bz_queue b) \<Longrightarrow> queue_kind asked (bz_queue b')"
    and "holds_result (bz_flow b') = holds_result (bz_flow b)"
proof -
  have tr: "x \<in> set q" if "take_request t q = Some (r, rest)" "x \<in> set rest" for q r rest x
    using that by (induction q arbitrary: rest) (auto split: if_splits)
  show "flow_kind asked (bz_flow b) \<Longrightarrow> flow_kind asked (bz_flow b')"
    and "queue_kind asked (bz_queue b) \<Longrightarrow> queue_kind asked (bz_queue b')"
    and "holds_result (bz_flow b') = holds_result (bz_flow b)"
    using assms
    by (auto simp: abandon_entry_def flow_kind_def queue_kind_def Let_def split: if_splits option.splits
        dest: tr set_mp [OF set_remove1_subset])
qed

lemma abandon_scan_kind:
  assumes "abandon_scan t bs = Some (bs', obj, rel)"
  shows "\<And>k b'. hm_get bs' k = Some b' \<Longrightarrow>
    \<exists>b. hm_get bs k = Some b \<and> (flow_kind asked (bz_flow b) \<longrightarrow> flow_kind asked (bz_flow b')) \<and>
      (queue_kind asked (bz_queue b) \<longrightarrow> queue_kind asked (bz_queue b')) \<and>
      holds_result (bz_flow b') = holds_result (bz_flow b)"
  using assms
proof (induction bs arbitrary: bs')
  case Nil
  then show ?case by simp
next
  case (Cons kb bs)
  obtain k b where kb: "kb = (k, b)" by fastforce
  show ?case
  proof (cases "abandon_entry t b")
    case None
    with Cons kb show ?thesis by (auto split: if_splits option.splits)
  next
    case (Some x)
    with Cons kb abandon_entry_kind(1,2) [of t b "fst x" "snd x" asked] abandon_entry_kind(3) [of t b "fst x" "snd x"]
    show ?thesis
      by (cases x) (auto split: if_splits)
  qed
qed

lemma abandon_nobody:
  assumes "abandon m t = (m', acts)" and "kinds asked m" and "not_robbed m t"
  shows "answers_nobody asked m m' acts"
proof -
  obtain m1 a1 where ab: "abandon_request m t = (m1, a1)" by fastforce
  obtain m2 a2 where re: "release_ended m1 = (m2, a2)" by fastforce
  have 1: "answers_nobody asked m m1 a1"
  proof (cases "abandon_scan t (mc_busy m)")
    case None
    with ab assms(2) show ?thesis by (simp add: abandon_request_def answers_nobody_refl)
  next
    case (Some x)
    obtain bs obj rel where x: "x = (bs, obj, rel)" by (cases x) auto
    have sc: "abandon_scan t (mc_busy m) = Some (bs, obj, rel)" using Some x by simp
    have bs: "mc_busy m1 = bs" and be: "mc_beside m1 = mc_beside m" and a1: "a1 = [answer_interrupted obj t]"
      using ab sc by (auto simp: abandon_request_def)
    have "\<not> holds_result (bz_flow b')" if b': "hm_get bs obj = Some b'" for b'
      using abandon_scan_kind [OF sc b', of asked] assms(3) sc unfolding not_robbed_def by blast
    moreover have "kinds asked m1" "no_new_holders m m1"
      using abandon_scan_kind [OF sc, of _ _ asked] assms(2) unfolding kinds_def no_new_holders_def bs be by blast+
    ultimately show ?thesis
      by (auto simp: answers_nobody_def quiet_answers_def spares_holders_def side_actions_def a1 bs answer_interrupted_def)
  qed
  then have "kinds asked m1" by (simp add: answers_nobody_def)
  from answers_nobody_trans [OF 1 release_ended_nobody [OF re this]] ab re assms(1) show ?thesis
    by (simp add: abandon_def)
qed

section \<open>Completions\<close>

lemma settles_then_nobody:
  assumes "settles asked m obj flow nxt m1 a1" and "answers_nobody asked m1 m2 a2"
  shows "settles asked m obj flow nxt m2 (a1 @ a2)"
proof -
  have "spares_holders m2 (a1 @ a2)"
    using assms spares_holders_later [of m1 a1 m2] by (simp add: settles_def answers_nobody_def)
  moreover have "if k = obj then holds_result flow \<and> (\<exists>j. nxt = Do j \<or> nxt = AnswerThen j)
      else \<exists>b. hm_get (mc_busy m) k = Some b \<and> holds_result (bz_flow b)"
    if "hm_get (mc_busy m2) k = Some b'" "holds_result (bz_flow b')" for k b'
    using assms that unfolding settles_def answers_nobody_def no_new_holders_def by blast
  ultimately show ?thesis
    using assms unfolding settles_def answers_nobody_def by auto
qed

lemma on_completion_settles:
  assumes co: "on_completion m obj c = (m', acts)" and bal: "balanced m" and k: "kinds asked m"
    and b: "hm_get (mc_busy m) obj = Some b" "bz_outstanding b = Some j"
  obtains facts flow nxt where "advance (bz_flow b) c facts = (flow, nxt)" "settles asked m obj flow nxt m' acts"
proof -
  obtain m1 a1 where mc: "machine_completion m obj c = (m1, a1)" by fastforce
  obtain m2 a2 where re: "release_ended m1 = (m2, a2)" by fastforce
  have out: "m' = m2" "acts = a1 @ a2" using co mc re by (simp_all add: on_completion_def)
  let ?reg = "apply_to_registry (mc_registry m) j (fl_intent (bz_flow b)) c
         (nf_etag (ca_node (fl_carry (bz_flow b)))) (nf_ignored (ca_node (fl_carry (bz_flow b))))"
  obtain flow nxt where ad: "advance (bz_flow b) c (registry_facts ?reg obj) = (flow, nxt)" by fastforce
  let ?m = "m\<lparr>mc_busy := hm_remove obj (mc_busy m), mc_registry := ?reg\<rparr>"
  have se: "settle ?m obj flow nxt (bz_queue b) = (m1, a1)"
    using mc b ad by (simp add: machine_completion_def Let_def)
  have bi: "busy_inv obj b" using bal b(1) minv_busy [of m obj b] by (simp add: balanced_def)
  then have os: "on_script (bz_flow b)" and aw: "awaits (fl_step (bz_flow b)) j" and fw: "flow_waits (bz_flow b)"
    using b(2) by (simp_all add: busy_inv_def)
  note fr = advance_frame [OF ad] and nx = advance_on_script [OF os ad]
  note fk = kinds_busy [OF k b(1)]
  have idle: "hm_get (mc_busy ?m) obj = None" by (simp add: store_simps)
  have km: "kinds asked ?m" using kinds_take [OF k, of obj] by (simp add: kinds_def)
  have flow_k: "flow_kind asked flow"
    using fk fr handover_step_parent_op [OF nx(1)] by (auto simp: flow_kind_def parent_op_def split: intent.splits)
  have "settles asked ?m obj flow nxt m1 a1"
  proof (cases "is_handoff nxt")
    case False
    have "fl_intent flow = Publish \<and> \<not> holds_result flow" if "nxt = AnswerThen jj" for jj
      using nx(2) that by (simp add: holds_result_def)
    with settle_kinds [OF False idle km flow_k _ _ se] fk show ?thesis by blast
  next
    case True
    then obtain to i where nxt: "nxt = Handoff to i" by (cases nxt) auto
    have nab: "\<not> fl_abort flow"
      using ad nxt fr(4) by (auto simp: advance_def split: if_splits)
    have "flow_waits flow" using fw fr by (simp add: flow_waits_def)
    from handoff_nobody [OF se [unfolded nxt] idle km flow_k conjunct2 [OF fk] nx(1) nx(2) [unfolded nxt] this nab]
    have "answers_nobody asked ?m m1 a1" .
    with nxt show ?thesis
      by (auto simp: settles_def answers_nobody_def lead_answer_def no_new_holders_def store_simps split: if_splits)
  qed
  then have "settles asked m obj flow nxt m1 a1" by (simp add: settles_def store_simps cong: if_cong)
  moreover from this have "answers_nobody asked m1 m2 a2"
    by (intro release_ended_nobody [OF re]) (simp add: settles_def)
  ultimately have "settles asked m obj flow nxt m' acts" unfolding out by (rule settles_then_nobody)
  with ad show ?thesis by (rule that)
qed

section \<open>What a step has produced\<close>

text \<open>The payload kept for an object once the completion is in.\<close>

definition kept_payload :: "payload \<Rightarrow> payload option \<Rightarrow> payload option" where
  "kept_payload p stored = (if p = NoPayload then stored else Some p)"

definition is_node :: "payload option \<Rightarrow> bool" where
  "is_node x \<longleftrightarrow> (\<exists>i row. x = Some (PayloadNode i row))"

lemma advance_done_step: "advance flow c facts = (flow', Done) \<Longrightarrow> \<exists>f. c = JobFailed f \<Longrightarrow> False"
  by (auto simp: advance_def advance_failed_def split: if_splits)

lemma fits_cases:
  assumes "answer_fits j c p" and "\<And>f. c \<noteq> JobFailed f"
  shows "\<And>x. j = ReadNode x \<Longrightarrow> \<exists>n. c = Node n \<and> (if nf_found n then is_node (Some p) else p = NoPayload)"
    and "\<And>x name. j = ReadChild x name \<Longrightarrow> \<exists>n. c = Node n \<and> (if nf_found n then is_node (Some p) else p = NoPayload)"
    and "\<And>x o'. j = ReadState x o' \<Longrightarrow> \<exists>s g. p = PayloadState s g"
    and "\<And>x. j = ReadChildren x \<Longrightarrow> \<exists>rows. p = PayloadEntries rows"
    and "\<And>x off len. j = ReadBuffer x off len \<or> j = ReadBlob x off len \<or> j = FetchRange x off len \<Longrightarrow> \<exists>bs. p = PayloadBytes bs"
    and "\<And>x off len. j = WriteBuffer x off len \<Longrightarrow> p = PayloadWritten len"
    and "\<And>x b t. j = TruncateBuffer x b \<or> j = RecordMtime x t \<or> j = RecordExec x e \<or> j = CreateBuffer x \<or> j = HydrateBuffer x \<Longrightarrow>
      c = JobDone \<and> p = NoPayload"
  using assms by (cases c; auto simp: answer_fits_def is_node_def)+

text \<open>Where a flow whose callers expect a payload may end.\<close>

definition found_row :: "completion \<Rightarrow> bool" where
  "found_row c \<longleftrightarrow> (\<exists>n. c = Node n \<and> nf_found n)"

lemma final_steps:
  assumes "on_script flow" and "advance_step flow c facts = (flow', Done)"
  shows "fl_intent flow = Fetch off len \<Longrightarrow> fl_step flow = FetchBytes"
    and "fl_intent flow = Write off len \<Longrightarrow> fl_step flow = WriteBytes"
    and "fl_intent flow = Stat \<Longrightarrow> fl_step flow = StatNode \<and> found_row c"
    and "fl_intent flow = Lookup name \<Longrightarrow> fl_step flow = LookChild \<and> found_row c"
    and "fl_intent flow = State \<Longrightarrow> fl_step flow = StateRead"
    and "fl_intent flow = SetAttr sz mtime ex \<Longrightarrow> fl_step flow = AttrNode \<and> found_row c \<or> fl_step flow = AttrFinal"
    and "fl_intent flow = Enumerate \<Longrightarrow> fl_step flow = EnumChildren"
    and "fl_intent flow = Materialise name d mx \<Longrightarrow> fl_step flow = MatLookup \<and> found_row c \<or> fl_step flow = MatBuffer"
  using assms
  by (auto simp: on_script_def advance_step_def arm_defs decision_defs Let_def found_row_def
      split: completion.splits option.splits if_splits)

lemma finished_flow_delivers:
  assumes "on_script flow" and "awaits (fl_step flow) j" and "answer_fits j c p"
    and "advance flow c facts = (flow', Done)" and "holds_result flow \<Longrightarrow> is_node stored"
  shows "delivers (fl_intent flow) (case kept_payload p stored of Some x \<Rightarrow> x | None \<Rightarrow> NoPayload)"
proof -
  have nf: "c \<noteq> JobFailed f" for f using advance_done_step [OF assms(4)] by blast
  then have st: "advance_step flow c facts = (flow', Done)"
    using assms(4) by (cases c) (auto simp: advance_def split: if_splits)
  note fit = fits_cases [OF assms(3) nf] and fin = final_steps [OF assms(1) st]
  have row: "is_node (Some p)" if "j = ReadNode x \<or> j = ReadChild x name" "found_row c" for x name
    using that fit(1,2) by (auto simp: found_row_def)
  have held: "is_node (kept_payload p stored)" if "p \<noteq> NoPayload \<Longrightarrow> is_node (Some p)" "holds_result flow"
    using that assms(5) by (auto simp: kept_payload_def)
  have deliver: "is_node (kept_payload p stored) \<Longrightarrow> ?thesis" if "\<And>i row. delivers (fl_intent flow) (PayloadNode i row)"
    using that by (auto simp: is_node_def)
  have np: "is_node (Some p) \<Longrightarrow> is_node (kept_payload p stored)" by (auto simp: is_node_def kept_payload_def)
  show ?thesis
  proof (cases "fl_intent flow")
    case (Fetch off len)
    with fin(1) assms(2) fit(5) show ?thesis by (force simp: kept_payload_def)
  next
    case (Write off len)
    with fin(2) assms(2) fit(6) show ?thesis by (force simp: kept_payload_def)
  next
    case Stat
    with fin(3) assms(2) row np show ?thesis by (intro deliver) auto
  next
    case (Lookup name)
    with fin(4) assms(2) row np show ?thesis by (intro deliver) auto
  next
    case State
    with fin(5) assms(2) fit(3) show ?thesis by (force simp: kept_payload_def)
  next
    case (SetAttr sz mtime exec)
    from fin(6) [OF this] show ?thesis
    proof
      assume "fl_step flow = AttrNode \<and> found_row c"
      with SetAttr assms(2) row np show ?thesis by (intro deliver) auto
    next
      assume a: "fl_step flow = AttrFinal"
      with assms(2) fit(1) have "p \<noteq> NoPayload \<Longrightarrow> is_node (Some p)" by (auto split: if_splits)
      with SetAttr a held show ?thesis by (intro deliver) (auto simp: holds_result_def)
    qed
  next
    case Enumerate
    with fin(7) assms(2) fit(4) show ?thesis by (force simp: kept_payload_def)
  next
    case (Materialise name d mx)
    from fin(8) [OF this] show ?thesis
    proof
      assume "fl_step flow = MatLookup \<and> found_row c"
      with Materialise assms(2) row np show ?thesis by (intro deliver) auto
    next
      assume a: "fl_step flow = MatBuffer"
      with assms(2) fit(7) have "p = NoPayload" by auto
      with Materialise a held show ?thesis by (intro deliver) (auto simp: holds_result_def)
    qed
  qed simp_all
qed

text \<open>How a flow gets to a step that holds a result, and stays on one.\<close>

lemma holding_steps:
  assumes "on_script flow" and "advance_step flow c facts = (flow', nxt)" and "nxt = Do k \<or> nxt = AnswerThen k"
    and "holds_result flow'"
  shows "fl_step flow \<in> {AttrNode, MatLookup} \<and> found_row c \<or> holds_result flow \<and> fl_step flow \<noteq> MatBuffer \<and> fl_step flow \<noteq> AttrFinal"
  using assms
  by (cases "fl_step flow")
    (auto simp: advance_step_def arm_defs decision_defs Let_def found_row_def holds_result_def
      split: completion.splits option.splits intent.splits if_splits)

lemma holding_flow_keeps:
  assumes "on_script flow" and "awaits (fl_step flow) j" and "answer_fits j c p"
    and "advance flow c facts = (flow', nxt)" and "nxt = Do k \<or> nxt = AnswerThen k" and "holds_result flow'"
    and "holds_result flow \<Longrightarrow> is_node stored"
  shows "is_node (kept_payload p stored)"
proof -
  have nf: "c \<noteq> JobFailed f" for f
    using assms(4,5,6) by (auto simp: advance_def advance_failed_def holds_result_def split: if_splits)
  then have st: "advance_step flow c facts = (flow', nxt)"
    using assms(4,5) by (cases c) (auto simp: advance_def split: if_splits)
  note fit = fits_cases [OF assms(3) nf]
  from holding_steps [OF assms(1) st assms(5,6)] show ?thesis
  proof
    assume a: "fl_step flow \<in> {AttrNode, MatLookup} \<and> found_row c"
    then have "\<exists>x name. j = ReadNode x \<or> j = ReadChild x name" using assms(2) by auto
    with a fit(1,2) have "is_node (Some p)" by (auto simp: found_row_def)
    then show ?thesis by (auto simp: is_node_def kept_payload_def)
  next
    assume a: "holds_result flow \<and> fl_step flow \<noteq> MatBuffer \<and> fl_step flow \<noteq> AttrFinal"
    then have "p = NoPayload" using assms(2) fit(7) by (auto simp: holds_result_def)
    with a assms(7) show ?thesis by (simp add: kept_payload_def)
  qed
qed

end
