(* ===== verification/Core_Substrate.thy ===== *)
theory Core_Substrate
  imports Core_Answers
begin

text \<open>
  The substrate at work: the deciding thread, the queues of the pools, the jobs the workers have
  taken, and the channel back. A step is one message sent by a frontend or the uploader, one job
  taken by a worker, one job finished, or one turn of the deciding thread. The theorems hold for
  every interleaving of such steps.
\<close>

section \<open>Queues of work\<close>

text \<open>
  Both kinds of queue promise the same: what is sent is taken once, or waits. \<open>load\<close> is what waits.
\<close>

locale work_queue =
  fixes load :: "'q \<Rightarrow> dispatched list"
    and send :: "dispatched \<Rightarrow> 'q \<Rightarrow> 'q option"
    and pop :: "'q \<Rightarrow> 'q \<times> popped"
  assumes send_load: "send d q = Some q' \<Longrightarrow> mset (load q') = add_mset d (mset (load q))"
    and pop_load: "pop q = (q', Took d) \<Longrightarrow> mset (load q) = add_mset d (mset (load q'))"
    and pop_none: "pop q = (q', r) \<Longrightarrow> r \<notin> range Took \<Longrightarrow> q' = q \<and> load q = []"
begin

text \<open>A run of sends and pops, with what was taken.\<close>

fun serve :: "dispatched option list \<Rightarrow> 'q \<Rightarrow> dispatched list \<Rightarrow> 'q \<times> dispatched list" where
  "serve [] q taken = (q, taken)"
| "serve (Some d # ops) q taken = serve ops (case send d q of None \<Rightarrow> q | Some q' \<Rightarrow> q') taken"
| "serve (None # ops) q taken =
     (case pop q of (q', Took d) \<Rightarrow> serve ops q' (taken @ [d]) | (q', _) \<Rightarrow> serve ops q' taken)"

lemma served_once:
  assumes "serve ops q taken = (q', taken')" and "\<And>d q. Some d \<in> set ops \<Longrightarrow> send d q \<noteq> None"
  shows "mset (load q') + mset taken' = mset (load q) + mset taken + mset (List.map_filter id ops)"
  using assms
proof (induction ops q taken rule: serve.induct)
  case (1 q taken)
  then show ?case by (simp add: map_filter_simps)
next
  case (2 d ops q taken)
  then obtain q1 where "send d q = Some q1" by fastforce
  with 2 send_load [OF this] show ?case by (simp add: map_filter_simps)
next
  case (3 ops q taken)
  obtain q1 r where p: "pop q = (q1, r)" by fastforce
  with 3 pop_load [of q q1] pop_none [OF p] show ?case
    by (cases r) (auto simp: map_filter_simps)
qed

end

definition channel_send :: "dispatched \<Rightarrow> dispatched list \<Rightarrow> dispatched list option" where
  "channel_send d q = Some (q @ [d])"

definition channel_pop :: "dispatched list \<Rightarrow> dispatched list \<times> popped" where
  "channel_pop q = (case q of [] \<Rightarrow> (q, Waits) | d # rest \<Rightarrow> (rest, Took d))"

definition net_load :: "net_queue \<Rightarrow> dispatched list" where
  "net_load q = nq_interactive q @ nq_background q"

interpretation channel: work_queue "\<lambda>q. q" channel_send channel_pop
  by unfold_locales (auto simp: channel_send_def channel_pop_def split: list.splits)

interpretation net: work_queue net_load net_send net_pop
  by unfold_locales (auto simp: net_load_def net_send_def net_pop_def split: list.splits if_splits)

section \<open>Steps\<close>

datatype envelope = FromFrontend message | FromWorker dispatched completion payload

fun message_of :: "envelope \<Rightarrow> message" where
  "message_of (FromFrontend msg) = msg"
| "message_of (FromWorker d c p) = report d c p"

record substrate =
  sb_decider :: decider
  sb_running :: "dispatched list"
  sb_mail :: "envelope list"

definition substrate_new :: "bool \<Rightarrow> activity option \<Rightarrow> substrate" where
  "substrate_new async_upload act = \<lparr>sb_decider = decider_new async_upload act, sb_running = [], sb_mail = []\<rparr>"

text \<open>A worker of one of the pools takes the next job of its queue.\<close>

definition pool_pop :: "executor \<Rightarrow> queues \<Rightarrow> queues \<times> popped" where
  "pool_pop ex qs =
     (case ex of
        DbRead \<Rightarrow> (case channel_pop (qu_db_read qs) of (q, r) \<Rightarrow> (qs\<lparr>qu_db_read := q\<rparr>, r))
      | DbWrite \<Rightarrow> (case channel_pop (qu_db_write qs) of (q, r) \<Rightarrow> (qs\<lparr>qu_db_write := q\<rparr>, r))
      | FileIo \<Rightarrow> (case channel_pop (qu_file qs) of (q, r) \<Rightarrow> (qs\<lparr>qu_file := q\<rparr>, r))
      | Net \<Rightarrow> (case net_pop (qu_net qs) of (q, r) \<Rightarrow> (qs\<lparr>qu_net := q\<rparr>, r)))"

text \<open>What frontends and the uploader send: \<open>asked t\<close> is what was asked under the ticket \<open>t\<close>.\<close>

definition front_ok :: "(request_id \<Rightarrow> intent) \<Rightarrow> message \<Rightarrow> bool" where
  "front_ok asked msg \<longleftrightarrow>
     (case msg of
        RequestMessage r \<Rightarrow> asked (rq_id r) = rq_intent r \<and> handed_over_from (rq_intent r) = None
      | AbandonMessage t \<Rightarrow> True
      | ResumeUpload obj etag mtime \<Rightarrow> True
      | DiagMessage \<Rightarrow> True
      | _ \<Rightarrow> False)"

text \<open>
  The messages that would hand the result a flow is keeping to somebody else: a request given up,
  or a refresh skipped over an unsaved change, while the flow of that object holds a result.
\<close>

definition robs :: "machine \<Rightarrow> message \<Rightarrow> bool" where
  "robs m msg \<longleftrightarrow>
     (case msg of
        AbandonMessage t \<Rightarrow> \<not> not_robbed m t
      | RequestMessage r \<Rightarrow> \<not> not_skipped m r
      | _ \<Rightarrow> False)"

inductive substrate_step :: "(request_id \<Rightarrow> intent) \<Rightarrow> substrate \<Rightarrow> substrate \<Rightarrow> bool" for asked where
  submit: "front_ok asked msg \<Longrightarrow> substrate_step asked s (s\<lparr>sb_mail := sb_mail s @ [FromFrontend msg]\<rparr>)"
| take: "pool_pop ex (de_queues (sb_decider s)) = (qs, Took d) \<Longrightarrow>
    substrate_step asked s
      (s\<lparr>sb_decider := (sb_decider s)\<lparr>de_queues := qs\<rparr>, sb_running := d # sb_running s\<rparr>)"
| finish: "d \<in> set (sb_running s) \<Longrightarrow> answer_fits (di_job d) c p \<Longrightarrow>
    substrate_step asked s
      (s\<lparr>sb_running := remove1 d (sb_running s), sb_mail := sb_mail s @ [FromWorker d c p]\<rparr>)"
| decide: "sb_mail s = e # rest \<Longrightarrow> \<not> robs (de_machine (sb_decider s)) (message_of e) \<Longrightarrow>
    turn (message_of e) (sb_decider s) = Some d \<Longrightarrow>
    substrate_step asked s
      (s\<lparr>sb_decider := d\<lparr>de_scheduled := []\<rparr>,
         sb_mail := rest @ map (FromFrontend \<circ> RequestMessage) (de_scheduled d)\<rparr>)"

inductive substrate_runs :: "(request_id \<Rightarrow> intent) \<Rightarrow> substrate \<Rightarrow> bool" for asked where
  start: "substrate_runs asked (substrate_new async_upload act)"
| step: "substrate_runs asked s \<Longrightarrow> substrate_step asked s s' \<Longrightarrow> substrate_runs asked s'"

section \<open>What the deciding thread does with its actions\<close>

definition pool_load :: "queues \<Rightarrow> dispatched list" where
  "pool_load qs = qu_db_read qs @ qu_db_write qs @ qu_file qs @ net_load (qu_net qs)"

definition flow_load :: "dispatched multiset \<Rightarrow> (object_id \<times> job) multiset" where
  "flow_load ds = image_mset (\<lambda>d. (di_object d, di_job d)) (filter_mset (\<lambda>d. di_deliver d = ToFlow) ds)"

definition refresh_load :: "dispatched multiset \<Rightarrow> object_id multiset" where
  "refresh_load ds = image_mset di_object (filter_mset (\<lambda>d. di_deliver d = Detached) ds)"

lemma load_simps [simp]:
  "flow_load {#} = {#}" "refresh_load {#} = {#}"
  "flow_load (A + B) = flow_load A + flow_load B" "refresh_load (A + B) = refresh_load A + refresh_load B"
  "flow_load (add_mset d A) = (if di_deliver d = ToFlow then add_mset (di_object d, di_job d) (flow_load A) else flow_load A)"
  "refresh_load (add_mset d A) = (if di_deliver d = Detached then add_mset (di_object d) (refresh_load A) else refresh_load A)"
  by (simp_all add: flow_load_def refresh_load_def)

lemma queues_send_load:
  assumes "queues_send obj job how qs = Some qs'"
  shows "mset (pool_load qs') = add_mset \<lparr>di_object = obj, di_job = job, di_deliver = how\<rparr> (mset (pool_load qs))"
proof (cases "job_executor job = Net")
  case True
  with assms obtain q where q: "net_send \<lparr>di_object = obj, di_job = job, di_deliver = how\<rparr> (qu_net qs) = Some q"
      "qs' = qs\<lparr>qu_net := q\<rparr>"
    by (auto simp: queues_send_def)
  with net.send_load [OF q(1)] show ?thesis by (simp add: pool_load_def)
next
  case False
  with assms show ?thesis
    by (cases "job_executor job") (auto simp: queues_send_def pool_load_def Let_def split: if_splits)
qed

lemma pool_pop_load:
  assumes "pool_pop ex qs = (qs', Took d)"
  shows "mset (pool_load qs) = add_mset d (mset (pool_load qs'))"
proof (cases ex)
  case Net
  with assms obtain q where "net_pop (qu_net qs) = (q, Took d)" "qs' = qs\<lparr>qu_net := q\<rparr>"
    by (auto simp: pool_pop_def split: prod.splits)
  with net.pop_load [of "qu_net qs" q d] show ?thesis by (simp add: pool_load_def)
qed (use assms channel.pop_load in \<open>auto simp: pool_pop_def pool_load_def split: prod.splits\<close>)

lemma perform_cases:
  assumes "perform a d = Some d'"
  obtains (sent) obj job how qs where "queues_send obj job how (de_queues d) = Some qs"
      "d' = d\<lparr>de_queues := qs, de_refreshing := (if how = Detached then obj # de_refreshing d else de_refreshing d)\<rparr>"
      "a = Dispatch obj job \<and> how = ToFlow \<or> (\<exists>t. a = ReadBeside obj job t \<and> how = Beside t) \<or>
       a = RefreshBeside obj \<and> how = Detached \<and> job = ListRemote obj \<and> obj \<notin> set (de_refreshing d) \<and>
         background_len (qu_net (de_queues d)) < max_refresh_backlog"
  | (dropped) obj where "a = RefreshBeside obj" "d' = d"
  | (scheduled) obj i where "a = Schedule obj i"
      "d' = d\<lparr>de_scheduled := de_scheduled d @ [\<lparr>rq_id = no_ticket, rq_object = obj, rq_intent = i\<rparr>]\<rparr>"
  | (answered) obj ts out where "a = Answer obj ts out"
      "d' = say_answer \<lparr>an_requests = ts, an_outcome = out, an_payload = take_payload obj d\<rparr>
              (d\<lparr>de_payloads := hm_remove obj (de_payloads d)\<rparr>)"
proof (cases a)
  case (Dispatch obj job)
  with assms obtain qs where "queues_send obj job ToFlow (de_queues d) = Some qs" "d' = d\<lparr>de_queues := qs\<rparr>"
    by (auto simp: perform_def dispatch_def)
  with Dispatch show ?thesis by (intro sent [of obj job ToFlow qs]) auto
next
  case (ReadBeside obj job t)
  with assms obtain qs where "queues_send obj job (Beside t) (de_queues d) = Some qs" "d' = d\<lparr>de_queues := qs\<rparr>"
    by (auto simp: perform_def dispatch_def)
  with ReadBeside show ?thesis by (intro sent [of obj job "Beside t" qs]) auto
next
  case (RefreshBeside obj)
  show ?thesis
  proof (cases "d' = d")
    case True
    with RefreshBeside dropped show ?thesis by blast
  next
    case False
    with assms RefreshBeside obtain qs where "queues_send obj (ListRemote obj) Detached (de_queues d) = Some qs"
        "d' = d\<lparr>de_queues := qs, de_refreshing := obj # de_refreshing d\<rparr>"
        "obj \<notin> set (de_refreshing d)" "background_len (qu_net (de_queues d)) < max_refresh_backlog"
      by (auto simp: perform_def dispatch_def split: if_splits)
    with RefreshBeside show ?thesis by (intro sent [of obj "ListRemote obj" Detached qs]) auto
  qed
qed (use assms scheduled answered in \<open>auto simp: perform_def\<close>)

lemma say_answer_frame [simp]:
  "de_machine (say_answer x d) = de_machine d" "de_queues (say_answer x d) = de_queues d"
  "de_refreshing (say_answer x d) = de_refreshing d" "de_scheduled (say_answer x d) = de_scheduled d"
  "de_payloads (say_answer x d) = de_payloads d" "de_answers (say_answer x d) = de_answers d @ [x]"
  by (simp_all add: say_answer_def)

text \<open>What a list of actions leaves of the state, and what it adds to the work under way.\<close>

lemma perform_all_frame: "perform_all acts d = Some d' \<Longrightarrow> de_machine d' = de_machine d"
proof (induction acts arbitrary: d)
  case (Cons a acts)
  then obtain d1 where p: "perform a d = Some d1" "perform_all acts d1 = Some d'" by (auto split: option.splits)
  have "de_machine d1 = de_machine d" using p(1) by (cases rule: perform_cases) auto
  with Cons.IH [OF p(2)] show ?case by simp
qed simp

text \<open>The refreshes marked as running and those handed out grow together.\<close>

definition refresh_step :: "decider \<Rightarrow> decider \<Rightarrow> bool" where
  "refresh_step d d' \<longleftrightarrow>
     (\<exists>new. mset (de_refreshing d') = mset (de_refreshing d) + new \<and>
        refresh_load (mset (pool_load (de_queues d'))) = refresh_load (mset (pool_load (de_queues d))) + new) \<and>
     (distinct (de_refreshing d) \<longrightarrow> distinct (de_refreshing d'))"

lemma refresh_step_refl [simp]: "refresh_step d d"
  by (auto simp: refresh_step_def)

lemma refresh_step_trans: "refresh_step d d' \<Longrightarrow> refresh_step d' d'' \<Longrightarrow> refresh_step d d''"
  by (auto simp: refresh_step_def add.assoc)

lemma perform_load:
  assumes "perform a d = Some d'"
  shows "flow_load (mset (pool_load (de_queues d'))) = flow_load (mset (pool_load (de_queues d))) + dispatched [a]"
    and "refresh_step d d'"
  using assms by (cases rule: perform_cases; auto simp: queues_send_load refresh_step_def)+

lemma perform_all_load:
  "perform_all acts d = Some d' \<Longrightarrow>
     flow_load (mset (pool_load (de_queues d'))) = flow_load (mset (pool_load (de_queues d))) + dispatched acts \<and>
     refresh_step d d'"
proof (induction acts arbitrary: d)
  case (Cons a acts)
  then obtain d1 where p: "perform a d = Some d1" "perform_all acts d1 = Some d'" by (auto split: option.splits)
  from perform_load [OF p(1)] Cons.IH [OF p(2)] refresh_step_trans show ?case by (auto simp: ac_simps)
qed simp

text \<open>Refreshes wait apart from everything else, and never too many of them.\<close>

definition tiers_ok :: "net_queue \<Rightarrow> bool" where
  "tiers_ok q \<longleftrightarrow> (\<forall>d \<in> set (nq_interactive q). di_deliver d \<noteq> Detached) \<and>
     (\<forall>d \<in> set (nq_background q). di_deliver d = Detached) \<and> length (nq_background q) \<le> max_refresh_backlog"

lemma perform_tiers:
  assumes "perform a d = Some d'" and "tiers_ok (qu_net (de_queues d))"
  shows "tiers_ok (qu_net (de_queues d'))"
  using assms
  by (cases rule: perform_cases)
    (auto simp: queues_send_def net_send_def tiers_ok_def background_len_def Let_def split: if_splits executor.splits)

lemma perform_all_tiers:
  "perform_all acts d = Some d' \<Longrightarrow> tiers_ok (qu_net (de_queues d)) \<Longrightarrow> tiers_ok (qu_net (de_queues d'))"
  by (induction acts arbitrary: d) (auto intro: perform_tiers split: option.splits)

text \<open>Reads beside a flow, messages to oneself, payloads and answers.\<close>

definition beside_work :: "(request_id \<Rightarrow> intent) \<Rightarrow> dispatched \<Rightarrow> bool" where
  "beside_work asked d \<longleftrightarrow> (\<forall>t. di_deliver d = Beside t \<longrightarrow> beside_job asked t (di_job d))"

lemma perform_beside:
  assumes "perform a d = Some d'" and "side_actions asked [a]" and "\<forall>x \<in># mset (pool_load (de_queues d)). beside_work asked x"
  shows "\<forall>x \<in># mset (pool_load (de_queues d')). beside_work asked x"
  using assms(1)
proof (cases rule: perform_cases)
  case (sent obj job how qs)
  from sent(3) assms(2) have "beside_work asked \<lparr>di_object = obj, di_job = job, di_deliver = how\<rparr>"
    by (auto simp: beside_work_def side_actions_def)
  with assms(3) show ?thesis using sent(2) by (simp add: queues_send_load [OF sent(1)])
qed (use assms(3) in auto)

lemma perform_all_beside:
  "perform_all acts d = Some d' \<Longrightarrow> side_actions asked acts \<Longrightarrow> \<forall>x \<in># mset (pool_load (de_queues d)). beside_work asked x \<Longrightarrow>
     \<forall>x \<in># mset (pool_load (de_queues d')). beside_work asked x"
proof (induction acts arbitrary: d)
  case (Cons a acts)
  then obtain d1 where p: "perform a d = Some d1" "perform_all acts d1 = Some d'" by (auto split: option.splits)
  have sa: "side_actions asked [a]" "side_actions asked acts" using Cons.prems(2) by (auto simp: side_actions_def)
  show ?case by (rule Cons.IH [OF p(2) sa(2) perform_beside [OF p(1) sa(1) Cons.prems(3)]])
qed simp

lemma perform_scheduled:
  assumes "perform_all acts d = Some d'" and "side_actions asked acts"
    and "\<forall>r \<in> set (de_scheduled d). rq_id r = no_ticket \<and> rq_intent r = Publish"
  shows "\<forall>r \<in> set (de_scheduled d'). rq_id r = no_ticket \<and> rq_intent r = Publish"
  using assms
proof (induction acts arbitrary: d)
  case (Cons a acts)
  then obtain d1 where p: "perform a d = Some d1" "perform_all acts d1 = Some d'" by (auto split: option.splits)
  have sa: "side_actions asked [a]" "side_actions asked acts" using Cons.prems(2) by (auto simp: side_actions_def)
  have "\<forall>r \<in> set (de_scheduled d1). rq_id r = no_ticket \<and> rq_intent r = Publish"
    using p(1) sa(1) Cons.prems(3) by (cases rule: perform_cases) (auto simp: side_actions_def)
  from Cons.IH [OF p(2) sa(2) this] show ?case .
qed simp

lemma perform_payload:
  assumes "perform_all acts d = Some d'"
  shows "hm_get (de_payloads d') k = (if \<exists>ts out. Answer k ts out \<in> set acts then None else hm_get (de_payloads d) k)"
  using assms
proof (induction acts arbitrary: d)
  case (Cons a acts)
  then obtain d1 where p: "perform a d = Some d1" "perform_all acts d1 = Some d'" by (auto split: option.splits)
  have "hm_get (de_payloads d1) k = (if \<exists>ts out. a = Answer k ts out then None else hm_get (de_payloads d) k)"
    using p(1) by (cases rule: perform_cases) (auto simp: store_simps)
  with Cons.IH [OF p(2)] show ?case by auto
qed simp

text \<open>An answer is good if it brings every caller what it asked for.\<close>

definition good_answer :: "(request_id \<Rightarrow> intent) \<Rightarrow> answered_message \<Rightarrow> bool" where
  "good_answer asked a \<longleftrightarrow> (an_outcome a = Ok \<longrightarrow> (\<forall>t \<in> set (an_requests a). delivers (asked t) (an_payload a)))"

lemma perform_quiet:
  assumes "perform_all acts d = Some d'" and "quiet_answers asked acts" and "\<forall>a \<in> set (de_answers d). good_answer asked a"
  shows "\<forall>a \<in> set (de_answers d'). good_answer asked a"
  using assms
proof (induction acts arbitrary: d)
  case (Cons a acts)
  then obtain d1 where p: "perform a d = Some d1" "perform_all acts d1 = Some d'" by (auto split: option.splits)
  have q: "quiet_answers asked [a]" "quiet_answers asked acts" using Cons.prems(2) by (auto simp: quiet_answers_def)
  have "\<forall>a \<in> set (de_answers d1). good_answer asked a"
    using p(1) q(1) Cons.prems(3)
    by (cases rule: perform_cases) (auto simp: good_answer_def quiet_answers_def owes_nothing_def)
  from Cons.IH [OF p(2) q(2) this] show ?case .
qed simp

section \<open>One turn\<close>

definition decider_ok :: "(request_id \<Rightarrow> intent) \<Rightarrow> decider \<Rightarrow> bool" where
  "decider_ok asked d \<longleftrightarrow> balanced (de_machine d) \<and> kinds asked (de_machine d) \<and>
     (\<forall>k b. hm_get (mc_busy (de_machine d)) k = Some b \<longrightarrow> holds_result (bz_flow b) \<longrightarrow> is_node (hm_get (de_payloads d) k)) \<and>
     (\<forall>a \<in> set (de_answers d). good_answer asked a) \<and>
     (\<forall>r \<in> set (de_scheduled d). rq_id r = no_ticket \<and> rq_intent r = Publish)"

lemma report_activity_frame [simp]:
  "de_machine (report_activity d) = de_machine d" "de_queues (report_activity d) = de_queues d"
  "de_refreshing (report_activity d) = de_refreshing d" "de_scheduled (report_activity d) = de_scheduled d"
  "de_payloads (report_activity d) = de_payloads d" "de_answers (report_activity d) = de_answers d"
  by (simp_all add: report_activity_def)

lemma decider_ok_frame [simp]:
  "decider_ok asked (report_activity d) = decider_ok asked d"
  "decider_ok asked (d\<lparr>de_refreshing := rs\<rparr>) = decider_ok asked d"
  "decider_ok asked (d\<lparr>de_diags := ds\<rparr>) = decider_ok asked d"
  "decider_ok asked (d\<lparr>de_queues := qs\<rparr>) = decider_ok asked d"
  by (simp_all add: decider_ok_def)

lemma acting_quiet:
  assumes "perform_all acts d = Some d'" and "quiet_answers asked acts" and "side_actions asked acts"
    and "spares_holders (de_machine d) acts" and "decider_ok asked d"
  shows "decider_ok asked d'"
proof -
  have "is_node (hm_get (de_payloads d') k)" if "hm_get (mc_busy (de_machine d)) k = Some b" "holds_result (bz_flow b)" for k b
    using that perform_payload [OF assms(1), of k] assms(4,5) unfolding spares_holders_def decider_ok_def by auto
  with perform_all_frame [OF assms(1)] perform_quiet [OF assms(1,2)] perform_scheduled [OF assms(1,3)] assms(5)
  show ?thesis unfolding decider_ok_def by simp
qed

lemma acting_nobody:
  assumes "perform_all acts (report_activity (d\<lparr>de_machine := m'\<rparr>)) = Some d'" and "decider_ok asked d"
    and "answers_nobody asked (de_machine d) m' acts" and "balanced m'"
  shows "decider_ok asked d'"
proof (rule acting_quiet [OF assms(1)])
  show "decider_ok asked (report_activity (d\<lparr>de_machine := m'\<rparr>))"
    using assms(2-4) unfolding decider_ok_def answers_nobody_def no_new_holders_def
    by (simp add: report_activity_def) blast
qed (use assms(3) in \<open>simp_all add: answers_nobody_def\<close>)

lemma drop_leftover_ok: "decider_ok asked d \<Longrightarrow> decider_ok asked (drop_leftover completed d)"
  by (auto simp: decider_ok_def drop_leftover_def is_busy_def store_simps split: option.splits)

lemma drop_leftover_frame [simp]:
  "de_machine (drop_leftover completed d) = de_machine d" "de_queues (drop_leftover completed d) = de_queues d"
  "de_refreshing (drop_leftover completed d) = de_refreshing d" "de_scheduled (drop_leftover completed d) = de_scheduled d"
  by (simp_all add: drop_leftover_def split: option.split)

text \<open>A turn on the completion of a job that was handed out, with an answer that fits.\<close>

lemma completion_turn:
  assumes ok: "decider_ok asked d" and t: "turn (Completed obj c p) d = Some d'"
    and b: "hm_get (mc_busy (de_machine d)) obj = Some b" "bz_outstanding b = Some j" and fit: "answer_fits j c p"
  shows "decider_ok asked d'"
proof -
  let ?m = "de_machine d"
  let ?d = "if p = NoPayload then d else d\<lparr>de_payloads := hm_insert obj p (de_payloads d)\<rparr>"
  obtain m' acts where co: "on_completion ?m obj c = (m', acts)" by fastforce
  have bal: "balanced ?m" and kin: "kinds asked ?m" using ok by (simp_all add: decider_ok_def)
  obtain facts flow nxt where ad: "advance (bz_flow b) c facts = (flow, nxt)" and se: "settles asked ?m obj flow nxt m' acts"
    by (rule on_completion_settles [OF co bal kin b])
  have bi: "busy_inv obj b" using bal b(1) minv_busy [of ?m obj b] by (simp add: balanced_def)
  then have os: "on_script (bz_flow b)" and aw: "awaits (fl_step (bz_flow b)) j"
    using b(2) by (simp_all add: busy_inv_def)
  let ?d0 = "report_activity (?d\<lparr>de_machine := m'\<rparr>)"
  obtain d1 where d1: "perform_all acts ?d0 = Some d1" "d' = drop_leftover (Some obj) d1"
    using t co by (auto simp: turn_def receive_def machine_says_def Let_def split: if_splits)
  obtain rest where acts: "acts = lead_answer obj flow nxt @ rest" "quiet_answers asked rest"
    using se by (auto simp: settles_def)
  have stored: "holds_result (bz_flow b) \<Longrightarrow> is_node (hm_get (de_payloads d) obj)"
    using ok b(1) by (auto simp: decider_ok_def)
  have pay: "hm_get (de_payloads ?d0) k = (if k = obj then kept_payload p (hm_get (de_payloads d) obj) else hm_get (de_payloads d) k)" for k
    by (simp add: kept_payload_def store_simps)
  have good0: "\<forall>a \<in> set (de_answers ?d0). good_answer asked a" using ok by (simp add: decider_ok_def)
  have "\<exists>d2. perform_all rest d2 = Some d1 \<and> (\<forall>a \<in> set (de_answers d2). good_answer asked a)"
  proof (cases "lead_answer obj flow nxt = []")
    case True
    with d1(1) acts(1) good0 show ?thesis by auto
  next
    case False
    then have nxt: "nxt = Done" and lead: "lead_answer obj flow nxt = [Answer obj (fl_waiters flow) Ok]"
      by (auto simp: lead_answer_def split: if_splits)
    let ?d2 = "say_answer \<lparr>an_requests = fl_waiters flow, an_outcome = Ok, an_payload = take_payload obj ?d0\<rparr>
        (?d0\<lparr>de_payloads := hm_remove obj (de_payloads ?d0)\<rparr>)"
    have dl: "delivers (fl_intent (bz_flow b)) (take_payload obj ?d0)"
      using finished_flow_delivers [OF os aw fit ad [unfolded nxt] stored] pay [of obj] by (simp add: take_payload_def)
    have "\<forall>t \<in> set (fl_waiters flow). delivers (asked t) = delivers (fl_intent (bz_flow b))"
      using kinds_busy [OF kin b(1)] advance_frame [OF ad] by (auto simp: flow_kind_def same_kind_def)
    with dl have "good_answer asked \<lparr>an_requests = fl_waiters flow, an_outcome = Ok, an_payload = take_payload obj ?d0\<rparr>"
      by (simp add: good_answer_def)
    with good0 have "\<forall>a \<in> set (de_answers ?d2). good_answer asked a" by simp
    moreover have "perform_all rest ?d2 = Some d1" using d1(1) acts(1) lead by (simp add: perform_def)
    ultimately show ?thesis by blast
  qed
  then obtain d2 where d2: "perform_all rest d2 = Some d1" "\<forall>a \<in> set (de_answers d2). good_answer asked a" by blast
  have "is_node (hm_get (de_payloads d1) k)"
    if k: "hm_get (mc_busy m') k = Some b'" "holds_result (bz_flow b')" for k b'
  proof -
    have "hm_get (de_payloads d1) k = hm_get (de_payloads ?d0) k"
      using perform_payload [OF d1(1), of k] se k unfolding settles_def spares_holders_def by auto
    moreover have held: "if k = obj then holds_result flow \<and> (\<exists>jj. nxt = Do jj \<or> nxt = AnswerThen jj)
        else \<exists>b. hm_get (mc_busy ?m) k = Some b \<and> holds_result (bz_flow b)"
      using se k unfolding settles_def by blast
    have "is_node (hm_get (de_payloads ?d0) k)"
    proof (cases "k = obj")
      case True
      with held obtain jj where "holds_result flow" "nxt = Do jj \<or> nxt = AnswerThen jj" by auto
      with holding_flow_keeps [OF os aw fit ad _ _ stored] pay [of k] True show ?thesis by auto
    next
      case False
      with held obtain b0 where "hm_get (mc_busy ?m) k = Some b0" "holds_result (bz_flow b0)" by auto
      with ok pay [of k] False show ?thesis by (auto simp: decider_ok_def)
    qed
    ultimately show ?thesis by simp
  qed
  moreover have "\<forall>a \<in> set (de_answers d1). good_answer asked a" by (rule perform_quiet [OF d2(1) acts(2) d2(2)])
  moreover have "balanced m'" by (rule on_completion_balanced [OF bal co]) (use b in auto)
  moreover have "\<forall>r \<in> set (de_scheduled d1). rq_id r = no_ticket \<and> rq_intent r = Publish"
    by (rule perform_scheduled [OF d1(1), where asked = asked]) (use se ok in \<open>simp_all add: settles_def decider_ok_def\<close>)
  moreover have "de_machine d1 = m'" using perform_all_frame [OF d1(1)] by simp
  moreover have "kinds asked m'" using se by (simp add: settles_def)
  ultimately have "decider_ok asked d1" unfolding decider_ok_def by blast
  then show ?thesis unfolding d1(2) by (rule drop_leftover_ok)
qed

text \<open>What a message must be when its turn comes.\<close>

definition message_ok :: "(request_id \<Rightarrow> intent) \<Rightarrow> machine \<Rightarrow> message \<Rightarrow> bool" where
  "message_ok asked m msg \<longleftrightarrow>
     (case msg of
        Completed obj c p \<Rightarrow>
          \<exists>b j. hm_get (mc_busy m) obj = Some b \<and> bz_outstanding b = Some j \<and> answer_fits j c p
      | CompletedBeside t c p \<Rightarrow> \<exists>j. beside_job asked t j \<and> answer_fits j c p
      | Refreshed obj \<Rightarrow> True
      | _ \<Rightarrow> front_ok asked msg)"

text \<open>The job a message reports as done.\<close>

definition done_with :: "machine \<Rightarrow> message \<Rightarrow> (object_id \<times> job) multiset" where
  "done_with m msg =
     (case msg of
        Completed obj c p \<Rightarrow>
          (case hm_get (mc_busy m) obj of
             Some b \<Rightarrow> (case bz_outstanding b of Some j \<Rightarrow> {#(obj, j)#} | None \<Rightarrow> {#})
           | None \<Rightarrow> {#})
      | _ \<Rightarrow> {#})"

definition flow_turn :: "decider \<Rightarrow> decider \<Rightarrow> (object_id \<times> job) multiset \<Rightarrow> bool" where
  "flow_turn d d' fin \<longleftrightarrow>
     flow_load (mset (pool_load (de_queues d'))) + in_flight (de_machine d) =
       flow_load (mset (pool_load (de_queues d))) + in_flight (de_machine d') + fin"

lemma beside_turn:
  assumes "decider_ok asked d" and "on_beside (de_machine d) t c = (m', out)" and "beside_job asked t j" and "answer_fits j c p"
  shows "decider_ok asked (say_answer \<lparr>an_requests = [t], an_outcome = out, an_payload = p\<rparr> (d\<lparr>de_machine := m'\<rparr>))"
    and "in_flight m' = in_flight (de_machine d)" 
proof -
  let ?m = "de_machine d"
  have bal: "balanced m'" using assms(1,2) on_beside_balanced [of ?m t c m' out] by (simp add: decider_ok_def)
  have m': "mc_busy m' = mc_busy ?m" "kinds asked m'"
    using assms(1,2)
    by (auto simp: on_beside_def decider_ok_def kinds_def store_simps Let_def split: option.splits prod.splits if_splits)
  have "out = Ok \<Longrightarrow> delivers (asked t) p"
  proof -
    assume ok: "out = Ok"
    then obtain f where f: "hm_get (mc_beside ?m) t = Some f"
      using assms(2) by (auto simp: on_beside_def split: option.splits)
    then have bf: "beside_flow asked t f" using assms(1) by (auto simp: decider_ok_def kinds_def)
    have diff: "\<not> same_kind Stat State" by (auto simp: same_kind_def fun_eq_iff)
    show ?thesis
    proof (cases "same_kind (asked t) Stat")
      case True
      with diff have "\<not> same_kind (asked t) State" by (simp add: same_kind_def)
      with True bf assms(3) have "fl_step f = StatNode" "\<not> fl_abort f" "\<exists>x. j = ReadNode x"
        by (auto simp: beside_flow_def beside_job_def)
      with assms(2,4) f ok have "\<exists>i row. p = PayloadNode i row"
        by (cases c) (auto simp: on_beside_def Let_def advance_def advance_failed_def past_commit_def advance_step_def stat_node_def wrong_completion_def
            answer_fits_def split: if_splits prod.splits)
      with True show ?thesis by (simp add: same_kind_def)
    next
      case False
      with bf assms(3) have "fl_step f = StateRead" "\<not> fl_abort f" "same_kind (asked t) State" "case j of ReadState x open_buffer \<Rightarrow> True | _ \<Rightarrow> False"
        by (auto simp: beside_flow_def beside_job_def)
      with assms(2,4) f ok have "\<exists>s g. p = PayloadState s g"
        by (cases c) (auto simp: on_beside_def Let_def advance_def advance_failed_def past_commit_def advance_step_def
            answer_fits_def split: if_splits prod.splits job.splits)
      with \<open>same_kind (asked t) State\<close> show ?thesis by (simp add: same_kind_def)
    qed
  qed
  with assms(1) bal m' show "decider_ok asked (say_answer \<lparr>an_requests = [t], an_outcome = out, an_payload = p\<rparr> (d\<lparr>de_machine := m'\<rparr>))"
    by (simp add: decider_ok_def good_answer_def)
  show "in_flight m' = in_flight ?m" using m' by (simp add: in_flight_def)
qed

lemma nobody_turn:
  assumes ok: "decider_ok asked d" and pf: "perform_all acts (report_activity (d\<lparr>de_machine := m'\<rparr>)) = Some d'"
    and "answers_nobody asked (de_machine d) m' acts" and "balanced m'"
    and jobs: "in_flight m' = in_flight (de_machine d) + dispatched acts"
    and bw: "\<forall>x \<in># mset (pool_load (de_queues d)). beside_work asked x"
  shows "decider_ok asked d' \<and> flow_turn d d' {#} \<and> refresh_step d d' \<and>
    (\<forall>x \<in># mset (pool_load (de_queues d')). beside_work asked x)"
proof (intro conjI)
  show "decider_ok asked d'" by (rule acting_nobody [OF pf ok assms(3,4)])
  show "flow_turn d d' {#}"
    using perform_all_load [OF pf] perform_all_frame [OF pf] jobs by (simp add: flow_turn_def ac_simps)
  show "refresh_step d d'" using perform_all_load [OF pf] by (simp add: refresh_step_def)
  show "\<forall>x \<in># mset (pool_load (de_queues d')). beside_work asked x"
    by (rule perform_all_beside [OF pf, where asked = asked]) (use assms(3) bw in \<open>simp_all add: answers_nobody_def\<close>)
qed

text \<open>
  The refreshes after a turn: a report of one takes its mark away, everything else adds marks for
  what it sends.
\<close>

definition refresh_turn :: "message \<Rightarrow> decider \<Rightarrow> decider \<Rightarrow> bool" where
  "refresh_turn msg d d' \<longleftrightarrow>
     (case msg of
        Refreshed obj \<Rightarrow> de_refreshing d' = removeAll obj (de_refreshing d) \<and> de_queues d' = de_queues d
      | _ \<Rightarrow> refresh_step d d')"

lemma on_script_holder:
  "busy_inv k b \<Longrightarrow> holds_result (bz_flow b) \<Longrightarrow> fl_intent (bz_flow b) \<noteq> Enumerate \<and> fl_intent (bz_flow b) \<noteq> Relist \<and> fl_intent (bz_flow b) \<noteq> Refresh"
  by (auto simp: busy_inv_def on_script_def holds_result_def)

lemma receive_nobody:
  assumes ok: "decider_ok asked d" and ticket: "asked no_ticket = Publish"
    and msg: "message_ok asked (de_machine d) msg" "\<not> robs (de_machine d) msg"
    and kind: "\<And>obj c p. msg \<noteq> Completed obj c p" "\<And>t c p. msg \<noteq> CompletedBeside t c p" "\<And>obj. msg \<noteq> Refreshed obj"
  obtains m' acts ds where "receive msg d = ((d\<lparr>de_diags := ds\<rparr>)\<lparr>de_machine := m'\<rparr>, acts, None)"
    and "answers_nobody asked (de_machine d) m' acts" "balanced m'" "in_flight m' = in_flight (de_machine d) + dispatched acts"
proof -
  let ?m = "de_machine d"
  have bal: "balanced ?m" and kin: "kinds asked ?m" using ok by (simp_all add: decider_ok_def)
  show ?thesis
  proof (cases msg)
    case (RequestMessage r)
    obtain m' acts where rq: "on_request ?m r = (m', acts)" by fastforce
    have front: "asked (rq_id r) = rq_intent r" "handover_ms (rq_intent r) = {#}"
      using msg(1) RequestMessage by (simp_all add: message_ok_def front_ok_def no_handover_ms)
    have "not_skipped ?m r" using msg(2) RequestMessage by (simp add: robs_def)
    with on_request_nobody [OF rq kin] front have "answers_nobody asked ?m m' acts" by simp
    moreover have "receive msg d = ((d\<lparr>de_diags := de_diags d\<rparr>)\<lparr>de_machine := m'\<rparr>, acts, None)"
      using RequestMessage rq by (simp add: receive_def machine_says_def)
    ultimately show ?thesis
      using that on_request_balanced [OF bal rq front(2)] on_request_jobs [OF bal rq front(2)] by blast
  next
    case (AbandonMessage t)
    obtain m' acts where ab: "abandon ?m t = (m', acts)" by fastforce
    have "not_robbed ?m t" using msg(2) AbandonMessage by (simp add: robs_def)
    moreover have "receive msg d = ((d\<lparr>de_diags := de_diags d\<rparr>)\<lparr>de_machine := m'\<rparr>, acts, None)"
      using AbandonMessage ab by (simp add: receive_def machine_says_def)
    ultimately show ?thesis
      using that abandon_nobody [OF ab kin] abandon_balanced [OF bal ab] abandon_jobs [OF bal ab] by blast
  next
    case (ResumeUpload obj etag mtime)
    show ?thesis
    proof (cases "is_busy ?m obj")
      case True
      then have "receive msg d = ((d\<lparr>de_diags := de_diags d\<rparr>)\<lparr>de_machine := ?m\<rparr>, [], None)"
        using ResumeUpload by (simp add: receive_def resume_upload_def Let_def)
      from that [OF this answers_nobody_refl [OF kin] bal] show ?thesis by simp
    next
      case False
      define m0 where "m0 = (if fa_buffer_open (registry_facts (mc_registry ?m) obj) then ?m
        else ?m\<lparr>mc_registry := registry_open (mc_registry ?m) obj
               \<lparr>bf_dirty = True, bf_base_etag = etag, bf_pending_mtime = mtime, bf_ignored = False\<rparr>\<rparr>)"
      let ?r = "\<lparr>rq_id = no_ticket, rq_object = obj, rq_intent = Publish\<rparr>"
      obtain m' acts where rq: "on_request m0 ?r = (m', acts)" by fastforce
      have m0: "mc_busy m0 = mc_busy ?m" "kinds asked m0" "in_flight m0 = in_flight ?m"
        using kin by (simp_all add: m0_def in_flight_def)
      have bal0: "balanced m0"
        using bal by (auto simp: m0_def balanced_def minv_def handovers_def parked_parents_def registry_open_def)
      have "not_skipped m0 ?r" using False m0 by (simp add: not_skipped_def is_busy_def)
      with on_request_nobody [OF rq m0(2)] ticket have "answers_nobody asked m0 m' acts" by simp
      then have an: "answers_nobody asked ?m m' acts" using m0 by (simp add: answers_nobody_def no_new_holders_def)
      have rc: "receive msg d = ((d\<lparr>de_diags := de_diags d\<rparr>)\<lparr>de_machine := m'\<rparr>, acts, None)"
        using ResumeUpload False rq by (simp add: receive_def resume_upload_def machine_says_def Let_def m0_def)
      have hn: "handover_ms (rq_intent ?r) = {#}" by (simp add: handover_ms_def handed_over_from_def)
      show ?thesis
        using that [OF rc an on_request_balanced [OF bal0 rq hn]] on_request_jobs [OF bal0 rq hn] m0(3) by simp
    qed
  next
    case DiagMessage
    then have "receive msg d = ((d\<lparr>de_diags := de_diags d @ [(snapshot ?m, length (de_refreshing d))]\<rparr>)\<lparr>de_machine := ?m\<rparr>, [], None)"
      by (simp add: receive_def)
    from that [OF this answers_nobody_refl [OF kin] bal] show ?thesis by simp
  next
    case StopMessage
    with msg(1) show ?thesis by (simp add: message_ok_def front_ok_def)
  qed (use kind in auto)
qed

lemma turn_ok:
  assumes ok: "decider_ok asked d" and ticket: "asked no_ticket = Publish"
    and msg: "message_ok asked (de_machine d) msg" "\<not> robs (de_machine d) msg" and t: "turn msg d = Some d'"
    and bw: "\<forall>x \<in># mset (pool_load (de_queues d)). beside_work asked x"
  shows "decider_ok asked d' \<and> flow_turn d d' (done_with (de_machine d) msg) \<and> refresh_turn msg d d' \<and>
    (\<forall>x \<in># mset (pool_load (de_queues d')). beside_work asked x)"
proof (cases "\<exists>obj c p. msg = Completed obj c p")
  case True
  then obtain obj c p where m: "msg = Completed obj c p" by blast
  then obtain b j where b: "hm_get (mc_busy (de_machine d)) obj = Some b" "bz_outstanding b = Some j" "answer_fits j c p"
    using msg(1) by (auto simp: message_ok_def)
  have ok': "decider_ok asked d'" by (rule completion_turn [OF ok t [unfolded m] b])
  let ?d = "if p = NoPayload then d else d\<lparr>de_payloads := hm_insert obj p (de_payloads d)\<rparr>"
  obtain m' acts where co: "on_completion (de_machine d) obj c = (m', acts)" by fastforce
  obtain d1 where d1: "perform_all acts (report_activity (?d\<lparr>de_machine := m'\<rparr>)) = Some d1" "d' = drop_leftover (Some obj) d1"
    using t co m by (auto simp: turn_def receive_def machine_says_def Let_def split: if_splits)
  have bal: "balanced (de_machine d)" and kin: "kinds asked (de_machine d)" using ok by (simp_all add: decider_ok_def)
  have jobs: "add_mset (obj, j) (in_flight m') = in_flight (de_machine d) + dispatched acts"
    by (rule on_completion_jobs [OF bal co b(1,2)])
  obtain facts flow nxt where "settles asked (de_machine d) obj flow nxt m' acts"
    by (rule on_completion_settles [OF co bal kin b(1,2)])
  then have sa: "side_actions asked acts" by (simp add: settles_def)
  have "flow_turn d d' {#(obj, j)#}"
    using perform_all_load [OF d1(1)] perform_all_frame [OF d1(1)] jobs d1(2) by (simp add: flow_turn_def ac_simps split: if_splits)
  moreover have "refresh_step d d'"
    using perform_all_load [OF d1(1)] d1(2) by (simp add: refresh_step_def split: if_splits)
  moreover have "\<forall>x \<in># mset (pool_load (de_queues d')). beside_work asked x"
    using perform_all_beside [OF d1(1) sa] bw d1(2) by (simp split: if_splits)
  ultimately show ?thesis using ok' m b(1,2) by (simp add: done_with_def refresh_turn_def)
next
  case nc: False
  show ?thesis
  proof (cases "\<exists>t c p. msg = CompletedBeside t c p")
    case True
    then obtain t c p j where m: "msg = CompletedBeside t c p" "beside_job asked t j" "answer_fits j c p"
      using msg(1) by (auto simp: message_ok_def)
    obtain m' out where ob: "on_beside (de_machine d) t c = (m', out)" by fastforce
    note bt = beside_turn [OF ok ob m(2,3)]
    have "d' = report_activity (say_answer \<lparr>an_requests = [t], an_outcome = out, an_payload = p\<rparr> (d\<lparr>de_machine := m'\<rparr>))"
      using t ob m(1) by (simp add: turn_def receive_def drop_leftover_def option.map_id0)
    with bt m(1) bw show ?thesis
      by (simp add: flow_turn_def done_with_def refresh_turn_def refresh_step_def)
  next
    case nb: False
    show ?thesis
    proof (cases "\<exists>obj. msg = Refreshed obj")
      case True
      then obtain obj where m: "msg = Refreshed obj" by blast
      then have "d' = report_activity (d\<lparr>de_refreshing := removeAll obj (de_refreshing d)\<rparr>)"
        using t by (simp add: turn_def receive_def drop_leftover_def option.map_id0)
      with m ok bw show ?thesis by (simp add: flow_turn_def done_with_def refresh_turn_def)
    next
      case nr: False
      obtain m' acts ds where ds: "receive msg d = ((d\<lparr>de_diags := ds\<rparr>)\<lparr>de_machine := m'\<rparr>, acts, None)"
        and an: "answers_nobody asked (de_machine d) m' acts" "balanced m'"
          "in_flight m' = in_flight (de_machine d) + dispatched acts"
        by (rule receive_nobody [OF ok ticket msg]) (use nc nb nr in blast)+
      have "perform_all acts (report_activity ((d\<lparr>de_diags := ds\<rparr>)\<lparr>de_machine := m'\<rparr>)) = Some d'"
        using t ds by (auto simp: turn_def drop_leftover_def option.map_id0 split: if_splits)
      from nobody_turn [OF _ this, of asked] ok an bw
      have "decider_ok asked d' \<and> flow_turn d d' {#} \<and> refresh_step d d' \<and>
          (\<forall>x \<in># mset (pool_load (de_queues d')). beside_work asked x)"
        by (simp add: flow_turn_def refresh_step_def)
      moreover have "done_with (de_machine d) msg = {#}" "refresh_turn msg d d' \<longleftrightarrow> refresh_step d d'"
        using nc nr by (cases msg; simp add: done_with_def refresh_turn_def)+
      ultimately show ?thesis by simp
    qed
  qed
qed

end
