(* ===== verification/Core_Substrate_Runs.thy ===== *)
theory Core_Substrate_Runs
  imports Core_Substrate
begin

text \<open>
  Every interleaving of frontends, workers and the deciding thread: the invariant of the substrate
  and what follows from it. A caller is answered with what it asked for, no job is lost or run
  twice, and background refreshes stay in the background.
\<close>

section \<open>Every interleaving\<close>

definition mailed :: "envelope list \<Rightarrow> dispatched list" where
  "mailed mail = concat (map (\<lambda>e. case e of FromWorker d c p \<Rightarrow> [d] | FromFrontend msg \<Rightarrow> []) mail)"

lemma mailed_simps [simp]:
  "mailed [] = []" "mailed (FromWorker d c p # mail) = d # mailed mail" "mailed (FromFrontend msg # mail) = mailed mail"
  "mailed (mail @ mail') = mailed mail @ mailed mail'"
  by (simp_all add: mailed_def)

lemma mailed_front [simp]: "mailed (map (FromFrontend \<circ> f) xs) = []"
  by (simp add: mailed_def o_def)

text \<open>All work under way: waiting in a queue, in the hands of a worker, or reported and not yet heard.\<close>

definition under_way :: "substrate \<Rightarrow> dispatched multiset" where
  "under_way s = mset (pool_load (de_queues (sb_decider s))) + mset (sb_running s) + mset (mailed (sb_mail s))"

fun envelope_ok :: "(request_id \<Rightarrow> intent) \<Rightarrow> envelope \<Rightarrow> bool" where
  "envelope_ok asked (FromFrontend msg) = front_ok asked msg"
| "envelope_ok asked (FromWorker d c p) = answer_fits (di_job d) c p"

definition substrate_ok :: "(request_id \<Rightarrow> intent) \<Rightarrow> substrate \<Rightarrow> bool" where
  "substrate_ok asked s \<longleftrightarrow>
     decider_ok asked (sb_decider s) \<and> de_scheduled (sb_decider s) = [] \<and>
     flow_load (under_way s) = in_flight (de_machine (sb_decider s)) \<and>
     refresh_load (under_way s) = mset (de_refreshing (sb_decider s)) \<and>
     distinct (de_refreshing (sb_decider s)) \<and> tiers_ok (qu_net (de_queues (sb_decider s))) \<and>
     (\<forall>d \<in># under_way s. beside_work asked d) \<and> (\<forall>e \<in> set (sb_mail s). envelope_ok asked e)"

lemma in_flight_busy:
  assumes "minv m" and "(obj, j) \<in># in_flight m"
  obtains b where "hm_get (mc_busy m) obj = Some b" "bz_outstanding b = Some j"
proof -
  obtain k b where kb: "(k, b) \<in> set (mc_busy m)" "(obj, j) \<in># busy_job b"
    using assms(2) unfolding in_flight_def in_hm_sum by blast
  then have k: "hm_get (mc_busy m) k = Some b" using hm_get_in_set [OF minvD(1) [OF assms(1)]] by blast
  have "fl_object (bz_flow b) = k" using minv_busy [OF assms(1) k] by (simp add: busy_inv_def)
  with kb(2) have "k = obj" "bz_outstanding b = Some j" by (simp_all add: busy_job_def split: option.splits)
  with k that show thesis by blast
qed

lemma worker_message_ok:
  assumes "substrate_ok asked s" and "sb_mail s = FromWorker d c p # rest"
  shows "message_ok asked (de_machine (sb_decider s)) (report d c p)"
    and "flow_load {#d#} = done_with (de_machine (sb_decider s)) (report d c p)"
proof -
  let ?m = "de_machine (sb_decider s)"
  have d: "d \<in># under_way s" using assms(2) by (simp add: under_way_def)
  have fit: "answer_fits (di_job d) c p" and bw: "beside_work asked d"
    using assms d by (auto simp: substrate_ok_def)
  have inv: "minv ?m" using assms(1) by (simp add: substrate_ok_def decider_ok_def balanced_def)
  have flow: "\<exists>b. hm_get (mc_busy ?m) (di_object d) = Some b \<and> bz_outstanding b = Some (di_job d)" if "di_deliver d = ToFlow"
  proof -
    have "(di_object d, di_job d) \<in># flow_load (under_way s)" using d that by (force simp: flow_load_def)
    then have "(di_object d, di_job d) \<in># in_flight ?m" using assms(1) by (simp add: substrate_ok_def)
    from in_flight_busy [OF inv this] show ?thesis by blast
  qed
  show "message_ok asked ?m (report d c p)"
    using fit bw flow by (cases "di_deliver d") (auto simp: report_def message_ok_def beside_work_def)
  show "flow_load {#d#} = done_with ?m (report d c p)"
    using flow by (cases "di_deliver d") (auto simp: report_def done_with_def flow_load_def)
qed

lemma front_message_ok:
  assumes "front_ok asked msg"
  shows "message_ok asked m msg" and "done_with m msg = {#}"
  using assms by (cases msg; simp add: message_ok_def front_ok_def done_with_def)+

lemma balanced_start: "balanced (set_async_upload machine_new b)"
  by (simp add: balanced_def minv_def handovers_def parked_parents_def machine_new_def set_async_upload_def registry_new_def)

lemma substrate_start: "substrate_ok asked (substrate_new async_upload act)"
  using balanced_start [of async_upload]
  by (simp add: substrate_ok_def substrate_new_def decider_new_def decider_ok_def kinds_def under_way_def pool_load_def
      queues_new_def net_queue_new_def net_load_def in_flight_def tiers_ok_def set_async_upload_def machine_new_def)

lemma pool_pop_tiers:
  assumes "pool_pop ex qs = (qs', Took d)" and "tiers_ok (qu_net qs)"
  shows "tiers_ok (qu_net qs')"
proof (cases ex)
  case Net
  then have "qu_net qs' = fst (net_pop (qu_net qs))" using assms(1) by (auto simp: pool_pop_def split: prod.splits)
  with assms(2) show ?thesis
    by (cases "nq_interactive (qu_net qs)"; cases "nq_background (qu_net qs)") (simp_all add: net_pop_def tiers_ok_def)
qed (use assms in \<open>auto simp: pool_pop_def split: prod.splits\<close>)

lemma machine_says_queues: "de_queues (fst (machine_says x d)) = de_queues d"
  by (simp add: machine_says_def split: prod.split)

lemma resume_upload_queues: "de_queues (fst (resume_upload obj etag mtime d)) = de_queues d"
  by (simp add: resume_upload_def Let_def machine_says_queues)

lemma receive_queues: "de_queues (fst (receive msg d)) = de_queues d"
proof (cases msg)
  case (Completed obj c p)
  let ?d = "if p = NoPayload then d else d\<lparr>de_payloads := hm_insert obj p (de_payloads d)\<rparr>"
  show ?thesis
    using Completed machine_says_queues [of "on_completion (de_machine ?d) obj c" ?d]
    by (cases "machine_says (on_completion (de_machine ?d) obj c) ?d") (simp add: receive_def Let_def split: if_splits)
next
  case (ResumeUpload obj etag mtime)
  with resume_upload_queues [of obj etag mtime d] show ?thesis
    by (cases "resume_upload obj etag mtime d") (simp add: receive_def)
qed (simp_all add: receive_def machine_says_def split: prod.split)

lemma turn_tiers:
  assumes "turn msg d = Some d'" and "tiers_ok (qu_net (de_queues d))"
  shows "tiers_ok (qu_net (de_queues d'))"
proof -
  obtain d0 acts completed where r: "receive msg d = (d0, acts, completed)" by (cases "receive msg d") auto
  then obtain d1 where "perform_all acts (report_activity d0) = Some d1" "d' = drop_leftover completed d1"
    using assms(1) by (auto simp: turn_def split: if_splits)
  with perform_all_tiers [of acts "report_activity d0" d1] receive_queues [of msg d] r assms(2) show ?thesis by simp
qed

lemma substrate_decides:
  assumes ok: "substrate_ok asked s" and ticket: "asked no_ticket = Publish" and mail: "sb_mail s = e # rest"
    and "\<not> robs (de_machine (sb_decider s)) (message_of e)" and t: "turn (message_of e) (sb_decider s) = Some d'"
  shows "substrate_ok asked (s\<lparr>sb_decider := d'\<lparr>de_scheduled := []\<rparr>,
           sb_mail := rest @ map (FromFrontend \<circ> RequestMessage) (de_scheduled d')\<rparr>)" (is "substrate_ok asked ?s")
proof -
  let ?d = "sb_decider s"
  have dok: "decider_ok asked ?d" and bw: "\<forall>x \<in># mset (pool_load (de_queues ?d)). beside_work asked x"
    using ok by (auto simp: substrate_ok_def under_way_def)
  have eok: "envelope_ok asked e" using ok mail by (simp add: substrate_ok_def)
  have mok: "message_ok asked (de_machine ?d) (message_of e)"
    and fin: "flow_load (mset (mailed [e])) = done_with (de_machine ?d) (message_of e)"
    using eok worker_message_ok [OF ok] front_message_ok mail by (cases e; auto)+
  note tn = turn_ok [OF dok ticket mok assms(4) t bw]
  have uw: "under_way ?s = mset (pool_load (de_queues d')) + mset (sb_running s) + mset (mailed rest)"
    by (simp add: under_way_def)
  have old: "under_way s = mset (pool_load (de_queues ?d)) + mset (sb_running s) + mset (mailed rest) + mset (mailed [e])"
    using mail by (cases e) (simp_all add: under_way_def)
  have flow: "flow_load (under_way ?s) = in_flight (de_machine d')"
  proof -
    have "flow_load (under_way ?s) + in_flight (de_machine ?d) = flow_load (under_way s) + in_flight (de_machine d')"
      using tn fin unfolding uw old flow_turn_def by (simp add: ac_simps)
    with ok show ?thesis by (simp add: substrate_ok_def)
  qed
  have refr: "refresh_load (under_way ?s) = mset (de_refreshing d') \<and> distinct (de_refreshing d')"
  proof (cases "\<exists>obj. message_of e = Refreshed obj")
    case True
    then obtain obj where m: "message_of e = Refreshed obj" by blast
    then obtain d c p where e: "e = FromWorker d c p" "di_deliver d = Detached" "di_object d = obj"
      using eok by (cases e) (auto simp: front_ok_def report_def split: deliver.splits)
    have "de_refreshing d' = removeAll obj (de_refreshing ?d)" "de_queues d' = de_queues ?d"
      using tn m by (simp_all add: refresh_turn_def)
    moreover have dist: "distinct (de_refreshing ?d)" using ok by (simp add: substrate_ok_def)
    moreover have "mset (de_refreshing ?d) = add_mset obj (refresh_load (under_way ?s))"
      using ok e \<open>de_queues d' = de_queues ?d\<close> unfolding substrate_ok_def old uw by simp
    ultimately show ?thesis
      by (metis distinct_removeAll distinct_remove1_removeAll mset_remove1 add_mset_remove_trivial)
  next
    case False
    then have "refresh_step ?d d'" using tn by (cases "message_of e") (auto simp: refresh_turn_def)
    then obtain new where new: "mset (de_refreshing d') = mset (de_refreshing ?d) + new"
        "refresh_load (mset (pool_load (de_queues d'))) = refresh_load (mset (pool_load (de_queues ?d))) + new"
        "distinct (de_refreshing d')"
      using ok by (auto simp: refresh_step_def substrate_ok_def)
    have "refresh_load (mset (mailed [e])) = {#}"
      using False eok by (cases e) (auto simp: report_def split: deliver.splits)
    with new ok show ?thesis unfolding substrate_ok_def old uw by (simp add: ac_simps)
  qed
  have tiers: "tiers_ok (qu_net (de_queues d'))" using turn_tiers [OF t] ok by (simp add: substrate_ok_def)
  show ?thesis
    using tn flow refr tiers ok mail ticket
    unfolding substrate_ok_def by (auto simp: uw old decider_ok_def front_ok_def handed_over_from_def)
qed

lemma substrate_step_ok:
  assumes "substrate_step asked s s'" and "substrate_ok asked s" and "asked no_ticket = Publish"
  shows "substrate_ok asked s'"
  using assms(1)
proof cases
  case (submit msg)
  with assms(2) show ?thesis by (simp add: substrate_ok_def under_way_def)
next
  case (take ex qs d)
  note load = pool_pop_load [OF take(2)]
  have "under_way s' = under_way s" unfolding take(1) under_way_def by (simp add: load)
  with take(1) assms(2) pool_pop_tiers [OF take(2)] show ?thesis by (simp add: substrate_ok_def)
next
  case (finish d c p)
  then have "under_way s' = under_way s" by (simp add: under_way_def)
  with finish assms(2) show ?thesis by (simp add: substrate_ok_def)
next
  case (decide e rest d)
  from substrate_decides [OF assms(2,3) decide(2-4)] show ?thesis unfolding decide(1) .
qed

lemma substrate_runs_ok: "substrate_runs asked s \<Longrightarrow> asked no_ticket = Publish \<Longrightarrow> substrate_ok asked s"
  by (induction rule: substrate_runs.induct) (auto intro: substrate_start substrate_step_ok)

section \<open>A run to look at\<close>

text \<open>Runs can be played, move by move.\<close>

datatype move = Submit message | Take executor | Finish dispatched completion payload | Decide

definition harmless :: "machine \<Rightarrow> message \<Rightarrow> bool" where
  "harmless m msg \<longleftrightarrow> (case msg of RequestMessage r \<Rightarrow> \<not> is_busy m (rq_object r) | AbandonMessage t \<Rightarrow> False | _ \<Rightarrow> True)"

lemma harmless_robs: "harmless m msg \<Longrightarrow> \<not> robs m msg"
  by (auto simp: harmless_def robs_def not_skipped_def is_busy_def split: message.splits)

fun play :: "(request_id \<Rightarrow> intent) \<Rightarrow> move \<Rightarrow> substrate \<Rightarrow> substrate option" where
  "play asked (Submit msg) s =
     (if front_ok asked msg then Some (s\<lparr>sb_mail := sb_mail s @ [FromFrontend msg]\<rparr>) else None)"
| "play asked (Take ex) s =
     (case pool_pop ex (de_queues (sb_decider s)) of
        (qs, Took d) \<Rightarrow> Some (s\<lparr>sb_decider := (sb_decider s)\<lparr>de_queues := qs\<rparr>, sb_running := d # sb_running s\<rparr>)
      | _ \<Rightarrow> None)"
| "play asked (Finish d c p) s =
     (if d \<in> set (sb_running s)
      then Some (s\<lparr>sb_running := remove1 d (sb_running s), sb_mail := sb_mail s @ [FromWorker d c p]\<rparr>) else None)"
| "play asked Decide s =
     (case sb_mail s of
        [] \<Rightarrow> None
      | e # rest \<Rightarrow>
          if harmless (de_machine (sb_decider s)) (message_of e) then
            map_option (\<lambda>d. s\<lparr>sb_decider := d\<lparr>de_scheduled := []\<rparr>,
                sb_mail := rest @ map (FromFrontend \<circ> RequestMessage) (de_scheduled d)\<rparr>)
              (turn (message_of e) (sb_decider s))
          else None)"

fun plays :: "(request_id \<Rightarrow> intent) \<Rightarrow> move list \<Rightarrow> substrate \<Rightarrow> substrate option" where
  "plays asked [] s = Some s"
| "plays asked (mv # mvs) s = (case play asked mv s of None \<Rightarrow> None | Some s' \<Rightarrow> plays asked mvs s')"

lemma play_step:
  assumes "play asked mv s = Some s'" and "\<And>d c p. mv = Finish d c p \<Longrightarrow> answer_fits (di_job d) c p"
  shows "substrate_step asked s s'"
proof (cases mv)
  case (Submit msg)
  with assms(1) show ?thesis by (auto intro: substrate_step.submit split: if_splits)
next
  case (Take ex)
  with assms(1) show ?thesis by (auto intro: substrate_step.take split: prod.splits popped.splits)
next
  case (Finish d c p)
  with assms show ?thesis by (auto intro: substrate_step.finish split: if_splits)
next
  case Decide
  with assms(1) show ?thesis
    by (auto intro!: substrate_step.decide [OF _ harmless_robs] split: list.splits if_splits)
qed

lemma plays_runs:
  "plays asked mvs s = Some s' \<Longrightarrow> substrate_runs asked s \<Longrightarrow>
     (\<forall>mv \<in> set mvs. case mv of Finish d c p \<Rightarrow> answer_fits (di_job d) c p | _ \<Rightarrow> True) \<Longrightarrow> substrate_runs asked s'"
proof (induction mvs arbitrary: s)
  case (Cons mv mvs)
  then obtain s1 where s1: "play asked mv s = Some s1" "plays asked mvs s1 = Some s'" by (auto split: option.splits)
  have "substrate_step asked s s1" by (rule play_step [OF s1(1)]) (use Cons.prems(3) in auto)
  with Cons.IH [OF s1(2)] Cons.prems(2,3) substrate_runs.step show ?case by (metis list.set_intros(2))
qed simp

text \<open>A lookup in a directory whose listing is stale: it is listed, and answered.\<close>

definition sample_asked :: "request_id \<Rightarrow> intent" where
  "sample_asked t = (if t = RequestId 1 then Enumerate else Publish)"

definition sample_dir :: node_facts where
  "sample_dir = default_node\<lparr>nf_id := ObjectId 2, nf_found := True, nf_dir := True, nf_children_loaded := True,
     nf_listing_stale := True\<rparr>"

definition sample_row :: node where
  "sample_row = new_node 1 ''d'' ''d'' True"

abbreviation sample_job :: "job \<Rightarrow> deliver \<Rightarrow> dispatched" where
  "sample_job j how \<equiv> \<lparr>di_object = ObjectId 2, di_job = j, di_deliver = how\<rparr>"

definition sample_moves :: "move list" where
  "sample_moves =
     [Submit (RequestMessage \<lparr>rq_id = RequestId 1, rq_object = ObjectId 2, rq_intent = Enumerate\<rparr>), Decide, Take DbRead,
      Finish (sample_job (ReadNode (ObjectId 2)) ToFlow) (Node sample_dir) (PayloadNode 2 sample_row), Decide, Take DbRead,
      Finish (sample_job (ReadChildren (ObjectId 2)) ToFlow) Listed (PayloadEntries []), Decide]"

definition sample_run :: substrate where
  "sample_run = the (plays sample_asked sample_moves (substrate_new True None))"

lemma sample_plays:
  "map_option (\<lambda>s. (de_answers (sb_decider s), de_refreshing (sb_decider s), qu_net (de_queues (sb_decider s))))
     (plays sample_asked sample_moves (substrate_new True None)) =
   Some ([\<lparr>an_requests = [RequestId 1], an_outcome = Ok, an_payload = PayloadEntries []\<rparr>], [ObjectId 2],
     \<lparr>nq_interactive = [], nq_background = [sample_job (ListRemote (ObjectId 2)) Detached], nq_closed = False\<rparr>)"
  by code_simp

lemma sample_runs: "substrate_runs sample_asked sample_run"
proof -
  obtain s where s: "plays sample_asked sample_moves (substrate_new True None) = Some s"
    using sample_plays by (cases "plays sample_asked sample_moves (substrate_new True None)") auto
  have "substrate_runs sample_asked s"
    by (rule plays_runs [OF s substrate_runs.start])
      (simp add: sample_moves_def answer_fits_def sample_dir_def)
  with s show ?thesis by (simp add: sample_run_def)
qed

lemma sample_state:
  "de_answers (sb_decider sample_run) = [\<lparr>an_requests = [RequestId 1], an_outcome = Ok, an_payload = PayloadEntries []\<rparr>]"
  "de_refreshing (sb_decider sample_run) = [ObjectId 2]"
  "qu_net (de_queues (sb_decider sample_run)) =
     \<lparr>nq_interactive = [], nq_background = [sample_job (ListRemote (ObjectId 2)) Detached], nq_closed = False\<rparr>"
  using sample_plays by (auto simp: sample_run_def)

lemma sample_ticket: "sample_asked no_ticket = Publish"
  by (simp add: sample_asked_def no_ticket_def)

section \<open>The theorems\<close>

text \<open>
  Callers are answered with what they asked for. In every interleaving of frontends, workers
  and the deciding thread, whatever was joined, queued or handed over on the way, a request that
  is answered with success is answered with the payload of its kind: bytes for a read, a row for
  an attribute or a name, entries for a listing, a count for a write, a state for an emblem. The
  payload of one operation never reaches the caller of another, as long as nobody gives up a
  request while the flow it waits behind keeps a result (\<open>robs\<close>).
\<close>

theorem answers_bring_what_was_asked:
  assumes "substrate_runs asked s" and "asked no_ticket = Publish" and "a \<in> set (de_answers (sb_decider s))"
    and "an_outcome a = Ok" and "t \<in> set (an_requests a)"
  shows "delivers (asked t) (an_payload a)"
  using substrate_runs_ok [OF assms(1,2)] assms(3-5) unfolding substrate_ok_def decider_ok_def good_answer_def by blast

lemma answers_bring_what_was_asked_witness:
  "\<exists>a \<in> set (de_answers (sb_decider sample_run)). an_outcome a = Ok \<and> delivers Enumerate (an_payload a)"
proof -
  let ?a = "\<lparr>an_requests = [RequestId 1], an_outcome = Ok, an_payload = PayloadEntries []\<rparr>"
  have "delivers (sample_asked (RequestId 1)) (an_payload ?a)"
    by (rule answers_bring_what_was_asked [OF sample_runs sample_ticket, of ?a]) (simp_all add: sample_state)
  then show ?thesis by (intro bexI [of _ ?a]) (simp_all add: sample_state sample_asked_def)
qed




text \<open>The run above, stopped while the worker lists the directory.\<close>

definition busy_run :: substrate where
  "busy_run = the (plays sample_asked (take 3 sample_moves) (substrate_new True None))"

lemma busy_plays:
  "map_option (\<lambda>s. (sb_running s, pool_load (de_queues (sb_decider s)), mailed (sb_mail s)))
     (plays sample_asked (take 3 sample_moves) (substrate_new True None)) =
   Some ([sample_job (ReadNode (ObjectId 2)) ToFlow], [], [])"
  by code_simp


section \<open>Results that go astray\<close>

fun turns :: "message list \<Rightarrow> decider \<Rightarrow> decider option" where
  "turns [] d = Some d"
| "turns (msg # msgs) d = (case turn msg d of None \<Rightarrow> None | Some d' \<Rightarrow> turns msgs d')"

text \<open>
  A file is created in a directory; a lookup waits behind it and is given up. The answer to the
  lookup takes the row of the new file along, and the creation is answered without it.
\<close>

lemma abandoned_lookup_takes_the_new_row:
  "map_option de_answers
     (turns
       [RequestMessage \<lparr>rq_id = RequestId 1, rq_object = ObjectId 2, rq_intent = Materialise ''a'' False False\<rparr>,
        Completed (ObjectId 2) JobDone NoPayload,
        Completed (ObjectId 2) (Node (default_node\<lparr>nf_id := ObjectId 5, nf_found := True\<rparr>)) (PayloadNode 5 sample_row),
        RequestMessage \<lparr>rq_id = RequestId 2, rq_object = ObjectId 2, rq_intent = Lookup ''b''\<rparr>,
        AbandonMessage (RequestId 2),
        Completed (ObjectId 2) JobDone NoPayload]
       (decider_new True None)) =
   Some [\<lparr>an_requests = [RequestId 2], an_outcome = FailedWith Interrupted, an_payload = PayloadNode 5 sample_row\<rparr>,
         \<lparr>an_requests = [RequestId 1], an_outcome = Ok, an_payload = NoPayload\<rparr>]"
  by code_simp

text \<open>
  The row a removal has found stays in the map of payloads when the removal is over: the flow that
  found it ran on the directory, the completion that ended it was for the child.
\<close>

lemma removal_leaves_a_payload:
  "map_option (\<lambda>d. (mc_busy (de_machine d), de_payloads d))
     (turns
       [RequestMessage \<lparr>rq_id = RequestId 1, rq_object = ObjectId 2, rq_intent = Remove ''a''\<rparr>,
        Completed (ObjectId 2) (Node (default_node\<lparr>nf_id := ObjectId 5, nf_found := True\<rparr>)) (PayloadNode 5 sample_row),
        Completed (ObjectId 5) (Node (default_node\<lparr>nf_id := ObjectId 5, nf_found := True\<rparr>)) (PayloadNode 5 sample_row),
        Completed (ObjectId 5) JobDone NoPayload,
        Completed (ObjectId 5) JobDone NoPayload]
       (decider_new True None)) =
   Some ([], [(ObjectId 2, PayloadNode 5 sample_row)])"
  by code_simp

end
