(* ===== verification/Core_Config.thy ===== *)
theory Core_Config
  imports Core_Webdav_Facts Core_Storage Core_Ignore
begin

text \<open>
  Configuration (\<open>crates/wusel-core/src/config.rs\<close>): the directories of an account, the settings
  with their defaults, the decisions two of them take, and how a configuration file is applied. The
  TOML decoder is a third-party crate and an argument, so is the environment, the number of cores
  and the hash of a path. A character is a Unicode scalar value below 256.
\<close>

section \<open>Directories\<close>

text \<open>\<open>PathBuf::join\<close>, on the text of the paths.\<close>

definition path_join :: "string \<Rightarrow> string \<Rightarrow> string" where
  "path_join base rest =
     (if rest \<noteq> [] \<and> hd rest = CHR ''/'' then rest
      else if base \<noteq> [] \<and> last base \<noteq> CHR ''/'' then base @ ''/'' @ rest
      else base @ rest)"

type_synonym environment = "string \<Rightarrow> string option"

definition env_path :: "environment \<Rightarrow> string \<Rightarrow> string option" where
  "env_path env name = (case env name of Some v \<Rightarrow> if v = [] then None else Some v | None \<Rightarrow> None)"

definition home_dir :: "environment \<Rightarrow> string" where
  "home_dir env = (case env ''HOME'' of Some h \<Rightarrow> h | None \<Rightarrow> ''.'')"

definition xdg_dir :: "environment \<Rightarrow> string \<Rightarrow> string \<Rightarrow> string" where
  "xdg_dir env name default_rel =
     (case env_path env name of Some v \<Rightarrow> v | None \<Rightarrow> path_join (home_dir env) default_rel)"

definition config_dir :: "environment \<Rightarrow> string" where
  "config_dir env = path_join (xdg_dir env ''XDG_CONFIG_HOME'' ''.config'') ''wusel''"

definition state_dir :: "environment \<Rightarrow> string" where
  "state_dir env = path_join (xdg_dir env ''XDG_STATE_HOME'' ''.local/state'') ''wusel''"

definition ipc_dir :: "environment \<Rightarrow> string" where
  "ipc_dir env =
     (case env_path env ''XDG_RUNTIME_DIR'' of Some v \<Rightarrow> path_join v ''wusel'' | None \<Rightarrow> state_dir env)"

definition user_cache_dir :: "environment \<Rightarrow> string" where
  "user_cache_dir env = path_join (xdg_dir env ''XDG_CACHE_HOME'' ''.cache'') ''wusel''"

definition temp_dir :: "environment \<Rightarrow> string" where
  "temp_dir env = (case env ''TMPDIR'' of Some v \<Rightarrow> v | None \<Rightarrow> ''/tmp'')"

definition runtime_dir :: "environment \<Rightarrow> string" where
  "runtime_dir env =
     (case env_path env ''XDG_RUNTIME_DIR'' of
        Some v \<Rightarrow> path_join v ''wusel''
      | None \<Rightarrow> path_join (temp_dir env) ''wusel'')"

definition hex_digit :: "nat \<Rightarrow> char" where
  "hex_digit v = char_of (if v < 10 then 48 + v else 87 + v)"

fun hex_of :: "nat \<Rightarrow> nat \<Rightarrow> string" where
  "hex_of 0 n = []"
| "hex_of (Suc k) n = hex_of k (n div 16) @ [hex_digit (n mod 16)]"

definition diag_socket_for_mount :: "(string \<Rightarrow> u64) \<Rightarrow> environment \<Rightarrow> string \<Rightarrow> string" where
  "diag_socket_for_mount hash env mountpoint =
     path_join (runtime_dir env) (''diag-'' @ hex_of 16 (unat (hash mountpoint)) @ ''.sock'')"

definition config_path :: "environment \<Rightarrow> string" where
  "config_path env = path_join (config_dir env) ''config.toml''"

definition credentials_path :: "environment \<Rightarrow> string" where
  "credentials_path env = path_join (config_dir env) ''credentials.json''"

definition state_db_path :: "environment \<Rightarrow> string" where
  "state_db_path env = path_join (state_dir env) ''state.sqlite''"

section \<open>Accounts\<close>

text \<open>\<open>char::is_alphanumeric\<close> below 256.\<close>

definition is_alphanumeric :: "char \<Rightarrow> bool" where
  "is_alphanumeric c \<longleftrightarrow>
     (let n = (of_char c :: nat) in
      48 \<le> n \<and> n \<le> 57 \<or> 65 \<le> n \<and> n \<le> 90 \<or> 97 \<le> n \<and> n \<le> 122 \<or>
      n \<in> {0xAA, 0xB5, 0xBA, 0xB2, 0xB3, 0xB9, 0xBC, 0xBD, 0xBE} \<or> 0xC0 \<le> n \<and> n \<noteq> 0xD7 \<and> n \<noteq> 0xF7)"

definition sanitize :: "string \<Rightarrow> string" where
  "sanitize host = map (\<lambda>c. if is_alphanumeric c \<or> c = CHR ''.'' \<or> c = CHR ''-'' then c else CHR ''_'') host"

definition trim :: "string \<Rightarrow> string" where
  "trim s = trim_both is_whitespace s"

definition default_account :: string where
  "default_account = ''default''"

record account =
  acc_name :: string

definition account_new :: "string \<Rightarrow> account" where
  "account_new name =
     (let name = sanitize (trim name) in \<lparr>acc_name = (if name = [] then default_account else name)\<rparr>)"

definition is_default :: "account \<Rightarrow> bool" where
  "is_default a \<longleftrightarrow> acc_name a = default_account"

definition account_scope :: "account \<Rightarrow> string \<Rightarrow> string" where
  "account_scope a base = (if is_default a then base else path_join (path_join base ''accounts'') (acc_name a))"

definition account_config_dir :: "environment \<Rightarrow> account \<Rightarrow> string" where
  "account_config_dir env a = account_scope a (config_dir env)"

definition account_state_dir :: "environment \<Rightarrow> account \<Rightarrow> string" where
  "account_state_dir env a = account_scope a (state_dir env)"

definition account_cache_dir :: "environment \<Rightarrow> account \<Rightarrow> string" where
  "account_cache_dir env a = account_scope a (user_cache_dir env)"

definition account_credentials_path :: "environment \<Rightarrow> account \<Rightarrow> string" where
  "account_credentials_path env a = path_join (account_config_dir env a) ''credentials.json''"

definition account_config_path :: "environment \<Rightarrow> account \<Rightarrow> string" where
  "account_config_path env a = path_join (account_config_dir env a) ''config.toml''"

definition blob_cache_dir :: "environment \<Rightarrow> account \<Rightarrow> string" where
  "blob_cache_dir env a = path_join (account_cache_dir env a) ''blobs''"

definition default_mountpoint :: "environment \<Rightarrow> account \<Rightarrow> string" where
  "default_mountpoint env a =
     path_join (home_dir env) (if is_default a then ''Wusel'' else ''Wusel-'' @ acc_name a)"

text \<open>\<open>list_accounts\<close>: what is in \<open>accounts/\<close>, with whether it holds credentials; \<open>None\<close> is a name
  that is no text.\<close>

definition list_accounts :: "bool \<Rightarrow> (string option \<times> bool) list \<Rightarrow> string list" where
  "list_accounts default_has found =
     sort ((if default_has then [default_account] else []) @
       List.map_filter (\<lambda>(name, has). if has then name else None) found)"

section \<open>Settings\<close>

datatype open_pinned = Newest | NewestUnmetered | Offline

datatype open_action = OpenFetch | ServeLocal

fun open_decide :: "open_pinned \<Rightarrow> bool option \<Rightarrow> open_action" where
  "open_decide Newest metered = OpenFetch"
| "open_decide Offline metered = ServeLocal"
| "open_decide NewestUnmetered metered = (case metered of Some False \<Rightarrow> OpenFetch | _ \<Rightarrow> ServeLocal)"

definition to_lower :: "char \<Rightarrow> char" where
  "to_lower c = (let n = (of_char c :: nat) in if 65 \<le> n \<and> n \<le> 90 then char_of (n + 32) else c)"

definition to_upper :: "char \<Rightarrow> char" where
  "to_upper c = (let n = (of_char c :: nat) in if 97 \<le> n \<and> n \<le> 122 then char_of (n - 32) else c)"

definition lowered :: "string \<Rightarrow> string" where
  "lowered s = map to_lower (trim s)"

definition open_parse :: "string \<Rightarrow> open_pinned option" where
  "open_parse v =
     (let v = lowered v in
      if v \<in> {''newest'', ''online''} then Some Newest
      else if v \<in> {''newest-unmetered'', ''newest_unmetered'', ''unmetered''} then Some NewestUnmetered
      else if v \<in> {''offline'', ''local''} then Some Offline
      else None)"

datatype refresh_pinned = Manual | AskFirst | Auto

datatype refresh_action = ShowOnly | AskUser | RefreshFetch

fun refresh_decide :: "refresh_pinned \<Rightarrow> bool option \<Rightarrow> refresh_action" where
  "refresh_decide Manual metered = ShowOnly"
| "refresh_decide AskFirst metered = AskUser"
| "refresh_decide Auto metered = (case metered of Some False \<Rightarrow> RefreshFetch | _ \<Rightarrow> AskUser)"

definition refresh_parse :: "string \<Rightarrow> refresh_pinned option" where
  "refresh_parse v =
     (let v = lowered v in
      if v = ''manual'' then Some Manual else if v = ''ask'' then Some AskFirst
      else if v = ''auto'' then Some Auto else None)"

datatype upload_mode = UploadAsync | UploadSync

definition upload_parse :: "string \<Rightarrow> upload_mode option" where
  "upload_parse v =
     (let v = lowered v in if v = ''async'' then Some UploadAsync else if v = ''sync'' then Some UploadSync else None)"

record tls_settings =
  tls_ca_cert :: "string option"
  tls_insecure :: bool
  tls_http1_only :: bool

record settings =
  st_revalidate_secs :: u64
  st_push_floor_secs :: u64
  st_quota_revalidate_secs :: u64
  st_poll_secs :: u64
  st_cache_max_bytes :: "u64 option"
  st_cache_max_age_secs :: "u64 option"
  st_tls :: tls_settings
  st_mount_point :: "string option"
  st_dispatch_threads :: nat
  st_text_merge :: bool
  st_refresh_pinned :: refresh_pinned
  st_upload :: upload_mode
  st_open_pinned :: open_pinned
  st_db_path :: "string option"
  st_ignore_patterns :: "string list"
  st_auth_keyring :: bool
  st_exclude_from_indexers :: bool
  st_notify_hook :: "string option"

definition clamp :: "nat \<Rightarrow> nat \<Rightarrow> nat \<Rightarrow> nat" where
  "clamp lo hi n = max lo (min hi n)"

text \<open>\<open>cores\<close>: what \<open>available_parallelism\<close> answers.\<close>

definition default_dispatch_threads :: "nat option \<Rightarrow> nat" where
  "default_dispatch_threads cores = clamp 4 8 (case cores of Some n \<Rightarrow> n | None \<Rightarrow> 4)"

definition default_settings :: "nat option \<Rightarrow> settings" where
  "default_settings cores =
     \<lparr>st_revalidate_secs = 30, st_push_floor_secs = 5, st_quota_revalidate_secs = 60, st_poll_secs = 300,
      st_cache_max_bytes = Some (5 * 1024 * 1024 * 1024), st_cache_max_age_secs = None,
      st_tls = \<lparr>tls_ca_cert = None, tls_insecure = False, tls_http1_only = False\<rparr>, st_mount_point = None,
      st_dispatch_threads = default_dispatch_threads cores, st_text_merge = False, st_refresh_pinned = AskFirst,
      st_upload = UploadAsync, st_open_pinned = Newest, st_db_path = None,
      st_ignore_patterns = default_ignore_patterns, st_auth_keyring = True, st_exclude_from_indexers = True,
      st_notify_hook = None\<rparr>"

section \<open>Sizes and durations\<close>

definition strip_suffix :: "string \<Rightarrow> string \<Rightarrow> string option" where
  "strip_suffix suf s = (if suffix suf s then Some (take (length s - length suf) s) else None)"

text \<open>The first unit of the table the text ends in, with what stands before it.\<close>

fun find_unit :: "(string \<times> u64) list \<Rightarrow> string \<Rightarrow> string \<times> u64" where
  "find_unit [] s = (s, 1)"
| "find_unit ((suf, m) # rest) s = (case strip_suffix suf s of Some n \<Rightarrow> (n, m) | None \<Rightarrow> find_unit rest s)"

definition checked_mul :: "u64 \<Rightarrow> u64 \<Rightarrow> u64 option" where
  "checked_mul a b = (if unat a * unat b < 2 ^ 64 then Some (a * b) else None)"

definition scaled :: "(string \<times> u64) list \<Rightarrow> string \<Rightarrow> unit + u64 option" where
  "scaled units s =
     (case find_unit units s of
        (num, m) \<Rightarrow>
          (case parse_u64 (trim num) of
             None \<Rightarrow> Inl ()
           | Some v \<Rightarrow> (case checked_mul v m of None \<Rightarrow> Inl () | Some b \<Rightarrow> Inr (Some b))))"

definition size_units :: "(string \<times> u64) list" where
  "size_units =
     [(''TIB'', 2 ^ 40), (''GIB'', 2 ^ 30), (''MIB'', 2 ^ 20), (''KIB'', 2 ^ 10), (''TB'', 2 ^ 40), (''GB'', 2 ^ 30),
      (''MB'', 2 ^ 20), (''KB'', 2 ^ 10), (''B'', 1)]"

text \<open>\<open>Inl ()\<close>: the text is no size; \<open>Inr None\<close>: no limit.\<close>

definition parse_size :: "string \<Rightarrow> unit + u64 option" where
  "parse_size s =
     (let s = trim s in
      if s = [] \<or> s = ''0'' \<or> map to_lower s = ''unlimited'' then Inr None
      else scaled size_units (map to_upper s))"

definition duration_units :: "(string \<times> u64) list" where
  "duration_units = [(''d'', 86400), (''h'', 3600), (''m'', 60), (''s'', 1)]"

definition parse_duration :: "string \<Rightarrow> unit + u64 option" where
  "parse_duration s = (let s = trim s in if s = [] \<or> s = ''0'' then Inr None else scaled duration_units s)"

definition expand_tilde :: "environment \<Rightarrow> string \<Rightarrow> string" where
  "expand_tilde env p =
     (case p of
        c # rest \<Rightarrow>
          if c = CHR ''~'' \<and> (rest = [] \<or> hd rest = CHR ''/'') then
            (case env_path env ''HOME'' of
               Some home \<Rightarrow> path_join home (dropWhile (\<lambda>c. c = CHR ''/'') rest)
             | None \<Rightarrow> p)
          else p
      | [] \<Rightarrow> p)"

section \<open>A configuration file\<close>

text \<open>\<open>RawConfig\<close> with its sections, as the decoder fills them.\<close>

record raw_config =
  raw_max_size :: "string option"
  raw_max_age :: "string option"
  raw_revalidate_secs :: "u64 option"
  raw_push_floor_secs :: "u64 option"
  raw_quota_revalidate_secs :: "u64 option"
  raw_poll_secs :: "u64 option"
  raw_text_merge :: "bool option"
  raw_refresh_pinned :: "string option"
  raw_open_pinned :: "string option"
  raw_upload :: "string option"
  raw_ignore_patterns :: "string list option"
  raw_ca_cert :: "string option"
  raw_insecure :: "bool option"
  raw_http1_only :: "bool option"
  raw_point :: "string option"
  raw_dispatch_threads :: "nat option"
  raw_keyring :: "bool option"
  raw_exclude_from_indexers :: "bool option"
  raw_notify_hook :: "string option"
  raw_db_path :: "string option"

text \<open>What the log is told: the value nobody understands.\<close>

datatype config_warning =
    UnknownOpenPinned string | UnknownUpload string | UnknownRefreshPinned string | MalformedMaxSize string
  | MalformedMaxAge string

text \<open>A textual setting: absent, understood, or warned about.\<close>

definition textual :: "string option \<Rightarrow> (string \<Rightarrow> 'a option) \<Rightarrow> (string \<Rightarrow> config_warning) \<Rightarrow> 'a \<Rightarrow> 'a \<times> config_warning list" where
  "textual raw parse warn dflt =
     (case raw of
        None \<Rightarrow> (dflt, [])
      | Some v \<Rightarrow> (case parse v of Some a \<Rightarrow> (a, []) | None \<Rightarrow> (dflt, [warn v])))"

definition right :: "unit + 'a \<Rightarrow> 'a option" where
  "right x = (case x of Inl _ \<Rightarrow> None | Inr a \<Rightarrow> Some a)"

definition nonempty :: "string option \<Rightarrow> string option" where
  "nonempty v = (case v of Some s \<Rightarrow> if s = [] then None else Some s | None \<Rightarrow> None)"

definition or_default :: "'a option \<Rightarrow> 'a \<Rightarrow> 'a" where
  "or_default v d = (case v of Some a \<Rightarrow> a | None \<Rightarrow> d)"

definition apply_raw :: "environment \<Rightarrow> nat option \<Rightarrow> raw_config \<Rightarrow> settings \<times> config_warning list" where
  "apply_raw env cores raw =
     (let s = default_settings cores;
          (opened, w1) = textual (raw_open_pinned raw) open_parse UnknownOpenPinned (st_open_pinned s);
          (upl, w2) = textual (raw_upload raw) upload_parse UnknownUpload (st_upload s);
          (refr, w3) = textual (raw_refresh_pinned raw) refresh_parse UnknownRefreshPinned (st_refresh_pinned s);
          (mx, w4) = textual (raw_max_size raw) (right \<circ> parse_size) MalformedMaxSize (st_cache_max_bytes s);
          (age, w5) = textual (raw_max_age raw) (right \<circ> parse_duration) MalformedMaxAge (st_cache_max_age_secs s)
      in (s\<lparr>st_revalidate_secs := or_default (raw_revalidate_secs raw) (st_revalidate_secs s),
            st_push_floor_secs := or_default (raw_push_floor_secs raw) (st_push_floor_secs s),
            st_quota_revalidate_secs := or_default (raw_quota_revalidate_secs raw) (st_quota_revalidate_secs s),
            st_poll_secs := or_default (raw_poll_secs raw) (st_poll_secs s),
            st_ignore_patterns := or_default (raw_ignore_patterns raw) (st_ignore_patterns s),
            st_text_merge := or_default (raw_text_merge raw) False,
            st_db_path := nonempty (map_option trim (raw_db_path raw)),
            st_open_pinned := opened,
            st_upload := upl,
            st_refresh_pinned := refr,
            st_auth_keyring := or_default (raw_keyring raw) True,
            st_cache_max_bytes := mx,
            st_cache_max_age_secs := age,
            st_tls := \<lparr>tls_ca_cert = nonempty (raw_ca_cert raw), tls_insecure = or_default (raw_insecure raw) False,
                       tls_http1_only = or_default (raw_http1_only raw) False\<rparr>,
            st_mount_point := map_option (expand_tilde env) (nonempty (raw_point raw)),
            st_dispatch_threads :=
              (case raw_dispatch_threads raw of Some n \<Rightarrow> clamp 1 16 n | None \<Rightarrow> st_dispatch_threads s),
            st_exclude_from_indexers := or_default (raw_exclude_from_indexers raw) True,
            st_notify_hook := map_option (expand_tilde env) (nonempty (raw_notify_hook raw))\<rparr>,
          w1 @ w2 @ w3 @ w4 @ w5))"

definition parse_settings :: "(string \<Rightarrow> string + raw_config) \<Rightarrow> environment \<Rightarrow> nat option \<Rightarrow> string \<Rightarrow>
    core_error + (settings \<times> config_warning list)" where
  "parse_settings toml env cores txt =
     (case toml txt of
        Inl e \<Rightarrow> Inl (Other (''config.toml: '' @ e))
      | Inr raw \<Rightarrow> Inr (apply_raw env cores raw))"

text \<open>\<open>file\<close>: the text of the file, when it can be read.\<close>

definition load_settings_from :: "(string \<Rightarrow> string + raw_config) \<Rightarrow> environment \<Rightarrow> nat option \<Rightarrow> string option \<Rightarrow> settings" where
  "load_settings_from toml env cores file =
     (case file of
        None \<Rightarrow> default_settings cores
      | Some txt \<Rightarrow>
          (case parse_settings toml env cores txt of
             Inl _ \<Rightarrow> default_settings cores
           | Inr (s, _) \<Rightarrow> s))"

text \<open>Where the account's database opens; \<open>status\<close> and \<open>mounts\<close> are the texts of the proc files.\<close>

definition db_location_of :: "(string \<Rightarrow> string + raw_config) \<Rightarrow> environment \<Rightarrow> nat option \<Rightarrow> (string \<Rightarrow> string option) \<Rightarrow>
    string option \<Rightarrow> string option \<Rightarrow> account \<Rightarrow> db_location" where
  "db_location_of toml env cores files status mounts a =
     resolve (path_join (account_state_dir env a) ''state.sqlite'')
       (st_db_path (load_settings_from toml env cores (files (account_config_path env a))))
       (map_option (\<lambda>d. path_join d ''state.sqlite'') (fallback_dir status (acc_name a))) mounts"

end
