(* ===== verification/Core_Config_Facts.thy ===== *)
theory Core_Config_Facts
  imports Core_Config
begin

text \<open>
  What the configuration promises: sizes and durations are read exactly or refused, never wrapped;
  accounts keep out of each other's directories; and a value nobody understands changes nothing.
\<close>

section \<open>Trimming\<close>

lemma trim_around:
  assumes "\<forall>c \<in> set a. is_whitespace c" and "\<forall>c \<in> set b. is_whitespace c" and "s \<noteq> []"
    and "\<not> is_whitespace (hd s)" and "\<not> is_whitespace (last s)"
  shows "trim (a @ s @ b) = s"
proof -
  have left: "dropWhile is_whitespace (a @ s @ b) = s @ b"
    using assms(1,3,4) by (subst dropWhile_append2) (auto simp: neq_Nil_conv)
  have "dropWhile is_whitespace (rev (s @ b)) = rev s"
    using assms(2,3,5) dropWhile_append2 [of "rev b" is_whitespace "rev s"]
    by (simp add: dropWhile_eq_self_iff hd_rev)
  with left show ?thesis by (simp add: trim_def trim_both_def)
qed

lemma trim_blank: "\<forall>c \<in> set a. is_whitespace c \<Longrightarrow> trim a = []"
  using dropWhile_eq_Nil_conv [of is_whitespace a] by (simp add: trim_def trim_both_def del: dropWhile_eq_Nil_conv)

lemma digit_no_space: "digit_val c \<noteq> None \<Longrightarrow> \<not> is_whitespace c"
  by (auto simp: digit_val_def in_range_def is_whitespace_def split: if_splits)

lemma decimal_ends: "\<not> is_whitespace (hd (decimal n))" "\<not> is_whitespace (last (decimal n))"
  using decimal_digits [of "hd (decimal n)" n] decimal_digits [of "last (decimal n)" n] digit_no_space by simp_all

lemma decimal_less_2_64: "n < 2 ^ 64 \<Longrightarrow> parse_u64 (decimal n) = Some (of_nat n)"
  using parse_print_u64 [of "of_nat n"] by (simp add: print_u64_def unat_of_nat)

lemma decimal_too_large:
  assumes "2 ^ 64 \<le> n"
  shows "parse_u64 (decimal n) = None"
proof -
  obtain c cs where s: "decimal n = c # cs" by (meson decimal_Nil neq_Nil_conv)
  have "digit_val c \<noteq> None" using decimal_digits [of c n] s by simp
  then have "c \<noteq> CHR ''+''" by (auto simp: digit_val_def in_range_def)
  with s digits_from_decimal [of 0 n] assms show ?thesis by (simp add: parse_u64_def parse_digits_def)
qed

section \<open>Units\<close>

lemma strip_suffix_after:
  assumes "x \<noteq> []" and "last x \<notin> set suf"
  shows "strip_suffix suf (x @ s) = map_option ((@) x) (strip_suffix suf s)"
proof -
  have "suffix suf (x @ s) \<longleftrightarrow> suffix suf s"
  proof
    assume "suffix suf (x @ s)"
    then consider "suffix suf s" | u where "suf = u @ s" "suffix u x" by (auto simp: suffix_append)
    then show "suffix suf s"
    proof cases
      case 2
      have "u = []"
      proof (rule ccontr)
        assume "u \<noteq> []"
        with 2(2) have "last u = last x" by (auto simp: suffix_def)
        with 2(1) \<open>u \<noteq> []\<close> assms(2) show False using last_in_set [of u] by auto
      qed
      with 2 show ?thesis by simp
    qed simp
  next
    assume "suffix suf s"
    then show "suffix suf (x @ s)" by (rule suffix_appendI)
  qed
  then show ?thesis using suffix_length_le [of suf s] by (auto simp: strip_suffix_def)
qed

lemma find_unit_after:
  assumes "x \<noteq> []" and "\<forall>(suf, m) \<in> set units. last x \<notin> set suf"
  shows "find_unit units (x @ s) = (case find_unit units s of (n, m) \<Rightarrow> (x @ n, m))"
  using assms(2) by (induction units) (auto simp: strip_suffix_after [OF assms(1)] split: option.splits)

text \<open>What is read of a number, blanks and a unit: the product, or nothing when it does not fit.\<close>

definition product :: "nat \<Rightarrow> nat \<Rightarrow> unit + u64 option" where
  "product n m = (if n * m < 2 ^ 64 then Inr (Some (of_nat (n * m))) else Inl ())"

lemma scaled_product:
  assumes unit: "find_unit units name = ([], m)" and m: "0 < m"
    and blank: "\<forall>c \<in> set b. is_whitespace c"
    and plain: "\<forall>(suf, m) \<in> set units. \<forall>c \<in> set suf. digit_val c = None \<and> \<not> is_whitespace c"
  shows "scaled units (decimal n @ b @ name) = product n (unat m)"
proof -
  let ?x = "decimal n @ b"
  have "digit_val (last ?x) \<noteq> None \<or> is_whitespace (last ?x)"
    using blank decimal_digits [of "last (decimal n)" n] by (cases "b = []") auto
  then have "\<forall>(suf, m) \<in> set units. last ?x \<notin> set suf" using plain by fastforce
  then have fu: "find_unit units (decimal n @ b @ name) = (decimal n @ b, m)"
    using find_unit_after [of ?x units name] unit by simp
  have t: "trim (decimal n @ b) = decimal n"
    using trim_around [of "[]" b "decimal n"] blank decimal_ends by simp
  have pos: "0 < unat m" using m by (simp add: word_gt_0 unat_gt_0)
  show ?thesis
  proof (cases "n < 2 ^ 64")
    case True
    have "unat (of_nat n :: u64) = n" using True by (simp add: unat_of_nat)
    moreover have "(of_nat n :: u64) * m = of_nat (n * unat m)" by simp
    ultimately show ?thesis
      by (simp add: scaled_def fu t decimal_less_2_64 [OF True] checked_mul_def product_def)
  next
    case False
    with pos have "\<not> n * unat m < 2 ^ 64"
      by (metis le_trans less_le_not_le linorder_not_less mult.commute mult_le_mono1 nat_mult_1 Suc_leI One_nat_def)
    with False show ?thesis by (simp add: scaled_def fu t decimal_too_large product_def)
  qed
qed

lemma upper_digit: "digit_val c \<noteq> None \<Longrightarrow> to_upper c = c"
  by (auto simp: digit_val_def in_range_def to_upper_def split: if_splits)

lemma upper_space: "is_whitespace c \<Longrightarrow> to_upper c = c"
  by (auto simp: is_whitespace_def to_upper_def Let_def)

lemma size_units_plain: "\<forall>(suf, m) \<in> set size_units. \<forall>c \<in> set suf. digit_val c = None \<and> \<not> is_whitespace c"
  by (simp add: size_units_def digit_val_def in_range_def is_whitespace_def)

lemma duration_units_plain: "\<forall>(suf, m) \<in> set duration_units. \<forall>c \<in> set suf. digit_val c = None \<and> \<not> is_whitespace c"
  by (simp add: duration_units_def digit_val_def in_range_def is_whitespace_def)

lemma size_unit_found: "(name, m) \<in> set (('''', 1) # size_units) \<Longrightarrow> find_unit size_units name = ([], m) \<and> 0 < m"
proof -
  have "list_all (\<lambda>(name, m). find_unit size_units name = ([], m) \<and> 0 < m) (('''', 1) # size_units)" by code_simp
  then show "(name, m) \<in> set (('''', 1) # size_units) \<Longrightarrow> find_unit size_units name = ([], m) \<and> 0 < m"
    unfolding list_all_iff by fastforce
qed

lemma duration_unit_found:
  "(name, m) \<in> set (('''', 1) # duration_units) \<Longrightarrow> find_unit duration_units name = ([], m) \<and> 0 < m"
proof -
  have "list_all (\<lambda>(name, m). find_unit duration_units name = ([], m) \<and> 0 < m) (('''', 1) # duration_units)" by code_simp
  then show "(name, m) \<in> set (('''', 1) # duration_units) \<Longrightarrow> find_unit duration_units name = ([], m) \<and> 0 < m"
    unfolding list_all_iff by fastforce
qed

text \<open>A spelling of a unit ends in a letter.\<close>

lemma unit_ends:
  assumes u: "(name, m) \<in> set size_units \<union> set duration_units" and s: "map to_upper s = name \<or> s = name"
  shows "s \<noteq> [] \<and> \<not> is_whitespace (last s)"
proof -
  have "list_all (\<lambda>(name, m). name \<noteq> [] \<and> \<not> is_whitespace (last name)) (size_units @ duration_units)" by code_simp
  with u have n: "name \<noteq> []" "\<not> is_whitespace (last name)" unfolding list_all_iff by auto
  from s show ?thesis
  proof
    assume m: "map to_upper s = name"
    with n(1) have "s \<noteq> []" by auto
    moreover from this m have "last name = to_upper (last s)" by (auto simp: last_map)
    ultimately show ?thesis using n(2) upper_space by metis
  qed (use n in simp)
qed

lemma decimal_words: "decimal n = ''0'' \<longleftrightarrow> n = 0" "map to_lower (decimal n @ s) \<noteq> ''unlimited''"
proof -
  have zero: "decimal 0 = ''0''" by code_simp
  show "decimal n = ''0'' \<longleftrightarrow> n = 0"
    using zero digits_from_decimal [of 0 n] digits_from_decimal [of 0 0] by auto
  obtain c cs where c: "decimal n = c # cs" by (meson decimal_Nil neq_Nil_conv)
  then have "digit_val c \<noteq> None" using decimal_digits [of c n] by simp
  then have "to_lower c \<noteq> CHR ''u''" by (auto simp: digit_val_def in_range_def to_lower_def split: if_splits)
  with c show "map to_lower (decimal n @ s) \<noteq> ''unlimited''" by simp
qed

lemma number_with_unit:
  assumes "\<forall>c \<in> set b1. is_whitespace c" and "\<forall>c \<in> set b3. is_whitespace c" and "s \<noteq> []" and "\<not> is_whitespace (last s)"
  shows "trim (b1 @ decimal n @ b2 @ s @ b3) = decimal n @ b2 @ s \<and> decimal n @ b2 @ s \<noteq> ''0'' \<and>
    map to_lower (decimal n @ b2 @ s) \<noteq> ''unlimited''"
proof (intro conjI)
  show "trim (b1 @ decimal n @ b2 @ s @ b3) = decimal n @ b2 @ s"
    using trim_around [OF assms(1,2), of "decimal n @ b2 @ s"] assms(3,4) decimal_ends by simp
  show "decimal n @ b2 @ s \<noteq> ''0''" using assms(3) by (cases "decimal n") auto
  show "map to_lower (decimal n @ b2 @ s) \<noteq> ''unlimited''" by (rule decimal_words)
qed

text \<open>
  C38. Sizes and durations of a configuration file are read exactly or refused. A number, a unit
  of the table in any letter case (a duration: as it stands in the table) and blanks around both is
  read as the product, and refused when the product does not fit 64 bits; it never wraps to a
  smaller budget. A bare zero lifts the limit.
\<close>

theorem limits_are_read_exactly:
  assumes blank: "\<forall>c \<in> set (b1 @ b2 @ b3). is_whitespace c"
  shows "((name, m) \<in> set size_units \<and> map to_upper s = name \<longrightarrow>
      parse_size (b1 @ decimal n @ b2 @ s @ b3) = product n (unat m)) \<and>
    ((name, m) \<in> set duration_units \<longrightarrow> parse_duration (b1 @ decimal n @ b2 @ name @ b3) = product n (unat m)) \<and>
    parse_size (b1 @ decimal n @ b2) = (if n = 0 then Inr None else product n 1) \<and>
    parse_duration (b1 @ decimal n @ b2) = (if n = 0 then Inr None else product n 1)"
proof (intro conjI impI)
  have b: "\<forall>c \<in> set b1. is_whitespace c" "\<forall>c \<in> set b2. is_whitespace c" "\<forall>c \<in> set b3. is_whitespace c"
    using blank by auto
  have up: "map to_upper (decimal n) = decimal n" "map to_upper b2 = b2"
    using decimal_digits upper_digit upper_space b(2) by (auto intro!: map_idI)
  show "parse_size (b1 @ decimal n @ b2 @ s @ b3) = product n (unat m)"
    if u: "(name, m) \<in> set size_units \<and> map to_upper s = name"
  proof -
    have e: "s \<noteq> [] \<and> \<not> is_whitespace (last s)" using u unit_ends by blast
    have "scaled size_units (decimal n @ b2 @ name) = product n (unat m)"
      using u size_unit_found [of name m] by (intro scaled_product size_units_plain b) auto
    with u up number_with_unit [OF b(1,3), of s n b2] e show ?thesis by (simp add: parse_size_def Let_def)
  qed
  show "parse_duration (b1 @ decimal n @ b2 @ name @ b3) = product n (unat m)"
    if u: "(name, m) \<in> set duration_units"
  proof -
    have e: "name \<noteq> [] \<and> \<not> is_whitespace (last name)" using u unit_ends by blast
    have "scaled duration_units (decimal n @ b2 @ name) = product n (unat m)"
      using u duration_unit_found [of name m] by (intro scaled_product duration_units_plain b) auto
    with number_with_unit [OF b(1,3), of name n b2] e show ?thesis by (simp add: parse_duration_def Let_def)
  qed
  have t: "trim (b1 @ decimal n @ b2) = decimal n"
    using trim_around [OF b(1,2) decimal_Nil decimal_ends] .
  have "scaled size_units (decimal n @ [] @ []) = product n (unat (1 :: u64))"
    using size_unit_found [of "[]" 1] by (intro scaled_product size_units_plain) auto
  with t up decimal_words(1) [of n] decimal_words(2) [of n "[]"] show "parse_size (b1 @ decimal n @ b2) = (if n = 0 then Inr None else product n 1)"
    by (simp add: parse_size_def Let_def)
  have "scaled duration_units (decimal n @ [] @ []) = product n (unat (1 :: u64))"
    using duration_unit_found [of "[]" 1] by (intro scaled_product duration_units_plain) auto
  with t decimal_words [of n] show "parse_duration (b1 @ decimal n @ b2) = (if n = 0 then Inr None else product n 1)"
    by (simp add: parse_duration_def Let_def)
qed

lemma limits_are_read_exactly_witness:
  "parse_size '' 5 gib '' = Inr (Some (5 * 2 ^ 30)) \<and> parse_size ''17000000TiB'' = Inl () \<and>
   parse_duration ''30d'' = Inr (Some 2592000) \<and> parse_size '' 0 '' = Inr None"
proof -
  have sp: "'' '' = [CHR 0x20]" by simp
  have d: "decimal 5 = ''5''" "decimal 17000000 = ''17000000''" "decimal 30 = ''30''" "decimal 0 = ''0''"
    by (simp_all add: decimal.simps char_of_def bit_Suc bit_0)
  have w: "is_whitespace (CHR 0x20)" by code_simp
  have "parse_size ('' '' @ decimal 5 @ '' '' @ ''gib'' @ '' '') = product 5 (unat (2 ^ 30 :: u64))"
    using limits_are_read_exactly [of "'' ''" "'' ''" "'' ''" "''GIB''" "2 ^ 30" "''gib''" 5] w
    by (simp add: size_units_def to_upper_def char_of_def bit_Suc bit_0)
  moreover have "parse_size ('''' @ decimal 17000000 @ '''' @ ''TiB'' @ '''') = product 17000000 (unat (2 ^ 40 :: u64))"
    using limits_are_read_exactly [of "''''" "''''" "''''" "''TIB''" "2 ^ 40" "''TiB''" 17000000]
    by (simp add: size_units_def to_upper_def char_of_def bit_Suc bit_0)
  moreover have "parse_duration ('''' @ decimal 30 @ '''' @ ''d'' @ '''') = product 30 (unat (86400 :: u64))"
    using limits_are_read_exactly [of "''''" "''''" "''''" "''d''" 86400 "''''" 30] by (simp add: duration_units_def)
  moreover have "parse_size ('' '' @ decimal 0 @ '' '') = Inr None"
    using limits_are_read_exactly [of "'' ''" "'' ''" "''''" "''''" 1 "''''" 0] w by simp
  ultimately show ?thesis by (simp add: d product_def)
qed

text \<open>A budget of zero units is not the bare zero: it leaves no room at all instead of lifting the limit.\<close>

lemma zero_units_is_no_room: "parse_size ''0GiB'' = Inr (Some 0) \<and> parse_size ''00'' = Inr (Some 0) \<and> parse_size ''0'' = Inr None"
  by (simp add: parse_size_def scaled_def size_units_def trim_def trim_both_def is_whitespace_def to_lower_def to_upper_def
      strip_suffix_def suffix_def parse_u64_def parse_digits_def digit_val_def in_range_def checked_mul_def Let_def
      char_of_def bit_Suc bit_0)

section \<open>Accounts\<close>

lemma split_slash_append: "split_slash cur (b @ CHR ''/'' # s) = split_slash cur b @ split_slash [] s"
  by (induction cur b rule: split_slash.induct) simp_all

lemma split_slash_plain: "CHR ''/'' \<notin> set s \<Longrightarrow> split_slash cur s = [rev cur @ s]"
  by (induction cur s rule: split_slash.induct) auto

definition plain_segment :: "string \<Rightarrow> bool" where
  "plain_segment s \<longleftrightarrow> s \<noteq> [] \<and> s \<noteq> ''.'' \<and> CHR ''/'' \<notin> set s"

lemma split_slash_last:
  "split_slash cur b \<noteq> [] \<and> (b \<noteq> [] \<and> last b = CHR ''/'' \<longrightarrow> last (split_slash cur b) = [])"
  by (induction cur b rule: split_slash.induct) auto

lemma hd_split_slash_append: "b \<noteq> [] \<Longrightarrow> hd (split_slash cur (b @ CHR ''/'' # s)) = hd (split_slash cur b)"
  using split_slash_last [of cur b] by (simp add: split_slash_append)

text \<open>Joining a plain segment adds it as the last component.\<close>

lemma components_join:
  assumes "plain_segment s"
  shows "components (path_join b s) = components b @ [s]"
proof -
  have s: "s \<noteq> []" "s \<noteq> ''.''" "CHR ''/'' \<notin> set s" "hd s \<noteq> CHR ''/''"
    using assms by (auto simp: plain_segment_def) (metis list.set_sel(1))
  have seg: "split_slash [] s = [s]" using split_slash_plain [OF s(3), of "[]"] by simp
  consider "b = []" | "b \<noteq> []" "last b \<noteq> CHR ''/''" | b' where "b = b' @ [CHR ''/'']"
    by (cases "b = []"; cases "last b = CHR ''/''") (auto, metis append_butlast_last_id)
  then show ?thesis
  proof cases
    case 1
    with s seg show ?thesis by (simp add: path_join_def components_def Let_def)
  next
    case 2
    with s seg show ?thesis
      by (simp add: path_join_def components_def Let_def split_slash_append hd_split_slash_append hd_append split_slash_last)
  next
    case 3
    have "split_slash [] (b' @ [CHR ''/'']) = split_slash [] b' @ [[]]"
      using split_slash_append [of "[]" b' "[]"] by simp
    moreover have "hd (split_slash [] b' @ xs) = hd (split_slash [] b')" for xs
      using split_slash_last [of "[]" b'] by (simp add: hd_append)
    ultimately show ?thesis
      using 3 s seg split_slash_append [of "[]" b' s]
      by (simp add: path_join_def components_def Let_def hd_append)
  qed
qed

lemma plain_names [simp]:
  "plain_segment ''accounts''" "plain_segment ''credentials.json''" "plain_segment ''config.toml''" "plain_segment ''blobs''"
  "plain_segment ''state.sqlite''"
  by (simp_all add: plain_segment_def)

lemma sanitize_no_slash: "CHR ''/'' \<notin> set (sanitize s)"
  by (auto simp: sanitize_def is_alphanumeric_def Let_def)

lemma account_name_plain: "acc_name (account_new name) \<noteq> ''.'' \<Longrightarrow> plain_segment (acc_name (account_new name))"
  using sanitize_no_slash [of "trim name"]
  by (auto simp: account_new_def Let_def plain_segment_def default_account_def)

lemma scope_components:
  assumes "a = account_new name" and "acc_name a \<noteq> ''.''"
  shows "components (account_scope a base) =
    components base @ (if is_default a then [] else [''accounts'', acc_name a])"
  using assms account_name_plain [of name] by (simp add: account_scope_def components_join)

text \<open>
  C39. Accounts keep out of each other's directories. The files of an account (credentials,
  settings, database) are files of no other account, no account's blob cache lies in or above
  another's, and the directory of a named account is exactly two levels below the base, whatever
  the name was made of. A name that sanitizes to a single or double dot is the exception.
\<close>

theorem accounts_stay_apart:
  assumes a: "a = account_new x" and b: "b = account_new y" and diff: "a \<noteq> b"
    and dots: "acc_name a \<notin> {''.'', ''..''}" "acc_name b \<notin> {''.'', ''..''}"
  shows "components (account_credentials_path env a) \<noteq> components (account_credentials_path env b) \<and>
    components (account_config_path env a) \<noteq> components (account_config_path env b) \<and>
    components (path_join (account_state_dir env a) ''state.sqlite'') \<noteq>
      components (path_join (account_state_dir env b) ''state.sqlite'') \<and>
    \<not> prefix (components (blob_cache_dir env a)) (components (blob_cache_dir env b)) \<and>
    (\<not> is_default a \<longrightarrow> (\<exists>seg. components (account_config_dir env a) = components (config_dir env) @ [''accounts'', seg] \<and>
       seg \<noteq> ''..'' \<and> CHR ''/'' \<notin> set seg))"
proof -
  note ca = scope_components [OF a] and cb = scope_components [OF b]
  have names: "acc_name a \<noteq> acc_name b" using diff account.equality [of a b] by auto
  have pa: "plain_segment (acc_name a)" using a dots(1) account_name_plain by simp
  then have "acc_name a \<noteq> ''..'' \<and> CHR ''/'' \<notin> set (acc_name a)" using dots by (simp add: plain_segment_def)
  with names dots show ?thesis
    by (auto simp: account_credentials_path_def account_config_path_def account_config_dir_def account_state_dir_def
        blob_cache_dir_def account_cache_dir_def components_join ca cb is_default_def)
qed

lemma accounts_stay_apart_witness:
  "acc_name (account_new '' Work/Client! '') = ''Work_Client_'' \<and>
   (\<forall>env. components (account_credentials_path env (account_new '' Work/Client! '')) \<noteq>
      components (account_credentials_path env (account_new '''')))"
proof -
  have n: "acc_name (account_new '' Work/Client! '') = ''Work_Client_''" "acc_name (account_new '''') = ''default''"
    by code_simp+
  then have "account_new '' Work/Client! '' \<noteq> account_new ''''" by auto
  from accounts_stay_apart [OF refl refl this] n show ?thesis by simp
qed

text \<open>
  The exception: the name is no plain segment, and the account \<open>..\<close> is, on the file system, the base
  directory itself, so it reads and writes the credentials of the default account.
\<close>

lemma dotted_account_climbs:
  "acc_name (account_new ''..'') = ''..'' \<and> \<not> is_default (account_new ''..'') \<and>
   account_credentials_path env (account_new ''..'') =
     path_join (path_join (path_join (config_dir env) ''accounts'') ''..'') ''credentials.json''"
proof -
  have "acc_name (account_new ''..'') = ''..''" by code_simp
  then show ?thesis
    by (simp add: is_default_def default_account_def account_credentials_path_def account_config_dir_def account_scope_def)
qed

section \<open>Values nobody understands\<close>

text \<open>They leave the default standing and are named, each for itself.\<close>

lemma misspelt_setting_changes_nothing:
  "upload_parse v = None \<Longrightarrow> fst (apply_raw env cores (raw\<lparr>raw_upload := Some v\<rparr>)) = fst (apply_raw env cores (raw\<lparr>raw_upload := None\<rparr>)) \<and>
     UnknownUpload v \<in> set (snd (apply_raw env cores (raw\<lparr>raw_upload := Some v\<rparr>)))"
  "refresh_parse v = None \<Longrightarrow> fst (apply_raw env cores (raw\<lparr>raw_refresh_pinned := Some v\<rparr>)) = fst (apply_raw env cores (raw\<lparr>raw_refresh_pinned := None\<rparr>)) \<and>
     UnknownRefreshPinned v \<in> set (snd (apply_raw env cores (raw\<lparr>raw_refresh_pinned := Some v\<rparr>)))"
  "parse_size v = Inl () \<Longrightarrow> fst (apply_raw env cores (raw\<lparr>raw_max_size := Some v\<rparr>)) = fst (apply_raw env cores (raw\<lparr>raw_max_size := None\<rparr>)) \<and>
     MalformedMaxSize v \<in> set (snd (apply_raw env cores (raw\<lparr>raw_max_size := Some v\<rparr>)))"
  by (simp_all add: apply_raw_def textual_def right_def Let_def split: prod.splits)

end
