(* ===== verification/Core_Worker.thy ===== *)
theory Core_Worker
  imports Core_Pins Core_Config Core_Engine Core_Decider
begin

text \<open>
  What a worker does with a job (\<open>crates/wusel-core/src/runtime.rs\<close>, \<open>Worker\<close>): every arm of \<open>run\<close>
  and the helpers behind them, on the engine, the pins, the write buffers and the bytes that wait for
  a write. What the file system, the desktop, the server and the clock answer is a record of its own,
  a new one for each job. An inode is the number of the object; SQLite itself does not fail.
\<close>

section \<open>What a worker works on\<close>

datatype scratch_file = BufferFile u64 | RefreshFile u64

record ('s, 't) host =
  ho_engine :: "'s engine"
  ho_pins :: "'t pins_file \<times> cache"
  ho_scratch :: "(scratch_file, bytes) hash_map"
  ho_inbox :: "(object_id, bytes list) hash_map"
  ho_metered :: "(nat \<times> bool option) option"

text \<open>
  \<open>wk_inner\<close>, \<open>wk_whole\<close>: the source behind the cache; \<open>wk_partial\<close>: what a stream that fails has
  written by then. \<open>wk_lock\<close>: the lock of the pins, when it cannot be taken. \<open>wk_disk\<close>: a file can be
  made in the scratch directory. \<open>wk_net\<close>: the substrate has a network.
\<close>

record ('s, 't) worker =
  wk_setting :: "'s setting"
  wk_net :: bool
  wk_dec :: "'t \<Rightarrow> document option"
  wk_enc :: "document \<Rightarrow> 't"
  wk_pins_io :: io_plan
  wk_lock :: "pins_error option"
  wk_disk :: bool
  wk_open_pinned :: open_pinned
  wk_is_metered :: "bool option"
  wk_ignore :: "string list"
  wk_revalidate :: u64
  wk_push_floor :: u64
  wk_invalidate_after :: int
  wk_inner :: "node \<Rightarrow> nat \<Rightarrow> nat \<Rightarrow> answer"
  wk_whole :: "node \<Rightarrow> answer"
  wk_partial :: bytes

type_synonym ('s, 't) job_run = "(('s, 't) host \<times> completion \<times> payload) option"

definition host_db :: "('s, 't) host \<Rightarrow> state_db" where
  "host_db h = en_db (ho_engine h)"

definition set_db :: "state_db \<Rightarrow> ('s, 't) host \<Rightarrow> ('s, 't) host" where
  "set_db db h = h\<lparr>ho_engine := (ho_engine h)\<lparr>en_db := db\<rparr>\<rparr>"

definition host_content :: "('s, 't) host \<Rightarrow> content" where
  "host_content h = en_content (ho_engine h)"

definition set_content :: "content \<Rightarrow> ('s, 't) host \<Rightarrow> ('s, 't) host" where
  "set_content st h = h\<lparr>ho_engine := (ho_engine h)\<lparr>en_content := st\<rparr>\<rparr>"

definition inode_of :: "object_id \<Rightarrow> inode" where
  "inode_of obj = unat (object_raw obj)"

definition object_of :: "inode \<Rightarrow> object_id" where
  "object_of i = ObjectId (of_nat i)"

abbreviation buffer_of :: "('s, 't) host \<Rightarrow> object_id \<Rightarrow> bytes option" where
  "buffer_of h obj \<equiv> hm_get (ho_scratch h) (BufferFile (object_raw obj))"

definition put_buffer_file :: "object_id \<Rightarrow> bytes \<Rightarrow> ('s, 't) host \<Rightarrow> ('s, 't) host" where
  "put_buffer_file obj bs h = h\<lparr>ho_scratch := hm_insert (BufferFile (object_raw obj)) bs (ho_scratch h)\<rparr>"

section \<open>Answers\<close>

definition failed :: "('s, 't) host \<Rightarrow> ('s, 't) job_run" where
  "failed h = Some (h, JobFailed Io, NoPayload)"

definition refused :: "('s, 't) host \<Rightarrow> ('s, 't) job_run" where
  "refused h = Some (h, JobFailed NotWritable, NoPayload)"

definition job_done :: "('s, 't) host \<Rightarrow> ('s, 't) job_run" where
  "job_done h = Some (h, JobDone, NoPayload)"

text \<open>How a step that answers success or an error becomes the answer of a job.\<close>

definition settle_as :: "completion \<Rightarrow> (('s, 't) host \<times> (core_error + unit)) option \<Rightarrow> ('s, 't) job_run" where
  "settle_as c r =
     (case r of None \<Rightarrow> None | Some (h, Inl _) \<Rightarrow> failed h | Some (h, Inr _) \<Rightarrow> Some (h, c, NoPayload))"

definition on_engine :: "('s, 't) host \<Rightarrow> ('s, 'a) run \<Rightarrow> (('s, 't) host \<times> (core_error + 'a)) option" where
  "on_engine h r = map_option (\<lambda>(e, x). (h\<lparr>ho_engine := e\<rparr>, x)) r"

definition settle_db :: "('s, 't) host \<Rightarrow> state_db Core_State.outcome \<Rightarrow> ('s, 't) job_run" where
  "settle_db h r =
     (case r of None \<Rightarrow> None | Some (Inl _) \<Rightarrow> failed h | Some (Inr db) \<Rightarrow> job_done (set_db db h))"

section \<open>What is shown of an object\<close>

text \<open>An empty permission string means nothing was said, which reads as writable.\<close>

definition withdraw_write :: "string \<Rightarrow> string" where
  "withdraw_write permissions =
     (if permissions = [] then ''R''
      else filter (\<lambda>c. c \<noteq> CHR ''W'' \<and> c \<noteq> CHR ''C'' \<and> c \<noteq> CHR ''K'') permissions)"

definition metered_ttl :: nat where "metered_ttl = 30 * 1000000000"

definition metered_get :: "('s, 't) worker \<Rightarrow> ('s, 't) host \<Rightarrow> ('s, 't) host \<times> bool option" where
  "metered_get w h =
     (let now = se_now (wk_setting w);
          asked = (h\<lparr>ho_metered := Some (now, wk_is_metered w)\<rparr>, wk_is_metered w)
      in case ho_metered h of
           Some (since, v) \<Rightarrow> if now - since < metered_ttl then (h, v) else asked
         | None \<Rightarrow> asked)"

definition ask_pinned :: "('s, 't) worker \<Rightarrow> string \<Rightarrow> ('s, 't) host \<Rightarrow> ('s, 't) host \<times> (pins_error + bool)" where
  "ask_pinned w path h =
     (case is_pinned (wk_dec w) (fst (ho_pins h)) (snd (ho_pins h)) path of
        (c, r) \<Rightarrow> (h\<lparr>ho_pins := (fst (ho_pins h), c)\<rparr>, r))"

definition stale_copy_ok :: "('s, 't) worker \<Rightarrow> node \<Rightarrow> ('s, 't) host \<Rightarrow> ('s, 't) host \<times> bool" where
  "stale_copy_ok w n h =
     (if wk_open_pinned w = Newest then (h, False)
      else
        case ask_pinned w (nd_path n) h of
          (h, r) \<Rightarrow>
            if r \<noteq> Inr True then (h, False)
            else if \<not> is_stale n (host_content h) then (h, False)
            else case metered_get w h of (h, m) \<Rightarrow> (h, open_decide (wk_open_pinned w) m = ServeLocal))"

definition facts_for :: "('s, 't) worker \<Rightarrow> inode \<Rightarrow> node \<Rightarrow> ('s, 't) host \<Rightarrow> ('s, 't) host \<times> node_facts" where
  "facts_for w i n h =
     (case stale_copy_ok w n h of
        (h, outdated) \<Rightarrow>
          (h, \<lparr>nf_id = object_of i, nf_found = True, nf_parent = object_of (nd_parent n),
               nf_ignored = is_ignored (nd_name n) (wk_ignore w), nf_dir = nd_is_dir n,
               nf_writable = node_row_is_writable n, nf_etag = nd_etag n, nf_size = nd_size n,
               nf_blob_current = is_cached n (host_content h), nf_stale_copy_ok = outdated,
               nf_materialised = (nd_file_id n \<noteq> None \<or> nd_etag n \<noteq> []), nf_identified = (nd_file_id n \<noteq> None),
               nf_children_loaded = children_loaded (host_db h) i,
               nf_listing_stale =
                 dir_needs_reload (host_db h) (of_nat (now_secs (wk_setting w))) i (wk_revalidate w)
                   (wk_invalidate_after w) (wk_push_floor w)\<rparr>))"

text \<open>What is shown of the row: without the right to write where an outdated copy is served, and with the
  length of the buffer while there is one.\<close>

definition shown :: "('s, 't) host \<Rightarrow> bool \<Rightarrow> inode \<Rightarrow> node \<Rightarrow> node" where
  "shown h outdated i n =
     (let n = (if outdated then n\<lparr>nd_permissions := withdraw_write (nd_permissions n)\<rparr> else n)
      in if nd_is_dir n then n
         else case buffer_of h (object_of i) of None \<Rightarrow> n | Some bs \<Rightarrow> n\<lparr>nd_size := of_nat (length bs)\<rparr>)"

definition present :: "('s, 't) worker \<Rightarrow> inode \<Rightarrow> node \<Rightarrow> ('s, 't) host \<Rightarrow> ('s, 't) host \<times> completion \<times> payload" where
  "present w i n h =
     (case stale_copy_ok w n h of
        (h, outdated) \<Rightarrow>
          let n = shown h outdated i n
          in case facts_for w i n h of (h, facts) \<Rightarrow> (h, Node facts, PayloadNode i n))"

definition absent :: "('s, 't) host \<Rightarrow> ('s, 't) job_run" where
  "absent h = Some (h, Node default_node, NoPayload)"

definition read_node :: "('s, 't) worker \<Rightarrow> object_id \<Rightarrow> ('s, 't) host \<Rightarrow> ('s, 't) job_run" where
  "read_node w obj h =
     (case node_by_inode (host_db h) (inode_of obj) of
        None \<Rightarrow> absent h
      | Some n \<Rightarrow> Some (present w (inode_of obj) n h))"

definition read_child :: "('s, 't) worker \<Rightarrow> object_id \<Rightarrow> string \<Rightarrow> ('s, 't) host \<Rightarrow> ('s, 't) job_run" where
  "read_child w parent name h =
     (case child_by_name (host_db h) (inode_of parent) name of
        None \<Rightarrow> absent h
      | Some (i, n) \<Rightarrow> Some (present w i n h))"

text \<open>The emblem; \<open>NotFoundOnServer\<close> is the \<open>Error::NotFound\<close> of the source.\<close>

definition pins_core_error :: "pins_error \<Rightarrow> core_error" where
  "pins_core_error e = Other ''pins''"

definition sync_state :: "('s, 't) worker \<Rightarrow> object_id \<Rightarrow> bool \<Rightarrow> ('s, 't) host \<Rightarrow> ('s, 't) host \<times> (core_error + file_state)" where
  "sync_state w obj open_buffer h =
     (case pending_upload_of (host_db h) (inode_of obj) of
        Some p \<Rightarrow> (h, Inr (case pend_state p of UploadError \<Rightarrow> FileSyncError | _ \<Rightarrow> FileUploading))
      | None \<Rightarrow>
          if open_buffer then (h, Inr FileModified)
          else
            case node_by_inode (host_db h) (inode_of obj) of
              None \<Rightarrow> (h, Inl NotFoundOnServer)
            | Some n \<Rightarrow>
                (case ask_pinned w (nd_path n) h of
                   (h, Inl e) \<Rightarrow> (h, Inl (pins_core_error e))
                 | (h, Inr True) \<Rightarrow>
                     (h, Inr (if nd_is_dir n then FilePinned
                              else if is_cached n (host_content h) then FilePinned
                              else if is_stale n (host_content h) then FilePinnedStale
                              else FilePinnedPending))
                 | (h, Inr False) \<Rightarrow>
                     (h, if nd_is_dir n then Inl NotFoundOnServer
                         else Inr (if is_cached n (host_content h) then FileCached else FileOnlineOnly))))"

definition read_state :: "('s, 't) worker \<Rightarrow> object_id \<Rightarrow> bool \<Rightarrow> ('s, 't) host \<Rightarrow> ('s, 't) job_run" where
  "read_state w obj open_buffer h =
     (case node_by_inode (host_db h) (inode_of obj) of
        None \<Rightarrow> failed h
      | Some n \<Rightarrow>
          (case sync_state w obj open_buffer h of
             (h, Inr s) \<Rightarrow> Some (h, StateKnown, PayloadState (Some s) (nd_group_root n))
           | (h, Inl e) \<Rightarrow>
               if e = NotFoundOnServer \<and> nd_is_dir n then Some (h, StateKnown, PayloadState None (nd_group_root n))
               else failed h))"

section \<open>The write buffers\<close>

definition read_buffer :: "object_id \<Rightarrow> u64 \<Rightarrow> u32 \<Rightarrow> ('s, 't) host \<Rightarrow> ('s, 't) job_run" where
  "read_buffer obj off len h =
     (case buffer_of h obj of
        None \<Rightarrow> failed h
      | Some bs \<Rightarrow> Some (h, Bytes, PayloadBytes (read_range_from_scratch bs (unat off) (unat len))))"

definition create_buffer :: "('s, 't) worker \<Rightarrow> object_id \<Rightarrow> ('s, 't) host \<Rightarrow> ('s, 't) job_run" where
  "create_buffer w obj h = (if wk_disk w then job_done (put_buffer_file obj [] h) else failed h)"

text \<open>\<open>set_len\<close>: cut off, or filled up with zeros.\<close>

definition resize :: "nat \<Rightarrow> bytes \<Rightarrow> bytes" where
  "resize sz bs = take sz bs @ replicate (sz - length bs) 0"

definition truncate_buffer :: "object_id \<Rightarrow> u64 \<Rightarrow> ('s, 't) host \<Rightarrow> ('s, 't) job_run" where
  "truncate_buffer obj sz h =
     (case buffer_of h obj of
        None \<Rightarrow> failed h
      | Some bs \<Rightarrow> job_done (put_buffer_file obj (resize (unat sz) bs) h))"

text \<open>Writing at an offset past the end leaves a hole of zeros; writing nothing changes nothing.\<close>

definition write_at :: "nat \<Rightarrow> bytes \<Rightarrow> bytes \<Rightarrow> bytes" where
  "write_at off data bs =
     (if data = [] then bs else take off (resize (max off (length bs)) bs) @ data @ drop (off + length data) bs)"

text \<open>The front of the bytes that wait; the queue itself stays, even when it is empty.\<close>

definition take_inbox :: "object_id \<Rightarrow> ('s, 't) host \<Rightarrow> ('s, 't) host \<times> bytes option" where
  "take_inbox obj h =
     (case hm_get (ho_inbox h) obj of
        Some (data # rest) \<Rightarrow> (h\<lparr>ho_inbox := hm_insert obj rest (ho_inbox h)\<rparr>, Some data)
      | _ \<Rightarrow> (h, None))"

definition write_buffer :: "object_id \<Rightarrow> u64 \<Rightarrow> u32 \<Rightarrow> ('s, 't) host \<Rightarrow> ('s, 't) job_run" where
  "write_buffer obj off len h =
     (case take_inbox obj h of
        (h, None) \<Rightarrow> failed h
      | (h, Some data) \<Rightarrow>
          (case buffer_of h obj of
             None \<Rightarrow> failed h
           | Some bs \<Rightarrow>
               Some (put_buffer_file obj (write_at (unat off) data bs) h, JobDone, PayloadWritten len)))"

definition buffer_size :: "object_id \<Rightarrow> ('s, 't) host \<Rightarrow> ('s, 't) job_run" where
  "buffer_size obj h =
     (case buffer_of h obj of
        None \<Rightarrow> Some (h, JobFailed Permanent, NoPayload)
      | Some bs \<Rightarrow> Some (h, Size (of_nat (length bs)), NoPayload))"

definition discard_buffer :: "object_id \<Rightarrow> ('s, 't) host \<Rightarrow> ('s, 't) job_run" where
  "discard_buffer obj h = job_done (h\<lparr>ho_scratch := hm_remove (BufferFile (object_raw obj)) (ho_scratch h)\<rparr>)"

text \<open>A stream into a file of the scratch directory: the file is made first and keeps what arrived.\<close>

definition stream_into :: "('s, 't) worker \<Rightarrow> scratch_file \<Rightarrow> node \<Rightarrow> ('s, 't) host \<Rightarrow> ('s, 't) host \<times> (core_error + unit)" where
  "stream_into w f n h =
     (if \<not> wk_disk w then (h, Inl (IoError ''create''))
      else
        case stream_to (se_content (wk_setting w)) (se_io (wk_setting w)) (se_now (wk_setting w)) n (wk_whole w n) (host_content h) of
          (st, Inr bs) \<Rightarrow> ((set_content st h)\<lparr>ho_scratch := hm_insert f bs (ho_scratch h)\<rparr>, Inr ())
        | (st, Inl x) \<Rightarrow> ((set_content st h)\<lparr>ho_scratch := hm_insert f (wk_partial w) (ho_scratch h)\<rparr>, Inl x))"

definition hydrate_buffer :: "('s, 't) worker \<Rightarrow> object_id \<Rightarrow> ('s, 't) host \<Rightarrow> ('s, 't) job_run" where
  "hydrate_buffer w obj h =
     (case node_by_inode (host_db h) (inode_of obj) of
        None \<Rightarrow> failed h
      | Some n \<Rightarrow> settle_as JobDone (Some (stream_into w (BufferFile (object_raw obj)) n h)))"

definition store_from :: "('s, 't) worker \<Rightarrow> scratch_file \<Rightarrow> node \<Rightarrow> ('s, 't) host \<Rightarrow> ('s, 't) host \<times> (core_error + unit)" where
  "store_from w f n h =
     (case (nd_file_id n, hm_get (ho_scratch h) f) of
        (None, _) \<Rightarrow> (h, Inr ())
      | (Some fid, None) \<Rightarrow>
          (set_content (set_dir (drop_temp (PartFile fid) (co_dir (host_content h))) (host_content h)) h, Inl (IoError ''copy''))
      | (Some fid, Some bs) \<Rightarrow>
          (case store_file (se_content (wk_setting w)) (se_io (wk_setting w)) (se_now (wk_setting w)) n bs (nd_etag n) (host_content h) of
             (st, r) \<Rightarrow> (set_content st h, r)))"

definition store_blob :: "('s, 't) worker \<Rightarrow> object_id \<Rightarrow> ('s, 't) host \<Rightarrow> ('s, 't) job_run" where
  "store_blob w obj h =
     (case node_by_inode (host_db h) (inode_of obj) of
        None \<Rightarrow> failed h
      | Some n \<Rightarrow> settle_as JobDone (Some (store_from w (BufferFile (object_raw obj)) n h)))"

definition hydrate_cache :: "('s, 't) worker \<Rightarrow> object_id \<Rightarrow> ('s, 't) host \<Rightarrow> ('s, 't) job_run" where
  "hydrate_cache w obj h =
     (case node_by_inode (host_db h) (inode_of obj) of
        None \<Rightarrow> failed h
      | Some n \<Rightarrow>
          let tmp = RefreshFile (object_raw obj);
              (h, r) = (case stream_into w tmp n h of (h, Inl x) \<Rightarrow> (h, Inl x) | (h, Inr _) \<Rightarrow> store_from w tmp n h)
          in settle_as JobDone (Some (h\<lparr>ho_scratch := hm_remove tmp (ho_scratch h)\<rparr>, r)))"

section \<open>Rows\<close>

definition child_is_trash :: "('s, 't) host \<Rightarrow> object_id \<Rightarrow> string \<Rightarrow> bool" where
  "child_is_trash h parent name \<longleftrightarrow>
     (case node_by_inode (host_db h) (inode_of parent) of
        Some n \<Rightarrow> is_trash_path (child_path (nd_path n) name)
      | None \<Rightarrow> False)"

definition mark_pending :: "('s, 't) worker \<Rightarrow> object_id \<Rightarrow> string \<Rightarrow> i64 option \<Rightarrow> ('s, 't) host \<Rightarrow> ('s, 't) job_run" where
  "mark_pending w obj base_etag mtime h =
     (let i = inode_of obj;
          n = node_by_inode (host_db h) i;
          path = (case n of Some n \<Rightarrow> nd_path n | None \<Rightarrow> []);
          db = (case buffer_of h obj of Some bs \<Rightarrow> set_size i (of_nat (length bs)) (host_db h) | None \<Rightarrow> host_db h);
          h = set_db (mark_pending_upload i path base_etag (map_option sint mtime) db) h
      in job_done
           (case n of
              Some n \<Rightarrow>
                if wk_net w
                then h\<lparr>ho_engine := tell [InvalEntry (nd_parent n) (nd_name n) (nd_path n)] (ho_engine h)\<rparr>
                else h
            | None \<Rightarrow> h))"

definition insert_node :: "('s, 't) worker \<Rightarrow> object_id \<Rightarrow> string \<Rightarrow> bool \<Rightarrow> bool \<Rightarrow> ('s, 't) host \<Rightarrow> ('s, 't) job_run" where
  "insert_node w parent name dir exec h =
     (if dir then failed h
      else if child_is_trash h parent name then refused h
      else
        case insert_local_file (inode_of parent) name (int (now_secs (wk_setting w))) (host_db h) of
          None \<Rightarrow> None
        | Some (Inl _) \<Rightarrow> failed h
        | Some (Inr (db, i, n)) \<Rightarrow> job_done (set_db (if exec then set_exec i True db else db) h))"

text \<open>A change of the pins, with the lock taken or not.\<close>

definition change_pins :: "('s, 't) worker \<Rightarrow> pin_op \<Rightarrow> ('s, 't) host \<Rightarrow> ('s, 't) host \<times> (pins_error + nat)" where
  "change_pins w op h =
     (case wk_lock w of
        Some e \<Rightarrow> (h, Inl e)
      | None \<Rightarrow> (case change (wk_dec w) (wk_enc w) (wk_pins_io w) op (ho_pins h) of (p, r) \<Rightarrow> (h\<lparr>ho_pins := p\<rparr>, r)))"

definition run_unpin_subtree :: "('s, 't) worker \<Rightarrow> node \<Rightarrow> ('s, 't) host \<Rightarrow> ('s, 't) host \<times> (pins_error + unit)" where
  "run_unpin_subtree w n h =
     (case ask_pinned w (nd_path n) h of
        (h, Inl e) \<Rightarrow> (h, Inl e)
      | (h, Inr covered) \<Rightarrow>
          (case change_pins w (PinRemoveUnder (nd_path n)) h of
             (h, Inl e) \<Rightarrow> (h, Inl e)
           | (h, Inr removed) \<Rightarrow>
               if \<not> covered \<and> removed = 0 then (h, Inr ())
               else
                 (set_content (fold (\<lambda>(path, fid). unpin_file fid) (descendant_file_ids (host_db h) (nd_path n)) (host_content h)) h,
                  Inr ())))"

definition remove_rows :: "('s, 't) worker \<Rightarrow> object_id \<Rightarrow> ('s, 't) host \<Rightarrow> ('s, 't) job_run" where
  "remove_rows w obj h =
     (case (case node_by_inode (host_db h) (inode_of obj) of
              None \<Rightarrow> (h, Inr ())
            | Some n \<Rightarrow> run_unpin_subtree w n h) of
        (h, Inl _) \<Rightarrow> failed h
      | (h, Inr _) \<Rightarrow> settle_db h (map_option Inr (remove_subtree (inode_of obj) (host_db h))))"

definition move_rows :: "('s, 't) worker \<Rightarrow> object_id \<Rightarrow> object_id \<Rightarrow> string \<Rightarrow> ('s, 't) host \<Rightarrow> ('s, 't) job_run" where
  "move_rows w obj to_parent to_name h =
     (if child_is_trash h to_parent to_name then refused h
      else
        case move_subtree (inode_of obj) (inode_of to_parent) to_name (host_db h) of
          None \<Rightarrow> None
        | Some (Inl _) \<Rightarrow> failed h
        | Some (Inr (db, from_path, to_path)) \<Rightarrow>
            (case change_pins w (PinRename from_path to_path) (set_db db h) of
               (h, _) \<Rightarrow> job_done (set_db (move_pending_upload (inode_of obj) to_path (host_db h)) h)))"

section \<open>The server\<close>

text \<open>A publish that was answered and then failed on the network.\<close>

definition publish_failed :: "string \<Rightarrow> core_error \<Rightarrow> ('s, 't) host \<Rightarrow> ('s, 't) job_run" where
  "publish_failed path x h =
     (if is_permanent x then
        Some (h\<lparr>ho_engine := tell [StatusError, NoticeUploadFailed path x] (ho_engine h)\<rparr>, JobFailed Permanent, NoPayload)
      else Some (h\<lparr>ho_engine := tell [StatusError] (ho_engine h)\<rparr>, JobFailed Io, NoPayload))"

fun upload_condition_of :: "precondition \<Rightarrow> upload_condition" where
  "upload_condition_of MustNotExist = UploadNew"
| "upload_condition_of (precondition.Match etag) = UploadOver etag"
| "upload_condition_of Unconditional = UploadAnyway"

definition upload :: "('s, 't) worker \<Rightarrow> object_id \<Rightarrow> u64 \<Rightarrow> precondition \<Rightarrow> i64 option \<Rightarrow> ('s, 't) host \<Rightarrow> ('s, 't) job_run" where
  "upload w obj sz pre mtime h =
     (case node_by_inode (host_db h) (inode_of obj) of
        None \<Rightarrow> failed h
      | Some n \<Rightarrow>
          if \<not> wk_net w then failed h
          else
            case on_engine h
                (put_buffer (wk_setting w) (nd_path n) (buffer_of h obj) (unat sz) (upload_condition_of pre)
                   (map_option sint mtime) (tell [StatusSyncing] (ho_engine h))) of
              None \<Rightarrow> None
            | Some (h, Inl x) \<Rightarrow> publish_failed (nd_path n) x h
            | Some (h, Inr Conflict) \<Rightarrow> Some (h, Rejected, NoPayload)
            | Some (h, Inr (put_result.Uploaded etag)) \<Rightarrow>
                Some (h\<lparr>ho_engine := tell [StatusIdle] (ho_engine h)\<rparr>,
                      completion.Uploaded (case etag of Some t \<Rightarrow> t | None \<Rightarrow> []) sz, NoPayload))"

definition resolve_conflict :: "('s, 't) worker \<Rightarrow> object_id \<Rightarrow> string \<Rightarrow> ('s, 't) host \<Rightarrow> ('s, 't) job_run" where
  "resolve_conflict w obj base_etag h =
     (if \<not> wk_net w then failed h
      else
        case (node_by_inode (host_db h) (inode_of obj), buffer_of h obj) of
          (Some n, Some bs) \<Rightarrow>
            (case on_engine h
                 (run_conflict_resolution (wk_setting w) (inode_of obj) n base_etag (Some bs) (length bs) (ho_engine h)) of
               None \<Rightarrow> None
             | Some (h, Inl x) \<Rightarrow> publish_failed (nd_path n) x h
             | Some (h, Inr _) \<Rightarrow> job_done (h\<lparr>ho_engine := tell [StatusIdle] (ho_engine h)\<rparr>))
        | _ \<Rightarrow> failed h)"

definition list_remote :: "('s, 't) worker \<Rightarrow> object_id \<Rightarrow> object_id \<Rightarrow> ('s, 't) host \<Rightarrow> ('s, 't) job_run" where
  "list_remote w holder obj h =
     (if \<not> wk_net w then failed h
      else settle_as Listed (on_engine h (run_reload_dir (wk_setting w) (inode_of obj) (inode_of holder) (ho_engine h))))"

definition refresh_beside :: "('s, 't) worker \<Rightarrow> object_id \<Rightarrow> ('s, 't) host \<Rightarrow> ('s, 't) job_run" where
  "refresh_beside w obj h =
     (if \<not> wk_net w then failed h
      else settle_as Listed (on_engine h (run_refresh_beside (wk_setting w) (inode_of obj) (ho_engine h))))"

text \<open>A change on the server by the client, with the write epoch raised where the source raises it.\<close>

definition change_remote :: "bool \<Rightarrow> ('s dav \<Rightarrow> 's dav \<times> (core_error + unit)) \<Rightarrow> ('s, 't) host \<Rightarrow> ('s, 't) job_run" where
  "change_remote raises call h =
     (case on_engine h (on_dav call (ho_engine h)) of
        Some (h, Inr _) \<Rightarrow> job_done (if raises then h\<lparr>ho_engine := bump_epoch (ho_engine h)\<rparr> else h)
      | Some (h, Inl _) \<Rightarrow> failed h
      | None \<Rightarrow> None)"

definition create_remote_dir :: "('s, 't) worker \<Rightarrow> object_id \<Rightarrow> string \<Rightarrow> ('s, 't) host \<Rightarrow> ('s, 't) job_run" where
  "create_remote_dir w parent name h =
     (if child_is_trash h parent name then refused h
      else if \<not> wk_net w then failed h
      else
        case node_by_inode (host_db h) (inode_of parent) of
          None \<Rightarrow> failed h
        | Some p \<Rightarrow> change_remote True (mkcol (se_server (wk_setting w)) (child_path (nd_path p) name)) h)"

definition delete_remote :: "('s, 't) worker \<Rightarrow> object_id \<Rightarrow> ('s, 't) host \<Rightarrow> ('s, 't) job_run" where
  "delete_remote w obj h =
     (if \<not> wk_net w then failed h
      else
        case node_by_inode (host_db h) (inode_of obj) of
          None \<Rightarrow> failed h
        | Some n \<Rightarrow> change_remote False (delete_at (se_server (wk_setting w)) (nd_path n) (nd_is_dir n)) h)"

definition move_remote :: "('s, 't) worker \<Rightarrow> object_id \<Rightarrow> object_id \<Rightarrow> string \<Rightarrow> ('s, 't) host \<Rightarrow> ('s, 't) job_run" where
  "move_remote w obj to_parent to_name h =
     (if child_is_trash h to_parent to_name then refused h
      else if \<not> wk_net w then failed h
      else
        case (node_by_inode (host_db h) (inode_of obj), node_by_inode (host_db h) (inode_of to_parent)) of
          (Some n, Some p) \<Rightarrow>
            change_remote True
              (move_to (se_server (wk_setting w)) (nd_path n) (child_path (nd_path p) to_name) (nd_is_dir n)) h
        | _ \<Rightarrow> failed h)"

section \<open>Content\<close>

definition fetch :: "('s, 't) worker \<Rightarrow> object_id \<Rightarrow> u64 \<Rightarrow> u32 \<Rightarrow> ('s, 't) host \<Rightarrow> ('s, 't) job_run" where
  "fetch w obj off len h =
     (case node_by_inode (host_db h) (inode_of obj) of
        None \<Rightarrow> Some (h, JobFailed Stale, NoPayload)
      | Some n \<Rightarrow>
          (case stale_copy_ok w n h of
             (h, outdated) \<Rightarrow>
               (case (if outdated then read_outdated n (unat off) (unat len) (host_content h) else (host_content h, None)) of
                  (st, Some bs) \<Rightarrow> Some (set_content st h, Bytes, PayloadBytes bs)
                | (st, None) \<Rightarrow>
                    (case content_read (wk_inner w) (se_content (wk_setting w)) (se_io (wk_setting w))
                        (se_now (wk_setting w)) n (unat off) (unat len) st of
                       (st, Inr bs) \<Rightarrow> Some (set_content st h, Bytes, PayloadBytes bs)
                     | (st, Inl x) \<Rightarrow>
                         Some (set_content st h, JobFailed (if x = NotFoundOnServer then Stale else Io), NoPayload)))))"

section \<open>One job\<close>

fun run_job :: "('s, 't) worker \<Rightarrow> object_id \<Rightarrow> job \<Rightarrow> ('s, 't) host \<Rightarrow> ('s, 't) job_run" where
  "run_job w holder (ReadNode obj) h = read_node w obj h"
| "run_job w holder (ReadChild parent name) h = read_child w parent name h"
| "run_job w holder (ReadState obj open_buffer) h = read_state w obj open_buffer h"
| "run_job w holder (TruncateBuffer obj sz) h = truncate_buffer obj sz h"
| "run_job w holder (RecordMtime obj mtime) h = job_done (set_db (set_mtime (inode_of obj) (sint mtime) (host_db h)) h)"
| "run_job w holder (RecordExec obj exec) h = job_done (set_db (set_exec (inode_of obj) exec (host_db h)) h)"
| "run_job w holder (ReadChildren obj) h = Some (h, Listed, PayloadEntries (children_of (host_db h) (inode_of obj)))"
| "run_job w holder (RecordVersion obj etag sz) h = job_done (set_db (set_etag_size (inode_of obj) etag sz (host_db h)) h)"
| "run_job w holder (MarkPending obj base_etag mtime) h = mark_pending w obj base_etag mtime h"
| "run_job w holder (ClearPending obj) h = job_done (set_db (clear_pending_upload (inode_of obj) (host_db h)) h)"
| "run_job w holder (SetUploadError obj msg) h =
     job_done (set_db (set_upload_state (inode_of obj) UploadError (Some msg) (host_db h)) h)"
| "run_job w holder (InsertNode parent name dir exec) h = insert_node w parent name dir exec h"
| "run_job w holder (RemoveRows obj) h = remove_rows w obj h"
| "run_job w holder (MoveRows obj to_parent to_name) h = move_rows w obj to_parent to_name h"
| "run_job w holder (ReadBuffer obj off len) h = read_buffer obj off len h"
| "run_job w holder (CreateBuffer obj) h = create_buffer w obj h"
| "run_job w holder (WriteBuffer obj off len) h = write_buffer obj off len h"
| "run_job w holder (DiscardBuffer obj) h = discard_buffer obj h"
| "run_job w holder (BufferSize obj) h = buffer_size obj h"
| "run_job w holder (Upload obj sz pre mtime) h = upload w obj sz pre mtime h"
| "run_job w holder (ResolveConflict obj base_etag) h = resolve_conflict w obj base_etag h"
| "run_job w holder (HydrateBuffer obj) h = hydrate_buffer w obj h"
| "run_job w holder (StoreBlob obj) h = store_blob w obj h"
| "run_job w holder (ReadBlob obj off len) h = fetch w obj off len h"
| "run_job w holder (FetchRange obj off len) h = fetch w obj off len h"
| "run_job w holder (ListRemote obj) h = list_remote w holder obj h"
| "run_job w holder (HydrateCache obj) h = hydrate_cache w obj h"
| "run_job w holder (CreateRemoteDir parent name) h = create_remote_dir w parent name h"
| "run_job w holder (DeleteRemote obj) h = delete_remote w obj h"
| "run_job w holder (MoveRemote obj to_parent to_name) h = move_remote w obj to_parent to_name h"

text \<open>What \<open>spawn_worker\<close> does with a job of its queue: a refresh nobody waits for is told apart.\<close>

definition work :: "('s, 't) worker \<Rightarrow> dispatched \<Rightarrow> ('s, 't) host \<Rightarrow> ('s, 't) job_run" where
  "work w d h =
     (case (di_deliver d, di_job d) of
        (Detached, ListRemote obj) \<Rightarrow> refresh_beside w obj h
      | _ \<Rightarrow> run_job w (di_object d) (di_job d) h)"

end
