(* ===== verification/Core_Program.thy ===== *)
theory Core_Program
  imports Core_Worker Core_Substrate_Runs
begin

text \<open>
  The program as a whole: the substrate with its own workers on one host. What the theorems about
  the substrate ask of a worker, the workers of the program keep.
\<close>

section \<open>Workers answer as their jobs say\<close>

named_theorems job_defs \<open>what the jobs of a worker do\<close>

declare failed_def [job_defs] refused_def [job_defs] job_done_def [job_defs] settle_as_def [job_defs] settle_db_def [job_defs]
  absent_def [job_defs] read_node_def [job_defs] read_child_def [job_defs] read_state_def [job_defs]
  read_buffer_def [job_defs] create_buffer_def [job_defs] truncate_buffer_def [job_defs] write_buffer_def [job_defs]
  buffer_size_def [job_defs] discard_buffer_def [job_defs] hydrate_buffer_def [job_defs] store_blob_def [job_defs]
  hydrate_cache_def [job_defs] mark_pending_def [job_defs] insert_node_def [job_defs] remove_rows_def [job_defs]
  move_rows_def [job_defs] publish_failed_def [job_defs] upload_def [job_defs] resolve_conflict_def [job_defs]
  list_remote_def [job_defs] refresh_beside_def [job_defs] change_remote_def [job_defs] create_remote_dir_def [job_defs]
  delete_remote_def [job_defs] move_remote_def [job_defs] fetch_def [job_defs]

lemma present_answers: "\<exists>h' f n'. present w i n h = (h', Node f, PayloadNode i n') \<and> nf_found f"
proof -
  obtain h1 o1 where 1: "stale_copy_ok w n h = (h1, o1)" by fastforce
  obtain h2 o2 where 2: "stale_copy_ok w (shown h1 o1 i n) h1 = (h2, o2)" by fastforce
  show ?thesis by (simp add: present_def facts_for_def Let_def 1 2)
qed

lemma present_fits:
  "present w i n h = (h', c, p) \<Longrightarrow> answer_fits (ReadNode obj) c p \<and> answer_fits (ReadChild obj name) c p"
  using present_answers [of w i n h] by (auto simp: answer_fits_def)

lemma absent_fits [simp]:
  "answer_fits (ReadNode obj) (Node default_node) NoPayload" "answer_fits (ReadChild obj name) (Node default_node) NoPayload"
  by (simp_all add: answer_fits_def default_node_def)

lemma failed_fits [simp]: "answer_fits job (JobFailed f) p \<longleftrightarrow> p = NoPayload"
  by (simp add: answer_fits_def)

lemma run_job_fits: "run_job w holder job h = Some (h', c, p) \<Longrightarrow> answer_fits job c p"
proof (cases job)
  case (ReadNode obj)
  assume "run_job w holder job h = Some (h', c, p)"
  with ReadNode show ?thesis by (auto simp: job_defs split: option.splits dest: present_fits)
next
  case (ReadChild parent name)
  assume "run_job w holder job h = Some (h', c, p)"
  with ReadChild show ?thesis by (auto simp: job_defs split: option.splits dest: present_fits)
qed (auto simp: answer_fits_def job_defs Let_def split: option.splits sum.splits prod.splits if_splits put_result.splits)

lemma refresh_fits: "refresh_beside w obj h = Some (h', c, p) \<Longrightarrow> answer_fits (ListRemote obj) c p"
  by (auto simp: answer_fits_def job_defs split: option.splits sum.splits prod.splits if_splits)

lemma work_cases:
  "(\<exists>obj. di_deliver d = Detached \<and> di_job d = ListRemote obj \<and> work w d h = refresh_beside w obj h) \<or>
   work w d h = run_job w (di_object d) (di_job d) h"
  by (cases "di_deliver d"; cases "di_job d") (simp_all add: work_def)

lemma work_fits: "work w d h = Some (h', c, p) \<Longrightarrow> answer_fits (di_job d) c p"
  using work_cases [of d w h] refresh_fits run_job_fits by metis

text \<open>
  C12. Every job is answered in its own kind. Whatever the tables, the buffers, the cache and the
  server hold, a job that does not fail is answered with the completion its script waits for and
  with the payload its caller is owed: a look at an object with facts and, when there is one, its
  row; a read with bytes; a listing with entries; a write with a count; an upload with the version
  of the server or its refusal.
\<close>

theorem jobs_answer_as_declared:
  assumes "work w d h = Some (h', c, p)"
  shows "answer_fits (di_job d) c p"
  by (rule work_fits [OF assms])

section \<open>The program\<close>

record ('s, 't) program =
  pg_substrate :: substrate
  pg_host :: "('s, 't) host"

text \<open>\<open>submit_write\<close>: the bytes are parked first, then the request is sent.\<close>

definition park_bytes :: "object_id \<Rightarrow> bytes \<Rightarrow> ('s, 't) host \<Rightarrow> ('s, 't) host" where
  "park_bytes obj data h =
     h\<lparr>ho_inbox := hm_insert obj ((case hm_get (ho_inbox h) obj of Some q \<Rightarrow> q | None \<Rightarrow> []) @ [data]) (ho_inbox h)\<rparr>"

definition mailed_in :: "envelope \<Rightarrow> substrate \<Rightarrow> substrate" where
  "mailed_in e s = s\<lparr>sb_mail := sb_mail s @ [e]\<rparr>"

text \<open>
  A step of the program: a frontend or the uploader sends a message, with bytes or without; a worker
  takes a job; a worker runs the job it has taken, on the host as it finds it and with whatever the
  world answers; the deciding thread takes its turn; or another thread changes the host.
\<close>

inductive program_step :: "(request_id \<Rightarrow> intent) \<Rightarrow> ('s, 't) program \<Rightarrow> ('s, 't) program \<Rightarrow> bool" for asked where
  send: "front_ok asked msg \<Longrightarrow> program_step asked g (g\<lparr>pg_substrate := mailed_in (FromFrontend msg) (pg_substrate g)\<rparr>)"
| send_bytes: "front_ok asked (RequestMessage r) \<Longrightarrow>
    program_step asked g
      (g\<lparr>pg_host := park_bytes (rq_object r) data (pg_host g),
         pg_substrate := mailed_in (FromFrontend (RequestMessage r)) (pg_substrate g)\<rparr>)"
| take: "pool_pop ex (de_queues (sb_decider (pg_substrate g))) = (qs, Took d) \<Longrightarrow>
    program_step asked g
      (g\<lparr>pg_substrate :=
          (pg_substrate g)\<lparr>sb_decider := (sb_decider (pg_substrate g))\<lparr>de_queues := qs\<rparr>,
                           sb_running := d # sb_running (pg_substrate g)\<rparr>\<rparr>)"
| run: "d \<in> set (sb_running (pg_substrate g)) \<Longrightarrow> work w d (pg_host g) = Some (h, c, p) \<Longrightarrow>
    program_step asked g
      (g\<lparr>pg_host := h,
         pg_substrate :=
           mailed_in (FromWorker d c p) ((pg_substrate g)\<lparr>sb_running := remove1 d (sb_running (pg_substrate g))\<rparr>)\<rparr>)"
| decide: "sb_mail (pg_substrate g) = e # rest \<Longrightarrow>
    \<not> robs (de_machine (sb_decider (pg_substrate g))) (message_of e) \<Longrightarrow>
    turn (message_of e) (sb_decider (pg_substrate g)) = Some d \<Longrightarrow>
    program_step asked g
      (g\<lparr>pg_substrate :=
          (pg_substrate g)\<lparr>sb_decider := d\<lparr>de_scheduled := []\<rparr>,
                           sb_mail := rest @ map (FromFrontend \<circ> RequestMessage) (de_scheduled d)\<rparr>\<rparr>)"
| world: "program_step asked g (g\<lparr>pg_host := h\<rparr>)"

inductive program_runs :: "(request_id \<Rightarrow> intent) \<Rightarrow> ('s, 't) program \<Rightarrow> bool" for asked where
  start: "program_runs asked \<lparr>pg_substrate = substrate_new async_upload act, pg_host = h\<rparr>"
| step: "program_runs asked g \<Longrightarrow> program_step asked g g' \<Longrightarrow> program_runs asked g'"

text \<open>Seen without the host, a step of the program is a step of the substrate, or none.\<close>

lemma program_step_simulated:
  assumes "program_step asked g g'"
  shows "substrate_step asked (pg_substrate g) (pg_substrate g') \<or> pg_substrate g' = pg_substrate g"
  using assms
proof cases
  case (send msg)
  then show ?thesis by (auto simp: mailed_in_def intro: submit)
next
  case (send_bytes r data)
  then show ?thesis by (auto simp: mailed_in_def intro: submit)
next
  case (take ex qs d)
  then show ?thesis by (auto intro: substrate_step.take)
next
  case (run d w h c p)
  then show ?thesis using finish [of d "pg_substrate g" c p] work_fits [OF run(3)] by (simp add: mailed_in_def)
next
  case (decide e rest d)
  then show ?thesis by (auto intro: substrate_step.decide)
next
  case (world h)
  then show ?thesis by simp
qed

lemma program_simulated: "program_runs asked g \<Longrightarrow> substrate_runs asked (pg_substrate g)"
proof (induction rule: program_runs.induct)
  case (start async_upload act h)
  show ?case by (simp add: substrate_runs.start)
next
  case (step g g')
  from program_step_simulated [OF step.hyps(2)] show ?case
    using step.IH by (auto intro: substrate_runs.step)
qed

section \<open>A run of the program\<close>

text \<open>Moves of the substrate a worker follows on a host it leaves alone.\<close>

lemma program_follows:
  "plays asked mvs s = Some s' \<Longrightarrow> program_runs asked \<lparr>pg_substrate = s, pg_host = h\<rparr> \<Longrightarrow>
     (\<forall>d c p. Finish d c p \<in> set mvs \<longrightarrow> work w d h = Some (h, c, p)) \<Longrightarrow>
     program_runs asked \<lparr>pg_substrate = s', pg_host = h\<rparr>"
proof (induction mvs arbitrary: s)
  case (Cons mv mvs)
  then obtain s1 where s1: "play asked mv s = Some s1" "plays asked mvs s1 = Some s'" by (auto split: option.splits)
  let ?g = "\<lparr>pg_substrate = s, pg_host = h\<rparr>"
  have "program_step asked ?g \<lparr>pg_substrate = s1, pg_host = h\<rparr>"
  proof (cases mv)
    case (Submit msg)
    with s1(1) show ?thesis using program_step.send [of asked msg ?g] by (auto simp: mailed_in_def split: if_splits)
  next
    case (Take ex)
    with s1(1) show ?thesis using program_step.take [of ex ?g] by (auto split: prod.splits popped.splits)
  next
    case (Finish d c p)
    with s1(1) Cons.prems(3) show ?thesis
      using program_step.run [of d ?g w h c p asked] by (auto simp: mailed_in_def split: if_splits)
  next
    case Decide
    with s1(1) show ?thesis
      using program_step.decide [of ?g _ _ _ asked, OF _ harmless_robs] by (auto split: list.splits if_splits)
  qed
  with Cons.IH [OF s1(2)] Cons.prems(2,3) program_runs.step show ?case by (metis list.set_intros(2))
qed simp

text \<open>A host with one directory, and a worker without a network. The directory is listed.\<close>

definition sample_worker :: "(unit, unit) worker" where
  "sample_worker =
     \<lparr>wk_setting =
        \<lparr>se_server = (\<lambda>s r. (s, Inl \<lparr>se_transient = True, se_error = Other ''''\<rparr>)), se_base = '''', se_text_merge = False,
         se_merge = (\<lambda>a b c. None), se_content = \<lparr>cc_max_bytes = None, cc_max_age = None, cc_hydrates = False\<rparr>,
         se_io = \<lparr>fi_stage = True, fi_rename = True, fi_sidecar = Written\<rparr>, se_now = 0, se_upload_id = '''',
         se_meanwhile = (\<lambda>e. e)\<rparr>,
      wk_net = False, wk_dec = (\<lambda>_. None), wk_enc = (\<lambda>_. ()),
      wk_pins_io = \<lparr>io_mkdir = True, io_write = True, io_rename = True, io_stamp = (0, 0)\<rparr>, wk_lock = None, wk_disk = True,
      wk_open_pinned = Newest, wk_is_metered = None, wk_ignore = [], wk_revalidate = 30, wk_push_floor = 5,
      wk_invalidate_after = -1, wk_inner = (\<lambda>n off len. Inr []), wk_whole = (\<lambda>n. Inr []), wk_partial = []\<rparr>"

definition host_of :: "state_db \<Rightarrow> cache_dir \<Rightarrow> (unit, unit) host" where
  "host_of db d =
     \<lparr>ho_engine = \<lparr>en_dav = \<lparr>dv_server = (), dv_reports = []\<rparr>, en_db = db, en_content = content_new d, en_notes = [],
        en_epoch = 0, en_activity = activity_new\<rparr>,
      ho_pins = (NoFile, empty_cache), ho_scratch = [], ho_inbox = [], ho_metered = None\<rparr>"

definition listed_db :: state_db where
  "listed_db = init_schema\<lparr>db_nodes := [(1, (new_node 1 [] [] True)\<lparr>nd_children_loaded := True\<rparr>), (2, new_node 1 ''f'' ''f'' False)]\<rparr>"

definition listed_host :: "(unit, unit) host" where
  "listed_host = host_of listed_db \<lparr>cd_blobs = [], cd_etags = [], cd_pins = [], cd_temps = []\<rparr>"

definition listing_asked :: "request_id \<Rightarrow> intent" where
  "listing_asked t = (if t = RequestId 1 then Enumerate else Publish)"

abbreviation root_job :: "job \<Rightarrow> dispatched" where
  "root_job j \<equiv> \<lparr>di_object = ObjectId 1, di_job = j, di_deliver = ToFlow\<rparr>"

definition root_facts :: node_facts where
  "root_facts = default_node\<lparr>nf_id := ObjectId 1, nf_found := True, nf_parent := ObjectId 1, nf_dir := True, nf_writable := True,
     nf_children_loaded := True\<rparr>"

definition root_row :: node where
  "root_row = (new_node 1 [] [] True)\<lparr>nd_children_loaded := True\<rparr>"

definition listing_moves :: "move list" where
  "listing_moves =
     [Submit (RequestMessage \<lparr>rq_id = RequestId 1, rq_object = ObjectId 1, rq_intent = Enumerate\<rparr>), Decide, Take DbRead,
      Finish (root_job (ReadNode (ObjectId 1))) (Node root_facts) (PayloadNode 1 root_row), Decide, Take DbRead,
      Finish (root_job (ReadChildren (ObjectId 1))) Listed (PayloadEntries [(2, new_node 1 ''f'' ''f'' False)]), Decide]"

definition listing_run :: "(unit, unit) program" where
  "listing_run = \<lparr>pg_substrate = the (plays listing_asked listing_moves (substrate_new True None)), pg_host = listed_host\<rparr>"

lemma listing_plays:
  "map_option (\<lambda>s. de_answers (sb_decider s)) (plays listing_asked listing_moves (substrate_new True None)) =
   Some [\<lparr>an_requests = [RequestId 1], an_outcome = Ok, an_payload = PayloadEntries [(2, new_node 1 ''f'' ''f'' False)]\<rparr>]"
  by code_simp

lemma listing_work:
  "work sample_worker (root_job (ReadNode (ObjectId 1))) listed_host = Some (listed_host, Node root_facts, PayloadNode 1 root_row)"
  "work sample_worker (root_job (ReadChildren (ObjectId 1))) listed_host =
     Some (listed_host, Listed, PayloadEntries [(2, new_node 1 ''f'' ''f'' False)])"
proof -
  have quiet: "stale_copy_ok sample_worker n h = (h, False)" for n h
    by (simp add: stale_copy_ok_def sample_worker_def)
  have fields: "wk_ignore sample_worker = []" "wk_revalidate sample_worker = 30" "wk_push_floor sample_worker = 5"
    "wk_invalidate_after sample_worker = -1" "now_secs (wk_setting sample_worker) = 0"
    by (simp_all add: sample_worker_def now_secs_def)
  have row: "bt_get (db_nodes (host_db listed_host)) 1 = Some root_row"
    by (simp add: host_db_def listed_host_def host_of_def listed_db_def init_schema_def root_row_def)
  show "work sample_worker (root_job (ReadNode (ObjectId 1))) listed_host = Some (listed_host, Node root_facts, PayloadNode 1 root_row)"
    using row
    by (simp add: work_def read_node_def present_def facts_for_def quiet shown_def inode_of_def object_of_def root_facts_def
        root_row_def new_node_def default_node_def default_object_def is_ignored_def node_row_is_writable_def is_writable_def
        is_cached_def children_loaded_def dir_needs_reload_def fields)
  show "work sample_worker (root_job (ReadChildren (ObjectId 1))) listed_host =
     Some (listed_host, Listed, PayloadEntries [(2, new_node 1 ''f'' ''f'' False)])"
    by (simp add: work_def inode_of_def children_of_def child_rows_def host_db_def listed_host_def host_of_def listed_db_def
        init_schema_def root_inode_def new_node_def)
qed

lemma listing_runs: "program_runs listing_asked listing_run"
proof -
  obtain s where s: "plays listing_asked listing_moves (substrate_new True None) = Some s"
    using listing_plays by (cases "plays listing_asked listing_moves (substrate_new True None)") auto
  have "program_runs listing_asked \<lparr>pg_substrate = s, pg_host = listed_host\<rparr>"
    by (rule program_follows [where w = sample_worker, OF s program_runs.start]) (auto simp: listing_moves_def listing_work)
  with s show ?thesis by (simp add: listing_run_def)
qed

lemma jobs_answer_as_declared_witness:
  "answer_fits (ReadChildren (ObjectId 1)) Listed (PayloadEntries [(2, new_node 1 ''f'' ''f'' False)])"
  using jobs_answer_as_declared [OF listing_work(2)] by simp



end
