(* ===== verification/Core_Files.thy ===== *)
theory Core_Files
  imports Core_Program
begin

text \<open>
  Files as their users see them. A request is served by its script and one worker, step after step;
  an open file then behaves like a sequence of bytes: what is written is read back, a hole reads as
  zeros, a truncation cuts. A file whose offline copy is out of date cannot be written at all.
\<close>

section \<open>One request\<close>

text \<open>The payload of the last step that produced one, as the deciding thread keeps it.\<close>

fun serve_flow :: "('s, 't) worker \<Rightarrow> nat \<Rightarrow> flow \<Rightarrow> flow_next \<Rightarrow> registry \<Rightarrow> ('s, 't) host \<Rightarrow> payload \<Rightarrow>
    (flow_next \<times> registry \<times> ('s, 't) host \<times> payload) option" where
  "serve_flow w 0 flow nxt reg h p = None"
| "serve_flow w (Suc k) flow nxt reg h p =
     (case nxt of
        Do job \<Rightarrow>
          (case run_job w (fl_object flow) job h of
             None \<Rightarrow> None
           | Some (h, c, p') \<Rightarrow>
               let reg = apply_to_registry reg job (fl_intent flow) c (nf_etag (ca_node (fl_carry flow)))
                   (nf_ignored (ca_node (fl_carry flow)))
               in (case advance flow c (registry_facts reg (fl_object flow)) of
                     (flow, nxt) \<Rightarrow> serve_flow w k flow nxt reg h (if p' = NoPayload then p else p')))
      | _ \<Rightarrow> Some (nxt, reg, h, p))"

definition serve :: "('s, 't) worker \<Rightarrow> object_id \<Rightarrow> intent \<Rightarrow> registry \<Rightarrow> ('s, 't) host \<Rightarrow>
    (flow_next \<times> registry \<times> ('s, 't) host \<times> payload) option" where
  "serve w obj i reg h =
     (case start obj i no_ticket (registry_facts reg obj) of (flow, nxt) \<Rightarrow> serve_flow w 8 flow nxt reg h NoPayload)"

lemma serve_flow_do:
  "run_job w (fl_object flow) job h = Some (h', c, p') \<Longrightarrow>
   reg' = apply_to_registry reg job (fl_intent flow) c (nf_etag (ca_node (fl_carry flow))) (nf_ignored (ca_node (fl_carry flow))) \<Longrightarrow>
   advance flow c (registry_facts reg' (fl_object flow)) = (flow', nxt') \<Longrightarrow>
   serve_flow w (Suc k) flow (Do job) reg h p = serve_flow w k flow' nxt' reg' h' (if p' = NoPayload then p else p')"
  by simp

lemma serve_flow_ends [simp]:
  "serve_flow w (Suc k) flow Done reg h p = Some (Done, reg, h, p)"
  "serve_flow w (Suc k) flow (Fail f) reg h p = Some (Fail f, reg, h, p)"
  by simp_all

declare serve_flow.simps [simp del]

section \<open>What a look at a row leaves alone\<close>

lemma inode_object [simp]: "object_of (inode_of obj) = obj"
  by (cases obj) (simp add: object_of_def inode_of_def)

definition same_but_caches :: "('s, 't) host \<Rightarrow> ('s, 't) host \<Rightarrow> bool" where
  "same_but_caches h h' \<longleftrightarrow> ho_engine h' = ho_engine h \<and> ho_scratch h' = ho_scratch h \<and> ho_inbox h' = ho_inbox h \<and>
     fst (ho_pins h') = fst (ho_pins h)"

lemma same_refl [simp]: "same_but_caches h h"
  by (simp add: same_but_caches_def)

lemma same_trans: "same_but_caches a b \<Longrightarrow> same_but_caches b c \<Longrightarrow> same_but_caches a c"
  by (simp add: same_but_caches_def)

lemma ask_pinned_same: "ask_pinned w path h = (h', r) \<Longrightarrow> same_but_caches h h'"
  by (auto simp: ask_pinned_def same_but_caches_def split: prod.splits)

lemma metered_same: "metered_get w h = (h', m) \<Longrightarrow> same_but_caches h h'"
  by (auto simp: metered_get_def same_but_caches_def Let_def split: option.splits if_splits)

lemma stale_copy_same: "stale_copy_ok w n h = (h', r) \<Longrightarrow> same_but_caches h h'"
  by (auto simp: stale_copy_ok_def split: if_splits prod.splits dest: ask_pinned_same metered_same intro: same_trans)

lemma facts_same: "facts_for w i n h = (h', f) \<Longrightarrow> same_but_caches h h'"
  by (auto simp: facts_for_def split: prod.splits dest: stale_copy_same)

lemma present_same: "present w i n h = (h', c, p) \<Longrightarrow> same_but_caches h h'"
  by (auto simp: present_def Let_def split: prod.splits dest: stale_copy_same facts_same intro: same_trans)

text \<open>Where the copy is not out of date, or never served, no right is withdrawn.\<close>

definition never_outdated :: "('s, 't) worker \<Rightarrow> node \<Rightarrow> ('s, 't) host \<Rightarrow> bool" where
  "never_outdated w n h \<longleftrightarrow> wk_open_pinned w = Newest \<or> \<not> is_stale n (host_content h)"

lemma never_outdated_same: "same_but_caches h h' \<Longrightarrow> never_outdated w n h' = never_outdated w n h"
  by (simp add: never_outdated_def same_but_caches_def host_content_def)

lemma is_stale_cong: "nd_file_id n = nd_file_id n' \<Longrightarrow> nd_etag n = nd_etag n' \<Longrightarrow> is_stale n st = is_stale n' st"
  by (simp add: is_stale_def split: option.split)

lemma not_outdated: "never_outdated w n h \<Longrightarrow> \<exists>h'. stale_copy_ok w n h = (h', False)"
proof -
  assume a: "never_outdated w n h"
  obtain h1 r where p: "ask_pinned w (nd_path n) h = (h1, r)" by fastforce
  from ask_pinned_same [OF p] have "host_content h1 = host_content h" by (simp add: same_but_caches_def host_content_def)
  with a p show ?thesis by (auto simp: never_outdated_def stale_copy_ok_def)
qed

lemma present_current:
  assumes "never_outdated w n h"
  shows "\<exists>h' f. present w i n h = (h', Node f, PayloadNode i (shown h False i n)) \<and> same_but_caches h h' \<and>
    nf_found f \<and> nf_dir f = nd_is_dir n \<and> nf_writable f = node_row_is_writable n \<and> nf_size f = nd_size (shown h False i n) \<and>
    nf_etag f = nd_etag n"
proof -
  obtain h1 where 1: "stale_copy_ok w n h = (h1, False)" using not_outdated [OF assms] by blast
  have s1: "same_but_caches h h1" by (rule stale_copy_same [OF 1])
  obtain h2 o2 where 2: "stale_copy_ok w (shown h1 False i n) h1 = (h2, o2)" by fastforce
  have sh: "shown h1 False i n = shown h False i n" using s1 by (simp add: shown_def same_but_caches_def)
  have "same_but_caches h h2" using same_trans [OF s1 stale_copy_same [OF 2]] .
  moreover have "nd_is_dir (shown h False i n) = nd_is_dir n" "nd_permissions (shown h False i n) = nd_permissions n"
    "nd_etag (shown h False i n) = nd_etag n"
    by (simp_all add: shown_def Let_def split: option.split)
  ultimately show ?thesis using 1 2 sh by (simp add: present_def facts_for_def Let_def node_row_is_writable_def)
qed

section \<open>An open file\<close>

text \<open>A writable file with a row, a buffer in the registry and the bytes of the buffer on disk.\<close>

definition opened :: "('s, 't) worker \<Rightarrow> object_id \<Rightarrow> registry \<Rightarrow> ('s, 't) host \<Rightarrow> node \<Rightarrow> bytes \<Rightarrow> bool" where
  "opened w obj reg h n bs \<longleftrightarrow>
     node_by_inode (host_db h) (inode_of obj) = Some n \<and> \<not> nd_is_dir n \<and> node_row_is_writable n \<and> never_outdated w n h \<and>
     hm_get reg obj \<noteq> None \<and> buffer_of h obj = Some bs"

text \<open>What other objects have: their buffers, and the bytes that wait for them.\<close>

definition same_elsewhere :: "object_id \<Rightarrow> ('s, 't) host \<Rightarrow> ('s, 't) host \<Rightarrow> bool" where
  "same_elsewhere obj h h' \<longleftrightarrow>
     (\<forall>x. x \<noteq> obj \<longrightarrow> buffer_of h' x = buffer_of h x \<and> hm_get (ho_inbox h') x = hm_get (ho_inbox h) x)"

lemma opened_same: "same_but_caches h h' \<Longrightarrow> opened w obj reg h' n bs = opened w obj reg h n bs"
  using never_outdated_same [of h h' w n] by (simp add: opened_def same_but_caches_def host_db_def)

lemma elsewhere_same: "same_but_caches h h' \<Longrightarrow> same_elsewhere obj h h'"
  by (simp add: same_elsewhere_def same_but_caches_def)

lemma elsewhere_trans: "same_elsewhere obj a b \<Longrightarrow> same_elsewhere obj b c \<Longrightarrow> same_elsewhere obj a c"
  by (simp add: same_elsewhere_def)

lemma facts_open: "fa_buffer_open (registry_facts reg obj) \<longleftrightarrow> hm_get reg obj \<noteq> None"
  by (simp add: registry_facts_def default_facts_def split: option.split)

lemma opened_looked_at:
  assumes "opened w obj reg h n bs"
  obtains h' f where "run_job w holder (ReadNode obj) h = Some (h', Node f, PayloadNode (inode_of obj) (n\<lparr>nd_size := of_nat (length bs)\<rparr>))"
    and "same_but_caches h h'" and "nf_found f" and "\<not> nf_dir f" and "nf_writable f"
proof -
  have "never_outdated w n h" using assms by (simp add: opened_def)
  from present_current [OF this, of "inode_of obj"] obtain h' f where
    p: "present w (inode_of obj) n h = (h', Node f, PayloadNode (inode_of obj) (shown h False (inode_of obj) n))"
    and f: "same_but_caches h h'" "nf_found f" "nf_dir f = nd_is_dir n" "nf_writable f = node_row_is_writable n" by blast
  have "shown h False (inode_of obj) n = n\<lparr>nd_size := of_nat (length bs)\<rparr>"
    using assms by (simp add: opened_def shown_def Let_def)
  with p f assms that show thesis by (auto simp: read_node_def opened_def)
qed

lemma mark_dirty_get [simp]: "hm_get (mark_dirty reg obj) obj \<noteq> None \<longleftrightarrow> hm_get reg obj \<noteq> None"
  by (auto simp: mark_dirty_def store_simps split: option.splits)

lemma opened_dirty [simp]: "opened w obj (mark_dirty reg obj) h n bs = opened w obj reg h n bs"
  by (simp only: opened_def mark_dirty_get)

lemma put_buffer_fields [simp]:
  "ho_engine (put_buffer_file obj bs h) = ho_engine h" "ho_inbox (put_buffer_file obj bs h) = ho_inbox h"
  "host_db (put_buffer_file obj bs h) = host_db h" "host_content (put_buffer_file obj bs h) = host_content h"
  "never_outdated w n (put_buffer_file obj bs h) = never_outdated w n h"
  "hm_get (ho_scratch (put_buffer_file obj bs h)) f = (if f = BufferFile (object_raw obj) then Some bs else hm_get (ho_scratch h) f)"
  by (simp_all add: put_buffer_file_def host_db_def host_content_def never_outdated_def store_simps)

lemma object_raw_eq [simp]: "object_raw x = object_raw y \<longleftrightarrow> x = y"
  by (cases x; cases y) simp

lemma put_buffer_elsewhere: "same_elsewhere obj h (put_buffer_file obj bs h)"
  by (simp add: same_elsewhere_def)

lemma write_job:
  assumes "opened w obj reg h n bs" and "hm_get (ho_inbox h) obj = Some (data # rest)"
  obtains h' where "run_job w holder (WriteBuffer obj off len) h = Some (h', JobDone, PayloadWritten len)"
    and "opened w obj reg h' n (write_at (unat off) data bs)" and "hm_get (ho_inbox h') obj = Some rest" and "same_elsewhere obj h h'"
proof -
  let ?h1 = "h\<lparr>ho_inbox := hm_insert obj rest (ho_inbox h)\<rparr>"
  let ?h = "put_buffer_file obj (write_at (unat off) data bs) ?h1"
  have "run_job w holder (WriteBuffer obj off len) h = Some (?h, JobDone, PayloadWritten len)"
    using assms by (simp add: write_buffer_def take_inbox_def opened_def)
  moreover have "opened w obj reg ?h n (write_at (unat off) data bs)"
    using assms(1) by (simp add: opened_def host_db_def never_outdated_def host_content_def)
  moreover have "hm_get (ho_inbox ?h) obj = Some rest" by (simp add: store_simps)
  moreover have "same_elsewhere obj h ?h" by (simp add: same_elsewhere_def store_simps)
  ultimately show thesis using that by blast
qed

lemma serve_write:
  assumes o: "opened w obj reg h n bs" and i: "hm_get (ho_inbox h) obj = Some (data # rest)"
  obtains reg' h' where "serve w obj (Write off len) reg h = Some (Done, reg', h', PayloadWritten len)"
    and "opened w obj reg' h' n (write_at (unat off) data bs)" and "hm_get (ho_inbox h') obj = Some rest" and "same_elsewhere obj h h'"
proof -
  from opened_looked_at [OF o] obtain h1 f where
    r: "run_job w obj (ReadNode obj) h = Some (h1, Node f, PayloadNode (inode_of obj) (n\<lparr>nd_size := of_nat (length bs)\<rparr>))"
    and s: "same_but_caches h h1" and f: "nf_found f" "\<not> nf_dir f" "nf_writable f" by blast
  have o1: "opened w obj reg h1 n bs" using o opened_same [OF s] by blast
  have i1: "hm_get (ho_inbox h1) obj = Some (data # rest)" using i s by (simp add: same_but_caches_def)
  from write_job [OF o1 i1] obtain h2 where
    w: "run_job w obj (WriteBuffer obj off len) h1 = Some (h2, JobDone, PayloadWritten len)"
    and o2: "opened w obj reg h2 n (write_at (unat off) data bs)" and i2: "hm_get (ho_inbox h2) obj = Some rest"
    and e2: "same_elsewhere obj h1 h2" by blast
  have op: "fa_buffer_open (registry_facts reg obj)" using o by (simp add: facts_open opened_def)
  have "serve w obj (Write off len) reg h = Some (Done, mark_dirty reg obj, h2, PayloadWritten len)"
    using r w f op
    by (simp add: serve_def start_def start_step_def eval_nat_numeral serve_flow.simps apply_to_registry_def advance_def
        advance_step_def write_node_def write_bytes_def Let_def)
  moreover have "opened w obj (mark_dirty reg obj) h2 n (write_at (unat off) data bs)" using o2 by simp
  ultimately show thesis using that i2 elsewhere_trans [OF elsewhere_same [OF s] e2] by blast
qed

lemma serve_resize:
  assumes o: "opened w obj reg h n bs"
  obtains reg' h' p where "serve w obj (SetAttr (Some sz) None None) reg h = Some (Done, reg', h', p)"
    and "opened w obj reg' h' n (resize (unat sz) bs)" and "ho_inbox h' = ho_inbox h" and "same_elsewhere obj h h'"
proof -
  from opened_looked_at [OF o] obtain h1 f where
    r: "run_job w obj (ReadNode obj) h = Some (h1, Node f, PayloadNode (inode_of obj) (n\<lparr>nd_size := of_nat (length bs)\<rparr>))"
    and s: "same_but_caches h h1" and f: "nf_found f" "\<not> nf_dir f" "nf_writable f" by blast
  have o1: "opened w obj reg h1 n bs" using o opened_same [OF s] by blast
  let ?h2 = "put_buffer_file obj (resize (unat sz) bs) h1"
  have t: "run_job w obj (TruncateBuffer obj sz) h1 = Some (?h2, JobDone, NoPayload)"
    using o1 by (simp add: truncate_buffer_def opened_def job_done_def)
  have o2: "opened w obj reg ?h2 n (resize (unat sz) bs)" using o1 by (simp add: opened_def)
  from opened_looked_at [OF o2] obtain h3 f' p where
    r2: "run_job w obj (ReadNode obj) ?h2 = Some (h3, Node f', p)" "p \<noteq> NoPayload"
    and s2: "same_but_caches ?h2 h3" and f': "nf_found f'" by (metis payload.distinct(3))
  have op: "fa_buffer_open (registry_facts reg obj)" using o by (simp add: facts_open opened_def)
  have "serve w obj (SetAttr (Some sz) None None) reg h = Some (Done, mark_dirty reg obj, h3, p)"
    using r t r2 f f' op
    by (simp add: serve_def start_def start_step_def eval_nat_numeral serve_flow.simps apply_to_registry_def advance_def
        advance_step_def attr_node_def attr_truncate_def attr_exec_or_final_def attr_exec_def Let_def)
  moreover have "opened w obj (mark_dirty reg obj) h3 n (resize (unat sz) bs)" using o2 opened_same [OF s2] by simp
  moreover have "ho_inbox h3 = ho_inbox h" using s s2 by (simp add: same_but_caches_def)
  moreover have "same_elsewhere obj h h3"
    using elsewhere_trans [OF elsewhere_same [OF s] elsewhere_trans [OF put_buffer_elsewhere elsewhere_same [OF s2]]] .
  ultimately show thesis using that by blast
qed

lemma serve_read:
  assumes o: "opened w obj reg h n bs"
  obtains h' where "serve w obj (Fetch off len) reg h =
      Some (Done, reg, h', PayloadBytes (read_range_from_scratch bs (unat off) (unat len)))"
    and "same_but_caches h h'"
proof -
  from opened_looked_at [OF o] obtain h1 f where
    r: "run_job w obj (ReadNode obj) h = Some (h1, Node f, PayloadNode (inode_of obj) (n\<lparr>nd_size := of_nat (length bs)\<rparr>))"
    and s: "same_but_caches h h1" and f: "nf_found f" "\<not> nf_dir f" by blast
  have "buffer_of h1 obj = Some bs" using o opened_same [OF s, of w obj reg n bs] by (simp add: opened_def)
  then have b: "run_job w obj (ReadBuffer obj off len) h1 =
      Some (h1, Bytes, PayloadBytes (read_range_from_scratch bs (unat off) (unat len)))"
    by (simp add: read_buffer_def)
  have op: "fa_buffer_open (registry_facts reg obj)" using o by (simp add: facts_open opened_def)
  have "serve w obj (Fetch off len) reg h = Some (Done, reg, h1, PayloadBytes (read_range_from_scratch bs (unat off) (unat len)))"
    using r b f op
    by (simp add: serve_def start_def start_step_def eval_nat_numeral serve_flow.simps apply_to_registry_def advance_def
        advance_step_def fetch_node_def fetch_source_def Let_def)
  with s that show thesis by blast
qed

lemma serve_stat:
  assumes o: "opened w obj reg h n bs"
  obtains h' where "serve w obj Stat reg h =
      Some (Done, reg, h', PayloadNode (inode_of obj) (n\<lparr>nd_size := of_nat (length bs)\<rparr>))" and "same_but_caches h h'"
proof -
  from opened_looked_at [OF o] obtain h1 f where
    r: "run_job w obj (ReadNode obj) h = Some (h1, Node f, PayloadNode (inode_of obj) (n\<lparr>nd_size := of_nat (length bs)\<rparr>))"
    and s: "same_but_caches h h1" and f: "nf_found f" by blast
  have "serve w obj Stat reg h = Some (Done, reg, h1, PayloadNode (inode_of obj) (n\<lparr>nd_size := of_nat (length bs)\<rparr>))"
    using r f
    by (simp add: serve_def start_def start_step_def eval_nat_numeral serve_flow.simps apply_to_registry_def advance_def
        advance_step_def stat_node_def Let_def)
  with s that show thesis by blast
qed

section \<open>A session\<close>

datatype file_op = FileWrite u64 bytes | FileResize u64

text \<open>What an operation does to a file, and the request it is.\<close>

fun file_apply :: "file_op \<Rightarrow> bytes \<Rightarrow> bytes" where
  "file_apply (FileWrite off data) bs = write_at (unat off) data bs"
| "file_apply (FileResize sz) bs = resize (unat sz) bs"

fun file_intent :: "file_op \<Rightarrow> intent" where
  "file_intent (FileWrite off data) = Write off (of_nat (length data))"
| "file_intent (FileResize sz) = SetAttr (Some sz) None None"

fun file_bytes :: "file_op \<Rightarrow> bytes list" where
  "file_bytes (FileWrite off data) = [data]"
| "file_bytes (FileResize sz) = []"

fun session :: "('s, 't) worker \<Rightarrow> object_id \<Rightarrow> file_op list \<Rightarrow> registry \<Rightarrow> ('s, 't) host \<Rightarrow> (registry \<times> ('s, 't) host) option" where
  "session w obj [] reg h = Some (reg, h)"
| "session w obj (op # ops) reg h =
     (case serve w obj (file_intent op) reg h of
        Some (Done, reg, h, p) \<Rightarrow> session w obj ops reg h
      | _ \<Rightarrow> None)"

lemma session_opened:
  assumes "opened w obj reg h n bs" and "hm_get (ho_inbox h) obj = Some (concat (map file_bytes ops) @ rest)"
  shows "\<exists>reg' h'. session w obj ops reg h = Some (reg', h') \<and> opened w obj reg' h' n (fold file_apply ops bs) \<and>
    hm_get (ho_inbox h') obj = Some rest \<and> same_elsewhere obj h h'"
  using assms
proof (induction ops arbitrary: reg h bs)
  case Nil
  then show ?case by (simp add: same_elsewhere_def)
next
  case (Cons op ops)
  obtain reg1 h1 p where s: "serve w obj (file_intent op) reg h = Some (Done, reg1, h1, p)"
    and o: "opened w obj reg1 h1 n (file_apply op bs)" and i: "hm_get (ho_inbox h1) obj = Some (concat (map file_bytes ops) @ rest)"
    and e: "same_elsewhere obj h h1"
  proof (cases op)
    case (FileWrite off data)
    with Cons.prems(2) have "hm_get (ho_inbox h) obj = Some (data # concat (map file_bytes ops) @ rest)" by simp
    from serve_write [OF Cons.prems(1) this] show thesis using that FileWrite by (metis file_apply.simps(1) file_intent.simps(1))
  next
    case (FileResize sz)
    from serve_resize [OF Cons.prems(1), of sz] show thesis
      using that FileResize Cons.prems(2) by (metis file_apply.simps(2) file_intent.simps(2) file_bytes.simps(2) append_Nil list.simps(9) concat.simps(2))
  qed
  from Cons.IH [OF o i] obtain reg' h' where "session w obj ops reg1 h1 = Some (reg', h')"
    "opened w obj reg' h' n (fold file_apply ops (file_apply op bs))" "hm_get (ho_inbox h') obj = Some rest"
    "same_elsewhere obj h1 h'" by blast
  with s elsewhere_trans [OF e] show ?case by simp
qed

section \<open>The first write\<close>

text \<open>
  A file nobody has open yet: it has a row and no buffer in the registry. \<open>left\<close> is what lies in the
  scratch directory under its number: nothing, as a rule.
\<close>

definition closed :: "('s, 't) worker \<Rightarrow> object_id \<Rightarrow> registry \<Rightarrow> ('s, 't) host \<Rightarrow> node \<Rightarrow> bytes option \<Rightarrow> bool" where
  "closed w obj reg h n left \<longleftrightarrow>
     node_by_inode (host_db h) (inode_of obj) = Some n \<and> \<not> nd_is_dir n \<and> node_row_is_writable n \<and> never_outdated w n h \<and>
     hm_get reg obj = None \<and> buffer_of h obj = left"

text \<open>The bytes an edit starts from: none for an empty file, else all of them, or the failure to get them.\<close>

definition initial_bytes :: "('s, 't) worker \<Rightarrow> node \<Rightarrow> ('s, 't) host \<Rightarrow> core_error + bytes" where
  "initial_bytes w n h =
     (if \<not> wk_disk w then Inl (IoError ''create'')
      else if nd_size n = 0 then Inr []
      else snd (stream_to (se_content (wk_setting w)) (se_io (wk_setting w)) (se_now (wk_setting w)) n (wk_whole w n) (host_content h)))"

definition edited :: "('s, 't) worker \<Rightarrow> node \<Rightarrow> buffer" where
  "edited w n =
     \<lparr>bf_dirty = True, bf_base_etag = nd_etag n, bf_pending_mtime = None, bf_ignored = is_ignored (nd_name n) (wk_ignore w)\<rparr>"

lemma closed_looked_at:
  assumes "closed w obj reg h n left"
  obtains h' f p where "run_job w holder (ReadNode obj) h = Some (h', Node f, p)" and "same_but_caches h h'" and "nf_found f"
    and "\<not> nf_dir f" and "nf_writable f" and "nf_etag f = nd_etag n" and "nf_ignored f = is_ignored (nd_name n) (wk_ignore w)"
    and "nf_size f = (case left of None \<Rightarrow> nd_size n | Some bs \<Rightarrow> of_nat (length bs))" and "p \<noteq> NoPayload"
proof -
  have "never_outdated w n h" using assms by (simp add: closed_def)
  from present_current [OF this, of "inode_of obj"] obtain h' f where
    p: "present w (inode_of obj) n h = (h', Node f, PayloadNode (inode_of obj) (shown h False (inode_of obj) n))"
    and f: "same_but_caches h h'" "nf_found f" "nf_dir f = nd_is_dir n" "nf_writable f = node_row_is_writable n"
      "nf_size f = nd_size (shown h False (inode_of obj) n)" "nf_etag f = nd_etag n" by blast
  have name: "nd_name (shown h o' i n) = nd_name n" for h :: "('a, 'b) host" and o' i
    by (simp add: shown_def Let_def split: option.split)
  have "nf_ignored f = is_ignored (nd_name n) (wk_ignore w)"
    using p name by (auto simp: present_def facts_for_def Let_def split: prod.splits)
  moreover have "nd_size (shown h False (inode_of obj) n) = (case left of None \<Rightarrow> nd_size n | Some bs \<Rightarrow> of_nat (length bs))"
    using assms by (auto simp: closed_def shown_def Let_def split: option.split)
  ultimately show thesis using p f assms that by (auto simp: read_node_def closed_def)
qed

text \<open>The job that prepares the buffer, and what it leaves.\<close>

definition preparing :: "object_id \<Rightarrow> u64 \<Rightarrow> job" where
  "preparing obj sz = (if sz > 0 then HydrateBuffer obj else CreateBuffer obj)"

lemma prepare_job:
  assumes row: "node_by_inode (host_db h) (inode_of obj) = Some n" and sz: "nd_size n = sz"
  shows "case initial_bytes w n h of
      Inr bs \<Rightarrow> \<exists>h'. run_job w holder (preparing obj sz) h = Some (h', JobDone, NoPayload) \<and> buffer_of h' obj = Some bs \<and>
        ho_inbox h' = ho_inbox h
    | Inl x \<Rightarrow> \<exists>h'. run_job w holder (preparing obj sz) h = Some (h', JobFailed Io, NoPayload) \<and> ho_inbox h' = ho_inbox h \<and>
        host_db h' = host_db h \<and> buffer_of h' obj = (if wk_disk w then Some (wk_partial w) else buffer_of h obj)"
proof (cases "wk_disk w")
  case False
  with row sz show ?thesis
    by (auto simp: initial_bytes_def preparing_def hydrate_buffer_def create_buffer_def stream_into_def settle_as_def failed_def)
next
  case disk: True
  show ?thesis
  proof (cases "sz = 0")
    case True
    with disk row sz show ?thesis
      by (simp add: initial_bytes_def preparing_def create_buffer_def job_done_def)
  next
    case False
    obtain st r where s: "stream_to (se_content (wk_setting w)) (se_io (wk_setting w)) (se_now (wk_setting w)) n (wk_whole w n)
        (host_content h) = (st, r)" by fastforce
    have "0 < sz" using False by (simp add: word_gt_0)
    with s disk row sz False show ?thesis
      by (cases r) (auto simp: initial_bytes_def preparing_def hydrate_buffer_def stream_into_def settle_as_def failed_def
          set_content_def host_db_def store_simps)
  qed
qed

lemma initial_same: "same_but_caches h h' \<Longrightarrow> initial_bytes w n h' = initial_bytes w n h"
  by (simp add: initial_bytes_def same_but_caches_def host_content_def)

lemma row_same: "same_but_caches h h' \<Longrightarrow> host_db h' = host_db h"
  by (simp add: same_but_caches_def host_db_def)

lemma first_write_fails:
  assumes c: "closed w obj reg h n None" and x: "initial_bytes w n h = Inl x"
  obtains h' p where "serve w obj (Write off len) reg h = Some (Fail Io, reg, h', p)" and "ho_inbox h' = ho_inbox h"
    and "host_db h' = host_db h" and "buffer_of h' obj = (if wk_disk w then Some (wk_partial w) else None)"
proof -
  from closed_looked_at [OF c] obtain h1 f p where r: "run_job w obj (ReadNode obj) h = Some (h1, Node f, p)" and s: "same_but_caches h h1"
    and f: "nf_found f" "\<not> nf_dir f" "nf_writable f" "nf_size f = nd_size n" "p \<noteq> NoPayload" by (metis option.simps(4))
  have row: "node_by_inode (host_db h1) (inode_of obj) = Some n" using c row_same [OF s] by (simp add: closed_def)
  from prepare_job [OF row refl, of w obj] x initial_same [OF s, of w n] obtain h2 where
    j: "run_job w obj (preparing obj (nd_size n)) h1 = Some (h2, JobFailed Io, NoPayload)" and i: "ho_inbox h2 = ho_inbox h1"
    and d: "host_db h2 = host_db h1" and b: "buffer_of h2 obj = (if wk_disk w then Some (wk_partial w) else buffer_of h1 obj)" by auto
  have op: "\<not> fa_buffer_open (registry_facts reg obj)" using c by (simp add: facts_open closed_def)
  have "serve w obj (Write off len) reg h = Some (Fail Io, reg, h2, p)"
    using r f op j
    by (cases "nd_size n > 0")
      (simp_all add: serve_def start_def start_step_def eval_nat_numeral serve_flow.simps apply_to_registry_def advance_def
        advance_step_def advance_failed_def past_commit_def write_node_def preparing_def Let_def)
  with that i d row_same [OF s] s b c show thesis by (simp add: same_but_caches_def closed_def)
qed

lemma first_write_goes_through:
  assumes c: "closed w obj reg h n left" and i: "hm_get (ho_inbox h) obj = Some (data # rest)"
    and sz: "sz = (case left of None \<Rightarrow> nd_size n | Some b \<Rightarrow> of_nat (length b))"
    and bs: "\<And>h1. same_but_caches h h1 \<Longrightarrow> \<exists>h2. run_job w obj (preparing obj sz) h1 = Some (h2, JobDone, NoPayload) \<and>
        buffer_of h2 obj = Some bs \<and> ho_inbox h2 = ho_inbox h1"
  obtains reg' h' where "serve w obj (Write off len) reg h = Some (Done, reg', h', PayloadWritten len)"
    and "hm_get reg' obj = Some (edited w n)" and "buffer_of h' obj = Some (write_at (unat off) data bs)"
    and "hm_get (ho_inbox h') obj = Some rest"
proof -
  from closed_looked_at [OF c] obtain h1 f p where r: "run_job w obj (ReadNode obj) h = Some (h1, Node f, p)" and s: "same_but_caches h h1"
    and f: "nf_found f" "\<not> nf_dir f" "nf_writable f" "nf_size f = sz" "nf_etag f = nd_etag n"
      "nf_ignored f = is_ignored (nd_name n) (wk_ignore w)" by (metis sz)
  from bs [OF s] obtain h2 where j: "run_job w obj (preparing obj sz) h1 = Some (h2, JobDone, NoPayload)"
    and b: "buffer_of h2 obj = Some bs" and i1: "ho_inbox h2 = ho_inbox h1" by blast
  have i2: "hm_get (ho_inbox h2) obj = Some (data # rest)" using i i1 s by (simp add: same_but_caches_def)
  let ?h3 = "put_buffer_file obj (write_at (unat off) data bs) (h2\<lparr>ho_inbox := hm_insert obj rest (ho_inbox h2)\<rparr>)"
  have w: "run_job w obj (WriteBuffer obj off len) h2 = Some (?h3, JobDone, PayloadWritten len)"
    using b i2 by (simp add: write_buffer_def take_inbox_def)
  let ?fresh = "(buffer_new (nd_etag n))\<lparr>bf_ignored := is_ignored (nd_name n) (wk_ignore w), bf_dirty := False\<rparr>"
  let ?reg = "mark_dirty (registry_open reg obj ?fresh) obj"
  have op: "\<not> fa_buffer_open (registry_facts reg obj)" using c by (simp add: facts_open closed_def)
  have "serve w obj (Write off len) reg h = Some (Done, ?reg, ?h3, PayloadWritten len)"
    using r f op j w
    by (cases "sz > 0")
      (simp_all add: serve_def start_def start_step_def eval_nat_numeral serve_flow.simps apply_to_registry_def advance_def
        advance_step_def write_node_def write_bytes_def preparing_def Let_def)
  moreover have "hm_get ?reg obj = Some (edited w n)"
    by (simp add: mark_dirty_def registry_open_def store_simps edited_def buffer_new_def)
  moreover have "hm_get (ho_inbox ?h3) obj = Some rest" by (simp add: store_simps)
  ultimately show thesis using that by simp
qed

text \<open>
  What a first write that failed leaves behind. The file it had begun to fill stays in the scratch
  directory, and the bytes of the write stay in the inbox. The next write of the object is shown a
  file of the length of that remnant. When nothing had arrived, it starts from an empty buffer
  instead of the file, stores the bytes of the write that failed instead of its own, and is recorded
  as an edit of the version of the server, which an upload then replaces.
\<close>

lemma write_after_a_failed_write:
  assumes c: "closed w obj reg h n None" and x: "initial_bytes w n h = Inl x" and d: "wk_disk w" "wk_partial w = []"
    and i: "hm_get (ho_inbox h) obj = Some (data # rest)" and w': "wk_disk w'" "wk_open_pinned w' = Newest"
  obtains h1 p reg' h2 where "serve w obj (Write off len) reg h = Some (Fail Io, reg, h1, p)"
    and "serve w' obj (Write off' len') reg h1 = Some (Done, reg', h2, PayloadWritten len')"
    and "buffer_of h2 obj = Some (write_at (unat off') data [])" and "hm_get reg' obj = Some (edited w' n)"
proof -
  from first_write_fails [OF c x, of off len] d obtain h1 p where s: "serve w obj (Write off len) reg h = Some (Fail Io, reg, h1, p)"
    and i1: "ho_inbox h1 = ho_inbox h" and r1: "host_db h1 = host_db h" and b1: "buffer_of h1 obj = Some []" by metis
  have c1: "closed w' obj reg h1 n (Some [])"
    using c w' r1 b1 by (simp add: closed_def never_outdated_def)
  have i2: "hm_get (ho_inbox h1) obj = Some (data # rest)" using i i1 by simp
  have prep: "\<exists>h2. run_job w' obj (preparing obj 0) h = Some (h2, JobDone, NoPayload) \<and> buffer_of h2 obj = Some [] \<and>
      ho_inbox h2 = ho_inbox h" if "same_but_caches h1 h" for h
    using w' by (simp add: preparing_def create_buffer_def job_done_def)
  have sz: "0 = (case Some [] of None \<Rightarrow> nd_size n | Some b \<Rightarrow> of_nat (length (b :: bytes)))" by simp
  from first_write_goes_through [OF c1 i2 sz prep, where off = off' and len = len'] obtain reg' h2 where
    "serve w' obj (Write off' len') reg h1 = Some (Done, reg', h2, PayloadWritten len')"
    "hm_get reg' obj = Some (edited w' n)" "buffer_of h2 obj = Some (write_at (unat off') data [])" .
  from that [OF s this(1) this(3) this(2)] show thesis .
qed

section \<open>The theorems\<close>

lemma length_write_at: "data \<noteq> [] \<Longrightarrow> length (write_at off data bs) = max (off + length data) (length bs)"
  by (simp add: write_at_def resize_def)

text \<open>The byte at each place of what an operation leaves: written, kept, or a zero of a hole.\<close>

lemma write_at_nth:
  assumes "data \<noteq> []" and "i < length (write_at off data bs)"
  shows "write_at off data bs ! i =
    (if off \<le> i \<and> i < off + length data then data ! (i - off) else if i < length bs then bs ! i else 0)"
proof -
  have "min (length bs) off + (off - length bs) = off" by simp
  with assms show ?thesis by (auto simp: length_write_at) (auto simp: write_at_def resize_def nth_append)
qed

lemma resize_nth: "length (resize sz bs) = sz" "i < sz \<Longrightarrow> resize sz bs ! i = (if i < length bs then bs ! i else 0)"
  by (auto simp: resize_def nth_append)



text \<open>
  C6. A file whose offline copy is out of date is read-only while that copy is what is served. A
  look at it shows a row without the right to write, and a write or a truncation is refused before
  anything is prepared: no buffer, no row and no byte changes. Permissions that consist of nothing
  but rights to write are the exception.
\<close>

theorem outdated_copy_is_read_only:
  assumes row: "node_by_inode (host_db h) (inode_of obj) = Some n" "\<not> nd_is_dir n"
    and outdated: "stale_copy_ok w n h = (h1, True)"
    and perms: "nd_permissions n = [] \<or> \<not> set (nd_permissions n) \<subseteq> {CHR ''W'', CHR ''C'', CHR ''K''}"
  shows "\<exists>h' row'. serve w obj Stat reg h = Some (Done, reg, h', PayloadNode (inode_of obj) row') \<and> \<not> node_row_is_writable row' \<and>
    serve w obj (Write off len) reg h = Some (Fail NotWritable, reg, h', PayloadNode (inode_of obj) row') \<and>
    serve w obj (SetAttr (Some sz) mtime exec) reg h = Some (Fail NotWritable, reg, h', PayloadNode (inode_of obj) row') \<and>
    same_but_caches h h'"
proof -
  let ?row = "shown h1 True (inode_of obj) n"
  have "\<not> is_writable (withdraw_write (nd_permissions n)) False"
    using perms by (auto simp: is_writable_def withdraw_write_def filter_empty_conv)
  moreover have perm: "nd_permissions ?row = withdraw_write (nd_permissions n)" "nd_is_dir ?row = nd_is_dir n"
    by (simp_all add: shown_def Let_def split: option.split)
  ultimately have ro: "\<not> node_row_is_writable ?row" using row(2) by (simp add: node_row_is_writable_def)
  obtain h2 f where f: "facts_for w (inode_of obj) ?row h1 = (h2, f)" by fastforce
  then have ff: "nf_found f" "\<not> nf_dir f" "\<not> nf_writable f"
    using ro row(2) perm by (auto simp: facts_for_def split: prod.splits)
  have s: "same_but_caches h h2" using same_trans [OF stale_copy_same [OF outdated] facts_same [OF f]] .
  have r: "run_job w obj (ReadNode obj) h = Some (h2, Node f, PayloadNode (inode_of obj) ?row)"
    using row outdated f by (simp add: read_node_def present_def Let_def)
  note flow_defs = serve_def start_def start_step_def eval_nat_numeral serve_flow.simps apply_to_registry_def advance_def
    advance_step_def stat_node_def write_node_def attr_node_def Let_def
  have "serve w obj Stat reg h = Some (Done, reg, h2, PayloadNode (inode_of obj) ?row)"
    using r ff by (simp add: flow_defs)
  moreover have "serve w obj (Write off len) reg h = Some (Fail NotWritable, reg, h2, PayloadNode (inode_of obj) ?row)"
    using r ff by (simp add: flow_defs)
  moreover have "serve w obj (SetAttr (Some sz) mtime exec) reg h = Some (Fail NotWritable, reg, h2, PayloadNode (inode_of obj) ?row)"
    using r ff by (simp add: flow_defs)
  ultimately show ?thesis using ro s by blast
qed

section \<open>Witnesses\<close>

definition note_row :: node where
  "note_row = (new_node 1 ''n'' ''n'' False)\<lparr>nd_size := 3, nd_etag := ''e2'', nd_file_id := Some 7, nd_permissions := ''RGDNVW''\<rparr>"

definition note_db :: state_db where
  "note_db = init_schema\<lparr>db_nodes := [(1, new_node 1 [] [] True), (2, note_row)]\<rparr>"

definition note_dir :: cache_dir where
  "note_dir = \<lparr>cd_blobs = [(7, \<lparr>bl_bytes = [1, 2], bl_mtime = 0\<rparr>)], cd_etags = [(7, ''e1'')], cd_pins = [], cd_temps = []\<rparr>"

abbreviation note_host :: "(unit, unit) host" where
  "note_host \<equiv> host_of note_db note_dir"

lemma note_worker:
  "wk_open_pinned sample_worker = Newest" "wk_disk sample_worker" "wk_ignore sample_worker = []"
  "wk_whole sample_worker n = Inr []" "never_outdated sample_worker n h"
  by (simp_all add: sample_worker_def never_outdated_def)

lemma note_fields:
  "ho_inbox note_host = []" "ho_scratch note_host = []" "inode_of (ObjectId 2) = 2" "\<not> nd_is_dir note_row"
  "node_row_is_writable note_row" "bt_get (db_nodes (host_db note_host)) 2 = Some note_row"
  by (simp_all add: host_of_def inode_of_def note_row_def new_node_def node_row_is_writable_def is_writable_def host_db_def
      note_db_def)



text \<open>A pinned file the server has moved on from, served offline.\<close>

definition offline_worker :: "(unit, unit) worker" where
  "offline_worker = sample_worker\<lparr>wk_open_pinned := Offline,
     wk_dec := \<lambda>_. Some \<lparr>doc_version = 1, doc_pins = [\<lparr>en_path = ''n'', en_dir = False\<rparr>]\<rparr>\<rparr>"

lemma outdated_copy_is_read_only_witness:
  "\<exists>h' p. serve offline_worker (ObjectId 2) (Write 0 1) [] (note_host\<lparr>ho_pins := (PinsFile (0, 0) (), empty_cache)\<rparr>) =
     Some (Fail NotWritable, [], h', p)"
proof -
  let ?h = "note_host\<lparr>ho_pins := (PinsFile (0, 0) (), empty_cache)\<rparr>"
  have row: "node_by_inode (host_db ?h) (inode_of (ObjectId 2)) = Some note_row"
    using note_fields by (simp add: host_db_def)
  have pin: "\<exists>c. ask_pinned offline_worker ''n'' ?h = (?h\<lparr>ho_pins := (PinsFile (0, 0) (), c)\<rparr>, Inr True)"
    by (simp add: ask_pinned_def is_pinned_def with_map_def empty_cache_def offline_worker_def version_def bt_extend_def
        covers_def trim_slashes_def)
      (auto intro: exI [of _ False])
  then obtain c where pin: "ask_pinned offline_worker ''n'' ?h = (?h\<lparr>ho_pins := (PinsFile (0, 0) (), c)\<rparr>, Inr True)" by blast
  have "is_stale note_row (host_content ?h)"
    by (simp add: is_stale_def note_row_def host_content_def host_of_def content_new_def note_dir_def blob_is_fresh_def)
  then have "\<exists>h1. stale_copy_ok offline_worker note_row ?h = (h1, True)"
    using pin
    by (simp add: stale_copy_ok_def host_content_def metered_get_def Let_def note_row_def new_node_def host_of_def)
      (simp add: offline_worker_def)
  then obtain h1 where o: "stale_copy_ok offline_worker note_row ?h = (h1, True)" by blast
  have "nd_permissions note_row = [] \<or> \<not> set (nd_permissions note_row) \<subseteq> {CHR ''W'', CHR ''C'', CHR ''K''}"
    by (simp add: note_row_def)
  from outdated_copy_is_read_only [OF row note_fields(4) o this, of "[]" 0 1] show ?thesis by blast
qed

end
