(* ===== verification/Spec2Isabelle.thy ===== *)
theory Spec2Isabelle
  imports Fsm_Snapshot Fsm_Progress Fsm_Buffers Fsm_Effects
    Core_Activity Core_Ignore Core_Paths Core_Health Core_Pins Core_Storage Core_State_Steps Core_Content_Budget
    Mock_Conflicts Mock_Uploads Mock_Reads Core_Substrate_Runs Core_Config_Facts Core_Files
begin

text \<open>
  A verification library for wusel.
\<close>

end
